(* ===== verification/Prelude.thy ===== *)
theory Prelude
  imports "HOL-Library.Word"
begin

text \<open>
  Shared ground of the development: the machine integers of the target (a 32-bit
  little-endian Cortex-A9), the ways a C statement can end, and the lemmas about lists and
  words that several components use. The collections declared here gather the facts that
  component proofs pass to the simplifier as a group.
\<close>

unbundle bit_operations_syntax

section \<open>Machine integers\<close>

type_synonym u8 = "8 word"
type_synonym u16 = "16 word"
type_synonym u32 = "32 word"

text \<open>\<open>size_t\<close>, \<open>UBaseType_t\<close> and \<open>TickType_t\<close> are 32 bits wide on the target.\<close>

type_synonym size_t = u32

section \<open>Collections of facts\<close>

text \<open>
  \<open>fields\<close>: how an operation changes the fields of its state; \<open>keeps\<close>: operations that leave an
  invariant true; \<open>bounds\<close>: ranges of machine integers.
\<close>

named_theorems fields
named_theorems keeps
named_theorems bounds

section \<open>How a C statement ends\<close>

text \<open>
  Undefined behaviour of C is a value of the model: an access outside an object, through a
  null pointer, to an object already released, or a division by zero. A failed
  \<open>configASSERT\<close> stops the program and is recorded the same way.
\<close>

datatype fault = Out_of_bounds | Null_pointer | Use_after_free | Divide_by_zero | Assert_failed

text \<open>
  A statement that can leave its function early: it faults, it returns a result with the
  state at that moment, or control goes on with a new state.
\<close>

datatype ('s, 'r) ctl = Fault fault | Return 'r 's | Next 's

fun andthen :: "('s, 'r) ctl \<Rightarrow> ('s \<Rightarrow> ('s, 'r) ctl) \<Rightarrow> ('s, 'r) ctl" where
  "andthen (Fault e) f = Fault e"
| "andthen (Return r s) f = Return r s"
| "andthen (Next s) f = f s"

lemma andthen_Next_right [simp]: "andthen c Next = c"
  by (cases c) simp_all

lemma andthen_assoc: "andthen (andthen c f) g = andthen c (\<lambda>s. andthen (f s) g)"
  by (cases c) simp_all

lemma andthen_eq_Next: "andthen c f = Next t \<longleftrightarrow> (\<exists>s. c = Next s \<and> f s = Next t)"
  by (cases c) simp_all

text \<open>Every way a statement can end satisfies the given conditions; a fault never does.\<close>

fun ctl_all :: "('r \<Rightarrow> 's \<Rightarrow> bool) \<Rightarrow> ('s \<Rightarrow> bool) \<Rightarrow> ('s, 'r) ctl \<Rightarrow> bool" where
  "ctl_all R N (Fault e) \<longleftrightarrow> False"
| "ctl_all R N (Return r s) \<longleftrightarrow> R r s"
| "ctl_all R N (Next s) \<longleftrightarrow> N s"

lemma ctl_all_andthen:
  "ctl_all R M c \<Longrightarrow> (\<And>s. M s \<Longrightarrow> ctl_all R N (f s)) \<Longrightarrow> ctl_all R N (andthen c f)"
  by (cases c) simp_all

lemma ctl_all_mono:
  "ctl_all R N c \<Longrightarrow> (\<And>r s. R r s \<Longrightarrow> R' r s) \<Longrightarrow> (\<And>s. N s \<Longrightarrow> N' s) \<Longrightarrow> ctl_all R' N' c"
  by (cases c) simp_all

text \<open>A computation that faults or yields a value.\<close>

type_synonym 'a result = "fault + 'a"

fun bindr :: "'a result \<Rightarrow> ('a \<Rightarrow> 'b result) \<Rightarrow> 'b result" where
  "bindr (Inl e) f = Inl e"
| "bindr (Inr x) f = f x"

lemma bindr_eq_Inr [simp]: "bindr c f = Inr y \<longleftrightarrow> (\<exists>x. c = Inr x \<and> f x = Inr y)"
  by (cases c) simp_all

lemma bindr_assoc: "bindr (bindr c f) g = bindr c (\<lambda>x. bindr (f x) g)"
  by (cases c) simp_all

definition guard :: "bool \<Rightarrow> fault \<Rightarrow> unit result" where
  "guard P e = (if P then Inr () else Inl e)"

lemma guard_eq_Inr [simp]: "guard P e = Inr u \<longleftrightarrow> P"
  by (simp add: guard_def)

lemma guard_True [simp]: "guard True e = Inr ()"
  by (simp add: guard_def)

text \<open>
  A loop over a linked structure may not end, on a cyclic list for instance: a computation is
  then \<open>None\<close> when it runs forever, and \<open>Some\<close> of its result otherwise.
\<close>

type_synonym 'a run = "'a result option"

abbreviation ret :: "'a \<Rightarrow> 'a run" where
  "ret x \<equiv> Some (Inr x)"

abbreviation fails :: "fault \<Rightarrow> 'a run" where
  "fails e \<equiv> Some (Inl e)"

fun bindl :: "'a run \<Rightarrow> ('a \<Rightarrow> 'b run) \<Rightarrow> 'b run" where
  "bindl None f = None"
| "bindl (Some (Inl e)) f = Some (Inl e)"
| "bindl (Some (Inr x)) f = f x"

lemma bindl_eq_ret [simp]: "bindl c f = Some (Inr y) \<longleftrightarrow> (\<exists>x. c = Some (Inr x) \<and> f x = Some (Inr y))"
  by (cases "(c, f)" rule: bindl.cases) simp_all

lemma bindl_ret_right [simp]: "bindl c (\<lambda>x. Some (Inr x)) = c"
proof (cases c)
  case (Some r)
  then show ?thesis by (cases r) simp_all
qed simp

lemma bindl_assoc: "bindl (bindl c f) g = bindl c (\<lambda>x. bindl (f x) g)"
  by (cases "(c, f)" rule: bindl.cases) simp_all

text \<open>The computation ends without a fault in a result that satisfies \<open>Q\<close>.\<close>

definition runs :: "'a run \<Rightarrow> ('a \<Rightarrow> bool) \<Rightarrow> bool" where
  "runs c Q \<longleftrightarrow> (\<exists>x. c = Some (Inr x) \<and> Q x)"

lemma runs_ret [simp]: "runs (Some (Inr x)) Q \<longleftrightarrow> Q x"
  by (simp add: runs_def)

lemma runs_bindl: "runs c P \<Longrightarrow> (\<And>x. P x \<Longrightarrow> runs (f x) Q) \<Longrightarrow> runs (bindl c f) Q"
  by (auto simp: runs_def)

lemma runs_mono: "runs c P \<Longrightarrow> (\<And>x. P x \<Longrightarrow> Q x) \<Longrightarrow> runs c Q"
  by (auto simp: runs_def)

text \<open>Array reads and writes with their bounds.\<close>

definition rd :: "'a list \<Rightarrow> nat \<Rightarrow> 'a result" where
  "rd xs i = (if i < length xs then Inr (xs ! i) else Inl Out_of_bounds)"

definition wr :: "'a list \<Rightarrow> nat \<Rightarrow> 'a \<Rightarrow> 'a list result" where
  "wr xs i v = (if i < length xs then Inr (xs[i := v]) else Inl Out_of_bounds)"

lemma rd_eq_Inr [simp]: "rd xs i = Inr v \<longleftrightarrow> i < length xs \<and> v = xs ! i"
  by (auto simp: rd_def)

lemma wr_eq_Inr [simp]: "wr xs i v = Inr ys \<longleftrightarrow> i < length xs \<and> ys = xs[i := v]"
  by (auto simp: wr_def)

lemma rd_in_bounds [simp]: "i < length xs \<Longrightarrow> rd xs i = Inr (xs ! i)"
  by (simp add: rd_def)

lemma wr_in_bounds [simp]: "i < length xs \<Longrightarrow> wr xs i v = Inr (xs[i := v])"
  by (simp add: wr_def)

section \<open>Words\<close>

lemma unat_u8_less [simp]: "unat (b :: u8) < 256"
  by (rule order_less_le_trans [OF unsigned_less]) simp

lemma unat_u8_le [simp]: "unat (b :: u8) \<le> 255"
  using unat_u8_less [of b] by linarith

lemma unat_u8_le_256 [simp]: "unat (b :: u8) \<le> 256"
  using unat_u8_less [of b] by linarith

lemma unat_u16_less [simp]: "unat (b :: u16) < 65536"
  by (rule order_less_le_trans [OF unsigned_less]) simp

lemma unat_u32_less: "unat (b :: u32) < 4294967296"
  by (rule order_less_le_trans [OF unsigned_less]) simp

lemma u8_max [simp]: "\<not> 255 < (b :: u8)"
  by (simp add: word_less_nat_alt not_less)

lemma unat_widen [simp]:
  "unat (ucast (b :: u8) :: u32) = unat b"
  "unat (ucast (b :: u8) :: u16) = unat b"
  "unat (ucast (w :: u16) :: u32) = unat w"
  by (simp_all add: unsigned_ucast_eq take_bit_nat_eq_self_iff
      order_less_trans [OF unat_u8_less] order_less_trans [OF unat_u16_less])

lemma unat_of_nat_u32: "n < 4294967296 \<Longrightarrow> unat (of_nat n :: u32) = n"
  by (simp add: unat_of_nat)

lemma unat_of_nat_u16: "n < 65536 \<Longrightarrow> unat (of_nat n :: u16) = n"
  by (simp add: unat_of_nat)

lemma unat_of_nat_u8: "n < 256 \<Longrightarrow> unat (of_nat n :: u8) = n"
  by (simp add: unat_of_nat)

lemma bit_u8_out: "8 \<le> n \<Longrightarrow> \<not> bit (a :: u8) n"
  using bit_imp_le_length [of a n] by auto

text \<open>Big-endian composition, the byte order of the network formats.\<close>

definition be16 :: "u8 \<Rightarrow> u8 \<Rightarrow> u16" where
  "be16 h l = push_bit 8 (ucast h) OR ucast l"

definition be24 :: "u8 \<Rightarrow> u8 \<Rightarrow> u8 \<Rightarrow> u32" where
  "be24 a b c = push_bit 16 (ucast a) OR push_bit 8 (ucast b) OR ucast c"

definition be32 :: "u8 \<Rightarrow> u8 \<Rightarrow> u8 \<Rightarrow> u8 \<Rightarrow> u32" where
  "be32 a b c d = push_bit 24 (ucast a) OR push_bit 16 (ucast b) OR push_bit 8 (ucast c) OR ucast d"

definition bytes16 :: "u16 \<Rightarrow> u8 list" where
  "bytes16 w = [ucast (drop_bit 8 w), ucast w]"

definition bytes24 :: "u32 \<Rightarrow> u8 list" where
  "bytes24 w = [ucast (drop_bit 16 w), ucast (drop_bit 8 w), ucast w]"

definition bytes32 :: "u32 \<Rightarrow> u8 list" where
  "bytes32 w = [ucast (drop_bit 24 w), ucast (drop_bit 16 w), ucast (drop_bit 8 w), ucast w]"

lemma length_bytes [simp]:
  "length (bytes16 w) = 2" "length (bytes24 v) = 3" "length (bytes32 v) = 4"
  by (simp_all add: bytes16_def bytes24_def bytes32_def)

lemma be16_bytes16: "be16 (ucast (drop_bit 8 w)) (ucast w) = w"
  by (rule bit_word_eqI) (auto simp: be16_def bit_simps)

lemma be24_bytes24:
  assumes "take_bit 24 v = v"
  shows "be24 (ucast (drop_bit 16 v)) (ucast (drop_bit 8 v)) (ucast v) = v"
proof (rule bit_word_eqI)
  fix n assume "n < LENGTH(32)"
  have out: "24 \<le> n \<Longrightarrow> \<not> bit v n"
    using arg_cong [OF assms, of "\<lambda>w. bit w n"] by (simp add: bit_simps)
  consider "n < 8" | "8 \<le> n" "n < 16" | "16 \<le> n" "n < 24" | "24 \<le> n" by linarith
  then show "bit (be24 (ucast (drop_bit 16 v)) (ucast (drop_bit 8 v)) (ucast v)) n = bit v n"
    by cases (use out \<open>n < LENGTH(32)\<close> in \<open>auto simp: be24_def bit_simps\<close>)
qed

lemma be32_bytes32:
  "be32 (ucast (drop_bit 24 v)) (ucast (drop_bit 16 v)) (ucast (drop_bit 8 v)) (ucast v) = v"
proof (rule bit_word_eqI)
  fix n assume "n < LENGTH(32)"
  consider "n < 8" | "8 \<le> n" "n < 16" | "16 \<le> n" "n < 24" | "24 \<le> n" by linarith
  then show "bit (be32 (ucast (drop_bit 24 v)) (ucast (drop_bit 16 v)) (ucast (drop_bit 8 v))
      (ucast v)) n = bit v n"
    by cases (use \<open>n < LENGTH(32)\<close> in \<open>auto simp: be32_def bit_simps\<close>)
qed

end
