(* ===== verification/Asterix.thy ===== *)
theory Asterix
  imports Prelude
begin

text \<open>
  The ASTERIX category 240 parser (\<open>src/src/asterix.h\<close>, \<open>src/src/asterix_parse.c\<close>).
  The structures of the header are records; the input object is the list of its bytes and
  the read pointer \<open>p\<close> is an offset into it. A read outside the object is the fault
  \<open>Out_of_bounds\<close>. Each field specification (FRN) of the parser is one definition, in the
  order of the code, and \<open>parse_cat240\<close> runs them in that order. \<open>remaining\<close> is a 32-bit
  \<open>size_t\<close> and wraps around as it does in C.
\<close>

unbundle bit_operations_syntax

section \<open>The message structures\<close>

record cat240_data_source_identifier =
  sac :: u8
  sic :: u8

record cat240_video_summary =
  summary_rep :: u8
  summary_text :: "u8 list"

record cat240_video_header =
  start_az :: u16
  end_az :: u16
  start_rg :: u32
  cell_dur :: u32

record cat240_resolution_indicator =
  compression :: "1 word"
  reserved :: "7 word"
  resolution :: u8

record cat240_counters =
  nb_vb :: u16
  nb_cells :: u32

datatype cat240_block_type = VIDEO_BLOCK_LOW | VIDEO_BLOCK_MEDIUM | VIDEO_BLOCK_HIGH

text \<open>The pointer \<open>data\<close> of a video block is an offset into the input, or null.\<close>

record cat240_video_block =
  block_type :: cat240_block_type
  block_rep :: u8
  block_data :: "nat option"
  data_bytes :: size_t

record cat240_message =
  data_source :: cat240_data_source_identifier
  message_type :: u8
  has_video_header :: bool
  msg_index :: u32
  has_summary :: bool
  summary :: cat240_video_summary
  has_header_nano :: bool
  header_nano :: cat240_video_header
  has_header_femto :: bool
  header_femto :: cat240_video_header
  has_resolution :: bool
  resolution_ind :: cat240_resolution_indicator
  has_counters :: bool
  counters :: cat240_counters
  has_video_block :: bool
  video_block :: cat240_video_block
  has_time :: bool
  time_of_day :: u32
  check_sum :: u8
  has_re :: bool
  re_len :: size_t
  has_sp :: bool
  sp_len :: size_t

text \<open>\<open>memset(msg, 0, sizeof *msg)\<close>.\<close>

definition zero_header :: cat240_video_header where
  "zero_header = \<lparr>start_az = 0, end_az = 0, start_rg = 0, cell_dur = 0\<rparr>"

definition zero_message :: cat240_message where
  "zero_message =
    \<lparr>data_source = \<lparr>sac = 0, sic = 0\<rparr>, message_type = 0,
     has_video_header = False, msg_index = 0,
     has_summary = False, summary = \<lparr>summary_rep = 0, summary_text = replicate 256 0\<rparr>,
     has_header_nano = False, header_nano = zero_header,
     has_header_femto = False, header_femto = zero_header,
     has_resolution = False,
     resolution_ind = \<lparr>compression = 0, reserved = 0, resolution = 0\<rparr>,
     has_counters = False, counters = \<lparr>nb_vb = 0, nb_cells = 0\<rparr>,
     has_video_block = False,
     video_block = \<lparr>block_type = VIDEO_BLOCK_LOW, block_rep = 0, block_data = None,
       data_bytes = 0\<rparr>,
     has_time = False, time_of_day = 0, check_sum = 0,
     has_re = False, re_len = 0, has_sp = False, sp_len = 0\<rparr>"

section \<open>Byte order and the read functions\<close>

text \<open>How the machine lays an integer out in memory.\<close>

datatype endian = Little | Big

fun store16 :: "endian \<Rightarrow> u16 \<Rightarrow> u8 list" where
  "store16 Little w = [ucast w, ucast (drop_bit 8 w)]"
| "store16 Big w = [ucast (drop_bit 8 w), ucast w]"

fun load16 :: "endian \<Rightarrow> u8 \<Rightarrow> u8 \<Rightarrow> u16" where
  "load16 Little b0 b1 = be16 b1 b0"
| "load16 Big b0 b1 = be16 b0 b1"

fun load32 :: "endian \<Rightarrow> u8 \<Rightarrow> u8 \<Rightarrow> u8 \<Rightarrow> u8 \<Rightarrow> u32" where
  "load32 Little b0 b1 b2 b3 = be32 b3 b2 b1 b0"
| "load32 Big b0 b1 b2 b3 = be32 b0 b1 b2 b3"

definition is_little_endian :: "endian \<Rightarrow> bool" where
  "is_little_endian e \<longleftrightarrow> hd (store16 e 1) = 1"

definition ntohs :: "endian \<Rightarrow> u16 \<Rightarrow> u16" where
  "ntohs e netshort =
    (if is_little_endian e then drop_bit 8 netshort OR push_bit 8 netshort else netshort)"

definition ntohl :: "endian \<Rightarrow> u32 \<Rightarrow> u32" where
  "ntohl e netlong =
    (if is_little_endian e then
       (drop_bit 24 netlong AND 0x000000FF) OR (drop_bit 8 netlong AND 0x0000FF00) OR
       (push_bit 8 netlong AND 0x00FF0000) OR (push_bit 24 netlong AND 0xFF000000)
     else netlong)"

text \<open>The parser's local state: the read pointer, the bytes remaining, the message.\<close>

record parse_state =
  pos :: nat
  remaining :: size_t
  msg :: cat240_message

type_synonym parse = "(parse_state, bool) ctl"

definition read_u8 :: "u8 list \<Rightarrow> parse_state \<Rightarrow> (u8 \<Rightarrow> parse_state \<Rightarrow> parse) \<Rightarrow> parse" where
  "read_u8 buf s k =
    (if pos s < length buf then k (buf ! pos s) (s\<lparr>pos := pos s + 1\<rparr>)
     else Fault Out_of_bounds)"

definition read_u16 ::
    "endian \<Rightarrow> u8 list \<Rightarrow> parse_state \<Rightarrow> (u16 \<Rightarrow> parse_state \<Rightarrow> parse) \<Rightarrow> parse" where
  "read_u16 e buf s k =
    (if pos s + 2 \<le> length buf then
       k (ntohs e (load16 e (buf ! pos s) (buf ! (pos s + 1)))) (s\<lparr>pos := pos s + 2\<rparr>)
     else Fault Out_of_bounds)"

definition read_u32 ::
    "endian \<Rightarrow> u8 list \<Rightarrow> parse_state \<Rightarrow> (u32 \<Rightarrow> parse_state \<Rightarrow> parse) \<Rightarrow> parse" where
  "read_u32 e buf s k =
    (if pos s + 4 \<le> length buf then
       k (ntohl e (load32 e (buf ! pos s) (buf ! (pos s + 1)) (buf ! (pos s + 2))
           (buf ! (pos s + 3))))
         (s\<lparr>pos := pos s + 4\<rparr>)
     else Fault Out_of_bounds)"

definition read_u24 :: "u8 list \<Rightarrow> parse_state \<Rightarrow> (u32 \<Rightarrow> parse_state \<Rightarrow> parse) \<Rightarrow> parse" where
  "read_u24 buf s k =
    (if pos s + 3 \<le> length buf then
       k (push_bit 16 (ucast (buf ! pos s)) OR push_bit 8 (ucast (buf ! (pos s + 1))) OR
          ucast (buf ! (pos s + 2)))
         (s\<lparr>pos := pos s + 3\<rparr>)
     else Fault Out_of_bounds)"

text \<open>\<open>memcpy\<close> of \<open>n\<close> bytes from the read pointer, which the caller then advances.\<close>

definition copy_bytes ::
    "u8 list \<Rightarrow> nat \<Rightarrow> parse_state \<Rightarrow> (u8 list \<Rightarrow> parse_state \<Rightarrow> parse) \<Rightarrow> parse" where
  "copy_bytes buf n s k =
    (if pos s + n \<le> length buf then k (take n (drop (pos s) buf)) s
     else Fault Out_of_bounds)"

section \<open>The first byte of the field specification: FRN 1 to 7\<close>

text \<open>FRN1 (I240/010): data source, mandatory.\<close>

definition frn1 :: "u8 list \<Rightarrow> u8 \<Rightarrow> parse_state \<Rightarrow> parse" where
  "frn1 buf fspec1 s =
    (if fspec1 AND 0x80 \<noteq> 0 then
       if remaining s < 2 then Return False s
       else read_u8 buf s (\<lambda>a s.
            read_u8 buf (msg_update (data_source_update (sac_update (\<lambda>_. a))) s) (\<lambda>b s.
            Next ((msg_update (data_source_update (sic_update (\<lambda>_. b))) s)
                  \<lparr>remaining := remaining s - 2\<rparr>)))
     else Return False s)"

text \<open>FRN2 (I240/000): message type, mandatory.\<close>

definition frn2 :: "u8 list \<Rightarrow> u8 \<Rightarrow> parse_state \<Rightarrow> parse" where
  "frn2 buf fspec1 s =
    (if fspec1 AND 0x40 \<noteq> 0 then
       if remaining s < 1 then Return False s
       else read_u8 buf s (\<lambda>t s.
            Next ((msg_update (message_type_update (\<lambda>_. t)) s)\<lparr>remaining := remaining s - 1\<rparr>))
     else Return False s)"

text \<open>FRN3 (I240/020): video record header.\<close>

definition frn3 :: "endian \<Rightarrow> u8 list \<Rightarrow> u8 \<Rightarrow> parse_state \<Rightarrow> parse" where
  "frn3 e buf fspec1 s =
    (if fspec1 AND 0x20 \<noteq> 0 then
       if remaining s < 4 then Return False s
       else read_u32 e buf (msg_update (has_video_header_update (\<lambda>_. True)) s) (\<lambda>i s.
            Next ((msg_update (msg_index_update (\<lambda>_. i)) s)\<lparr>remaining := remaining s - 4\<rparr>))
     else Next s)"

text \<open>
  FRN4 (I240/030): video summary. \<open>rep > sizeof(text) - 1\<close> compares a \<open>uint8_t\<close> with 255.
  The copy overwrites the first \<open>rep\<close> characters of \<open>text\<close> and writes the terminator.
\<close>

definition frn4 :: "u8 list \<Rightarrow> u8 \<Rightarrow> parse_state \<Rightarrow> parse" where
  "frn4 buf fspec1 s =
    (if fspec1 AND 0x10 \<noteq> 0 then
       if remaining s < 1 then Return False s
       else read_u8 buf (msg_update (has_summary_update (\<lambda>_. True)) s) (\<lambda>rep s.
         let s = s\<lparr>remaining := remaining s - 1\<rparr> in
         if remaining s < ucast rep then Return False s
         else
           let s = msg_update (summary_update (summary_rep_update (\<lambda>_. rep))) s;
               rep = (if 255 < rep then 255 else rep) in
           copy_bytes buf (unat rep) s (\<lambda>bs s.
           Next ((msg_update (summary_update (summary_text_update
                    (\<lambda>txt. (bs @ drop (unat rep) txt)[unat rep := 0]))) s)
                 \<lparr>pos := pos s + unat rep, remaining := remaining s - ucast rep\<rparr>)))
     else Next s)"

text \<open>FRN5 (I240/040) and FRN6 (I240/041): the video header, nano- and femtoseconds.\<close>

definition read_header ::
    "endian \<Rightarrow> u8 list \<Rightarrow> ((cat240_video_header \<Rightarrow> cat240_video_header) \<Rightarrow> cat240_message \<Rightarrow> cat240_message)
     \<Rightarrow> parse_state \<Rightarrow> parse" where
  "read_header e buf upd s =
    read_u16 e buf s (\<lambda>a s.
    read_u16 e buf (msg_update (upd (start_az_update (\<lambda>_. a))) s) (\<lambda>b s.
    read_u32 e buf (msg_update (upd (end_az_update (\<lambda>_. b))) s) (\<lambda>c s.
    read_u32 e buf (msg_update (upd (start_rg_update (\<lambda>_. c))) s) (\<lambda>d s.
    Next ((msg_update (upd (cell_dur_update (\<lambda>_. d))) s)\<lparr>remaining := remaining s - 12\<rparr>)))))"

definition frn5 :: "endian \<Rightarrow> u8 list \<Rightarrow> u8 \<Rightarrow> parse_state \<Rightarrow> parse" where
  "frn5 e buf fspec1 s =
    (if fspec1 AND 0x08 \<noteq> 0 then
       if remaining s < 12 then Return False s
       else read_header e buf header_nano_update (msg_update (has_header_nano_update (\<lambda>_. True)) s)
     else Next s)"

definition frn6 :: "endian \<Rightarrow> u8 list \<Rightarrow> u8 \<Rightarrow> parse_state \<Rightarrow> parse" where
  "frn6 e buf fspec1 s =
    (if fspec1 AND 0x04 \<noteq> 0 then
       if remaining s < 12 then Return False s
       else read_header e buf header_femto_update (msg_update (has_header_femto_update (\<lambda>_. True)) s)
     else Next s)"

text \<open>FRN7 (I240/048): resolution and compression.\<close>

definition frn7 :: "endian \<Rightarrow> u8 list \<Rightarrow> u8 \<Rightarrow> parse_state \<Rightarrow> parse" where
  "frn7 e buf fspec1 s =
    (if fspec1 AND 0x02 \<noteq> 0 then
       if remaining s < 2 then Return False s
       else read_u16 e buf (msg_update (has_resolution_update (\<lambda>_. True)) s) (\<lambda>res_comp s.
            Next ((msg_update (resolution_ind_update (\<lambda>r.
                     r\<lparr>compression := ucast (drop_bit 15 res_comp AND 1),
                       reserved := ucast (drop_bit 8 res_comp AND 0x7F),
                       resolution := ucast (res_comp AND 0xFF)\<rparr>)) s)
                  \<lparr>remaining := remaining s - 2\<rparr>))
     else Next s)"

section \<open>The second byte of the field specification: FRN 8 to 14\<close>

text \<open>FRN8 (I240/049): counters.\<close>

definition frn8 :: "endian \<Rightarrow> u8 list \<Rightarrow> u8 \<Rightarrow> parse_state \<Rightarrow> parse" where
  "frn8 e buf fspec2 s =
    (if fspec2 AND 0x80 \<noteq> 0 then
       if remaining s < 5 then Return False s
       else read_u16 e buf (msg_update (has_counters_update (\<lambda>_. True)) s) (\<lambda>v s.
            read_u24 buf (msg_update (counters_update (nb_vb_update (\<lambda>_. v))) s) (\<lambda>c s.
            Next ((msg_update (counters_update (nb_cells_update (\<lambda>_. c))) s)
                  \<lparr>remaining := remaining s - 5\<rparr>)))
     else Next s)"

text \<open>
  FRN9, FRN10 and FRN11 (I240/050, 051, 052) have the same body with blocks of 4, 64 and 256
  bytes. The block is not copied: \<open>msg\<close> keeps a pointer into the input.
\<close>

definition video_block_item ::
    "u8 list \<Rightarrow> cat240_block_type \<Rightarrow> size_t \<Rightarrow> parse_state \<Rightarrow> parse" where
  "video_block_item buf ty unit_bytes s =
    (if remaining s < 1 then Return False s
     else read_u8 buf
         (msg_update (\<lambda>m. m\<lparr>has_video_block := True, video_block := (video_block m)\<lparr>block_type := ty\<rparr>\<rparr>) s)
         (\<lambda>rep s.
          let s = s\<lparr>remaining := remaining s - 1\<rparr>;
              block_bytes = ucast rep * unit_bytes in
          if remaining s < block_bytes then Return False s
          else Next ((msg_update (video_block_update (\<lambda>b.
                       b\<lparr>block_rep := rep, block_data := Some (pos s), data_bytes := block_bytes\<rparr>)) s)
                     \<lparr>pos := pos s + unat block_bytes, remaining := remaining s - block_bytes\<rparr>)))"

definition frn9 :: "u8 list \<Rightarrow> u8 \<Rightarrow> parse_state \<Rightarrow> parse" where
  "frn9 buf fspec2 s =
    (if fspec2 AND 0x40 \<noteq> 0 then video_block_item buf VIDEO_BLOCK_LOW 4 s else Next s)"

definition frn10 :: "u8 list \<Rightarrow> u8 \<Rightarrow> parse_state \<Rightarrow> parse" where
  "frn10 buf fspec2 s =
    (if fspec2 AND 0x20 \<noteq> 0 then video_block_item buf VIDEO_BLOCK_MEDIUM 64 s else Next s)"

definition frn11 :: "u8 list \<Rightarrow> u8 \<Rightarrow> parse_state \<Rightarrow> parse" where
  "frn11 buf fspec2 s =
    (if fspec2 AND 0x10 \<noteq> 0 then video_block_item buf VIDEO_BLOCK_HIGH 256 s else Next s)"

text \<open>FRN12 (I240/140): time of day.\<close>

definition frn12 :: "u8 list \<Rightarrow> u8 \<Rightarrow> parse_state \<Rightarrow> parse" where
  "frn12 buf fspec2 s =
    (if fspec2 AND 0x08 \<noteq> 0 then
       if remaining s < 3 then Return False s
       else read_u24 buf (msg_update (has_time_update (\<lambda>_. True)) s) (\<lambda>t s.
            Next ((msg_update (time_of_day_update (\<lambda>_. t)) s)\<lparr>remaining := remaining s - 3\<rparr>))
     else Next s)"

text \<open>FRN13 (RE) and FRN14 (SP): opaque data, skipped.\<close>

definition skip_item ::
    "u8 list \<Rightarrow> (cat240_message \<Rightarrow> cat240_message) \<Rightarrow> (size_t \<Rightarrow> cat240_message \<Rightarrow> cat240_message)
     \<Rightarrow> parse_state \<Rightarrow> parse" where
  "skip_item buf mark set_len s =
    (if remaining s < 1 then Return False s
     else read_u8 buf (msg_update mark s) (\<lambda>rep s.
          let s = s\<lparr>remaining := remaining s - 1\<rparr> in
          if remaining s < ucast rep then Return False s
          else Next ((msg_update (set_len (ucast rep)) s)
                     \<lparr>pos := pos s + unat rep, remaining := remaining s - ucast rep\<rparr>)))"

definition frn13 :: "u8 list \<Rightarrow> u8 \<Rightarrow> parse_state \<Rightarrow> parse" where
  "frn13 buf fspec2 s =
    (if fspec2 AND 0x04 \<noteq> 0 then
       skip_item buf (has_re_update (\<lambda>_. True)) (\<lambda>n. re_len_update (\<lambda>_. n)) s
     else Next s)"

definition frn14 :: "u8 list \<Rightarrow> u8 \<Rightarrow> parse_state \<Rightarrow> parse" where
  "frn14 buf fspec2 s =
    (if fspec2 AND 0x02 \<noteq> 0 then
       skip_item buf (has_sp_update (\<lambda>_. True)) (\<lambda>n. sp_len_update (\<lambda>_. n)) s
     else Next s)"

section \<open>The parser\<close>

definition first_items :: "endian \<Rightarrow> u8 list \<Rightarrow> u8 \<Rightarrow> parse_state \<Rightarrow> parse" where
  "first_items e buf fspec1 s =
    andthen (frn1 buf fspec1 s) (\<lambda>s.
    andthen (frn2 buf fspec1 s) (\<lambda>s.
    andthen (frn3 e buf fspec1 s) (\<lambda>s.
    andthen (frn4 buf fspec1 s) (\<lambda>s.
    andthen (frn5 e buf fspec1 s) (\<lambda>s.
    andthen (frn6 e buf fspec1 s) (\<lambda>s.
    frn7 e buf fspec1 s))))))"

definition second_items :: "endian \<Rightarrow> u8 list \<Rightarrow> u8 \<Rightarrow> parse_state \<Rightarrow> parse" where
  "second_items e buf fspec2 s =
    andthen (frn8 e buf fspec2 s) (\<lambda>s.
    andthen (frn9 buf fspec2 s) (\<lambda>s.
    andthen (frn10 buf fspec2 s) (\<lambda>s.
    andthen (frn11 buf fspec2 s) (\<lambda>s.
    andthen (frn12 buf fspec2 s) (\<lambda>s.
    andthen (frn13 buf fspec2 s) (\<lambda>s.
    frn14 buf fspec2 s))))))"

text \<open>
  After the field specification: \<open>memset\<close> of the message and the items, then
  \<open>return true\<close> whatever remains.
\<close>

definition parse_items :: "endian \<Rightarrow> u8 list \<Rightarrow> u8 \<Rightarrow> bool \<Rightarrow> u8 \<Rightarrow> parse_state \<Rightarrow> parse" where
  "parse_items e buf fspec1 has_fspec2 fspec2 s =
    andthen (first_items e buf fspec1 (s\<lparr>msg := zero_message\<rparr>)) (\<lambda>s.
    andthen (if has_fspec2 then second_items e buf fspec2 s else Next s) (\<lambda>s.
    Return True s))"

text \<open>
  The field specification. \<open>remaining--\<close> after the first byte has no check before it, so a
  block of length 3 wraps \<open>remaining\<close> around to \<open>SIZE_MAX\<close>.
\<close>

definition parse_fspec :: "endian \<Rightarrow> u8 list \<Rightarrow> parse_state \<Rightarrow> parse" where
  "parse_fspec e buf s =
    read_u8 buf s (\<lambda>fspec1 s.
      let s = s\<lparr>remaining := remaining s - 1\<rparr>; has_fspec2 = (fspec1 AND 0x01 \<noteq> 0) in
      if has_fspec2 then
        if remaining s = 0 then Return False s
        else read_u8 buf s (\<lambda>fspec2 s.
          let s = s\<lparr>remaining := remaining s - 1\<rparr> in
          if fspec2 AND 0x01 \<noteq> 0 then Return False s
          else parse_items e buf fspec1 True fspec2 s)
      else parse_items e buf fspec1 False 0 s)"

definition parse_cat240 :: "endian \<Rightarrow> u8 list \<Rightarrow> size_t \<Rightarrow> cat240_message \<Rightarrow> parse" where
  "parse_cat240 e buf data_len m =
    (let s = \<lparr>pos = 0, remaining = 0, msg = m\<rparr> in
     if data_len < 3 then Return False s
     else read_u8 buf s (\<lambda>cat s.
       if cat \<noteq> 240 then Return False s
       else read_u16 e buf s (\<lambda>block_len s.
         if block_len < 3 \<or> data_len < ucast block_len then Return False s
         else parse_fspec e buf (s\<lparr>remaining := ucast block_len - 3\<rparr>))))"

section \<open>Byte order\<close>


lemma is_little_endian_iff [simp]: "is_little_endian e \<longleftrightarrow> e = Little"
  by (cases e) (simp_all add: is_little_endian_def)

lemma ntohs_load16 [simp]: "ntohs e (load16 e a b) = be16 a b"
proof (cases e)
  case Little
  show ?thesis
  proof (rule bit_word_eqI)
    fix n assume n: "n < LENGTH(16)"
    consider "n < 8" | "8 \<le> n" by linarith
    then show "bit (ntohs e (load16 e a b)) n = bit (be16 a b) n"
      by cases (use n Little in \<open>auto simp: ntohs_def be16_def bit_simps bit_u8_out\<close>)
  qed
qed (simp add: ntohs_def)

lemma bit_mask_byte:
  "bit (0x000000FF :: int) n \<longleftrightarrow> n < 8"
  "bit (0x0000FF00 :: int) n \<longleftrightarrow> 8 \<le> n \<and> n < 16"
  "bit (0x00FF0000 :: int) n \<longleftrightarrow> 16 \<le> n \<and> n < 24"
  "bit (0xFF000000 :: int) n \<longleftrightarrow> 24 \<le> n \<and> n < 32"
proof -
  have *: "(0x000000FF :: int) = mask 8" "(0x0000FF00 :: int) = push_bit 8 (mask 8)"
    "(0x00FF0000 :: int) = push_bit 16 (mask 8)" "(0xFF000000 :: int) = push_bit 24 (mask 8)"
    by (simp_all add: mask_eq_exp_minus_1 push_bit_eq_mult)
  show "bit (0x000000FF :: int) n \<longleftrightarrow> n < 8"
    "bit (0x0000FF00 :: int) n \<longleftrightarrow> 8 \<le> n \<and> n < 16"
    "bit (0x00FF0000 :: int) n \<longleftrightarrow> 16 \<le> n \<and> n < 24"
    "bit (0xFF000000 :: int) n \<longleftrightarrow> 24 \<le> n \<and> n < 32"
    unfolding * by (auto simp: bit_simps)
qed

lemma ntohl_load32 [simp]: "ntohl e (load32 e a b c d) = be32 a b c d"
proof (cases e)
  case Little
  show ?thesis
  proof (rule bit_word_eqI)
    fix n assume n: "n < LENGTH(32)"
    consider "n < 8" | "8 \<le> n" "n < 16" | "16 \<le> n" "n < 24" | "24 \<le> n" by linarith
    then show "bit (ntohl e (load32 e a b c d)) n = bit (be32 a b c d) n"
      by cases (use n Little in \<open>auto simp: ntohl_def be32_def bit_simps bit_mask_byte bit_u8_out\<close>)
  qed
qed (simp add: ntohl_def)

lemma read_u24_be24:
  "read_u24 buf s k =
    (if pos s + 3 \<le> length buf then
       k (be24 (buf ! pos s) (buf ! (pos s + 1)) (buf ! (pos s + 2))) (s\<lparr>pos := pos s + 3\<rparr>)
     else Fault Out_of_bounds)"
  by (simp add: read_u24_def be24_def)

section \<open>Memory safety\<close>

text \<open>Bytes consumed and bytes remaining add up to the block length.\<close>

fun unit_of :: "cat240_block_type \<Rightarrow> nat" where
  "unit_of VIDEO_BLOCK_LOW = 4"
| "unit_of VIDEO_BLOCK_MEDIUM = 64"
| "unit_of VIDEO_BLOCK_HIGH = 256"

definition block_inside :: "nat \<Rightarrow> cat240_message \<Rightarrow> bool" where
  "block_inside n m \<longleftrightarrow> (has_video_block m \<longrightarrow>
     (\<exists>d. block_data (video_block m) = Some d \<and>
        d + unat (data_bytes (video_block m)) \<le> n \<and>
        unat (data_bytes (video_block m)) =
          unat (block_rep (video_block m)) * unit_of (block_type (video_block m))))"

definition accounted :: "nat \<Rightarrow> parse_state \<Rightarrow> bool" where
  "accounted L s \<longleftrightarrow> pos s + unat (remaining s) = L \<and> block_inside (pos s) (msg s) \<and>
     length (summary_text (summary (msg s))) = 256"

lemma block_inside_mono: "block_inside n m \<Longrightarrow> n \<le> n' \<Longrightarrow> block_inside n' m"
  by (auto simp: block_inside_def)

lemma unat_sub_le: "\<not> r < k \<Longrightarrow> unat (r - k) = unat r - unat (k :: u32)"
  by (simp add: unat_sub)

lemma not_less_unat: "\<not> r < k \<Longrightarrow> unat k \<le> unat (r :: u32)"
  by (simp add: word_less_nat_alt)

lemma unat_block_bytes:
  "unat (ucast (b :: u8) * of_nat (unit_of ty) :: u32) = unat b * unit_of ty"
proof -
  have "unat b * unit_of ty \<le> 255 * 256"
    by (rule mult_le_mono) (simp, cases ty, simp_all)
  then have "unat b * unit_of ty < 4294967296" by linarith
  then show ?thesis
    by (cases ty) (auto simp: unat_word_ariths)
qed

lemmas parse_acc = accounted_def unat_sub_le read_u8_def read_u16_def read_u32_def
  read_u24_be24 copy_bytes_def

lemma within_frn1:
  assumes "accounted L s" and "L \<le> length buf"
  shows "ctl_all (\<lambda>r _. \<not> r) (accounted L) (frn1 buf f s)"
  using assms by (auto simp: frn1_def parse_acc block_inside_def dest!: not_less_unat)

lemma within_frn2:
  assumes "accounted L s" and "L \<le> length buf"
  shows "ctl_all (\<lambda>r _. \<not> r) (accounted L) (frn2 buf f s)"
  using assms by (auto simp: frn2_def parse_acc block_inside_def simp flip: unat_gt_0 dest!: not_less_unat)

lemma within_frn3:
  assumes "accounted L s" and "L \<le> length buf"
  shows "ctl_all (\<lambda>r _. \<not> r) (accounted L) (frn3 e buf f s)"
  using assms by (auto simp: frn3_def parse_acc block_inside_def simp flip: unat_gt_0 dest!: not_less_unat)

lemma within_frn4:
  assumes "accounted L s" and "L \<le> length buf"
  shows "ctl_all (\<lambda>r _. \<not> r) (accounted L) (frn4 buf f s)"
  using assms by (auto simp: frn4_def Let_def parse_acc block_inside_def simp flip: unat_gt_0 dest!: not_less_unat)

lemma within_frn5:
  assumes "accounted L s" and "L \<le> length buf"
  shows "ctl_all (\<lambda>r _. \<not> r) (accounted L) (frn5 e buf f s)"
  using assms by (auto simp: frn5_def read_header_def parse_acc block_inside_def simp flip: unat_gt_0 dest!: not_less_unat)

lemma within_frn6:
  assumes "accounted L s" and "L \<le> length buf"
  shows "ctl_all (\<lambda>r _. \<not> r) (accounted L) (frn6 e buf f s)"
  using assms by (auto simp: frn6_def read_header_def parse_acc block_inside_def simp flip: unat_gt_0 dest!: not_less_unat)

lemma within_frn7:
  assumes "accounted L s" and "L \<le> length buf"
  shows "ctl_all (\<lambda>r _. \<not> r) (accounted L) (frn7 e buf f s)"
  using assms by (auto simp: frn7_def parse_acc block_inside_def simp flip: unat_gt_0 dest!: not_less_unat)

lemma within_frn8:
  assumes "accounted L s" and "L \<le> length buf"
  shows "ctl_all (\<lambda>r _. \<not> r) (accounted L) (frn8 e buf f s)"
  using assms by (auto simp: frn8_def parse_acc block_inside_def simp flip: unat_gt_0 dest!: not_less_unat)

lemma within_frn12:
  assumes "accounted L s" and "L \<le> length buf"
  shows "ctl_all (\<lambda>r _. \<not> r) (accounted L) (frn12 buf f s)"
  using assms by (auto simp: frn12_def parse_acc block_inside_def simp flip: unat_gt_0 dest!: not_less_unat)

lemma within_video:
  assumes "accounted L s" and "L \<le> length buf" and "u = of_nat (unit_of ty)"
  shows "ctl_all (\<lambda>r _. \<not> r) (accounted L) (video_block_item buf ty u s)"
  using assms by (auto simp: video_block_item_def parse_acc block_inside_def Let_def unat_block_bytes
     simp flip: unat_gt_0 dest!: not_less_unat)

lemma within_skip:
  assumes "accounted L s" and "L \<le> length buf"
    and "\<And>m n. block_inside n (mark m) = block_inside n m"
    and "\<And>m k n. block_inside n (set_len k m) = block_inside n m"
    and "\<And>m. summary (mark m) = summary m" and "\<And>k m. summary (set_len k m) = summary m"
  shows "ctl_all (\<lambda>r _. \<not> r) (accounted L) (skip_item buf mark set_len s)"
  using assms by (auto simp: skip_item_def parse_acc Let_def
     simp flip: unat_gt_0 dest!: not_less_unat elim!: block_inside_mono)

lemma within_first:
  assumes "accounted L s" and "L \<le> length buf"
  shows "ctl_all (\<lambda>r _. \<not> r) (accounted L) (first_items e buf f s)"
  unfolding first_items_def using assms
  by (intro ctl_all_andthen [where M = "accounted L"] within_frn1 within_frn2 within_frn3
      within_frn4 within_frn5 within_frn6 within_frn7)

lemma within_second:
  assumes "accounted L s" and "L \<le> length buf"
  shows "ctl_all (\<lambda>r _. \<not> r) (accounted L) (second_items e buf f s)"
proof -
  have next_ok: "ctl_all (\<lambda>r _. \<not> r) (accounted L) (Next s :: parse)" if "accounted L s" for s
    using that by simp
  have video: "ctl_all (\<lambda>r _. \<not> r) (accounted L) (frn9 buf f s)"
    "ctl_all (\<lambda>r _. \<not> r) (accounted L) (frn10 buf f s)"
    "ctl_all (\<lambda>r _. \<not> r) (accounted L) (frn11 buf f s)" if "accounted L s" for s
    using that assms(2) by (auto simp: frn9_def frn10_def frn11_def intro: within_video)
  have skip: "ctl_all (\<lambda>r _. \<not> r) (accounted L) (frn13 buf f s)"
    "ctl_all (\<lambda>r _. \<not> r) (accounted L) (frn14 buf f s)" if "accounted L s" for s
    using that assms(2)
    by (auto simp: frn13_def frn14_def block_inside_def intro!: within_skip)
  show ?thesis
    unfolding second_items_def using assms
    by (intro ctl_all_andthen [where M = "accounted L"] within_frn8 within_frn12 video skip)
qed

lemma within_items:
  assumes "pos s + unat (remaining s) = L" and "L \<le> length buf"
  shows "ctl_all (\<lambda>r t. r \<longrightarrow> accounted L t) (\<lambda>_. False) (parse_items e buf f1 h f2 s)"
proof -
  have "accounted L (s\<lparr>msg := zero_message\<rparr>)"
    using assms(1) by (simp add: accounted_def block_inside_def zero_message_def)
  then have "ctl_all (\<lambda>r _. \<not> r) (accounted L) (first_items e buf f1 (s\<lparr>msg := zero_message\<rparr>))"
    using assms(2) by (rule within_first)
  then have 1: "ctl_all (\<lambda>r t. r \<longrightarrow> accounted L t) (accounted L)
      (first_items e buf f1 (s\<lparr>msg := zero_message\<rparr>))"
    by (rule ctl_all_mono) auto
  have 2: "ctl_all (\<lambda>r t. r \<longrightarrow> accounted L t) (accounted L)
      (if h then second_items e buf f2 t else Next t)" if "accounted L t" for t
    by (rule ctl_all_mono [where R = "\<lambda>r _. \<not> r" and N = "accounted L"])
       (use that within_second [OF that assms(2)] in auto)
  show ?thesis
    unfolding parse_items_def
    by (rule ctl_all_andthen [OF 1], rule ctl_all_andthen [OF 2]) auto
qed


lemma within_fspec:
  assumes "pos s + unat (remaining s) = L" and "0 < unat (remaining s)" and "L \<le> length buf"
  shows "ctl_all (\<lambda>r t. r \<longrightarrow> accounted L t) (\<lambda>_. False) (parse_fspec e buf s)"
proof -
  have 1: "unat (remaining s - 1) = unat (remaining s) - 1"
    using assms(2) unat_minus_one [of "remaining s"] by (simp add: unat_gt_0)
  have 2: "unat (remaining s - 2) = unat (remaining s) - 2 \<and> 2 \<le> unat (remaining s)"
    if "remaining s \<noteq> 1"
    using that assms(2) by unat_arith
  show ?thesis
    using assms 2 by (auto simp: parse_fspec_def Let_def read_u8_def 1 intro!: within_items)
qed

text \<open>The block length the input announces.\<close>

definition announced_len :: "u8 list \<Rightarrow> nat" where
  "announced_len buf = unat (be16 (buf ! 1) (buf ! 2))"

lemma parse_cat240_header:
  assumes "\<not> data_len < 3" and "3 \<le> length buf"
  shows "parse_cat240 e buf data_len m =
    (if buf ! 0 \<noteq> 240 then Return False \<lparr>pos = 1, remaining = 0, msg = m\<rparr>
     else if be16 (buf ! 1) (buf ! 2) < 3 \<or> data_len < ucast (be16 (buf ! 1) (buf ! 2))
     then Return False \<lparr>pos = 3, remaining = 0, msg = m\<rparr>
     else parse_fspec e buf
       \<lparr>pos = 3, remaining = ucast (be16 (buf ! 1) (buf ! 2)) - 3, msg = m\<rparr>)"
  using assms by (auto simp: parse_cat240_def Let_def read_u8_def read_u16_def
      numeral_2_eq_2 numeral_3_eq_3)

text \<open>
  C5: Memory safety of the parser. If the input object holds the \<open>data_len\<close> bytes the caller
  announces and the block does not announce the length 3, \<open>parse_cat240\<close> never reads outside
  the object; on acceptance the bytes consumed and \<open>remaining\<close> add up to the announced
  length, which is at most \<open>data_len\<close>, and the video block pointer and size kept in the
  message lie inside the bytes consumed.
\<close>

theorem parse_cat240_memory_safe:
  assumes "unat data_len \<le> length buf" and "announced_len buf \<noteq> 3"
  shows "ctl_all (\<lambda>ok s. ok \<longrightarrow> accounted (announced_len buf) s \<and> announced_len buf \<le> unat data_len)
    (\<lambda>_. False) (parse_cat240 e buf data_len m)"
proof (cases "data_len < 3")
  case True
  then show ?thesis by (simp add: parse_cat240_def)
next
  case False
  then have len: "3 \<le> length buf"
    using assms(1) by (auto dest!: not_less_unat)
  define L where "L = announced_len buf"
  let ?r = "ucast (be16 (buf ! 1) (buf ! 2)) - 3 :: u32"
  have fspec: "ctl_all (\<lambda>ok s. ok \<longrightarrow> accounted L s) (\<lambda>_. False)
      (parse_fspec e buf \<lparr>pos = 3, remaining = ?r, msg = m\<rparr>)"
    if "4 \<le> L" "L \<le> unat data_len"
  proof -
    have "unat ?r = L - 3"
      using that(1) by (simp add: unat_sub_le L_def announced_len_def word_less_nat_alt)
    then show ?thesis
      using that assms(1) by (intro within_fspec) simp_all
  qed
  have "4 \<le> L \<and> L \<le> unat data_len"
    if "\<not> (be16 (buf ! 1) (buf ! 2) < 3 \<or> data_len < ucast (be16 (buf ! 1) (buf ! 2)))"
    using that assms(2) by (auto simp: L_def announced_len_def word_less_nat_alt)
  then show ?thesis
    unfolding parse_cat240_header [OF False len] L_def [symmetric]
    by (auto intro!: ctl_all_mono [OF fspec [unfolded One_nat_def]])
qed

theorem parse_cat240_memory_safe_witness:
  "unat (7 :: u32) \<le> length [240, 0, 7, 0xC0, 1, 2, 1 :: u8] \<and>
   announced_len [240, 0, 7, 0xC0, 1, 2, 1] \<noteq> 3 \<and>
   ctl_all (\<lambda>ok s. ok \<longrightarrow> accounted (announced_len [240, 0, 7, 0xC0, 1, 2, 1]) s \<and>
       announced_len [240, 0, 7, 0xC0, 1, 2, 1] \<le> unat (7 :: u32))
     (\<lambda>_. False) (parse_cat240 Little [240, 0, 7, 0xC0, 1, 2, 1] 7 zero_message)"
proof -
  have h: "unat (7 :: u32) \<le> length [240, 0, 7, 0xC0, 1, 2, 1 :: u8]"
    "announced_len [240, 0, 7, 0xC0, 1, 2, 1] \<noteq> 3"
    by (simp_all add: announced_len_def be16_def)
  show ?thesis using h parse_cat240_memory_safe [OF h, of Little zero_message] by blast
qed

text \<open>
  C9: The case the hypothesis of the previous property leaves out. A block that announces the
  length 3 passes the length check, \<open>remaining\<close> wraps around, and the parser reads past the
  object of 3 bytes; when more bytes follow in memory it accepts a message made of them.
\<close>

theorem parse_cat240_length_3_overreads:
  "parse_cat240 e [240, 0, 3] 3 m = Fault Out_of_bounds \<and>
   (\<exists>s. parse_cat240 e ([240, 0, 3, 0xC0, a, b, t] @ rest) 3 m = Return True s \<and>
      data_source (msg s) = \<lparr>sac = a, sic = b\<rparr> \<and> message_type (msg s) = t \<and> pos s = 7)"
proof -
  have b: "be16 0 3 = 3" by (simp add: be16_def)
  have 1: "parse_cat240 e [240, 0, 3] 3 m = Fault Out_of_bounds"
    using parse_cat240_header [of 3 "[240, 0, 3]" e m]
    by (simp add: b parse_fspec_def read_u8_def)
  have "parse_cat240 e ([240, 0, 3, 0xC0, a, b, t] @ rest) 3 m =
    parse_fspec e ([240, 0, 3, 0xC0, a, b, t] @ rest) \<lparr>pos = 3, remaining = 0, msg = m\<rparr>"
    using parse_cat240_header [of 3 "[240, 0, 3, 0xC0, a, b, t] @ rest" e m] by (simp add: b)
  then show ?thesis
    using 1 by (simp add: parse_fspec_def parse_items_def first_items_def frn1_def frn2_def
        frn3_def frn4_def frn5_def frn6_def frn7_def read_u8_def Let_def zero_message_def)
qed

text \<open>
  The parser's result does not depend on the byte order of the machine: the run-time test of
  \<open>is_little_endian\<close> in \<open>ntohs\<close> and \<open>ntohl\<close> undoes exactly what the \<open>memcpy\<close> into an
  integer did, for every input.
\<close>

theorem parse_cat240_byte_order: "parse_cat240 Little = parse_cat240 Big"
proof -
  have r16: "read_u16 Little = read_u16 Big" and r32: "read_u32 Little = read_u32 Big"
    by (simp_all add: fun_eq_iff read_u16_def read_u32_def del: load16.simps load32.simps)
  have hdr: "read_header Little = read_header Big"
    by (simp add: fun_eq_iff read_header_def r16 r32)
  have items: "frn3 Little = frn3 Big" "frn5 Little = frn5 Big" "frn6 Little = frn6 Big"
    "frn7 Little = frn7 Big" "frn8 Little = frn8 Big"
    by (simp_all add: fun_eq_iff frn3_def frn5_def frn6_def frn7_def frn8_def r16 r32 hdr)
  have first: "first_items Little = first_items Big"
    by (simp add: fun_eq_iff first_items_def items)
  have second: "second_items Little = second_items Big"
    by (simp add: fun_eq_iff second_items_def items)
  have "parse_items Little = parse_items Big"
    by (simp add: fun_eq_iff parse_items_def first second cong: if_cong)
  then have "parse_fspec Little = parse_fspec Big"
    by (intro ext) (simp only: parse_fspec_def)
  then show ?thesis
    by (intro ext) (simp only: parse_cat240_def r16)
qed



section \<open>The reference encoder\<close>

text \<open>The contents of a block: every optional item is present or absent on its own.\<close>

record cat240_items =
  i_source :: "u8 \<times> u8"
  i_type :: u8
  i_index :: "u32 option"
  i_summary :: "u8 list option"
  i_nano :: "cat240_video_header option"
  i_femto :: "cat240_video_header option"
  i_resolution :: "cat240_resolution_indicator option"
  i_counters :: "cat240_counters option"
  i_low :: "u8 list option"
  i_medium :: "u8 list option"
  i_high :: "u8 list option"
  i_time :: "u32 option"
  i_re :: "u8 list option"
  i_sp :: "u8 list option"

definition enc_opt :: "('a \<Rightarrow> u8 list) \<Rightarrow> 'a option \<Rightarrow> u8 list" where
  "enc_opt f o' = (case o' of None \<Rightarrow> [] | Some x \<Rightarrow> f x)"

definition enc_header :: "cat240_video_header \<Rightarrow> u8 list" where
  "enc_header h = bytes16 (start_az h) @ bytes16 (end_az h) @ bytes32 (start_rg h) @
     bytes32 (cell_dur h)"

definition enc_counted :: "nat \<Rightarrow> u8 list \<Rightarrow> u8 list" where
  "enc_counted u d = of_nat (length d div u) # d"

definition enc_resolution :: "cat240_resolution_indicator \<Rightarrow> u8 list" where
  "enc_resolution r =
     [push_bit 7 (ucast (compression r)) OR ucast (reserved r), resolution r]"

definition enc_counters :: "cat240_counters \<Rightarrow> u8 list" where
  "enc_counters c = bytes16 (nb_vb c) @ bytes24 (nb_cells c)"

definition has_second :: "cat240_items \<Rightarrow> bool" where
  "has_second it \<longleftrightarrow> i_counters it \<noteq> None \<or> i_low it \<noteq> None \<or> i_medium it \<noteq> None \<or>
     i_high it \<noteq> None \<or> i_time it \<noteq> None \<or> i_re it \<noteq> None \<or> i_sp it \<noteq> None"

definition flag :: "bool \<Rightarrow> nat \<Rightarrow> u8" where
  "flag b k = (if b then 2 ^ k else 0)"

definition fspec1_of :: "cat240_items \<Rightarrow> u8" where
  "fspec1_of it = flag True 7 OR flag True 6 OR flag (i_index it \<noteq> None) 5 OR
     flag (i_summary it \<noteq> None) 4 OR flag (i_nano it \<noteq> None) 3 OR flag (i_femto it \<noteq> None) 2 OR
     flag (i_resolution it \<noteq> None) 1 OR flag (has_second it) 0"

definition fspec2_of :: "cat240_items \<Rightarrow> u8" where
  "fspec2_of it = flag (i_counters it \<noteq> None) 7 OR flag (i_low it \<noteq> None) 6 OR
     flag (i_medium it \<noteq> None) 5 OR flag (i_high it \<noteq> None) 4 OR flag (i_time it \<noteq> None) 3 OR
     flag (i_re it \<noteq> None) 2 OR flag (i_sp it \<noteq> None) 1"

definition enc_first :: "cat240_items \<Rightarrow> u8 list" where
  "enc_first it = [fst (i_source it), snd (i_source it)] @ [i_type it] @
     enc_opt bytes32 (i_index it) @ enc_opt (enc_counted 1) (i_summary it) @
     enc_opt enc_header (i_nano it) @ enc_opt enc_header (i_femto it) @
     enc_opt enc_resolution (i_resolution it)"

definition enc_second :: "cat240_items \<Rightarrow> u8 list" where
  "enc_second it = enc_opt enc_counters (i_counters it) @
     enc_opt (enc_counted 4) (i_low it) @ enc_opt (enc_counted 64) (i_medium it) @
     enc_opt (enc_counted 256) (i_high it) @ enc_opt bytes24 (i_time it) @
     enc_opt (enc_counted 1) (i_re it) @ enc_opt (enc_counted 1) (i_sp it)"

definition enc_body :: "cat240_items \<Rightarrow> u8 list" where
  "enc_body it = (if has_second it then [fspec1_of it, fspec2_of it] else [fspec1_of it]) @
     enc_first it @ enc_second it"

definition encode :: "cat240_items \<Rightarrow> u8 list" where
  "encode it = 240 # bytes16 (of_nat (3 + length (enc_body it))) @ enc_body it"

definition wf_items :: "cat240_items \<Rightarrow> bool" where
  "wf_items it \<longleftrightarrow>
     pred_option (\<lambda>d. length d \<le> 255) (i_summary it) \<and>
     pred_option (\<lambda>c. take_bit 24 (nb_cells c) = nb_cells c) (i_counters it) \<and>
     pred_option (\<lambda>d. 4 dvd length d \<and> length d \<le> 255 * 4) (i_low it) \<and>
     pred_option (\<lambda>d. 64 dvd length d \<and> length d \<le> 255 * 64) (i_medium it) \<and>
     pred_option (\<lambda>d. 256 dvd length d \<and> length d \<le> 255 * 256) (i_high it) \<and>
     pred_option (\<lambda>v. take_bit 24 v = v) (i_time it) \<and>
     pred_option (\<lambda>d. length d \<le> 255) (i_re it) \<and>
     pred_option (\<lambda>d. length d \<le> 255) (i_sp it) \<and>
     length (encode it) < 65536"

subsection \<open>Bits of the field specification\<close>

lemma bit_flag: "k < 8 \<Longrightarrow> bit (flag b k) n \<longleftrightarrow> b \<and> n = k"
  by (auto simp: flag_def bit_simps)

lemma and_flag:
  "(x :: u8) AND 0x80 = 0 \<longleftrightarrow> \<not> bit x 7" "x AND 0x40 = 0 \<longleftrightarrow> \<not> bit x 6"
  "x AND 0x20 = 0 \<longleftrightarrow> \<not> bit x 5" "x AND 0x10 = 0 \<longleftrightarrow> \<not> bit x 4"
  "x AND 0x08 = 0 \<longleftrightarrow> \<not> bit x 3" "x AND 0x04 = 0 \<longleftrightarrow> \<not> bit x 2"
  "x AND 0x02 = 0 \<longleftrightarrow> \<not> bit x 1" "x AND 0x01 = 0 \<longleftrightarrow> \<not> bit x 0"
  using and_exp_eq_0_iff_not_bit [of x 7] and_exp_eq_0_iff_not_bit [of x 6]
    and_exp_eq_0_iff_not_bit [of x 5] and_exp_eq_0_iff_not_bit [of x 4]
    and_exp_eq_0_iff_not_bit [of x 3] and_exp_eq_0_iff_not_bit [of x 2]
    and_exp_eq_0_iff_not_bit [of x 1] and_exp_eq_0_iff_not_bit [of x 0]
  by simp_all

lemma bits_fspec1 [simp]:
  "bit (fspec1_of it) 7" "bit (fspec1_of it) 6"
  "bit (fspec1_of it) 5 \<longleftrightarrow> i_index it \<noteq> None"
  "bit (fspec1_of it) 4 \<longleftrightarrow> i_summary it \<noteq> None"
  "bit (fspec1_of it) 3 \<longleftrightarrow> i_nano it \<noteq> None"
  "bit (fspec1_of it) 2 \<longleftrightarrow> i_femto it \<noteq> None"
  "bit (fspec1_of it) (Suc 0) \<longleftrightarrow> i_resolution it \<noteq> None"
  "bit (fspec1_of it) 0 \<longleftrightarrow> has_second it"
  by (simp_all add: fspec1_of_def bit_flag bit_or_iff del: bit_0)

lemma bits_fspec2 [simp]:
  "bit (fspec2_of it) 7 \<longleftrightarrow> i_counters it \<noteq> None"
  "bit (fspec2_of it) 6 \<longleftrightarrow> i_low it \<noteq> None"
  "bit (fspec2_of it) 5 \<longleftrightarrow> i_medium it \<noteq> None"
  "bit (fspec2_of it) 4 \<longleftrightarrow> i_high it \<noteq> None"
  "bit (fspec2_of it) 3 \<longleftrightarrow> i_time it \<noteq> None"
  "bit (fspec2_of it) 2 \<longleftrightarrow> i_re it \<noteq> None"
  "bit (fspec2_of it) (Suc 0) \<longleftrightarrow> i_sp it \<noteq> None"
  "\<not> bit (fspec2_of it) 0"
  by (simp_all add: fspec2_of_def bit_flag bit_or_iff del: bit_0)


subsection \<open>Reading what was encoded\<close>

text \<open>The bytes \<open>xs\<close> stand at offset \<open>p\<close> of the input; \<open>xs\<close> also fits what remains.\<close>

definition at :: "u8 list \<Rightarrow> u8 list \<Rightarrow> nat \<Rightarrow> bool" where
  "at buf xs p \<longleftrightarrow> (\<exists>rest. drop p buf = xs @ rest) \<and> p + length xs \<le> length buf"

definition fits :: "u8 list \<Rightarrow> u8 list \<Rightarrow> parse_state \<Rightarrow> bool" where
  "fits buf xs s \<longleftrightarrow> at buf xs (pos s) \<and> length xs \<le> unat (remaining s)"

definition advance :: "nat \<Rightarrow> (cat240_message \<Rightarrow> cat240_message) \<Rightarrow> parse_state \<Rightarrow> parse_state" where
  "advance n u s =
    s\<lparr>pos := pos s + n, remaining := remaining s - of_nat n, msg := u (msg s)\<rparr>"

lemma advance_0 [simp]: "(\<And>m. u m = m) \<Longrightarrow> advance 0 u s = s"
  by (simp add: advance_def)

lemma at_nth: "at buf xs p \<Longrightarrow> i < length xs \<Longrightarrow> buf ! (p + i) = xs ! i"
proof -
  assume f: "at buf xs p" and i: "i < length xs"
  from f obtain rest where "drop p buf = xs @ rest" by (auto simp: at_def)
  then have "drop p buf ! i = xs ! i" using i by (simp add: nth_append)
  then show ?thesis using f by (simp add: at_def)
qed

lemma at_len: "at buf xs p \<Longrightarrow> p + length xs \<le> length buf"
  by (simp add: at_def)

lemma at_append1: "at buf (xs @ ys) p \<Longrightarrow> at buf xs p"
  by (auto simp: at_def)

lemma at_append2:
  assumes "at buf (xs @ ys) p"
  shows "at buf ys (p + length xs)"
proof -
  obtain rest where "drop p buf = xs @ ys @ rest" using assms by (auto simp: at_def)
  then have "drop (length xs) (drop p buf) = ys @ rest" by simp
  then have "drop (p + length xs) buf = ys @ rest" by (simp add: add.commute)
  then show ?thesis using assms by (auto simp: at_def)
qed

lemma at_Cons: "at buf (x # xs) p \<Longrightarrow> p < length buf \<and> buf ! p = x \<and> at buf xs (Suc p)"
  using at_append2 [of buf "[x]" xs p] at_nth [of buf "x # xs" p 0] at_len [of buf "x # xs" p]
  by simp

lemma at_take: "at buf xs p \<Longrightarrow> take (length xs) (drop p buf) = xs"
  by (auto simp: at_def)

lemma fitsD: "fits buf xs s \<Longrightarrow> at buf xs (pos s)"
  by (simp add: fits_def)

lemma fits_short: "fits buf xs s \<Longrightarrow> k \<le> length xs \<Longrightarrow> k < 4294967296 \<Longrightarrow> \<not> remaining s < of_nat k"
  by (simp add: fits_def word_less_nat_alt unat_of_nat_u32)

lemma fits_appendD1: "fits buf (xs @ ys) s \<Longrightarrow> fits buf xs s"
  by (auto simp: fits_def dest: at_append1)

lemma unat_advance:
  assumes "n \<le> unat (remaining s)"
  shows "unat (remaining s - of_nat n) = unat (remaining s) - n"
proof -
  have "unat (of_nat n :: u32) = n"
    using assms unat_u32_less [of "remaining s"] by (intro unat_of_nat_u32) simp
  then show ?thesis
    using assms by (subst unat_sub_le) (simp_all add: word_less_nat_alt)
qed

lemma fits_advance: "fits buf (xs @ ys) s \<Longrightarrow> fits buf ys (advance (length xs) u s)"
  using unat_advance [of "length xs" s]
  by (auto simp: fits_def advance_def dest: at_append2)

lemma andthen_step:
  assumes "fits buf (xs @ ys) s"
    and "\<And>s. fits buf xs s \<Longrightarrow> f s = Next (advance (length xs) (u (pos s)) s)"
  shows "andthen (f s) g = g (advance (length xs) (u (pos s)) s)"
  using assms(2) [OF fits_appendD1 [OF assms(1)]] by simp

lemma read_u8_at: "at buf (x # xs) (pos s) \<Longrightarrow> read_u8 buf s k = k x (s\<lparr>pos := pos s + 1\<rparr>)"
  using at_Cons [of buf x xs "pos s"] by (simp add: read_u8_def)

lemma read_u16_at:
  "at buf (bytes16 w) (pos s) \<Longrightarrow> read_u16 e buf s k = k w (s\<lparr>pos := pos s + 2\<rparr>)"
  using at_len [of buf "bytes16 w" "pos s"] at_nth [of buf "bytes16 w" "pos s" 0]
    at_nth [of buf "bytes16 w" "pos s" 1]
  by (simp add: read_u16_def bytes16_def be16_bytes16)

lemma read_u32_at:
  "at buf (bytes32 w) (pos s) \<Longrightarrow> read_u32 e buf s k = k w (s\<lparr>pos := pos s + 4\<rparr>)"
  using at_len [of buf "bytes32 w" "pos s"] at_nth [of buf "bytes32 w" "pos s" 0]
    at_nth [of buf "bytes32 w" "pos s" 1] at_nth [of buf "bytes32 w" "pos s" 2]
    at_nth [of buf "bytes32 w" "pos s" 3]
  by (simp add: read_u32_def bytes32_def be32_bytes32)

lemma read_u24_at:
  "at buf (bytes24 w) (pos s) \<Longrightarrow> take_bit 24 w = w \<Longrightarrow>
   read_u24 buf s k = k w (s\<lparr>pos := pos s + 3\<rparr>)"
  using at_len [of buf "bytes24 w" "pos s"] at_nth [of buf "bytes24 w" "pos s" 0]
    at_nth [of buf "bytes24 w" "pos s" 1] at_nth [of buf "bytes24 w" "pos s" 2]
  by (simp add: read_u24_be24 bytes24_def be24_bytes24)

subsection \<open>Each item in turn\<close>

text \<open>What an item leaves in the message; an absent item leaves it alone.\<close>

definition upd_source :: "u8 \<times> u8 \<Rightarrow> cat240_message \<Rightarrow> cat240_message" where
  "upd_source x m = m\<lparr>data_source := \<lparr>sac = fst x, sic = snd x\<rparr>\<rparr>"

definition upd_type :: "u8 \<Rightarrow> cat240_message \<Rightarrow> cat240_message" where
  "upd_type t m = m\<lparr>message_type := t\<rparr>"

definition upd_index :: "u32 option \<Rightarrow> cat240_message \<Rightarrow> cat240_message" where
  "upd_index x m = m\<lparr>has_video_header := has_video_header m \<or> x \<noteq> None,
     msg_index := (case x of None \<Rightarrow> msg_index m | Some i \<Rightarrow> i)\<rparr>"

definition summary_of :: "u8 list \<Rightarrow> cat240_video_summary" where
  "summary_of d = \<lparr>summary_rep = of_nat (length d),
     summary_text = d @ replicate (256 - length d) 0\<rparr>"

definition upd_summary :: "u8 list option \<Rightarrow> cat240_message \<Rightarrow> cat240_message" where
  "upd_summary x m = m\<lparr>has_summary := has_summary m \<or> x \<noteq> None,
     summary := (case x of None \<Rightarrow> summary m | Some d \<Rightarrow> summary_of d)\<rparr>"

definition upd_nano :: "cat240_video_header option \<Rightarrow> cat240_message \<Rightarrow> cat240_message" where
  "upd_nano x m = m\<lparr>has_header_nano := has_header_nano m \<or> x \<noteq> None,
     header_nano := (case x of None \<Rightarrow> header_nano m | Some h \<Rightarrow> h)\<rparr>"

definition upd_femto :: "cat240_video_header option \<Rightarrow> cat240_message \<Rightarrow> cat240_message" where
  "upd_femto x m = m\<lparr>has_header_femto := has_header_femto m \<or> x \<noteq> None,
     header_femto := (case x of None \<Rightarrow> header_femto m | Some h \<Rightarrow> h)\<rparr>"

definition upd_resolution ::
    "cat240_resolution_indicator option \<Rightarrow> cat240_message \<Rightarrow> cat240_message" where
  "upd_resolution x m = m\<lparr>has_resolution := has_resolution m \<or> x \<noteq> None,
     resolution_ind := (case x of None \<Rightarrow> resolution_ind m | Some r \<Rightarrow> r)\<rparr>"

lemma step_frn1:
  assumes "fits buf [fst x, snd x] s" and "f AND 0x80 \<noteq> 0"
  shows "frn1 buf f s = Next (advance (length [fst x, snd x]) (upd_source x) s)"
  using assms(2) at_Cons [OF fitsD [OF assms(1)]] fits_short [OF assms(1), of 2]
  by (auto simp: frn1_def read_u8_def advance_def upd_source_def dest!: at_Cons)

lemma step_frn2:
  assumes "fits buf [t] s" and "f AND 0x40 \<noteq> 0"
  shows "frn2 buf f s = Next (advance (length [t]) (upd_type t) s)"
  using assms(2) at_Cons [OF fitsD [OF assms(1)]] fits_short [OF assms(1), of 1]
  by (auto simp: frn2_def read_u8_def advance_def upd_type_def)

lemma step_frn3:
  assumes "fits buf (enc_opt bytes32 x) s" and "f AND 0x20 \<noteq> 0 \<longleftrightarrow> x \<noteq> None"
  shows "frn3 e buf f s = Next (advance (length (enc_opt bytes32 x)) (upd_index x) s)"
proof (cases x)
  case None
  then show ?thesis using assms by (simp add: frn3_def upd_index_def enc_opt_def)
next
  case (Some i)
  then have f: "fits buf (bytes32 i) s" using assms(1) by (simp add: enc_opt_def)
  show ?thesis
    using assms(2) Some fitsD [OF f] fits_short [OF f, of 4]
    by (simp add: frn3_def read_u32_at advance_def upd_index_def enc_opt_def)
qed

lemma terminated:
  "length d \<le> 255 \<Longrightarrow>
   (d @ drop (length d) (replicate 256 (0 :: u8)))[length d := 0] = d @ replicate (256 - length d) 0"
  by (intro nth_equalityI) (auto simp: nth_list_update nth_append)

lemma step_frn4:
  assumes "fits buf (enc_opt (enc_counted 1) x) s" and "f AND 0x10 \<noteq> 0 \<longleftrightarrow> x \<noteq> None"
    and "pred_option (\<lambda>d. length d \<le> 255) x"
    and "summary_text (summary (msg s)) = replicate 256 0"
  shows "frn4 buf f s = Next (advance (length (enc_opt (enc_counted 1) x)) (upd_summary x) s)"
proof (cases x)
  case None
  then show ?thesis using assms by (simp add: frn4_def upd_summary_def enc_opt_def)
next
  case (Some d)
  have f: "fits buf (of_nat (length d) # d) s"
    using assms(1) Some by (simp add: enc_opt_def enc_counted_def)
  note at = at_Cons [OF fitsD [OF f]]
  have n: "unat (of_nat (length d) :: u8) = length d" "length d \<le> 255"
    using assms(3) Some by (simp_all add: unat_of_nat_u8)
  then have u: "ucast (of_nat (length d) :: u8) = (of_nat (length d) :: u32)"
    by (simp add: word_unat_eq_iff unat_of_nat_u32)
  have r: "unat (remaining s - 1) = unat (remaining s) - 1" "1 + length d \<le> unat (remaining s)"
    using unat_advance [of 1 s] f by (simp_all add: fits_def)
  show ?thesis
    using assms(2,4) Some at n r u fits_short [OF f, of 1] at_take [of buf d "Suc (pos s)"]
      at_len [of buf d "Suc (pos s)"] terminated [OF n(2)]
    by (auto simp: frn4_def read_u8_def copy_bytes_def Let_def advance_def upd_summary_def
        enc_opt_def summary_of_def enc_counted_def word_less_nat_alt
        intro!: parse_state.equality cat240_message.equality cat240_video_summary.equality)
qed


lemma read_header_at:
  assumes f: "fits buf (enc_header h) s"
    and upd: "\<And>f g m. upd f (upd g m) = upd (f \<circ> g) m"
  shows "read_header e buf upd s = Next (advance (length (enc_header h)) (upd (\<lambda>_. h)) s)"
proof -
  have a: "at buf (bytes16 (start_az h) @ bytes16 (end_az h) @ bytes32 (start_rg h) @
     bytes32 (cell_dur h)) (pos s)"
    using fitsD [OF f] by (simp add: enc_header_def)
  note 1 = at_append1 [OF a] and a2 = at_append2 [OF a]
  note 2 = at_append1 [OF a2] and a3 = at_append2 [OF a2]
  note 3 = at_append1 [OF a3] and 4 = at_append2 [OF a3]
  have "cell_dur_update (\<lambda>_. cell_dur h) \<circ> (start_rg_update (\<lambda>_. start_rg h) \<circ>
      (end_az_update (\<lambda>_. end_az h) \<circ> start_az_update (\<lambda>_. start_az h))) = (\<lambda>_. h)"
    by auto
  then show ?thesis
    using 1 2 3 4
    by (simp add: read_header_def read_u16_at read_u32_at advance_def enc_header_def upd)
qed

lemma step_frn5:
  assumes "fits buf (enc_opt enc_header x) s" and "f AND 0x08 \<noteq> 0 \<longleftrightarrow> x \<noteq> None"
  shows "frn5 e buf f s = Next (advance (length (enc_opt enc_header x)) (upd_nano x) s)"
proof (cases x)
  case None
  then show ?thesis using assms by (simp add: frn5_def upd_nano_def enc_opt_def)
next
  case (Some h)
  then have f: "fits buf (enc_header h) s" using assms(1) by (simp add: enc_opt_def)
  let ?s = "msg_update (has_header_nano_update (\<lambda>_. True)) s"
  have "fits buf (enc_header h) ?s" using f by (simp add: fits_def)
  from read_header_at [OF this, of header_nano_update e] show ?thesis
    using assms(2) Some fits_short [OF f, of 12]
    by (simp add: frn5_def upd_nano_def enc_opt_def advance_def enc_header_def comp_def)
qed

lemma step_frn6:
  assumes "fits buf (enc_opt enc_header x) s" and "f AND 0x04 \<noteq> 0 \<longleftrightarrow> x \<noteq> None"
  shows "frn6 e buf f s = Next (advance (length (enc_opt enc_header x)) (upd_femto x) s)"
proof (cases x)
  case None
  then show ?thesis using assms by (simp add: frn6_def upd_femto_def enc_opt_def)
next
  case (Some h)
  then have f: "fits buf (enc_header h) s" using assms(1) by (simp add: enc_opt_def)
  let ?s = "msg_update (has_header_femto_update (\<lambda>_. True)) s"
  have "fits buf (enc_header h) ?s" using f by (simp add: fits_def)
  from read_header_at [OF this, of header_femto_update e] show ?thesis
    using assms(2) Some fits_short [OF f, of 12]
    by (simp add: frn6_def upd_femto_def enc_opt_def advance_def enc_header_def comp_def)
qed

lemma resolution_bits:
  fixes c :: "1 word" and r :: "7 word" and v :: u8
  defines "w \<equiv> be16 (push_bit 7 (ucast c) OR ucast r) v"
  shows "ucast (drop_bit 15 w AND 1) = c" "ucast (drop_bit 8 w AND 0x7F) = r"
    "ucast (w AND 0xFF) = v"
proof -
  have m: "(0x7F :: u16) = mask 7" "(0xFF :: u16) = mask 8" "(1 :: u16) = mask 1"
    by (simp_all add: mask_eq_exp_minus_1)
  show "ucast (drop_bit 15 w AND 1) = c"
    unfolding m by (rule bit_word_eqI) (auto simp: w_def be16_def bit_simps dest: bit_imp_le_length)
  show "ucast (drop_bit 8 w AND 0x7F) = r"
    unfolding m by (rule bit_word_eqI) (auto simp: w_def be16_def bit_simps dest: bit_imp_le_length)
  show "ucast (w AND 0xFF) = v"
    unfolding m by (rule bit_word_eqI) (auto simp: w_def be16_def bit_simps dest: bit_imp_le_length)
qed


definition upd_counters :: "cat240_counters option \<Rightarrow> cat240_message \<Rightarrow> cat240_message" where
  "upd_counters x m = m\<lparr>has_counters := has_counters m \<or> x \<noteq> None,
     counters := (case x of None \<Rightarrow> counters m | Some c \<Rightarrow> c)\<rparr>"

definition block_of :: "cat240_block_type \<Rightarrow> nat \<Rightarrow> u8 list \<Rightarrow> cat240_video_block" where
  "block_of ty p d = \<lparr>block_type = ty, block_rep = of_nat (length d div unit_of ty),
     block_data = Some (p + 1), data_bytes = of_nat (length d)\<rparr>"

definition upd_block ::
    "cat240_block_type \<Rightarrow> u8 list option \<Rightarrow> nat \<Rightarrow> cat240_message \<Rightarrow> cat240_message" where
  "upd_block ty x p m = m\<lparr>has_video_block := has_video_block m \<or> x \<noteq> None,
     video_block := (case x of None \<Rightarrow> video_block m | Some d \<Rightarrow> block_of ty p d)\<rparr>"

definition upd_time :: "u32 option \<Rightarrow> cat240_message \<Rightarrow> cat240_message" where
  "upd_time x m = m\<lparr>has_time := has_time m \<or> x \<noteq> None,
     time_of_day := (case x of None \<Rightarrow> time_of_day m | Some t \<Rightarrow> t)\<rparr>"

definition upd_re :: "u8 list option \<Rightarrow> cat240_message \<Rightarrow> cat240_message" where
  "upd_re x m = m\<lparr>has_re := has_re m \<or> x \<noteq> None,
     re_len := (case x of None \<Rightarrow> re_len m | Some d \<Rightarrow> of_nat (length d))\<rparr>"

definition upd_sp :: "u8 list option \<Rightarrow> cat240_message \<Rightarrow> cat240_message" where
  "upd_sp x m = m\<lparr>has_sp := has_sp m \<or> x \<noteq> None,
     sp_len := (case x of None \<Rightarrow> sp_len m | Some d \<Rightarrow> of_nat (length d))\<rparr>"

lemma step_frn7:
  assumes "fits buf (enc_opt enc_resolution x) s" and "f AND 0x02 \<noteq> 0 \<longleftrightarrow> x \<noteq> None"
  shows "frn7 e buf f s = Next (advance (length (enc_opt enc_resolution x)) (upd_resolution x) s)"
proof (cases x)
  case None
  then show ?thesis using assms by (simp add: frn7_def upd_resolution_def enc_opt_def)
next
  case (Some r)
  let ?h = "push_bit 7 (ucast (compression r)) OR ucast (reserved r) :: u8"
  have f: "fits buf [?h, resolution r] s"
    using assms(1) Some by (simp add: enc_opt_def enc_resolution_def)
  note a = at_Cons [OF fitsD [OF f]] and a2 = at_Cons [OF conjunct2 [OF conjunct2 [OF at_Cons [OF fitsD [OF f]]]]]
  have "read_u16 e buf (msg_update (has_resolution_update (\<lambda>_. True)) s) k =
     k (be16 ?h (resolution r)) ((msg_update (has_resolution_update (\<lambda>_. True)) s)\<lparr>pos := pos s + 2\<rparr>)" for k
    using a a2 by (simp add: read_u16_def)
  then show ?thesis
    using assms(2) Some fits_short [OF f, of 2]
    by (simp add: frn7_def upd_resolution_def enc_opt_def advance_def enc_resolution_def
        resolution_bits)
qed

lemma step_frn8:
  assumes "fits buf (enc_opt enc_counters x) s" and "f AND 0x80 \<noteq> 0 \<longleftrightarrow> x \<noteq> None"
    and "pred_option (\<lambda>c. take_bit 24 (nb_cells c) = nb_cells c) x"
  shows "frn8 e buf f s = Next (advance (length (enc_opt enc_counters x)) (upd_counters x) s)"
proof (cases x)
  case None
  then show ?thesis using assms by (simp add: frn8_def upd_counters_def enc_opt_def)
next
  case (Some c)
  then have f: "fits buf (bytes16 (nb_vb c) @ bytes24 (nb_cells c)) s"
    using assms(1) by (simp add: enc_opt_def enc_counters_def)
  show ?thesis
    using assms(2,3) Some at_append1 [OF fitsD [OF f]] at_append2 [OF fitsD [OF f]]
      fits_short [OF f, of 5]
    by (auto simp: frn8_def read_u16_at read_u24_at advance_def upd_counters_def enc_opt_def
        enc_counters_def intro!: parse_state.equality cat240_message.equality cat240_counters.equality)
qed

lemma step_video_block:
  assumes "fits buf (enc_counted (unit_of ty) d) s" and "unit_of ty dvd length d"
    and "length d \<le> 255 * unit_of ty" and "u = of_nat (unit_of ty)"
  shows "video_block_item buf ty u s =
    Next (advance (length (enc_counted (unit_of ty) d)) (upd_block ty (Some d) (pos s)) s)"
proof -
  let ?k = "length d div unit_of ty"
  have pos: "0 < unit_of ty" by (cases ty) simp_all
  then have "?k \<le> 255"
    using assms(3) by (metis div_le_mono nonzero_mult_div_cancel_right not_gr_zero)
  then have k: "unat (of_nat ?k :: u8) = ?k" by (simp add: unat_of_nat_u8)
  have f: "fits buf (of_nat ?k # d) s" using assms(1) by (simp add: enc_counted_def)
  note a = at_Cons [OF fitsD [OF f]]
  have bytes: "unat (ucast (of_nat ?k :: u8) * u) = length d"
    using assms(2,4) unat_block_bytes [of "of_nat ?k" ty] k by simp
  then have bytes': "ucast (of_nat ?k :: u8) * u = of_nat (length d)"
    using bytes unat_u32_less [of "ucast (of_nat ?k :: u8) * u"]
    by (simp only: word_unat_eq_iff) (simp add: unat_of_nat_u32)
  have r: "unat (remaining s - 1) = unat (remaining s) - 1" "1 + length d \<le> unat (remaining s)"
    using unat_advance [of 1 s] f by (simp_all add: fits_def)
  show ?thesis
    using a r bytes bytes' fits_short [OF f, of 1] at_len [of buf d "Suc (pos s)"]
    by (auto simp: video_block_item_def read_u8_def Let_def advance_def upd_block_def
        enc_counted_def block_of_def word_less_nat_alt
        intro!: parse_state.equality cat240_message.equality cat240_video_block.equality)
qed

lemma step_frn9:
  assumes "fits buf (enc_opt (enc_counted 4) x) s" and "f AND 0x40 \<noteq> 0 \<longleftrightarrow> x \<noteq> None"
    and "pred_option (\<lambda>d. 4 dvd length d \<and> length d \<le> 255 * 4) x"
  shows "frn9 buf f s =
    Next (advance (length (enc_opt (enc_counted 4) x)) (upd_block VIDEO_BLOCK_LOW x (pos s)) s)"
  using assms step_video_block [of buf VIDEO_BLOCK_LOW _ s 4]
  by (cases x) (auto simp: frn9_def enc_opt_def upd_block_def)

lemma step_frn10:
  assumes "fits buf (enc_opt (enc_counted 64) x) s" and "f AND 0x20 \<noteq> 0 \<longleftrightarrow> x \<noteq> None"
    and "pred_option (\<lambda>d. 64 dvd length d \<and> length d \<le> 255 * 64) x"
  shows "frn10 buf f s =
    Next (advance (length (enc_opt (enc_counted 64) x)) (upd_block VIDEO_BLOCK_MEDIUM x (pos s)) s)"
  using assms step_video_block [of buf VIDEO_BLOCK_MEDIUM _ s 64]
  by (cases x) (auto simp: frn10_def enc_opt_def upd_block_def)

lemma step_frn11:
  assumes "fits buf (enc_opt (enc_counted 256) x) s" and "f AND 0x10 \<noteq> 0 \<longleftrightarrow> x \<noteq> None"
    and "pred_option (\<lambda>d. 256 dvd length d \<and> length d \<le> 255 * 256) x"
  shows "frn11 buf f s =
    Next (advance (length (enc_opt (enc_counted 256) x)) (upd_block VIDEO_BLOCK_HIGH x (pos s)) s)"
  using assms step_video_block [of buf VIDEO_BLOCK_HIGH _ s 256]
  by (cases x) (auto simp: frn11_def enc_opt_def upd_block_def)

lemma step_frn12:
  assumes "fits buf (enc_opt bytes24 x) s" and "f AND 0x08 \<noteq> 0 \<longleftrightarrow> x \<noteq> None"
    and "pred_option (\<lambda>v. take_bit 24 v = v) x"
  shows "frn12 buf f s = Next (advance (length (enc_opt bytes24 x)) (upd_time x) s)"
proof (cases x)
  case None
  then show ?thesis using assms by (simp add: frn12_def upd_time_def enc_opt_def)
next
  case (Some i)
  then have f: "fits buf (bytes24 i) s" using assms(1) by (simp add: enc_opt_def)
  show ?thesis
    using assms(2,3) Some fitsD [OF f] fits_short [OF f, of 3]
    by (simp add: frn12_def read_u24_at advance_def upd_time_def enc_opt_def)
qed

lemma step_skip:
  assumes "fits buf (enc_counted 1 d) s" and "length d \<le> 255"
    and "\<And>m. set_len (of_nat (length d)) (mark m) = u m"
  shows "skip_item buf mark set_len s = Next (advance (length (enc_counted 1 d)) u s)"
proof -
  have f: "fits buf (of_nat (length d) # d) s"
    using assms(1) by (simp add: enc_counted_def)
  note a = at_Cons [OF fitsD [OF f]]
  have n: "unat (of_nat (length d) :: u8) = length d"
    using assms(2) by (simp add: unat_of_nat_u8)
  then have u: "ucast (of_nat (length d) :: u8) = (of_nat (length d) :: u32)"
    using assms(2) by (simp add: word_unat_eq_iff unat_of_nat_u32)
  have r: "unat (remaining s - 1) = unat (remaining s) - 1" "1 + length d \<le> unat (remaining s)"
    using unat_advance [of 1 s] f by (simp_all add: fits_def)
  have "unat (of_nat (length d) :: u32) = length d"
    using assms(2) by (simp add: unat_of_nat_u32)
  then show ?thesis
    using a n r u assms(3) fits_short [OF f, of 1]
    by (auto simp: skip_item_def read_u8_def Let_def advance_def enc_counted_def
        word_less_nat_alt intro!: parse_state.equality)
qed

lemma step_frn13:
  assumes "fits buf (enc_opt (enc_counted 1) x) s" and "f AND 0x04 \<noteq> 0 \<longleftrightarrow> x \<noteq> None"
    and "pred_option (\<lambda>d. length d \<le> 255) x"
  shows "frn13 buf f s = Next (advance (length (enc_opt (enc_counted 1) x)) (upd_re x) s)"
proof (cases x)
  case None
  then show ?thesis using assms by (simp add: frn13_def upd_re_def enc_opt_def)
next
  case (Some d)
  then show ?thesis
    using assms step_skip [of buf d s "\<lambda>n. re_len_update (\<lambda>_. n)" "has_re_update (\<lambda>_. True)" "upd_re x"]
    by (auto simp: frn13_def enc_opt_def upd_re_def)
qed

lemma step_frn14:
  assumes "fits buf (enc_opt (enc_counted 1) x) s" and "f AND 0x02 \<noteq> 0 \<longleftrightarrow> x \<noteq> None"
    and "pred_option (\<lambda>d. length d \<le> 255) x"
  shows "frn14 buf f s = Next (advance (length (enc_opt (enc_counted 1) x)) (upd_sp x) s)"
proof (cases x)
  case None
  then show ?thesis using assms by (simp add: frn14_def upd_sp_def enc_opt_def)
next
  case (Some d)
  then show ?thesis
    using assms step_skip [of buf d s "\<lambda>n. sp_len_update (\<lambda>_. n)" "has_sp_update (\<lambda>_. True)" "upd_sp x"]
    by (auto simp: frn14_def enc_opt_def upd_sp_def)
qed


subsection \<open>The whole block\<close>

text \<open>Where the second group of items starts, and where each video block would stand.\<close>

definition body_start :: "cat240_items \<Rightarrow> nat" where
  "body_start it = 3 + (if has_second it then 2 else 1)"

definition pos_low :: "cat240_items \<Rightarrow> nat" where
  "pos_low it = body_start it + length (enc_first it) +
     length (enc_opt enc_counters (i_counters it))"

definition pos_medium :: "cat240_items \<Rightarrow> nat" where
  "pos_medium it = pos_low it + length (enc_opt (enc_counted 4) (i_low it))"

definition pos_high :: "cat240_items \<Rightarrow> nat" where
  "pos_high it = pos_medium it + length (enc_opt (enc_counted 64) (i_medium it))"

text \<open>The message the contents stand for: the last video block present is the one kept.\<close>

definition decoded :: "cat240_items \<Rightarrow> cat240_message" where
  "decoded it =
    \<lparr>data_source = \<lparr>sac = fst (i_source it), sic = snd (i_source it)\<rparr>,
     message_type = i_type it,
     has_video_header = (i_index it \<noteq> None),
     msg_index = (case i_index it of None \<Rightarrow> 0 | Some i \<Rightarrow> i),
     has_summary = (i_summary it \<noteq> None),
     summary = (case i_summary it of None \<Rightarrow> summary zero_message | Some d \<Rightarrow> summary_of d),
     has_header_nano = (i_nano it \<noteq> None),
     header_nano = (case i_nano it of None \<Rightarrow> zero_header | Some h \<Rightarrow> h),
     has_header_femto = (i_femto it \<noteq> None),
     header_femto = (case i_femto it of None \<Rightarrow> zero_header | Some h \<Rightarrow> h),
     has_resolution = (i_resolution it \<noteq> None),
     resolution_ind = (case i_resolution it of None \<Rightarrow> resolution_ind zero_message | Some r \<Rightarrow> r),
     has_counters = (i_counters it \<noteq> None),
     counters = (case i_counters it of None \<Rightarrow> counters zero_message | Some c \<Rightarrow> c),
     has_video_block = (i_low it \<noteq> None \<or> i_medium it \<noteq> None \<or> i_high it \<noteq> None),
     video_block =
       (case i_high it of Some d \<Rightarrow> block_of VIDEO_BLOCK_HIGH (pos_high it) d
        | None \<Rightarrow> (case i_medium it of Some d \<Rightarrow> block_of VIDEO_BLOCK_MEDIUM (pos_medium it) d
        | None \<Rightarrow> (case i_low it of Some d \<Rightarrow> block_of VIDEO_BLOCK_LOW (pos_low it) d
        | None \<Rightarrow> video_block zero_message))),
     has_time = (i_time it \<noteq> None),
     time_of_day = (case i_time it of None \<Rightarrow> 0 | Some t \<Rightarrow> t),
     check_sum = 0,
     has_re = (i_re it \<noteq> None),
     re_len = (case i_re it of None \<Rightarrow> 0 | Some d \<Rightarrow> of_nat (length d)),
     has_sp = (i_sp it \<noteq> None),
     sp_len = (case i_sp it of None \<Rightarrow> 0 | Some d \<Rightarrow> of_nat (length d))\<rparr>"

definition upd_first :: "cat240_items \<Rightarrow> cat240_message \<Rightarrow> cat240_message" where
  "upd_first it m = upd_resolution (i_resolution it) (upd_femto (i_femto it) (upd_nano (i_nano it)
     (upd_summary (i_summary it) (upd_index (i_index it) (upd_type (i_type it)
     (upd_source (i_source it) m))))))"

definition upd_second :: "cat240_items \<Rightarrow> nat \<Rightarrow> cat240_message \<Rightarrow> cat240_message" where
  "upd_second it p m =
    (let p9 = p + length (enc_opt enc_counters (i_counters it));
         p10 = p9 + length (enc_opt (enc_counted 4) (i_low it));
         p11 = p10 + length (enc_opt (enc_counted 64) (i_medium it)) in
     upd_sp (i_sp it) (upd_re (i_re it) (upd_time (i_time it)
       (upd_block VIDEO_BLOCK_HIGH (i_high it) p11 (upd_block VIDEO_BLOCK_MEDIUM (i_medium it) p10
       (upd_block VIDEO_BLOCK_LOW (i_low it) p9 (upd_counters (i_counters it) m)))))))"

lemma advance_advance: "advance n u (advance k v s) = advance (k + n) (u \<circ> v) s"
  by (simp add: advance_def)

lemma advance_sel [simp]:
  "pos (advance n u s) = pos s + n" "msg (advance n u s) = u (msg s)"
  by (simp_all add: advance_def)

lemma step_first:
  assumes "fits buf (enc_first it) s" and "wf_items it"
    and "summary_text (summary (msg s)) = replicate 256 0"
  shows "first_items e buf (fspec1_of it) s = Next (advance (length (enc_first it)) (upd_first it) s)"
proof -
  note f1 = assms(1) [unfolded enc_first_def]
  note f2 = fits_advance [OF f1]
  note f3 = fits_advance [OF f2]
  note f4 = fits_advance [OF f3]
  note f5 = fits_advance [OF f4]
  note f6 = fits_advance [OF f5]
  note f7 = fits_advance [OF f6]
  have wf: "pred_option (\<lambda>d. length d \<le> 255) (i_summary it)"
    using assms(2) by (simp add: wf_items_def)
  have empty: "summary_text (summary (msg (advance k (upd_index i) (advance n (upd_type t)
      (advance l (upd_source x) s))))) = replicate 256 0" for k i n t l x
    using assms(3) by (simp add: upd_index_def upd_type_def upd_source_def)
  have flags: "fspec1_of it AND 0x80 \<noteq> 0" "fspec1_of it AND 0x40 \<noteq> 0"
    "fspec1_of it AND 0x20 \<noteq> 0 \<longleftrightarrow> i_index it \<noteq> None"
    "fspec1_of it AND 0x10 \<noteq> 0 \<longleftrightarrow> i_summary it \<noteq> None"
    "fspec1_of it AND 0x08 \<noteq> 0 \<longleftrightarrow> i_nano it \<noteq> None"
    "fspec1_of it AND 0x04 \<noteq> 0 \<longleftrightarrow> i_femto it \<noteq> None"
    "fspec1_of it AND 0x02 \<noteq> 0 \<longleftrightarrow> i_resolution it \<noteq> None"
    by (simp_all add: and_flag)
  show ?thesis
    unfolding first_items_def
    by (simp only: andthen.simps step_frn1 [OF fits_appendD1 [OF f1] flags(1)]
        step_frn2 [OF fits_appendD1 [OF f2] flags(2)] step_frn3 [OF fits_appendD1 [OF f3] flags(3)]
        step_frn4 [OF fits_appendD1 [OF f4] flags(4) wf empty]
        step_frn5 [OF fits_appendD1 [OF f5] flags(5)] step_frn6 [OF fits_appendD1 [OF f6] flags(6)]
        step_frn7 [OF f7 flags(7)])
      (simp add: advance_def enc_first_def upd_first_def)
qed


lemma step_second:
  assumes "fits buf (enc_second it) s" and "wf_items it"
  shows "second_items e buf (fspec2_of it) s =
    Next (advance (length (enc_second it)) (upd_second it (pos s)) s)"
proof -
  note f1 = assms(1) [unfolded enc_second_def]
  note f2 = fits_advance [OF f1]
  note f3 = fits_advance [OF f2]
  note f4 = fits_advance [OF f3]
  note f5 = fits_advance [OF f4]
  note f6 = fits_advance [OF f5]
  note f7 = fits_advance [OF f6]
  have wf: "pred_option (\<lambda>c. take_bit 24 (nb_cells c) = nb_cells c) (i_counters it)"
    "pred_option (\<lambda>d. 4 dvd length d \<and> length d \<le> 255 * 4) (i_low it)"
    "pred_option (\<lambda>d. 64 dvd length d \<and> length d \<le> 255 * 64) (i_medium it)"
    "pred_option (\<lambda>d. 256 dvd length d \<and> length d \<le> 255 * 256) (i_high it)"
    "pred_option (\<lambda>v. take_bit 24 v = v) (i_time it)"
    "pred_option (\<lambda>d. length d \<le> 255) (i_re it)"
    "pred_option (\<lambda>d. length d \<le> 255) (i_sp it)"
    using assms(2) by (simp_all only: wf_items_def)
  have flags: "fspec2_of it AND 0x80 \<noteq> 0 \<longleftrightarrow> i_counters it \<noteq> None"
    "fspec2_of it AND 0x40 \<noteq> 0 \<longleftrightarrow> i_low it \<noteq> None"
    "fspec2_of it AND 0x20 \<noteq> 0 \<longleftrightarrow> i_medium it \<noteq> None"
    "fspec2_of it AND 0x10 \<noteq> 0 \<longleftrightarrow> i_high it \<noteq> None"
    "fspec2_of it AND 0x08 \<noteq> 0 \<longleftrightarrow> i_time it \<noteq> None"
    "fspec2_of it AND 0x04 \<noteq> 0 \<longleftrightarrow> i_re it \<noteq> None"
    "fspec2_of it AND 0x02 \<noteq> 0 \<longleftrightarrow> i_sp it \<noteq> None"
    by (simp_all add: and_flag)
  show ?thesis
    unfolding second_items_def
    by (simp only: andthen.simps step_frn8 [OF fits_appendD1 [OF f1] flags(1) wf(1)]
        step_frn9 [OF fits_appendD1 [OF f2] flags(2) wf(2)]
        step_frn10 [OF fits_appendD1 [OF f3] flags(3) wf(3)]
        step_frn11 [OF fits_appendD1 [OF f4] flags(4) wf(4)]
        step_frn12 [OF fits_appendD1 [OF f5] flags(5) wf(5)]
        step_frn13 [OF fits_appendD1 [OF f6] flags(6) wf(6)]
        step_frn14 [OF f7 flags(7) wf(7)])
      (simp add: advance_def enc_second_def upd_second_def Let_def add.assoc)
qed


lemma decoded_eq:
  "upd_second it (body_start it + length (enc_first it)) (upd_first it zero_message) = decoded it"
  by (simp add: upd_second_def upd_first_def decoded_def upd_source_def upd_type_def upd_index_def
      upd_summary_def upd_nano_def upd_femto_def upd_resolution_def upd_counters_def upd_block_def
      upd_time_def upd_re_def upd_sp_def zero_message_def Let_def pos_low_def pos_medium_def
      pos_high_def add.assoc cong: option.case_cong)

lemma no_second: "\<not> has_second it \<Longrightarrow> enc_second it = [] \<and> upd_second it p m = m"
  by (auto simp: has_second_def enc_second_def enc_opt_def upd_second_def upd_counters_def
      upd_block_def upd_time_def upd_re_def upd_sp_def Let_def)


lemma parse_items_encoded:
  assumes f: "fits buf (enc_first it @ enc_second it) (s\<lparr>msg := zero_message\<rparr>)"
    and "wf_items it" and "pos s = body_start it"
  shows "parse_items e buf (fspec1_of it) (has_second it) (fspec2_of it) s =
    Return True (advance (length (enc_first it @ enc_second it)) (\<lambda>_. decoded it) s)"
proof -
  let ?z = "s\<lparr>msg := zero_message\<rparr>"
  let ?t = "advance (length (enc_first it)) (upd_first it) ?z"
  have first: "first_items e buf (fspec1_of it) ?z = Next ?t"
    using step_first [OF fits_appendD1 [OF f] assms(2), of e] by (simp add: zero_message_def)
  have "(if has_second it then second_items e buf (fspec2_of it) ?t else Next ?t) =
    Next (advance (length (enc_second it)) (upd_second it (pos ?t)) ?t)"
    using step_second [OF fits_advance [OF f] assms(2), of e "upd_first it"] no_second [of it]
    by auto
  then have "parse_items e buf (fspec1_of it) (has_second it) (fspec2_of it) s =
    Return True (advance (length (enc_second it)) (upd_second it (pos ?t)) ?t)"
    by (simp add: parse_items_def first)
  then show ?thesis
    using assms(3) decoded_eq [of it] by (simp add: advance_def)
qed

lemma parse_fspec_encoded:
  assumes f: "fits buf (enc_body it) s" and wf: "wf_items it" and p: "pos s = 3"
  shows "parse_fspec e buf s = Return True (advance (length (enc_body it)) (\<lambda>_. decoded it) s)"
proof (cases "has_second it")
  case True
  then have f2: "fits buf ([fspec1_of it, fspec2_of it] @ enc_first it @ enc_second it) s"
    using f by (simp add: enc_body_def)
  let ?t = "advance 2 (\<lambda>m. m) s"
  have "fits buf (enc_first it @ enc_second it) (?t\<lparr>msg := zero_message\<rparr>)"
    using fits_advance [OF f2, of "\<lambda>m. m"] by (simp add: fits_def advance_def)
  then have items: "parse_items e buf (fspec1_of it) True (fspec2_of it) ?t =
      Return True (advance (length (enc_first it @ enc_second it)) (\<lambda>_. decoded it) ?t)"
    using parse_items_encoded [of buf it ?t e] wf p True by (simp add: body_start_def)
  have rem: "remaining s - 1 \<noteq> 0"
    using unat_advance [of 1 s] f2 by (auto simp: fits_def)
  have a: "at buf (fspec1_of it # fspec2_of it # enc_first it @ enc_second it) (pos s)"
    using fitsD [OF f2] by simp
  then have b: "pos s < length buf" "buf ! pos s = fspec1_of it"
    "Suc (pos s) < length buf" "buf ! Suc (pos s) = fspec2_of it"
    by (blast dest: at_Cons)+
  have t: "s\<lparr>pos := Suc (Suc (pos s)), remaining := remaining s - 1 - 1\<rparr> = ?t"
    by (simp add: advance_def)
  have "parse_fspec e buf s = parse_items e buf (fspec1_of it) True (fspec2_of it) ?t"
    unfolding t [symmetric] using b True rem
    by (simp add: parse_fspec_def Let_def read_u8_def and_flag)
  then show ?thesis
    using items True by (simp add: enc_body_def advance_advance comp_def)
next
  case False
  then have f2: "fits buf ([fspec1_of it] @ enc_first it @ enc_second it) s"
    using f by (simp add: enc_body_def)
  let ?t = "advance 1 (\<lambda>m. m) s"
  have "fits buf (enc_first it @ enc_second it) (?t\<lparr>msg := zero_message\<rparr>)"
    using fits_advance [OF f2, of "\<lambda>m. m"] by (simp add: fits_def advance_def)
  then have items: "parse_items e buf (fspec1_of it) False (fspec2_of it) ?t =
      Return True (advance (length (enc_first it @ enc_second it)) (\<lambda>_. decoded it) ?t)"
    using parse_items_encoded [of buf it ?t e] wf p False by (simp add: body_start_def)
  then have "parse_items e buf (fspec1_of it) False 0 ?t =
      Return True (advance (length (enc_first it @ enc_second it)) (\<lambda>_. decoded it) ?t)"
    by (simp add: parse_items_def)
  moreover have t: "s\<lparr>pos := Suc (pos s), remaining := remaining s - 1\<rparr> = ?t"
    by (simp add: advance_def)
  moreover have a: "at buf (fspec1_of it # enc_first it @ enc_second it) (pos s)"
    using fitsD [OF f2] by simp
  moreover have "parse_fspec e buf s = parse_items e buf (fspec1_of it) False 0 ?t"
    unfolding t [symmetric] using at_Cons [OF a] False
    by (simp add: parse_fspec_def Let_def read_u8_def and_flag)
  ultimately show ?thesis
    using False by (simp add: enc_body_def advance_advance comp_def)
qed

text \<open>
  C6: Round trip. For every well-formed contents of a block (any combination of the optional
  items, any following bytes in memory), the parser applied to its encoding accepts, consumes
  exactly the encoding, and leaves the message the contents stand for, the rest of the
  message being zero.
\<close>

theorem parse_encode:
  assumes "wf_items it" and "length (encode it) \<le> unat data_len"
  shows "\<exists>s. parse_cat240 e (encode it @ rest) data_len m = Return True s \<and> msg s = decoded it \<and>
    pos s = length (encode it) \<and> remaining s = 0"
proof -
  define buf where "buf = encode it @ rest"
  define L where "L = length (encode it)"
  have L: "L < 65536" using assms(1) by (simp add: L_def wf_items_def)
  have L3: "3 + length (enc_body it) = L" "4 < L"
    by (auto simp: L_def encode_def enc_body_def enc_first_def)
  have hdr: "buf ! 0 = 240" "be16 (buf ! 1) (buf ! 2) = of_nat L"
    using L3(1) by (simp_all add: buf_def encode_def bytes16_def be16_bytes16)
  have len: "unat (of_nat L :: u16) = L" using L by (simp add: unat_of_nat_u16)
  have dl: "\<not> data_len < 3" "\<not> data_len < ucast (of_nat L :: u16)" "\<not> (of_nat L :: u16) < 3"
    using assms(2) L3(2) len by (auto simp: L_def [symmetric] word_less_nat_alt)
  let ?s = "\<lparr>pos = 3, remaining = ucast (of_nat L :: u16) - 3, msg = m\<rparr>"
  have rem: "unat (ucast (of_nat L :: u16) - 3 :: u32) = length (enc_body it)"
    using L3 len by (subst unat_sub_le) (auto simp: word_less_nat_alt)
  have fit: "fits buf (enc_body it) ?s"
    using rem L3(1) by (auto simp: fits_def at_def buf_def encode_def)
  have "parse_fspec e buf ?s =
    Return True (advance (length (enc_body it)) (\<lambda>_. decoded it) ?s)"
    by (rule parse_fspec_encoded [OF fit assms(1)]) simp
  moreover have "unat (remaining ?s - of_nat (length (enc_body it))) = 0"
    using rem by (subst unat_advance) simp_all
  then have "remaining ?s - of_nat (length (enc_body it)) = 0"
    by (simp only: unat_eq_zero)
  moreover have "parse_cat240 e buf data_len m = parse_fspec e buf ?s"
    using parse_cat240_header [OF dl(1), of buf e m] dl hdr L3(2) by (simp add: buf_def L_def)
  ultimately show ?thesis
    using L3(1) by (simp add: advance_def flip: buf_def L_def)
qed

definition sample_items :: cat240_items where
  "sample_items = \<lparr>i_source = (25, 7), i_type = 2, i_index = Some 0x01020304,
     i_summary = Some [0x52, 0x31], i_nano = None, i_femto = None, i_resolution = None,
     i_counters = None, i_low = Some [1, 2, 3, 4], i_medium = None, i_high = None,
     i_time = Some 0xABCDEF, i_re = None, i_sp = Some []\<rparr>"

theorem parse_encode_witness:
  "wf_items sample_items \<and> length (encode sample_items) \<le> unat (100 :: u32) \<and>
   (\<exists>s. parse_cat240 Little (encode sample_items @ []) 100 zero_message = Return True s \<and>
      msg s = decoded sample_items \<and> pos s = length (encode sample_items) \<and> remaining s = 0)"
proof -
  have l: "length (encode sample_items) = 24"
    by (simp add: encode_def enc_body_def enc_first_def enc_second_def enc_opt_def
        enc_counted_def sample_items_def has_second_def)
  have four: "4 dvd Suc (Suc (Suc (Suc 0)))" by presburger
  have w: "wf_items sample_items"
    using l four by (simp add: wf_items_def) (simp add: sample_items_def take_bit_eq_mask mask_eq_exp_minus_1)
  have d: "length (encode sample_items) \<le> unat (100 :: u32)"
    using l by simp
  show ?thesis using w d parse_encode [OF w d, of Little "[]" zero_message] by blast
qed

end
