(* ===== verification/Pbuf.thy ===== *)
theory Pbuf
  imports Prelude
begin

text \<open>
  The packet buffers of lwIP (\<open>core/pbuf.c\<close>, \<open>include/lwip/pbuf.h\<close>). The memory maps the
  address of every allocated \<open>struct pbuf\<close> to its fields; the bytes behind it are
  \<open>storage\<close>, and the pointer \<open>payload\<close> is an offset into them. The two fixed-size pools
  (\<open>MEMP_PBUF_POOL\<close>, \<open>MEMP_PBUF\<close>) are stacks of free blocks, a block of the first with the
  bytes it last held. A pointer to a released block is dangling, and reading through it is the
  fault \<open>Use_after_free\<close>. The port defines \<open>LWIP_PLATFORM_ASSERT\<close> as empty, so
  \<open>LWIP_ASSERT\<close> checks nothing here either. A loop along the chain is \<open>None\<close> when it
  never ends.
\<close>

unbundle bit_operations_syntax

section \<open>The structure and the memory\<close>

type_synonym addr = nat

record pbuf =
  next_pbuf :: "addr option"
  storage :: "u8 list"
  payload :: nat
  tot_len :: u16
  len :: u16
  type_internal :: u8
  flags :: u8
  ref :: u8
  if_idx :: u8

record pmem =
  cells :: "addr \<rightharpoonup> pbuf"
  pool_free :: "(addr \<times> u8 list) list"
  refs_free :: "addr list"

text \<open>The types a \<open>pbuf\<close> can have, as the low byte kept in \<open>type_internal\<close>.\<close>

datatype pbuf_type = PBUF_RAM | PBUF_ROM | PBUF_REF | PBUF_POOL

fun type_bits :: "pbuf_type \<Rightarrow> u16" where
  "type_bits PBUF_RAM = 0x0280"
| "type_bits PBUF_ROM = 0x0001"
| "type_bits PBUF_REF = 0x0041"
| "type_bits PBUF_POOL = 0x0182"

definition pbuf_get_allocsrc :: "pbuf \<Rightarrow> u8" where
  "pbuf_get_allocsrc b = type_internal b AND 0x0F"

abbreviation is_custom :: "pbuf \<Rightarrow> bool" where
  "is_custom b \<equiv> flags b AND 0x02 \<noteq> 0"

text \<open>Reading the fields behind a pointer.\<close>

definition cell :: "pmem \<Rightarrow> addr option \<Rightarrow> pbuf result" where
  "cell m p = (case p of None \<Rightarrow> Inl Null_pointer
     | Some a \<Rightarrow> (case cells m a of None \<Rightarrow> Inl Use_after_free | Some b \<Rightarrow> Inr b))"

definition put :: "addr \<Rightarrow> pbuf \<Rightarrow> pmem \<Rightarrow> pmem" where
  "put a b m = m\<lparr>cells := (cells m)(a \<mapsto> b)\<rparr>"

text \<open>The byte \<open>((u8_t *)p->payload)[i]\<close>.\<close>

definition payload_byte :: "pbuf \<Rightarrow> nat \<Rightarrow> u8 result" where
  "payload_byte b i = rd (storage b) (payload b + i)"

definition payload_write :: "pbuf \<Rightarrow> nat \<Rightarrow> u8 list \<Rightarrow> pbuf result" where
  "payload_write b i bs =
    (if payload b + i + length bs \<le> length (storage b)
     then Inr (b\<lparr>storage := take (payload b + i) (storage b) @ bs @
                 drop (payload b + i + length bs) (storage b)\<rparr>)
     else Inl Out_of_bounds)"

section \<open>Allocation\<close>

definition LWIP_MEM_ALIGN_SIZE :: "nat \<Rightarrow> nat" where
  "LWIP_MEM_ALIGN_SIZE n = (n + 63) div 64 * 64"

definition PBUF_POOL_BUFSIZE_ALIGNED :: nat where
  "PBUF_POOL_BUFSIZE_ALIGNED = LWIP_MEM_ALIGN_SIZE 1700"

definition pbuf_init_alloced_pbuf ::
    "u8 list \<Rightarrow> nat \<Rightarrow> u16 \<Rightarrow> u16 \<Rightarrow> pbuf_type \<Rightarrow> u8 \<Rightarrow> pbuf" where
  "pbuf_init_alloced_pbuf st pl tot l ty fl =
    \<lparr>next_pbuf = None, storage = st, payload = pl, tot_len = tot, len = l,
     type_internal = ucast (type_bits ty), flags = fl, ref = 1, if_idx = 0\<rparr>"

text \<open>\<open>memp_malloc(MEMP_PBUF)\<close> and \<open>pbuf_alloc_reference\<close>: the payload is memory of the caller.\<close>

definition pbuf_alloc_reference ::
    "u8 list \<Rightarrow> u16 \<Rightarrow> pbuf_type \<Rightarrow> pmem \<Rightarrow> addr option \<times> pmem" where
  "pbuf_alloc_reference mem n ty m =
    (case refs_free m of
       [] \<Rightarrow> (None, m)
     | a # fs \<Rightarrow> (Some a, put a (pbuf_init_alloced_pbuf mem 0 n n ty 0) (m\<lparr>refs_free := fs\<rparr>)))"

text \<open>
  \<open>pbuf_alloc\<close> from the pool. One iteration of its loop takes a block; \<open>p\<close> is the head of the
  chain so far, \<open>prev\<close> (\<open>last\<close> in C) its last block. The loop returns \<open>None\<close> for the head when the pool is
  exhausted; the caller then frees what it has. The recursion is on the free blocks.
\<close>

fun pool_loop ::
    "(addr \<times> u8 list) list \<Rightarrow> addr option \<Rightarrow> addr option \<Rightarrow> nat \<Rightarrow> u16 \<Rightarrow> pmem \<Rightarrow> bool \<times> addr option \<times> pmem"
where
  "pool_loop [] p prev offset rem_len m = (False, p, m\<lparr>pool_free := []\<rparr>)"
| "pool_loop ((q, junk) # fs) p prev offset rem_len m =
    (let qlen = min rem_len (of_nat (PBUF_POOL_BUFSIZE_ALIGNED - LWIP_MEM_ALIGN_SIZE offset));
         b = pbuf_init_alloced_pbuf junk (LWIP_MEM_ALIGN_SIZE offset) rem_len qlen PBUF_POOL 0;
         m = put q b m;
         p' = (case p of None \<Rightarrow> Some q | Some a \<Rightarrow> Some a);
         m = (case prev of None \<Rightarrow> m | Some l \<Rightarrow>
               m\<lparr>cells := (cells m)(l := map_option (\<lambda>c. c\<lparr>next_pbuf := Some q\<rparr>) (cells m l))\<rparr>);
         rem_len = rem_len - qlen in
     if 0 < rem_len then pool_loop fs p' (Some q) 0 rem_len m
     else (True, p', m\<lparr>pool_free := fs\<rparr>))"

section \<open>Release\<close>

text \<open>
  \<open>memp_free\<close> or \<open>mem_free\<close> of the block, or the custom function of a custom
  \<open>pbuf\<close>, which is code of the caller. The heap of \<open>PBUF_RAM\<close> blocks is not modelled further.
  A block of any other type is not released at all: only an assertion objects.
\<close>

definition release :: "(addr \<Rightarrow> pmem \<Rightarrow> pmem result) \<Rightarrow> addr \<Rightarrow> pbuf \<Rightarrow> pmem \<Rightarrow> pmem result" where
  "release custom_free a b m =
    (let alloc_src = pbuf_get_allocsrc b in
     if is_custom b then custom_free a m
     else if alloc_src = 2 then
       Inr (m\<lparr>cells := (cells m)(a := None), pool_free := (a, storage b) # pool_free m\<rparr>)
     else if alloc_src = 1 then
       Inr (m\<lparr>cells := (cells m)(a := None), refs_free := a # refs_free m\<rparr>)
     else if alloc_src = 0 then Inr (m\<lparr>cells := (cells m)(a := None)\<rparr>)
     else Inr m)"

partial_function (option) pbuf_free_loop ::
    "(addr \<Rightarrow> pmem \<Rightarrow> pmem result) \<Rightarrow> addr option \<Rightarrow> u8 \<Rightarrow> pmem \<Rightarrow> (u8 \<times> pmem) run" where
  "pbuf_free_loop custom_free p n m =
    (case p of None \<Rightarrow> Some (Inr (n, m)) | Some a \<Rightarrow>
      (case cells m a of None \<Rightarrow> Some (Inl Use_after_free) | Some b \<Rightarrow>
        let r = ref b - 1; b = b\<lparr>ref := r\<rparr>; m = put a b m in
        if r = 0 then
          (case release custom_free a b m of
             Inl e \<Rightarrow> Some (Inl e)
           | Inr m \<Rightarrow> pbuf_free_loop custom_free (next_pbuf b) (n + 1) m)
        else Some (Inr (n, m))))"

definition pbuf_free ::
    "(addr \<Rightarrow> pmem \<Rightarrow> pmem result) \<Rightarrow> addr option \<Rightarrow> pmem \<Rightarrow> (u8 \<times> pmem) run" where
  "pbuf_free custom_free p m =
    (if p = None then ret (0, m) else pbuf_free_loop custom_free p 0 m)"

definition pbuf_ref :: "addr option \<Rightarrow> pmem \<Rightarrow> pmem result" where
  "pbuf_ref p m = (case p of None \<Rightarrow> Inr m
     | Some a \<Rightarrow> bindr (cell m p) (\<lambda>b. Inr (put a (b\<lparr>ref := ref b + 1\<rparr>) m)))"

text \<open>\<open>pbuf_alloc(layer, length, PBUF_POOL)\<close>.\<close>

definition pbuf_alloc_pool ::
    "(addr \<Rightarrow> pmem \<Rightarrow> pmem result) \<Rightarrow> nat \<Rightarrow> u16 \<Rightarrow> pmem \<Rightarrow> (addr option \<times> pmem) run" where
  "pbuf_alloc_pool custom_free layer n m =
    (case pool_loop (pool_free m) None None layer n m of
       (True, p, m) \<Rightarrow> ret (p, m)
     | (False, p, m) \<Rightarrow>
         (if p = None then ret (None, m)
          else bindl (pbuf_free custom_free p m) (\<lambda>(_, m). ret (None, m))))"

section \<open>Headers\<close>

definition pbuf_add_header_impl ::
    "addr option \<Rightarrow> size_t \<Rightarrow> bool \<Rightarrow> pmem \<Rightarrow> (bool \<times> pmem) result" where
  "pbuf_add_header_impl p inc force m =
    (if p = None \<or> 0xFFFF < inc then Inr (True, m)
     else if inc = 0 then Inr (False, m)
     else bindr (cell m p) (\<lambda>b.
       let magnitude = ucast inc :: u16 in
       if magnitude + tot_len b < magnitude then Inr (True, m)
       else if type_internal b AND 0x80 \<noteq> 0 \<and> payload b < unat inc then Inr (True, m)
       else if type_internal b AND 0x80 = 0 \<and> \<not> force then Inr (True, m)
       else if payload b < unat inc then Inl Out_of_bounds
       else Inr (False, put (the p) (b\<lparr>payload := payload b - unat inc, len := len b + magnitude,
                                     tot_len := tot_len b + magnitude\<rparr>) m)))"

definition pbuf_add_header :: "addr option \<Rightarrow> size_t \<Rightarrow> pmem \<Rightarrow> (bool \<times> pmem) result" where
  "pbuf_add_header p inc m = pbuf_add_header_impl p inc False m"

definition pbuf_add_header_force :: "addr option \<Rightarrow> size_t \<Rightarrow> pmem \<Rightarrow> (bool \<times> pmem) result" where
  "pbuf_add_header_force p inc m = pbuf_add_header_impl p inc True m"

definition pbuf_remove_header :: "addr option \<Rightarrow> size_t \<Rightarrow> pmem \<Rightarrow> (bool \<times> pmem) result" where
  "pbuf_remove_header p dec m =
    (if p = None \<or> 0xFFFF < dec then Inr (True, m)
     else if dec = 0 then Inr (False, m)
     else bindr (cell m p) (\<lambda>b.
       let magnitude = ucast dec :: u16 in
       if len b < magnitude then Inr (True, m)
       else Inr (False, put (the p) (b\<lparr>payload := payload b + unat dec, len := len b - magnitude,
                                     tot_len := tot_len b - magnitude\<rparr>) m)))"

text \<open>\<open>header_size_increment\<close> is an \<open>s16_t\<close>; \<open>(size_t) - x\<close> negates it as an \<open>int\<close>.\<close>

definition pbuf_header_impl :: "addr option \<Rightarrow> u16 \<Rightarrow> bool \<Rightarrow> pmem \<Rightarrow> (bool \<times> pmem) result" where
  "pbuf_header_impl p inc force m =
    (if sint inc < 0 then pbuf_remove_header p (word_of_int (- sint inc)) m
     else pbuf_add_header_impl p (word_of_int (sint inc)) force m)"

definition pbuf_header :: "addr option \<Rightarrow> u16 \<Rightarrow> pmem \<Rightarrow> (bool \<times> pmem) result" where
  "pbuf_header p inc m = pbuf_header_impl p inc False m"

definition pbuf_header_force :: "addr option \<Rightarrow> u16 \<Rightarrow> pmem \<Rightarrow> (bool \<times> pmem) result" where
  "pbuf_header_force p inc m = pbuf_header_impl p inc True m"

text \<open>
  \<open>pbuf_free_header\<close> stops after \<open>pbuf_remove_header\<close>: \<open>free_left\<close> is 0 then, whatever
  that call returned.
\<close>

partial_function (option) pbuf_free_header ::
    "(addr \<Rightarrow> pmem \<Rightarrow> pmem result) \<Rightarrow> addr option \<Rightarrow> u16 \<Rightarrow> pmem \<Rightarrow> (addr option \<times> pmem) run" where
  "pbuf_free_header custom_free p free_left m =
    (if free_left = 0 \<or> p = None then Some (Inr (p, m))
     else case cell m p of Inl e \<Rightarrow> Some (Inl e) | Inr b \<Rightarrow>
       if len b \<le> free_left then
         (case pbuf_free custom_free p (put (the p) (b\<lparr>next_pbuf := None\<rparr>) m) of
            None \<Rightarrow> None
          | Some (Inl e) \<Rightarrow> Some (Inl e)
          | Some (Inr (_, m)) \<Rightarrow> pbuf_free_header custom_free (next_pbuf b) (free_left - len b) m)
       else (case pbuf_remove_header p (ucast free_left) m of
               Inl e \<Rightarrow> Some (Inl e)
             | Inr (_, m) \<Rightarrow> Some (Inr (p, m))))"

section \<open>Chains\<close>

partial_function (option) pbuf_clen_loop :: "addr option \<Rightarrow> u16 \<Rightarrow> pmem \<Rightarrow> u16 run" where
  "pbuf_clen_loop p n m =
    (case p of None \<Rightarrow> Some (Inr n) | Some a \<Rightarrow>
      (case cells m a of None \<Rightarrow> Some (Inl Use_after_free)
       | Some b \<Rightarrow> pbuf_clen_loop (next_pbuf b) (n + 1) m))"

definition pbuf_clen :: "addr option \<Rightarrow> pmem \<Rightarrow> u16 run" where
  "pbuf_clen p m = pbuf_clen_loop p 0 m"

text \<open>
  The loop of \<open>pbuf_cat\<close> reads \<open>t->tot_len\<close> in every iteration, and again after the last one;
  it adds it to every \<open>pbuf\<close> of the first chain and links the last of them to \<open>t\<close>.
\<close>

partial_function (option) pbuf_cat_loop :: "addr \<Rightarrow> addr \<Rightarrow> pmem \<Rightarrow> pmem run" where
  "pbuf_cat_loop a t m =
    (case cells m a of None \<Rightarrow> Some (Inl Use_after_free) | Some b \<Rightarrow>
      (case cells m t of None \<Rightarrow> Some (Inl Use_after_free) | Some bt \<Rightarrow>
        (case next_pbuf b of
           Some a' \<Rightarrow> pbuf_cat_loop a' t (put a (b\<lparr>tot_len := tot_len b + tot_len bt\<rparr>) m)
         | None \<Rightarrow> Some (Inr (put a (b\<lparr>tot_len := tot_len b + tot_len bt, next_pbuf := Some t\<rparr>) m)))))"

definition pbuf_cat :: "addr option \<Rightarrow> addr option \<Rightarrow> pmem \<Rightarrow> pmem run" where
  "pbuf_cat h t m =
    (case (h, t) of (Some a, Some b) \<Rightarrow> pbuf_cat_loop a b m | _ \<Rightarrow> ret m)"

definition pbuf_chain :: "addr option \<Rightarrow> addr option \<Rightarrow> pmem \<Rightarrow> pmem run" where
  "pbuf_chain h t m = bindl (pbuf_cat h t m) (\<lambda>m. Some (pbuf_ref t m))"

definition pbuf_dechain ::
    "(addr \<Rightarrow> pmem \<Rightarrow> pmem result) \<Rightarrow> addr \<Rightarrow> pmem \<Rightarrow> (addr option \<times> pmem) run" where
  "pbuf_dechain custom_free a m =
    bindl (Some (cell m (Some a))) (\<lambda>b.
      case next_pbuf b of
        None \<Rightarrow> ret (None, m)
      | Some q \<Rightarrow>
        bindl (Some (cell m (Some q))) (\<lambda>bq.
          let m = put q (bq\<lparr>tot_len := tot_len b - len b\<rparr>) m;
              m = put a (b\<lparr>next_pbuf := None, tot_len := len b\<rparr>) m in
          bindl (pbuf_free custom_free (Some q) m) (\<lambda>(tail_gone, m).
            ret (if 0 < tail_gone then None else Some q, m))))"

text \<open>
  \<open>pbuf_skip\<close>: the block in which the byte at \<open>in_offset\<close> lies, and its offset there.
\<close>

partial_function (option) pbuf_skip_const :: "addr option \<Rightarrow> u16 \<Rightarrow> pmem \<Rightarrow> (addr option \<times> u16) run" where
  "pbuf_skip_const q offset_left m =
    (case q of None \<Rightarrow> Some (Inr (None, offset_left)) | Some a \<Rightarrow>
      (case cells m a of None \<Rightarrow> Some (Inl Use_after_free) | Some b \<Rightarrow>
        if len b \<le> offset_left then pbuf_skip_const (next_pbuf b) (offset_left - len b) m
        else Some (Inr (Some a, offset_left))))"

definition pbuf_skip :: "addr option \<Rightarrow> u16 \<Rightarrow> pmem \<Rightarrow> (addr option \<times> u16) run" where
  "pbuf_skip q in_offset m = pbuf_skip_const q in_offset m"

text \<open>\<open>pbuf_try_get_at\<close> returns the byte or a negative number, here \<open>None\<close>.\<close>

definition pbuf_try_get_at :: "addr option \<Rightarrow> u16 \<Rightarrow> pmem \<Rightarrow> u8 option run" where
  "pbuf_try_get_at p offset m =
    bindl (pbuf_skip_const p offset m) (\<lambda>(q, q_idx).
      case q of None \<Rightarrow> ret None
      | Some a \<Rightarrow> bindl (Some (cell m q)) (\<lambda>b.
          if q_idx < len b then bindl (Some (payload_byte b (unat q_idx))) (\<lambda>v. ret (Some v))
          else ret None))"

definition pbuf_get_at :: "addr option \<Rightarrow> u16 \<Rightarrow> pmem \<Rightarrow> u8 run" where
  "pbuf_get_at p offset m =
    bindl (pbuf_try_get_at p offset m) (\<lambda>r. ret (case r of Some v \<Rightarrow> v | None \<Rightarrow> 0))"

definition pbuf_put_at :: "addr option \<Rightarrow> u16 \<Rightarrow> u8 \<Rightarrow> pmem \<Rightarrow> pmem run" where
  "pbuf_put_at p offset v m =
    bindl (pbuf_skip p offset m) (\<lambda>(q, q_idx).
      case q of None \<Rightarrow> ret m
      | Some a \<Rightarrow> bindl (Some (cell m q)) (\<lambda>b.
          if q_idx < len b
          then bindl (Some (payload_write b (unat q_idx) [v])) (\<lambda>b. ret (put a b m))
          else ret m))"

text \<open>\<open>MEMCPY\<close> of \<open>k\<close> payload bytes at \<open>i\<close> into a buffer of the caller at \<open>left\<close>.\<close>

definition memcpy_out :: "pbuf \<Rightarrow> nat \<Rightarrow> nat \<Rightarrow> u8 list \<Rightarrow> nat \<Rightarrow> u8 list result" where
  "memcpy_out b i k dst left =
    (if payload b + i + k \<le> length (storage b) \<and> left + k \<le> length dst
     then Inr (take left dst @ take k (drop (payload b + i) (storage b)) @ drop (left + k) dst)
     else Inl Out_of_bounds)"

partial_function (option) copy_partial_loop ::
    "addr option \<Rightarrow> u8 list \<Rightarrow> u16 \<Rightarrow> u16 \<Rightarrow> u16 \<Rightarrow> u16 \<Rightarrow> pmem \<Rightarrow> (u16 \<times> u8 list) run" where
  "copy_partial_loop p dst left n offset copied m =
    (if n = 0 \<or> p = None then Some (Inr (copied, dst))
     else case cell m p of Inl e \<Rightarrow> Some (Inl e) | Inr b \<Rightarrow>
       if offset \<noteq> 0 \<and> len b \<le> offset
       then copy_partial_loop (next_pbuf b) dst left n (offset - len b) copied m
       else
         let buf_copy_len = len b - offset;
             buf_copy_len = (if n < buf_copy_len then n else buf_copy_len) in
         (case memcpy_out b (unat offset) (unat buf_copy_len) dst (unat left) of
            Inl e \<Rightarrow> Some (Inl e)
          | Inr dst \<Rightarrow> copy_partial_loop (next_pbuf b) dst (left + buf_copy_len) (n - buf_copy_len) 0
                        (copied + buf_copy_len) m))"

definition pbuf_copy_partial ::
    "addr option \<Rightarrow> u8 list \<Rightarrow> u16 \<Rightarrow> u16 \<Rightarrow> pmem \<Rightarrow> (u16 \<times> u8 list) run" where
  "pbuf_copy_partial p dst n offset m =
    (if p = None then ret (0, dst) else copy_partial_loop p dst 0 n offset 0 m)"

text \<open>
  \<open>pbuf_take\<close> (error codes \<open>ERR_ARG\<close>, \<open>ERR_MEM\<close>, \<open>ERR_OK\<close>). The loop ends when everything
  is copied; it follows \<open>next\<close> without a test for null.
\<close>

datatype err = ERR_OK | ERR_MEM | ERR_ARG | ERR_VAL

partial_function (option) take_loop :: "addr option \<Rightarrow> u8 list \<Rightarrow> pmem \<Rightarrow> pmem run" where
  "take_loop p data m =
    (if data = [] then Some (Inr m)
     else case cell m p of Inl e \<Rightarrow> Some (Inl e) | Inr b \<Rightarrow>
       let k = min (length data) (unat (len b)) in
       (case payload_write b 0 (take k data) of
          Inl e \<Rightarrow> Some (Inl e)
        | Inr b \<Rightarrow> take_loop (next_pbuf b) (drop k data) (put (the p) b m)))"

definition pbuf_take :: "addr option \<Rightarrow> u8 list \<Rightarrow> u16 \<Rightarrow> pmem \<Rightarrow> (err \<times> pmem) run" where
  "pbuf_take p data n m =
    (if p = None then ret (ERR_ARG, m)
     else bindl (Some (cell m p)) (\<lambda>b.
       if tot_len b < n then ret (ERR_MEM, m)
       else if length data < unat n then fails Out_of_bounds
       else bindl (take_loop p (take (unat n) data) m) (\<lambda>m. ret (ERR_OK, m))))"

definition pbuf_take_at :: "addr option \<Rightarrow> u8 list \<Rightarrow> u16 \<Rightarrow> u16 \<Rightarrow> pmem \<Rightarrow> (err \<times> pmem) run" where
  "pbuf_take_at p data n offset m =
    bindl (pbuf_skip p offset m) (\<lambda>(q, target_offset).
      case q of None \<Rightarrow> ret (ERR_MEM, m)
      | Some a \<Rightarrow> bindl (Some (cell m q)) (\<lambda>b.
          if unat (tot_len b) < unat target_offset + unat n then ret (ERR_MEM, m)
          else
            let first = min (unat (len b) - unat target_offset) (unat n) in
            if length data < first then fails Out_of_bounds
            else bindl (Some (payload_write b (unat target_offset) (take first data))) (\<lambda>b.
              let m = put a b m; rest = n - of_nat first in
              if 0 < rest then pbuf_take (next_pbuf b) (drop first data) rest m
              else ret (ERR_OK, m))))"

text \<open>
  \<open>pbuf_memcmp\<close>: 0 when equal, \<open>0xffff\<close> when the chain is too short, otherwise one more than
  the index of the first difference.
\<close>

fun memcmp_loop :: "addr option \<Rightarrow> u16 \<Rightarrow> nat \<Rightarrow> u8 list \<Rightarrow> pmem \<Rightarrow> u16 run" where
  "memcmp_loop q start i [] m = ret 0"
| "memcmp_loop q start i (b # s2) m =
    bindl (pbuf_get_at q (start + of_nat i) m) (\<lambda>a.
      if a \<noteq> b then ret (of_nat (min (i + 1) 0xFFFF)) else memcmp_loop q start (i + 1) s2 m)"

definition pbuf_memcmp :: "addr option \<Rightarrow> u16 \<Rightarrow> u8 list \<Rightarrow> u16 \<Rightarrow> pmem \<Rightarrow> u16 run" where
  "pbuf_memcmp p offset s2 n m =
    bindl (Some (cell m p)) (\<lambda>b.
      if unat (tot_len b) < unat offset + unat n then ret 0xffff
      else bindl (pbuf_skip_const p offset m) (\<lambda>(q, start).
        if length s2 < unat n then fails Out_of_bounds
        else memcmp_loop q start 0 (take (unat n) s2) m))"

text \<open>The loop counter of \<open>pbuf_memfind\<close> is a \<open>u16_t\<close>, so its loop need not end.\<close>

partial_function (option) memfind_loop ::
    "addr option \<Rightarrow> u8 list \<Rightarrow> u16 \<Rightarrow> u16 \<Rightarrow> u16 \<Rightarrow> pmem \<Rightarrow> u16 run" where
  "memfind_loop p s n i max_cmp_start m =
    (if i \<le> max_cmp_start then
       (case pbuf_memcmp p i s n m of
          None \<Rightarrow> None
        | Some (Inl e) \<Rightarrow> Some (Inl e)
        | Some (Inr r) \<Rightarrow>
            if r = 0 then Some (Inr i) else memfind_loop p s n (i + 1) max_cmp_start m)
     else Some (Inr 0xFFFF))"

definition pbuf_memfind :: "addr option \<Rightarrow> u8 list \<Rightarrow> u16 \<Rightarrow> u16 \<Rightarrow> pmem \<Rightarrow> u16 run" where
  "pbuf_memfind p s n start_offset m =
    bindl (Some (cell m p)) (\<lambda>b.
      if unat n + unat start_offset \<le> unat (tot_len b)
      then memfind_loop p s n start_offset (tot_len b - n) m
      else ret 0xFFFF)"

end
