(* ===== verification/Pbuf_Refcount.thy ===== *)
theory Pbuf_Refcount
  imports Pbuf "HOL-Library.Multiset"
begin

text \<open>
  Reference counting of packet buffers: the invariant that every count is the number of
  pointers to its block, and that \<open>pbuf_free\<close>, \<open>pbuf_ref\<close>, \<open>pbuf_cat\<close>, \<open>pbuf_chain\<close> and
  \<open>pbuf_dechain\<close> keep it. A holder of a pointer can then always use and release it. The
  contract is the locale \<open>counted_pool\<close>, which the clients of the buffers rely on.
\<close>

unbundle bit_operations_syntax

section \<open>Reference counts\<close>

text \<open>
  The blocks whose \<open>next\<close> pointer is \<open>a\<close>, and the reference-counting invariant: \<open>M\<close> is the
  multiset of pointers held outside the chains (by the application, the stack or a queue); the
  count of every live block is the number of pointers to it, and no pointer dangles.
\<close>

definition preds :: "pmem \<Rightarrow> addr \<Rightarrow> addr set" where
  "preds m a = {c. \<exists>b. cells m c = Some b \<and> next_pbuf b = Some a}"

definition poolable :: "pbuf \<Rightarrow> bool" where
  "poolable b \<longleftrightarrow> \<not> is_custom b \<and> pbuf_get_allocsrc b \<le> 2"

definition counted :: "pmem \<Rightarrow> addr multiset \<Rightarrow> addr \<Rightarrow> pbuf \<Rightarrow> bool" where
  "counted m M a b \<longleftrightarrow>
    0 < unat (ref b) \<and> unat (ref b) = count M a + card (preds m a) \<and> poolable b"

definition owned :: "pmem \<Rightarrow> addr multiset \<Rightarrow> bool" where
  "owned m M \<longleftrightarrow> finite (dom (cells m)) \<and>
    (\<forall>a b. cells m a = Some b \<longrightarrow> counted m M a b) \<and>
    (\<forall>a. a \<in># M \<or> preds m a \<noteq> {} \<longrightarrow> cells m a \<noteq> None)"

text \<open>The blocks of the pool, free or in use.\<close>

definition pool_blocks :: "pmem \<Rightarrow> addr set" where
  "pool_blocks m = fst ` set (pool_free m) \<union>
    {a. \<exists>b. cells m a = Some b \<and> pbuf_get_allocsrc b = 2}"

text \<open>Nothing but reference counts changed in the blocks that are still live.\<close>

definition only_released :: "pmem \<Rightarrow> pmem \<Rightarrow> bool" where
  "only_released m m' \<longleftrightarrow>
    (\<forall>a b'. cells m' a = Some b' \<longrightarrow> (\<exists>b r. cells m a = Some b \<and> b' = b\<lparr>ref := r\<rparr>)) \<and>
    pool_blocks m' = pool_blocks m"

lemma cells_put [simp]: "cells (put a b m) = (cells m)(a \<mapsto> b)"
  by (simp add: put_def)

lemma preds_put:
  "cells m a = Some b \<Longrightarrow> next_pbuf b' = next_pbuf b \<Longrightarrow> preds (put a b' m) x = preds m x"
  by (auto simp: preds_def)

lemma finite_preds: "finite (dom (cells m)) \<Longrightarrow> finite (preds m a)"
  by (rule finite_subset [of _ "dom (cells m)"]) (auto simp: preds_def)

lemma owned_live: "owned m M \<Longrightarrow> a \<in># M \<Longrightarrow> \<exists>b. cells m a = Some b \<and> counted m M a b"
  by (fastforce simp: owned_def)

lemma owned_cell: "owned m M \<Longrightarrow> cells m a = Some b \<Longrightarrow> counted m M a b"
  by (simp add: owned_def)

lemma owned_next:
  "owned m M \<Longrightarrow> cells m a = Some b \<Longrightarrow> next_pbuf b = Some n \<Longrightarrow> \<exists>c. cells m n = Some c"
  by (auto simp: owned_def preds_def) blast

lemma counted_cong:
  "count M x + card (preds m x) = count M' x + card (preds m' x) \<Longrightarrow>
    counted m M x b \<Longrightarrow> counted m' M' x b"
  unfolding counted_def by metis

text \<open>Dropping a pointer that is not the last one.\<close>

lemma owned_drop:
  assumes "owned m (add_mset a M)" and "cells m a = Some b" and "ref b \<noteq> 1"
  shows "owned (put a (b\<lparr>ref := ref b - 1\<rparr>) m) M"
proof -
  let ?m = "put a (b\<lparr>ref := ref b - 1\<rparr>) m"
  have p: "preds ?m x = preds m x" for x
    using assms(2) by (rule preds_put) simp
  have c: "counted m (add_mset a M) a b" using assms by (simp add: owned_cell)
  have u: "unat (ref b - 1) = unat (ref b) - 1" and pos: "0 < unat (ref b - 1)"
    using c assms(3) by (unat_arith; simp add: counted_def)+
  have "counted ?m M x b'" if "cells ?m x = Some b'" for x b'
  proof (cases "x = a")
    case True
    then have "b' = b\<lparr>ref := ref b - 1\<rparr>" using that by simp
    then show ?thesis using c u pos True by (simp add: counted_def p poolable_def pbuf_get_allocsrc_def)
  next
    case False
    then have "counted m (add_mset a M) x b'" using that assms(1) by (simp add: owned_cell)
    then show ?thesis by (rule counted_cong [rotated]) (use False in \<open>simp add: p\<close>)
  qed
  then show ?thesis using assms(1) by (auto simp: owned_def p)
qed

text \<open>Releasing a block with its last pointer hands its own \<open>next\<close> pointer to the caller.\<close>

lemma owned_release:
  assumes "owned m (add_mset a M)" and "cells m a = Some b" and "ref b = 1"
    and "cells m' = (cells m)(a := None)"
  shows "owned m' (case next_pbuf b of None \<Rightarrow> M | Some n \<Rightarrow> add_mset n M)"
proof -
  have c: "counted m (add_mset a M) a b" using assms by (simp add: owned_cell)
  have fin: "finite (preds m x)" for x
    using assms(1) by (simp add: owned_def finite_preds)
  have none: "a \<notin># M" "preds m a = {}"
    using c assms(3) fin [of a] by (auto simp: counted_def not_in_iff)
  let ?M = "case next_pbuf b of None \<Rightarrow> M | Some n \<Rightarrow> add_mset n M"
  have p: "preds m' x = preds m x - {a}" for x
    using assms(4) by (auto simp: preds_def)
  have in_p: "a \<in> preds m x \<longleftrightarrow> next_pbuf b = Some x" for x
    using assms(2) by (auto simp: preds_def)
  have cnt: "count ?M x + card (preds m' x) = count (add_mset a M) x + card (preds m x)"
    if "x \<noteq> a" for x
  proof (cases "next_pbuf b = Some x")
    case True
    then have "0 < card (preds m x)" using in_p [of x] fin [of x] card_gt_0_iff by blast
    then show ?thesis using that True in_p [of x] fin [of x] by (simp add: p)
  next
    case False
    then show ?thesis using that in_p [of x] by (simp add: p split: option.splits)
  qed
  have nself: "next_pbuf b \<noteq> Some a" using none in_p by blast
  have "counted m' ?M x b'" if "cells m' x = Some b'" for x b'
  proof -
    have x: "x \<noteq> a" "cells m x = Some b'" using that assms(4) by (auto split: if_splits)
    then have "counted m (add_mset a M) x b'" using assms(1) by (simp add: owned_cell)
    then show ?thesis by (rule counted_cong [OF cnt [OF x(1), symmetric]])
  qed
  moreover have "cells m' x \<noteq> None" if "x \<in># ?M \<or> preds m' x \<noteq> {}" for x
  proof -
    have "x \<noteq> a" using that none nself by (auto simp: p split: option.splits)
    moreover have "cells m x \<noteq> None"
      using that assms(1) in_p [of x] by (auto simp: owned_def p split: option.splits)
    ultimately show ?thesis using assms(4) by simp
  qed
  ultimately show ?thesis using assms(1,4) by (auto simp: owned_def)
qed

lemma ref_self [simp]: "\<exists>r. b = b\<lparr>ref := r\<rparr>"
  by (rule exI [of _ "ref b"]) simp

text \<open>What \<open>release\<close> does to a block the pools can take back.\<close>

lemma release_poolable:
  assumes "cells m a = Some b" and "poolable b"
  shows "\<exists>m'. release cf a (b\<lparr>ref := r\<rparr>) (put a (b\<lparr>ref := r\<rparr>) m) = Inr m' \<and>
    cells m' = (cells m)(a := None) \<and> only_released m m'"
proof -
  consider "pbuf_get_allocsrc b = 0" | "pbuf_get_allocsrc b = 1" | "pbuf_get_allocsrc b = 2"
  proof -
    have "unat (pbuf_get_allocsrc b) \<le> 2"
      using assms(2) by (simp add: poolable_def word_le_nat_alt)
    then have "unat (pbuf_get_allocsrc b) = 0 \<or> unat (pbuf_get_allocsrc b) = 1 \<or>
        unat (pbuf_get_allocsrc b) = 2"
      by linarith
    then show thesis using that by (auto simp: word_unat_eq_iff)
  qed
  then show ?thesis
    using assms
    by cases (auto simp: release_def poolable_def Let_def put_def only_released_def pool_blocks_def
        pbuf_get_allocsrc_def split: if_splits)
qed

lemma only_released_trans:
  "only_released m1 m2 \<Longrightarrow> only_released m2 m3 \<Longrightarrow> only_released m1 m3"
  unfolding only_released_def by fastforce

lemma only_released_drop:
  "cells m a = Some b \<Longrightarrow> only_released m (put a (b\<lparr>ref := r\<rparr>) m)"
  by (auto simp: only_released_def pool_blocks_def put_def pbuf_get_allocsrc_def split: if_splits)

text \<open>How many blocks an operation released.\<close>

definition released :: "pmem \<Rightarrow> pmem \<Rightarrow> nat" where
  "released m m' = card (dom (cells m)) - card (dom (cells m'))"

lemma card_remove:
  "finite (dom h) \<Longrightarrow> h a = Some b \<Longrightarrow> card (dom (h(a := None))) = card (dom h) - 1 \<and> 0 < card (dom h)"
  by (auto simp: card_gt_0_iff domI card_Diff_singleton)

lemma only_released_dom: "only_released m m' \<Longrightarrow> dom (cells m') \<subseteq> dom (cells m)"
  by (fastforce simp: only_released_def)

text \<open>The outcome of dropping one pointer to \<open>a\<close>, when \<open>n\<close> is the count to start from.\<close>

definition freed :: "pmem \<Rightarrow> addr multiset \<Rightarrow> addr \<Rightarrow> u8 \<Rightarrow> u8 \<times> pmem \<Rightarrow> bool" where
  "freed m M a n = (\<lambda>(n', m'). owned m' M \<and> only_released m m' \<and>
     n' = n + of_nat (released m m') \<and> (cells m' a \<noteq> None \<longleftrightarrow> released m m' = 0))"

lemma pbuf_free_loop_owned:
  "owned m (add_mset a M) \<Longrightarrow> runs (pbuf_free_loop cf (Some a) n m) (freed m M a n)"
proof (induction "card (dom (cells m))" arbitrary: m a n rule: less_induct)
  case less
  obtain b where b: "cells m a = Some b" "counted m (add_mset a M) a b"
    using owned_live [OF less.prems] by auto
  show ?case
  proof (cases "ref b = 1")
    case False
    then have "ref b - 1 \<noteq> 0" by simp
    moreover have "dom (cells (put a (b\<lparr>ref := ref b - 1\<rparr>) m)) = dom (cells m)" using b(1) by auto
    ultimately show ?thesis
      using b owned_drop [OF less.prems b(1) False] only_released_drop [OF b(1)]
      by (subst pbuf_free_loop.simps) (simp add: Let_def freed_def released_def)
  next
    case True
    obtain m' where m': "release cf a (b\<lparr>ref := 0\<rparr>) (put a (b\<lparr>ref := 0\<rparr>) m) = Inr m'"
      "cells m' = (cells m)(a := None)" "only_released m m'"
      using release_poolable [OF b(1), of cf 0] b(2) by (auto simp: counted_def)
    note ow = owned_release [OF less.prems b(1) True m'(2)]
    have fin: "finite (dom (cells m))" using less.prems by (simp add: owned_def)
    have crd: "card (dom (cells m')) = card (dom (cells m)) - 1" "0 < card (dom (cells m))"
      using card_remove [OF fin b(1)] by (simp_all add: m'(2))
    have step: "pbuf_free_loop cf (Some a) n m = pbuf_free_loop cf (next_pbuf b) (n + 1) m'"
      using b(1) True m'(1) by (subst pbuf_free_loop.simps) (simp add: Let_def)
    show ?thesis
    proof (cases "next_pbuf b")
      case None
      then show ?thesis
        using step ow m'(3) crd m'(2) by (simp add: pbuf_free_loop.simps freed_def released_def)
    next
      case (Some c)
      have "runs (pbuf_free_loop cf (Some c) (n + 1) m') (freed m' M c (n + 1))"
        using ow Some crd by (intro less.hyps) simp_all
      then show ?thesis
        unfolding step Some
      proof (rule runs_mono)
        fix r assume "freed m' M c (n + 1) r"
        then obtain n'' m'' where r: "r = (n'', m'')" "owned m'' M" "only_released m' m''"
          "n'' = n + 1 + of_nat (released m' m'')"
          by (auto simp: freed_def)
        have "dom (cells m'') \<subseteq> dom (cells m')" using r(3) by (rule only_released_dom)
        then have gone: "cells m'' a = None" and
          "card (dom (cells m'')) \<le> card (dom (cells m'))"
          using fin m'(2) by (auto intro!: card_mono)
        then have "released m m'' = Suc (released m' m'')"
          using crd by (simp add: released_def)
        then show "freed m M a n r"
          using r gone only_released_trans [OF m'(3) r(3)] by (simp add: freed_def)
      qed
    qed
  qed
qed

lemma pbuf_ref_Some: "cells m a = Some b \<Longrightarrow> pbuf_ref (Some a) m = Inr (put a (b\<lparr>ref := ref b + 1\<rparr>) m)"
  by (simp add: pbuf_ref_def cell_def)

lemma owned_take:
  assumes "owned m M" and "cells m a = Some b" and "ref b \<noteq> 255"
  shows "owned (put a (b\<lparr>ref := ref b + 1\<rparr>) m) (add_mset a M)"
proof -
  let ?m = "put a (b\<lparr>ref := ref b + 1\<rparr>) m"
  have p: "preds ?m x = preds m x" for x
    using assms(2) by (rule preds_put) simp
  have u: "unat (ref b + 1) = unat (ref b) + 1"
    using assms(3) unat_u8_less [of "ref b"] by unat_arith auto
  have c: "counted m M a b" using assms by (simp add: owned_cell)
  have "counted ?m (add_mset a M) x b'" if "cells ?m x = Some b'" for x b'
  proof (cases "x = a")
    case True
    then have "b' = b\<lparr>ref := ref b + 1\<rparr>" using that by simp
    then show ?thesis using c u True by (simp add: counted_def p poolable_def pbuf_get_allocsrc_def)
  next
    case False
    then have "counted m M x b'" using that assms(1) by (simp add: owned_cell)
    then show ?thesis by (rule counted_cong [rotated]) (use False in \<open>simp add: p\<close>)
  qed
  then show ?thesis using assms(1,2) by (auto simp: owned_def p)
qed

lemma owned_relabel:
  assumes "owned m M" and "cells m a = Some b" and "next_pbuf b' = next_pbuf b"
    and "ref b' = ref b" and "poolable b'"
  shows "owned (put a b' m) M"
proof -
  have p: "preds (put a b' m) x = preds m x" for x
    using assms(2,3) by (rule preds_put)
  have "counted (put a b' m) M x c" if "cells (put a b' m) x = Some c" for x c
  proof (cases "x = a")
    case True
    then have "c = b'" using that by simp
    then show ?thesis using True assms(4,5) owned_cell [OF assms(1,2)] unfolding counted_def p by metis
  next
    case False
    then have "counted m M x c" using that assms(1) by (simp add: owned_cell)
    then show ?thesis by (rule counted_cong [rotated]) (simp add: p)
  qed
  then show ?thesis using assms(1,2) by (auto simp: owned_def p)
qed

text \<open>Linking the last block of a chain to a block turns a held pointer into a chain pointer.\<close>

lemma owned_link:
  assumes "owned m (add_mset t M)" and "cells m a = Some b" and "next_pbuf b = None"
    and "next_pbuf b' = Some t" and "ref b' = ref b" and "poolable b'"
  shows "owned (put a b' m) M"
proof -
  let ?m = "put a b' m"
  have p: "preds ?m x = (if x = t then insert a (preds m t) else preds m x)" for x
    using assms(2,3,4) by (auto simp: preds_def)
  have nin: "a \<notin> preds m t" using assms(2,3) by (auto simp: preds_def)
  have fin: "finite (preds m x)" for x using assms(1) by (simp add: owned_def finite_preds)
  have cnt: "count (add_mset t M) x + card (preds m x) = count M x + card (preds ?m x)" for x
    using nin fin by (cases "x = t") (simp_all add: p)
  have "counted ?m M x c" if "cells ?m x = Some c" for x c
  proof (cases "x = a")
    case True
    then have "c = b'" using that by simp
    moreover have "counted m (add_mset t M) a b'"
      using owned_cell [OF assms(1,2)] assms(5,6) unfolding counted_def by metis
    ultimately show ?thesis using True counted_cong [OF cnt] by blast
  next
    case False
    then have "counted m (add_mset t M) x c" using that assms(1) by (simp add: owned_cell)
    then show ?thesis by (rule counted_cong [OF cnt])
  qed
  then show ?thesis using assms(1,2) by (auto simp: owned_def p split: if_splits)
qed

section \<open>Chains\<close>

text \<open>The blocks of the chain that starts at \<open>p\<close>, in order.\<close>

fun chain :: "(addr \<rightharpoonup> pbuf) \<Rightarrow> addr option \<Rightarrow> addr list \<Rightarrow> bool" where
  "chain h p [] \<longleftrightarrow> p = None"
| "chain h p (a # as) \<longleftrightarrow>
    p = Some a \<and> (case h a of None \<Rightarrow> False | Some b \<Rightarrow> chain h (next_pbuf b) as)"

lemma chain_None [simp]: "chain h None xs \<longleftrightarrow> xs = []"
  by (cases xs) simp_all

lemma chain_unique: "chain h p xs \<Longrightarrow> chain h p ys \<Longrightarrow> xs = ys"
  by (induction h p xs arbitrary: ys rule: chain.induct)
    (auto split: option.splits elim!: chain.elims)

lemma chain_suffix: "chain h p (xs @ ys) \<Longrightarrow> \<exists>q. chain h q ys"
  by (induction xs arbitrary: p) (auto split: option.splits)

lemma chain_distinct: "chain h p xs \<Longrightarrow> distinct xs"
proof (induction h p xs rule: chain.induct)
  case (2 h p a as)
  then have tail: "distinct as" by (auto split: option.splits)
  have "a \<notin> set as"
  proof
    assume "a \<in> set as"
    then obtain us vs where as: "as = us @ a # vs" by (auto simp: in_set_conv_decomp)
    then have "chain h p ((a # us) @ (a # vs))" using 2(2) by (simp only: append_Cons)
    then obtain q where q: "chain h q (a # vs)" using chain_suffix by blast
    then have "q = p" using 2(2) by simp
    then have "a # vs = a # as" using q 2(2) chain_unique by blast
    then show False using as by simp
  qed
  then show ?case using tail by simp
qed simp

lemma chain_fun_upd: "a \<notin> set xs \<Longrightarrow> chain (h(a := b)) p xs \<longleftrightarrow> chain h p xs"
proof (induction xs arbitrary: p)
  case (Cons x xs)
  then have "x \<noteq> a" and "a \<notin> set xs" by auto
  then show ?case using Cons.IH by (simp cong: option.case_cong)
qed simp

lemma chain_Cons_cell:
  "chain h (Some a) xs \<Longrightarrow> \<exists>b ys. xs = a # ys \<and> h a = Some b \<and> chain h (next_pbuf b) ys"
  by (cases xs) (auto split: option.splits)

lemma pbuf_cat_loop_step:
  "cells m a = Some b \<Longrightarrow> cells m t = Some bt \<Longrightarrow> pbuf_cat_loop a t m =
    (case next_pbuf b of
       Some a' \<Rightarrow> pbuf_cat_loop a' t (put a (b\<lparr>tot_len := tot_len b + tot_len bt\<rparr>) m)
     | None \<Rightarrow> Some (Inr (put a (b\<lparr>tot_len := tot_len b + tot_len bt, next_pbuf := Some t\<rparr>) m)))"
  by (subst pbuf_cat_loop.simps) simp

lemma poolable_upd [simp]:
  "poolable (b\<lparr>tot_len := n\<rparr>) = poolable b" "poolable (b\<lparr>next_pbuf := q\<rparr>) = poolable b"
  "poolable (b\<lparr>ref := r\<rparr>) = poolable b" "poolable (b\<lparr>storage := st\<rparr>) = poolable b"
  by (simp_all add: poolable_def pbuf_get_allocsrc_def)

text \<open>The same blocks are live and their counts are the same.\<close>

definition same_refs :: "pmem \<Rightarrow> pmem \<Rightarrow> bool" where
  "same_refs m m' \<longleftrightarrow> (\<forall>x. map_option ref (cells m' x) = map_option ref (cells m x))"

lemma same_refs_put: "cells m a = Some b \<Longrightarrow> ref b' = ref b \<Longrightarrow> same_refs m (put a b' m)"
  by (simp add: same_refs_def)

lemma same_refs_trans: "same_refs m m' \<Longrightarrow> same_refs m' m'' \<Longrightarrow> same_refs m m''"
  by (simp add: same_refs_def)

lemma pbuf_cat_loop_owned:
  "chain (cells m) (Some a) xs \<Longrightarrow> owned m (add_mset t M) \<Longrightarrow>
    runs (pbuf_cat_loop a t m) (\<lambda>m'. owned m' M \<and> same_refs m m')"
proof (induction "length xs" arbitrary: a m xs)
  case 0
  then show ?case by simp
next
  case (Suc n)
  obtain b ys where b: "cells m a = Some b" "chain (cells m) (next_pbuf b) ys" "xs = a # ys"
    using chain_Cons_cell [OF Suc.prems(1)] by blast
  obtain bt where bt: "cells m t = Some bt" using owned_live [OF Suc.prems(2)] by auto
  have pool: "poolable b" using owned_cell [OF Suc.prems(2) b(1)] by (simp add: counted_def)
  show ?case
  proof (cases "next_pbuf b")
    case None
    have "owned (put a (b\<lparr>tot_len := tot_len b + tot_len bt, next_pbuf := Some t\<rparr>) m) M"
      by (rule owned_link [OF Suc.prems(2) b(1) None]) (simp_all add: pool)
    then show ?thesis
      using None same_refs_put [OF b(1)] by (simp add: pbuf_cat_loop_step [OF b(1) bt])
  next
    case (Some c)
    let ?m = "put a (b\<lparr>tot_len := tot_len b + tot_len bt\<rparr>) m"
    have "a \<notin> set ys" using chain_distinct [OF Suc.prems(1)] b(3) by simp
    then have "chain (cells ?m) (Some c) ys"
      using b(2) Some by (simp add: chain_fun_upd)
    moreover have "owned ?m (add_mset t M)"
      by (rule owned_relabel [OF Suc.prems(2) b(1)]) (simp_all add: pool)
    ultimately have "runs (pbuf_cat_loop c t ?m) (\<lambda>m'. owned m' M \<and> same_refs ?m m')"
      using Suc.hyps(2) b(3) by (intro Suc.hyps(1)) simp_all
    moreover have "same_refs m ?m" by (rule same_refs_put [OF b(1)]) simp
    ultimately have "runs (pbuf_cat_loop c t ?m) (\<lambda>m'. owned m' M \<and> same_refs m m')"
      by (auto elim!: runs_mono intro: same_refs_trans)
    then show ?thesis using Some by (simp add: pbuf_cat_loop_step [OF b(1) bt])
  qed
qed

text \<open>Cutting the chain after a block turns its pointer into one the caller holds.\<close>

lemma owned_unlink:
  assumes "owned m M" and "cells m a = Some b" and "next_pbuf b = Some t"
    and "next_pbuf b' = None" and "ref b' = ref b" and "poolable b'"
  shows "owned (put a b' m) (add_mset t M)"
proof -
  let ?m = "put a b' m"
  have p: "preds ?m x = preds m x - {a}" for x
    using assms(2,3,4) by (auto simp: preds_def)
  have in_p: "a \<in> preds m x \<longleftrightarrow> x = t" for x using assms(2,3) by (auto simp: preds_def)
  have fin: "finite (preds m x)" for x using assms(1) by (simp add: owned_def finite_preds)
  have pos: "0 < card (preds m t)" using in_p [of t] fin [of t] card_gt_0_iff by blast
  have cnt: "count M x + card (preds m x) = count (add_mset t M) x + card (preds ?m x)" for x
    using in_p fin pos by (cases "x = t") (simp_all add: p)
  have "counted ?m (add_mset t M) x c" if "cells ?m x = Some c" for x c
  proof (cases "x = a")
    case True
    then have "c = b'" using that by simp
    moreover have "counted m M a b'"
      using owned_cell [OF assms(1,2)] assms(5,6) unfolding counted_def by metis
    ultimately show ?thesis using True counted_cong [OF cnt] by blast
  next
    case False
    then have "counted m M x c" using that assms(1) by (simp add: owned_cell)
    then show ?thesis by (rule counted_cong [OF cnt])
  qed
  then show ?thesis
    using assms(1,2) owned_next [OF assms(1-3)] by (auto simp: owned_def p split: if_splits)
qed

lemma pbuf_free_runs:
  "owned m (add_mset a M) \<Longrightarrow> runs (pbuf_free cf (Some a) m) (freed m M a 0)"
  by (simp add: pbuf_free_def pbuf_free_loop_owned)

section \<open>The contract of counted buffers\<close>

text \<open>
  What the code that passes buffers around relies on: as long as it holds a pointer, the
  buffer is there; releasing the pointer succeeds and gives up exactly that pointer.
\<close>

locale counted_pool =
  fixes inv :: "'s \<Rightarrow> addr multiset \<Rightarrow> bool"
    and live :: "'s \<Rightarrow> addr \<Rightarrow> bool"
    and free :: "addr \<Rightarrow> 's \<Rightarrow> 's run"
  assumes held_live: "inv s (add_mset a M) \<Longrightarrow> live s a"
    and free_keeps: "inv s (add_mset a M) \<Longrightarrow> runs (free a s) (\<lambda>s'. inv s' M)"
begin

lemma held_all_live: "inv s M \<Longrightarrow> a \<in># M \<Longrightarrow> live s a"
  using held_live by (metis multi_member_split)

fun free_all :: "addr list \<Rightarrow> 's \<Rightarrow> 's run" where
  "free_all [] s = ret s"
| "free_all (a # as) s = bindl (free a s) (free_all as)"

lemma free_all_keeps: "inv s (mset as + M) \<Longrightarrow> runs (free_all as s) (\<lambda>s'. inv s' M)"
proof (induction as arbitrary: s)
  case (Cons a as)
  then have "runs (free a s) (\<lambda>s'. inv s' (mset as + M))" by (intro free_keeps) simp
  then show ?case by (simp add: runs_bindl [OF _ Cons.IH])
qed simp

end

definition free1 :: "addr \<Rightarrow> pmem \<Rightarrow> pmem run" where
  "free1 a m = bindl (pbuf_free (\<lambda>_ m. Inr m) (Some a) m) (\<lambda>(_, m). ret m)"

interpretation pool: counted_pool owned "\<lambda>m a. cells m a \<noteq> None" free1
proof unfold_locales
  fix m a M assume o: "owned m (add_mset a M)"
  then show "cells m a \<noteq> None" using owned_live [of m "add_mset a M" a] by auto
  show "runs (free1 a m) (\<lambda>m'. owned m' M)"
    unfolding free1_def
    by (rule runs_bindl [OF pbuf_free_runs [OF o]]) (auto simp: freed_def)
qed

section \<open>A sample memory\<close>

text \<open>The chain 0, 1 and the single block 2, each held once from outside.\<close>

definition sample_seg :: "addr option \<Rightarrow> pbuf" where
  "sample_seg q = (pbuf_init_alloced_pbuf [1, 2, 3] 0 3 3 PBUF_POOL 0)\<lparr>next_pbuf := q\<rparr>"

definition sample_mem :: pmem where
  "sample_mem = \<lparr>cells = [0 \<mapsto> sample_seg (Some 1), 1 \<mapsto> sample_seg None, 2 \<mapsto> sample_seg None],
     pool_free = [(3, [])], refs_free = []\<rparr>"

lemma sample_seg_fields [simp]:
  "ref (sample_seg q) = 1" "next_pbuf (sample_seg q) = q" "poolable (sample_seg q)"
  by (simp_all add: sample_seg_def pbuf_init_alloced_pbuf_def poolable_def pbuf_get_allocsrc_def)

lemma sample_cells [simp]:
  "cells sample_mem 0 = Some (sample_seg (Some 1))" "cells sample_mem (Suc 0) = Some (sample_seg None)"
  "cells sample_mem 2 = Some (sample_seg None)"
  by (simp_all add: sample_mem_def)

lemma sample_owned: "owned sample_mem {#0, 2#}"
proof -
  have c: "cells sample_mem a = Some b \<longleftrightarrow> a = 0 \<and> b = sample_seg (Some 1) \<or>
      (a = 1 \<or> a = 2) \<and> b = sample_seg None" for a b
    by (auto simp: sample_mem_def)
  have p: "preds sample_mem a = (if a = 1 then {0} else {})" for a
    by (auto simp: preds_def c)
  have "counted sample_mem {#0, 2#} a b" if "cells sample_mem a = Some b" for a b
    using that by (auto simp: counted_def p c split: if_splits)
  moreover have "dom (cells sample_mem) = {0, 1, 2}" by (auto simp: sample_mem_def split: if_splits)
  ultimately show ?thesis by (auto simp: owned_def p split: if_splits)
qed

section \<open>Properties\<close>

text \<open>
  C4: \<open>pbuf_free\<close> is safe for every holder of a pointer. If every reference count is the number
  of pointers to its block and one of the pointers held is \<open>a\<close>, then \<open>pbuf_free(a)\<close> ends (also on
  a cyclic chain), meets no released block, gives up exactly that pointer (the invariant holds
  without it), changes nothing but reference counts in the blocks that stay, loses no block of
  the pool, and returns the number of blocks it released modulo 256.
\<close>

theorem pbuf_free_safe:
  assumes "owned m (add_mset a M)"
  shows "\<exists>m'. pbuf_free cf (Some a) m = ret (of_nat (released m m'), m') \<and> owned m' M \<and>
    only_released m m'"
  using pbuf_free_runs [OF assms, of cf] by (auto simp: runs_def freed_def)

theorem pbuf_free_safe_witness:
  "owned sample_mem (add_mset 2 {#0#}) \<and>
   (\<exists>m'. pbuf_free (\<lambda>_ m. Inr m) (Some 2) sample_mem = ret (of_nat (released sample_mem m'), m') \<and>
      owned m' {#0#} \<and> only_released sample_mem m')"
proof -
  have "owned sample_mem (add_mset 2 {#0#})" using sample_owned by (simp add: add_mset_commute)
  then show ?thesis using pbuf_free_safe by blast
qed


text \<open>
  C10: \<open>pbuf_cat\<close> and \<open>pbuf_chain\<close> keep the reference counts exact: \<open>pbuf_cat\<close> takes over the
  caller's pointer to the tail, after \<open>pbuf_chain\<close> the caller still holds it (unless the 8-bit
  count of the tail was at its maximum).
\<close>

theorem pbuf_cat_chain_counts:
  assumes "chain (cells m) (Some h) xs" and "owned m (add_mset t M)"
  shows "runs (pbuf_cat (Some h) (Some t) m) (\<lambda>m'. owned m' M) \<and>
    (ref (the (cells m t)) \<noteq> 255 \<longrightarrow>
      runs (pbuf_chain (Some h) (Some t) m) (\<lambda>m'. owned m' (add_mset t M)))"
proof -
  obtain m' where m': "pbuf_cat_loop h t m = ret m'" "owned m' M" "same_refs m m'"
    using pbuf_cat_loop_owned [OF assms] by (auto simp: runs_def)
  obtain bt where "cells m t = Some bt" using owned_live [OF assms(2)] by auto
  moreover have "map_option ref (cells m' t) = map_option ref (cells m t)"
    using m'(3) by (simp add: same_refs_def)
  ultimately obtain b' where b': "cells m' t = Some b'" "ref b' = ref (the (cells m t))" by auto
  show ?thesis
    using m' b' owned_take [OF m'(2) b'(1)]
    by (simp add: pbuf_chain_def pbuf_cat_def pbuf_ref_Some)
qed

theorem pbuf_cat_chain_counts_witness:
  "chain (cells sample_mem) (Some 0) [0, 1] \<and> owned sample_mem (add_mset 2 {#0#}) \<and>
   runs (pbuf_cat (Some 0) (Some 2) sample_mem) (\<lambda>m'. owned m' {#0#}) \<and>
   ref (the (cells sample_mem 2)) \<noteq> 255 \<and>
   runs (pbuf_chain (Some 0) (Some 2) sample_mem) (\<lambda>m'. owned m' (add_mset 2 {#0#}))"
proof -
  have r: "ref (the (cells sample_mem 2)) \<noteq> 255" by simp
  have c: "chain (cells sample_mem) (Some 0) [0, 1]" by simp
  have o: "owned sample_mem (add_mset 2 {#0#})" using sample_owned by (simp add: add_mset_commute)
  show ?thesis using c o r pbuf_cat_chain_counts [OF c o] by blast
qed


text \<open>
  C11: \<open>pbuf_dechain\<close> keeps the reference counts exact. It returns null for the tail exactly if the
  number of blocks released is not a multiple of 256, because \<open>tail_gone\<close> has 8 bits, while
  the tail is still there exactly if that number is 0: for a tail of 256 blocks it returns a
  pointer to released memory.
\<close>

theorem pbuf_dechain_counts:
  assumes "owned m M" and "cells m a = Some b" and "next_pbuf b = Some q"
  shows "runs (pbuf_dechain cf a m) (\<lambda>(r, m'). owned m' M \<and>
    (cells m' q \<noteq> None \<longleftrightarrow> released m m' = 0) \<and>
    r = (if 256 dvd released m m' then Some q else None))"
proof -
  obtain bq where bq: "cells m q = Some bq" using owned_next [OF assms] by auto
  have pool: "poolable b" "poolable bq" using assms(1,2) bq owned_cell by (auto simp: counted_def)
  let ?m1 = "put q (bq\<lparr>tot_len := tot_len b - len b\<rparr>) m"
  let ?m2 = "put a (b\<lparr>next_pbuf := None, tot_len := len b\<rparr>) ?m1"
  have o1: "owned ?m1 M" by (rule owned_relabel [OF assms(1) bq]) (simp_all add: pool)
  obtain c where c: "cells ?m1 a = Some c" "next_pbuf c = Some q" "ref c = ref b"
    using assms(2,3) bq by (cases "a = q") auto
  have o2: "owned ?m2 (add_mset q M)"
    by (rule owned_unlink [OF o1 c(1,2)]) (simp_all add: c pool)
  have d: "dom (cells ?m2) = dom (cells m)" using assms(2) bq by auto
  have step: "pbuf_dechain cf a m = bindl (pbuf_free cf (Some q) ?m2)
      (\<lambda>(tail_gone, m). ret (if 0 < tail_gone then None else Some q, m))"
    using assms(2,3) bq by (simp add: pbuf_dechain_def cell_def Let_def)
  show ?thesis
    unfolding step
  proof (rule runs_bindl [OF pbuf_free_runs [OF o2]])
    fix r assume "freed ?m2 M q 0 r"
    moreover obtain n' m' where "r = (n', m')" by (cases r)
    moreover have "released ?m2 m' = released m m'" by (simp only: released_def d)
    ultimately have r: "r = (of_nat (released m m'), m')" "owned m' M"
      "cells m' q \<noteq> None \<longleftrightarrow> released m m' = 0"
      by (simp_all add: freed_def)
    have "(0 :: u8) < of_nat (released m m') \<longleftrightarrow> \<not> 256 dvd released m m'"
      by (simp add: word_of_nat_eq_0_iff word_neq_0_conv [symmetric] del: word_neq_0_conv)
    then show "runs (case r of (tail_gone, m) \<Rightarrow> ret (if 0 < tail_gone then None else Some q, m))
      (\<lambda>(r, m'). owned m' M \<and> (cells m' q \<noteq> None \<longleftrightarrow> released m m' = 0) \<and>
        r = (if 256 dvd released m m' then Some q else None))"
      using r by simp
  qed
qed

theorem pbuf_dechain_counts_witness:
  "owned sample_mem {#0, 2#} \<and> cells sample_mem 0 = Some (sample_seg (Some 1)) \<and>
   next_pbuf (sample_seg (Some 1)) = Some 1 \<and>
   runs (pbuf_dechain (\<lambda>_ m. Inr m) 0 sample_mem) (\<lambda>(r, m'). owned m' {#0, 2#} \<and>
     (cells m' 1 \<noteq> None \<longleftrightarrow> released sample_mem m' = 0) \<and>
     r = (if 256 dvd released sample_mem m' then Some 1 else None))"
proof -
  have n: "next_pbuf (sample_seg (Some 1)) = Some 1" by simp
  show ?thesis
    using n sample_owned sample_cells(1) pbuf_dechain_counts [OF sample_owned sample_cells(1) n] by blast
qed

end
