(* ===== verification/Pbuf_Content.thy ===== *)
theory Pbuf_Content
  imports Pbuf_Refcount
begin

text \<open>
  What a packet buffer chain contains: a packet is a chain whose lengths agree, and its
  contents are the bytes of its blocks one after the other. The operations that read, write
  and search a chain are functions of those contents.
\<close>

unbundle bit_operations_syntax

section \<open>Packets\<close>

definition bytes :: "pbuf \<Rightarrow> u8 list" where
  "bytes b = take (unat (len b)) (drop (payload b) (storage b))"

definition content :: "pmem \<Rightarrow> addr list \<Rightarrow> u8 list" where
  "content m xs = concat (map (\<lambda>a. bytes (the (cells m a))) xs)"

definition in_bounds :: "pbuf \<Rightarrow> bool" where
  "in_bounds b \<longleftrightarrow> payload b + unat (len b) \<le> length (storage b)"

text \<open>The invariant of \<open>struct pbuf\<close>: \<open>tot_len\<close> is the length of the block and of all that follow.\<close>

fun packet :: "pmem \<Rightarrow> addr option \<Rightarrow> addr list \<Rightarrow> bool" where
  "packet m p [] \<longleftrightarrow> p = None"
| "packet m p (a # as) \<longleftrightarrow> p = Some a \<and>
    (case cells m a of None \<Rightarrow> False
     | Some b \<Rightarrow> in_bounds b \<and> unat (tot_len b) = unat (len b) + length (content m as) \<and>
         packet m (next_pbuf b) as)"

lemma length_segment_bytes [simp]: "in_bounds b \<Longrightarrow> length (bytes b) = unat (len b)"
  by (simp add: bytes_def in_bounds_def)

lemma bytes_nth: "in_bounds b \<Longrightarrow> i < unat (len b) \<Longrightarrow> bytes b ! i = storage b ! (payload b + i)"
  by (simp add: bytes_def in_bounds_def)

lemma content_Nil [simp]: "content m [] = []"
  by (simp add: content_def)

lemma content_Cons: "cells m a = Some b \<Longrightarrow> content m (a # as) = bytes b @ content m as"
  by (simp add: content_def)

lemma content_append [simp]: "content m (xs @ ys) = content m xs @ content m ys"
  by (simp add: content_def)

lemma content_cong: "(\<And>a. a \<in> set xs \<Longrightarrow> cells m a = cells m' a) \<Longrightarrow> content m xs = content m' xs"
  unfolding content_def by (metis (mono_tags, lifting) map_eq_conv)

lemma content_put [simp]: "a \<notin> set xs \<Longrightarrow> content (put a b m) xs = content m xs"
  by (rule content_cong) auto

lemma packet_None [simp]: "packet m None xs \<longleftrightarrow> xs = []"
  by (cases xs) simp_all

lemma packet_Some:
  "packet m (Some a) xs \<Longrightarrow> \<exists>b ys. xs = a # ys \<and> cells m a = Some b \<and> in_bounds b \<and>
     unat (tot_len b) = unat (len b) + length (content m ys) \<and> packet m (next_pbuf b) ys \<and>
     content m xs = bytes b @ content m ys"
  by (cases xs) (auto split: option.splits simp: content_Cons)

lemma packet_chain: "packet m p xs \<Longrightarrow> chain (cells m) p xs"
  by (induction m p xs rule: packet.induct) (auto split: option.splits)

lemma packet_distinct: "packet m p xs \<Longrightarrow> distinct xs"
  by (rule chain_distinct [OF packet_chain])

lemma packet_put:
  "a \<notin> set xs \<Longrightarrow> packet (put a b m) p xs \<longleftrightarrow> packet m p xs"
proof (induction xs arbitrary: p)
  case (Cons x xs)
  then show ?case by (simp cong: option.case_cong)
qed simp

text \<open>Overwriting bytes of one block of a packet.\<close>

lemma packet_overwrite:
  assumes "packet m p (us @ a # vs)" and "cells m a = Some b"
    and "storage b' = st" and "b' = b\<lparr>storage := st\<rparr>" and "length st = length (storage b)"
  shows "packet (put a b' m) p (us @ a # vs)"
    and "content (put a b' m) (us @ a # vs) = content m us @ bytes b' @ content m vs"
proof -
  have d: "a \<notin> set us" "a \<notin> set vs" using packet_distinct [OF assms(1)] by auto
  show c: "content (put a b' m) (us @ a # vs) = content m us @ bytes b' @ content m vs"
    using d by (simp add: content_Cons)
  show "packet (put a b' m) p (us @ a # vs)"
    using assms(1) d(1)
  proof (induction us arbitrary: p)
    case Nil
    then show ?case
      using assms(2-5) d(2) by (simp add: packet_put in_bounds_def)
  next
    case (Cons u us)
    then obtain c where u: "cells m u = Some c" "p = Some u" "in_bounds c" "u \<noteq> a"
      "unat (tot_len c) = unat (len c) + length (content m (us @ a # vs))"
      "packet m (next_pbuf c) (us @ a # vs)" "a \<notin> set us"
      by (auto split: option.splits simp del: content_append)
    have "length (content (put a b' m) (us @ a # vs)) = length (content m (us @ a # vs))"
      using u(7) d(2) assms(2-5) by (simp add: content_Cons bytes_def)
    then show ?case using u Cons.IH by (simp del: content_append)
  qed
qed

section \<open>Reading and writing one byte\<close>

lemma skip_step:
  "cells m a = Some b \<Longrightarrow> pbuf_skip_const (Some a) i m =
    (if len b \<le> i then pbuf_skip_const (next_pbuf b) (i - len b) m else ret (Some a, i))"
  by (subst pbuf_skip_const.simps) simp

lemma unat_sub16: "k \<le> i \<Longrightarrow> unat (i - k) = unat i - unat (k :: u16)"
  by unat_arith

lemma skip_inside:
  "packet m p xs \<Longrightarrow> unat i < length (content m xs) \<Longrightarrow>
    \<exists>us a vs b j. xs = us @ a # vs \<and> pbuf_skip_const p i m = ret (Some a, j) \<and>
      cells m a = Some b \<and> in_bounds b \<and> j < len b \<and> packet m (Some a) (a # vs) \<and>
      unat i = length (content m us) + unat j"
proof (induction xs arbitrary: p i)
  case (Cons x xs)
  obtain b where b: "p = Some x" "cells m x = Some b" "in_bounds b" "packet m (next_pbuf b) xs"
    using Cons.prems(1) by (auto split: option.splits)
  show ?case
  proof (cases "len b \<le> i")
    case False
    then have "x # xs = [] @ x # xs \<and> pbuf_skip_const p i m = ret (Some x, i) \<and>
      cells m x = Some b \<and> in_bounds b \<and> i < len b \<and> packet m (Some x) (x # xs) \<and>
      unat i = length (content m []) + unat i"
      using b Cons.prems(1) by (auto simp: skip_step)
    then show ?thesis by blast
  next
    case True
    have "unat (i - len b) < length (content m xs)"
      using Cons.prems(2) True b by (simp add: content_Cons unat_sub16 word_le_nat_alt)
    then obtain us a vs c j where ih: "xs = us @ a # vs"
      "pbuf_skip_const (next_pbuf b) (i - len b) m = ret (Some a, j)" "cells m a = Some c"
      "in_bounds c" "j < len c" "packet m (Some a) (a # vs)"
      "unat (i - len b) = length (content m us) + unat j"
      using Cons.IH [OF b(4)] by blast
    then have "x # xs = (x # us) @ a # vs \<and> pbuf_skip_const p i m = ret (Some a, j) \<and>
      cells m a = Some c \<and> in_bounds c \<and> j < len c \<and> packet m (Some a) (a # vs) \<and>
      unat i = length (content m (x # us)) + unat j"
      using b True by (simp add: skip_step content_Cons unat_sub16 word_le_nat_alt)
    then show ?thesis by blast
  qed
qed simp

lemma skip_beyond:
  "packet m p xs \<Longrightarrow> length (content m xs) \<le> unat i \<Longrightarrow>
    \<exists>j. pbuf_skip_const p i m = ret (None, j)"
proof (induction xs arbitrary: p i)
  case Nil
  then show ?case by (simp add: pbuf_skip_const.simps)
next
  case (Cons x xs)
  obtain b where b: "p = Some x" "cells m x = Some b" "in_bounds b" "packet m (next_pbuf b) xs"
    using Cons.prems(1) by (auto split: option.splits)
  have le: "len b \<le> i" and "length (content m xs) \<le> unat (i - len b)"
    using Cons.prems(2) b by (auto simp: content_Cons word_le_nat_alt unat_sub16)
  then show ?case using Cons.IH [OF b(4)] b le by (simp add: skip_step)
qed

lemma nth_content:
  "cells m a = Some b \<Longrightarrow> in_bounds b \<Longrightarrow> j < len b \<Longrightarrow>
    content m (us @ a # vs) ! (length (content m us) + unat j) = storage b ! (payload b + unat j) \<and>
    payload b + unat j < length (storage b) \<and>
    length (content m us) + unat j < length (content m (us @ a # vs))"
  by (auto simp: content_Cons nth_append bytes_nth in_bounds_def word_less_nat_alt bytes_def)

lemma try_get_at_packet:
  assumes "packet m p xs"
  shows "pbuf_try_get_at p i m =
    ret (if unat i < length (content m xs) then Some (content m xs ! unat i) else None)"
proof (cases "unat i < length (content m xs)")
  case True
  then obtain us a vs b j where s: "xs = us @ a # vs" "pbuf_skip_const p i m = ret (Some a, j)"
    "cells m a = Some b" "in_bounds b" "j < len b" "unat i = length (content m us) + unat j"
    using skip_inside [OF assms True] by blast
  then show ?thesis
    using nth_content [OF s(3-5), of us vs] by (simp add: pbuf_try_get_at_def cell_def payload_byte_def)
next
  case False
  then show ?thesis using skip_beyond [OF assms, of i] by (auto simp: pbuf_try_get_at_def)
qed

lemma get_at_packet:
  "packet m p xs \<Longrightarrow> pbuf_get_at p i m =
    ret (if unat i < length (content m xs) then content m xs ! unat i else 0)"
  by (simp add: pbuf_get_at_def try_get_at_packet)

lemma put_at_packet:
  assumes "packet m p xs"
  shows "\<exists>m'. pbuf_put_at p i v m = ret m' \<and> packet m' p xs \<and>
    content m' xs = (content m xs)[unat i := v] \<and> (\<forall>a. a \<notin> set xs \<longrightarrow> cells m' a = cells m a)"
proof (cases "unat i < length (content m xs)")
  case True
  then obtain us a vs b j where s: "xs = us @ a # vs" "pbuf_skip_const p i m = ret (Some a, j)"
    "cells m a = Some b" "in_bounds b" "j < len b" "unat i = length (content m us) + unat j"
    using skip_inside [OF assms True] by blast
  let ?st = "(storage b)[payload b + unat j := v]"
  let ?b = "b\<lparr>storage := ?st\<rparr>"
  have jl: "unat j < unat (len b)" "payload b + unat j < length (storage b)"
    using s(4,5) by (auto simp: in_bounds_def word_less_nat_alt)
  have w: "payload_write b (unat j) [v] = Inr ?b"
    using jl by (simp add: payload_write_def upd_conv_take_nth_drop)
  note ow = packet_overwrite [OF assms [unfolded s(1)] s(3), of ?b ?st]
  have upd: "bytes ?b = (bytes b)[unat j := v]"
    using jl by (simp add: bytes_def drop_update_swap take_update_swap)
  have "content (put a ?b m) xs = (content m xs)[unat i := v]"
    using ow(2) s jl by (simp add: upd content_Cons list_update_append)
  then show ?thesis
    using s w ow(1) by (intro exI [of _ "put a ?b m"]) (simp add: pbuf_put_at_def pbuf_skip_def cell_def)
next
  case False
  then show ?thesis
    using assms skip_beyond [OF assms, of i] by (auto simp: pbuf_put_at_def pbuf_skip_def list_update_beyond)
qed

section \<open>Copying out and in\<close>

text \<open>How many bytes a copy of at most \<open>n\<close> bytes from offset \<open>i\<close> takes from \<open>c\<close>.\<close>

abbreviation avail :: "u8 list \<Rightarrow> nat \<Rightarrow> nat \<Rightarrow> nat" where
  "avail c i n \<equiv> min n (length c - i)"

lemma memcpy_out_ok:
  "in_bounds b \<Longrightarrow> i + k \<le> unat (len b) \<Longrightarrow> l + k \<le> length dst \<Longrightarrow>
    memcpy_out b i k dst l = Inr (take l dst @ take k (drop i (bytes b)) @ drop (l + k) dst)"
  by (simp add: memcpy_out_def in_bounds_def bytes_def drop_take min_def add.commute)

lemma unat_add16: "unat a + unat b < 65536 \<Longrightarrow> unat (a + b) = unat a + unat (b :: u16)"
  by (simp add: unat_word_ariths)

lemma take_split:
  "i \<le> length ys \<Longrightarrow> k = min n (length ys - i) \<Longrightarrow>
    take n (drop i (ys @ zs)) = take k (drop i ys) @ take (n - k) zs"
  by (cases "n \<le> length ys - i") auto

lemma of_nat_unat16: "of_nat (unat k) = (k :: u16)"
  by simp

lemma copy_partial_step:
  "cells m a = Some b \<Longrightarrow> n \<noteq> 0 \<Longrightarrow> copy_partial_loop (Some a) dst l n i c m =
    (if i \<noteq> 0 \<and> len b \<le> i then copy_partial_loop (next_pbuf b) dst l n (i - len b) c m
     else let k = (if n < len b - i then n else len b - i) in
       bindl (Some (memcpy_out b (unat i) (unat k) dst (unat l)))
         (\<lambda>dst. copy_partial_loop (next_pbuf b) dst (l + k) (n - k) 0 (c + k) m))"
  by (subst copy_partial_loop.simps) (simp add: cell_def Let_def split: sum.split)

lemma copy_partial_end: "copy_partial_loop p dst l 0 i c m = ret (c, dst)"
  by (subst copy_partial_loop.simps) simp

lemma copy_partial_packet:
  "packet m p xs \<Longrightarrow> unat l + unat n < 65536 \<Longrightarrow>
    unat l + avail (content m xs) (unat i) (unat n) \<le> length dst \<Longrightarrow>
    copy_partial_loop p dst l n i c m =
      ret (c + of_nat (avail (content m xs) (unat i) (unat n)),
           take (unat l) dst @ take (unat n) (drop (unat i) (content m xs)) @
           drop (unat l + avail (content m xs) (unat i) (unat n)) dst)"
proof (induction xs arbitrary: p dst l n i c)
  case Nil
  then show ?case by (subst copy_partial_loop.simps) simp
next
  case (Cons x xs)
  obtain b where b: "p = Some x" "cells m x = Some b" "in_bounds b" "packet m (next_pbuf b) xs"
    using Cons.prems(1) by (auto split: option.splits)
  have c: "content m (x # xs) = bytes b @ content m xs" using b(2) by (rule content_Cons)
  show ?case
  proof (cases "n = 0")
    case True
    then show ?thesis by (simp add: copy_partial_end)
  next
    case n: False
    show ?thesis
    proof (cases "i \<noteq> 0 \<and> len b \<le> i")
      case True
      then have i: "unat (i - len b) = unat i - unat (len b)" "unat (len b) \<le> unat i"
        by (simp_all add: unat_sub16 word_le_nat_alt)
      have "length (content m (x # xs)) - unat i = length (content m xs) - unat (i - len b)"
        using i b(3) by (simp add: c)
      moreover have "drop (unat i) (content m (x # xs)) = drop (unat (i - len b)) (content m xs)"
        using i b(3) by (simp add: c)
      moreover note Cons.IH [OF b(4) Cons.prems(2), of "i - len b" dst c]
      ultimately show ?thesis
        using Cons.prems(3) True b(1) by (simp add: copy_partial_step [OF b(2) n])
    next
      case False
      have le: "unat i \<le> unat (len b)" using False by (auto simp: word_le_nat_alt)
      define k where "k = (if n < len b - i then n else len b - i)"
      have ui: "unat (len b - i) = unat (len b) - unat i"
        using le by (simp add: unat_sub16 word_le_nat_alt)
      have k: "unat k = min (unat n) (unat (len b) - unat i)" "k \<le> n"
        by (auto simp: k_def ui word_less_nat_alt word_le_nat_alt)
      have rest: "unat (n - k) = unat n - unat k" using k(2) by (rule unat_sub16)
      have "unat k \<le> unat n" using k(1) by simp
      then have lk: "unat (l + k) = unat l + unat k"
        using Cons.prems(2) by (intro unat_add16) linarith
      have av: "avail (content m (x # xs)) (unat i) (unat n) =
          unat k + avail (content m xs) 0 (unat (n - k))"
        using k(1) le b(3) by (simp add: c rest) arith
      let ?d = "take (unat l) dst @ take (unat k) (drop (unat i) (bytes b)) @ drop (unat l + unat k) dst"
      have mc: "memcpy_out b (unat i) (unat k) dst (unat l) = Inr ?d"
        using Cons.prems(3) av k(1) le by (intro memcpy_out_ok b(3)) linarith+
      have lenk: "length (take (unat k) (drop (unat i) (bytes b))) = unat k"
        using k(1) b(3) by simp
      have ld: "unat l + unat k \<le> length dst" using Cons.prems(3) av by linarith
      have len_d: "length ?d = length dst" using ld lenk by simp
      have tk: "take (unat l + unat k) ?d = take (unat l) dst @ take (unat k) (drop (unat i) (bytes b))"
        using ld lenk by simp
      have dr: "drop (unat l + unat k + j) ?d = drop (unat l + unat k + j) dst" for j
        using ld lenk by (simp add: add.commute [of j])
      have bound: "unat (l + k) + unat (n - k) < 65536"
        using Cons.prems(2) lk rest \<open>unat k \<le> unat n\<close> by linarith
      have room: "unat (l + k) + avail (content m xs) (unat (0 :: u16)) (unat (n - k)) \<le> length ?d"
        using Cons.prems(3) unfolding av lk len_d by simp
      note ih = Cons.IH [OF b(4) bound room, of "c + k", unfolded lk unsigned_0 drop_0]
      define A where "A = avail (content m xs) 0 (unat (n - k))"
      have data: "take (unat n) (drop (unat i) (content m (x # xs))) =
          take (unat k) (drop (unat i) (bytes b)) @ take (unat (n - k)) (content m xs)"
        unfolding c rest by (rule take_split) (use k(1) le b(3) in simp_all)
      have "copy_partial_loop p dst l n i c m = copy_partial_loop (next_pbuf b) ?d (l + k) (n - k) 0 (c + k) m"
        unfolding b(1) copy_partial_step [OF b(2) n] if_not_P [OF False] Let_def k_def [symmetric] mc
        by simp
      also have "\<dots> = ret (c + of_nat (unat k + A), take (unat l) dst @
          (take (unat k) (drop (unat i) (bytes b)) @ take (unat (n - k)) (content m xs)) @
          drop (unat l + (unat k + A)) dst)"
        unfolding ih A_def [symmetric] tk dr
        by (simp only: append_assoc add.assoc of_nat_add of_nat_unat16)
      finally show ?thesis unfolding data av A_def .
    qed
  qed
qed

lemma take_loop_step:
  "cells m a = Some b \<Longrightarrow> data \<noteq> [] \<Longrightarrow> take_loop (Some a) data m =
    bindl (Some (payload_write b 0 (take (unat (len b)) data)))
      (\<lambda>b. take_loop (next_pbuf b) (drop (unat (len b)) data) (put a b m))"
  by (subst take_loop.simps)
    (auto simp: cell_def Let_def payload_write_def min_def split: sum.split)

lemma take_loop_packet:
  "packet m p xs \<Longrightarrow> length data \<le> length (content m xs) \<Longrightarrow>
    \<exists>m'. take_loop p data m = ret m' \<and> packet m' p xs \<and>
      content m' xs = data @ drop (length data) (content m xs) \<and>
      (\<forall>a. a \<notin> set xs \<longrightarrow> cells m' a = cells m a)"
proof (induction xs arbitrary: p data m)
  case Nil
  then show ?case by (simp add: take_loop.simps)
next
  case (Cons x xs)
  obtain b where b: "p = Some x" "cells m x = Some b" "in_bounds b" "packet m (next_pbuf b) xs"
    using Cons.prems(1) by (auto split: option.splits)
  have x: "x \<notin> set xs" using packet_distinct [OF Cons.prems(1)] by simp
  show ?case
  proof (cases "data = []")
    case True
    then show ?thesis using Cons.prems(1) by (simp add: take_loop.simps)
  next
    case False
    define k where "k = min (unat (len b)) (length data)"
    let ?st = "take (payload b) (storage b) @ take (unat (len b)) data @ drop (payload b + k) (storage b)"
    let ?b = "b\<lparr>storage := ?st\<rparr>"
    have pb: "payload b + unat (len b) \<le> length (storage b)" using b(3) by (simp add: in_bounds_def)
    have w: "payload_write b 0 (take (unat (len b)) data) = Inr ?b"
      using pb by (simp add: payload_write_def k_def min_def)
    have lst: "length ?st = length (storage b)" using pb by (simp add: k_def min_def) linarith
    note ow = packet_overwrite [of m p "[]" x xs b ?b ?st, simplified append_Nil content_Nil,
        OF Cons.prems(1) b(2) _ refl lst]
    have by1: "bytes ?b = take (unat (len b)) data @ drop (length data) (bytes b)"
      using pb by (simp add: bytes_def k_def min_def drop_take add.commute)
    have pm: "packet (put x ?b m) (next_pbuf b) xs" using b(4) x by (simp add: packet_put)
    have "length (drop (unat (len b)) data) \<le> length (content (put x ?b m) xs)"
      using Cons.prems(2) b x by (simp add: content_Cons)
    then obtain m' where m': "take_loop (next_pbuf b) (drop (unat (len b)) data) (put x ?b m) = ret m'"
      "packet m' (next_pbuf b) xs"
      "content m' xs = drop (unat (len b)) data @ drop (length data - unat (len b)) (content m xs)"
      "\<forall>a. a \<notin> set xs \<longrightarrow> cells m' a = cells (put x ?b m) a"
      using Cons.IH [OF pm, of "drop (unat (len b)) data"] x by auto
    have cx: "cells m' x = Some ?b" using m'(4) x by simp
    have cont: "content m' (x # xs) = data @ drop (length data) (content m (x # xs))"
    proof -
      have "content m' (x # xs) = (take (unat (len b)) data @ drop (length data) (bytes b)) @ content m' xs"
        by (simp only: content_Cons [OF cx] by1)
      then show ?thesis
        using b(3) by (cases "length data \<le> unat (len b)") (simp_all add: m'(3) content_Cons [OF b(2)])
    qed
    have "length (content m' xs) = length (content m xs)"
      using m'(3) Cons.prems(2) b by (simp add: content_Cons)
    then have "packet m' p (x # xs)"
      using cx m'(2) b Cons.prems(1) lst by (auto simp: in_bounds_def split: option.splits)
    moreover have "take_loop p data m = ret m'"
      using w m'(1) b(1) False by (simp add: take_loop_step [OF b(2)])
    ultimately show ?thesis using cont m'(4) by auto
  qed
qed

section \<open>Comparing and searching\<close>

text \<open>The length of the longest common prefix, and what a comparison returns.\<close>

definition common_prefix :: "u8 list \<Rightarrow> u8 list \<Rightarrow> nat" where
  "common_prefix xs ys = length (takeWhile (\<lambda>(x, y). x = y) (zip xs ys))"

definition comparison :: "nat \<Rightarrow> u8 list \<Rightarrow> u8 list \<Rightarrow> u16" where
  "comparison i xs ys = (if xs = ys then 0 else of_nat (min (i + common_prefix xs ys + 1) 0xFFFF))"

lemma comparison_Cons:
  "comparison i (x # xs) (y # ys) = (if x \<noteq> y then of_nat (min (i + 1) 0xFFFF) else comparison (Suc i) xs ys)"
  by (simp add: comparison_def common_prefix_def)

lemma comparison_0: "comparison i xs ys = 0 \<longleftrightarrow> xs = ys"
proof -
  define k where "k = min (i + common_prefix xs ys + 1) 0xFFFF"
  have "unat (of_nat k :: u16) = k" by (rule unat_of_nat_u16) (simp add: k_def)
  moreover have "0 < k" by (simp add: k_def)
  ultimately have "(of_nat k :: u16) \<noteq> 0" by (metis less_irrefl unsigned_0)
  then show ?thesis by (simp add: comparison_def k_def)
qed

lemma memcmp_loop_packet:
  "packet m q ys \<Longrightarrow> unat start + i + length s \<le> length (content m ys) \<Longrightarrow>
    length (content m ys) < 65536 \<Longrightarrow>
    memcmp_loop q start i s m =
      ret (comparison i (take (length s) (drop (unat start + i) (content m ys))) s)"
proof (induction s arbitrary: i)
  case Nil
  then show ?case by (simp add: comparison_def)
next
  case (Cons v s)
  have "unat (start + of_nat i) = unat start + i"
    using Cons.prems by (subst unat_add16) (simp_all add: unat_of_nat_u16)
  then have get: "pbuf_get_at q (start + of_nat i) m = ret (content m ys ! (unat start + i))"
    using Cons.prems get_at_packet [OF Cons.prems(1)] by simp
  have "drop (unat start + i) (content m ys) =
      content m ys ! (unat start + i) # drop (unat start + Suc i) (content m ys)"
    using Cons.prems(2) by (simp add: Cons_nth_drop_Suc)
  then show ?case
    using Cons.IH [of "Suc i"] Cons.prems by (simp add: get comparison_Cons)
qed

lemma total_u16: "packet m p xs \<Longrightarrow> length (content m xs) < 65536"
proof (cases xs)
  case (Cons a as)
  assume "packet m p xs"
  then obtain b where "cells m a = Some b" "in_bounds b"
    "unat (tot_len b) = unat (len b) + length (content m as)"
    using Cons by (auto split: option.splits)
  then show ?thesis using Cons unat_u16_less [of "tot_len b"] by (simp add: content_Cons)
qed simp

lemma memcmp_packet:
  assumes "packet m (Some a) xs" and "unat i + unat n \<le> length (content m xs)" and "length s = unat n"
  shows "pbuf_memcmp (Some a) i s n m = ret (comparison 0 (take (unat n) (drop (unat i) (content m xs))) s)"
proof -
  obtain b where b: "cells m a = Some b" "unat (tot_len b) = length (content m xs)"
    using packet_Some [OF assms(1)] by auto
  show ?thesis
  proof (cases "unat i < length (content m xs)")
    case True
    obtain us c vs d j where s: "xs = us @ c # vs" "pbuf_skip_const (Some a) i m = ret (Some c, j)"
      "packet m (Some c) (c # vs)" "unat i = length (content m us) + unat j"
      using skip_inside [OF assms(1) True] by blast
    have cut: "drop (unat i) (content m xs) = drop (unat j) (content m (c # vs))"
      by (simp add: s(1,4))
    have "length (content m xs) = length (content m us) + length (content m (c # vs))"
      by (simp add: s(1))
    then have "memcmp_loop (Some c) j 0 s m =
        ret (comparison 0 (take (unat n) (drop (unat i) (content m xs))) s)"
      using memcmp_loop_packet [OF s(3), of j 0 s] assms(2,3) s(4) total_u16 [OF s(3)] cut by simp
    then show ?thesis using b assms(2,3) s(2) by (simp add: pbuf_memcmp_def cell_def)
  next
    case False
    then obtain j where "pbuf_skip_const (Some a) i m = ret (None, j)"
      using skip_beyond [OF assms(1), of i] by auto
    moreover have "unat n = 0" using False assms(2) by simp
    ultimately show ?thesis
      using b assms(2,3) by (simp add: pbuf_memcmp_def cell_def comparison_def)
  qed
qed

text \<open>The first place from \<open>i\<close> on at which \<open>s\<close> occurs in \<open>c\<close>.\<close>

definition find_from :: "u8 list \<Rightarrow> u8 list \<Rightarrow> nat \<Rightarrow> nat option" where
  "find_from c s i = List.find (\<lambda>j. take (length s) (drop j c) = s) [i..<Suc (length c - length s)]"

lemma find_from_step:
  "i \<le> length c - length s \<Longrightarrow> find_from c s i =
    (if take (length s) (drop i c) = s then Some i else find_from c s (Suc i))"
  unfolding find_from_def by (subst upt_conv_Cons) simp_all

lemma find_from_end: "length c - length s < i \<Longrightarrow> find_from c s i = None"
  by (simp add: find_from_def)

lemma memfind_loop_packet:
  assumes "packet m (Some a) xs" and "length s = unat n" and "unat n \<le> length (content m xs)"
    and "unat mx = length (content m xs) - unat n"
  shows "memfind_loop (Some a) s n i mx m =
    ret (case find_from (content m xs) s (unat i) of Some j \<Rightarrow> of_nat j | None \<Rightarrow> 0xFFFF)"
proof (induction "unat mx + 1 - unat i" arbitrary: i)
  case 0
  then have "\<not> i \<le> mx" by (simp add: word_le_nat_alt)
  then show ?case
    using 0 assms(2,4) by (subst memfind_loop.simps) (simp add: find_from_end)
next
  case (Suc d)
  then have le: "i \<le> mx" by (simp add: word_le_nat_alt)
  have in_c: "unat i + unat n \<le> length (content m xs)"
    using le assms(3,4) by (simp add: word_le_nat_alt)
  let ?hit = "take (unat n) (drop (unat i) (content m xs)) = s"
  have step: "memfind_loop (Some a) s n i mx m = (if ?hit then ret i else memfind_loop (Some a) s n (i + 1) mx m)"
    using le by (subst memfind_loop.simps)
      (simp add: memcmp_packet [OF assms(1) in_c assms(2)] comparison_0)
  have fs: "find_from (content m xs) s (unat i) =
      (if ?hit then Some (unat i) else find_from (content m xs) s (Suc (unat i)))"
    using in_c assms(2) by (subst find_from_step) simp_all
  show ?case
  proof (cases ?hit)
    case True
    then show ?thesis by (simp add: step fs)
  next
    case False
    have "n \<noteq> 0" using False assms(2) by auto
    then have "0 < unat n" by (simp add: unat_gt_0)
    then have "unat (i + 1) = Suc (unat i)"
      using in_c total_u16 [OF assms(1)] by (subst unat_add16) simp_all
    then show ?thesis
      using False Suc.hyps(1) [of "i + 1"] Suc.hyps(2) by (simp add: step fs)
  qed
qed

section \<open>Properties\<close>

text \<open>
  C12: Reading and writing single bytes. On a well-formed packet \<open>pbuf_get_at\<close> ends without a
  fault in the byte of the contents at the offset, or 0 beyond the end; \<open>pbuf_put_at\<close> changes that
  byte of the contents and nothing else, ignores an offset beyond the end, keeps the packet
  well-formed and touches no block outside it.
\<close>

theorem pbuf_byte_access:
  assumes "packet m p xs"
  shows "pbuf_get_at p i m = ret (if unat i < length (content m xs) then content m xs ! unat i else 0) \<and>
    runs (pbuf_put_at p i v m) (\<lambda>m'. packet m' p xs \<and> content m' xs = (content m xs)[unat i := v] \<and>
      (\<forall>a. a \<in> set xs \<or> cells m' a = cells m a))"
  using put_at_packet [OF assms, of i v] by (auto simp: get_at_packet [OF assms] runs_def)

text \<open>
  C13: Copying in and out. \<open>pbuf_take\<close> of \<open>n\<close> bytes that fit the packet replaces the first \<open>n\<close>
  bytes of its contents, however the blocks cut them, and \<open>pbuf_copy_partial\<close> at any offset into a
  buffer with enough room copies what the contents then hold there and reports its length; in
  particular it gives the bytes taken back.
\<close>

theorem pbuf_take_copy:
  assumes "packet m (Some a) xs" and "unat n \<le> length (content m xs)" and "unat n \<le> length data"
    and "unat k \<le> length dst"
  shows "runs (pbuf_take (Some a) data n m) (\<lambda>(e, m'). e = ERR_OK \<and> packet m' (Some a) xs \<and>
    content m' xs = take (unat n) data @ drop (unat n) (content m xs) \<and>
    pbuf_copy_partial (Some a) dst k i m' =
      ret (of_nat (avail (content m' xs) (unat i) (unat k)),
           take (unat k) (drop (unat i) (content m' xs)) @
           drop (avail (content m' xs) (unat i) (unat k)) dst))"
proof -
  obtain b where b: "cells m a = Some b" "unat (tot_len b) = length (content m xs)"
    using packet_Some [OF assms(1)] by auto
  obtain m' where m': "take_loop (Some a) (take (unat n) data) m = ret m'" "packet m' (Some a) xs"
    "content m' xs = take (unat n) data @ drop (unat n) (content m xs)"
    using take_loop_packet [OF assms(1), of "take (unat n) data"] assms(2,3) by auto
  have "pbuf_copy_partial (Some a) dst k i m' =
      ret (of_nat (avail (content m' xs) (unat i) (unat k)),
           take (unat k) (drop (unat i) (content m' xs)) @
           drop (avail (content m' xs) (unat i) (unat k)) dst)"
    using copy_partial_packet [OF m'(2), of 0 k i dst 0] assms(4) by (simp add: pbuf_copy_partial_def)
  then show ?thesis
    using b m' assms(2,3) by (simp add: pbuf_take_def cell_def word_less_nat_alt not_less)
qed

text \<open>
  C14: Searching. \<open>pbuf_memfind\<close> ends, although its loop counter is a 16-bit integer, and returns the
  first offset from \<open>start\<close> on at which the bytes occur in the contents of the packet, or
  \<open>0xFFFF\<close> if there is none.
\<close>

theorem pbuf_memfind_first:
  assumes "packet m (Some a) xs" and "length s = unat n"
  shows "pbuf_memfind (Some a) s n start m =
    ret (if unat n + unat start \<le> length (content m xs) then
           (case find_from (content m xs) s (unat start) of Some j \<Rightarrow> of_nat j | None \<Rightarrow> 0xFFFF)
         else 0xFFFF)"
proof -
  obtain b where b: "cells m a = Some b" "unat (tot_len b) = length (content m xs)"
    using packet_Some [OF assms(1)] by auto
  show ?thesis
  proof (cases "unat n + unat start \<le> length (content m xs)")
    case True
    have "unat (tot_len b - n) = length (content m xs) - unat n"
      using True b(2) by (subst unat_sub16) (simp_all add: word_le_nat_alt)
    then show ?thesis
      using b True memfind_loop_packet [OF assms, of "tot_len b - n" start]
      by (simp add: pbuf_memfind_def cell_def)
  next
    case False
    then show ?thesis using b by (simp add: pbuf_memfind_def cell_def)
  qed
qed

section \<open>A sample packet\<close>

definition two_segs :: pmem where
  "two_segs = \<lparr>cells =
     [4 \<mapsto> (pbuf_init_alloced_pbuf [9, 1, 2, 3] 1 5 3 PBUF_POOL 0)\<lparr>next_pbuf := Some 7\<rparr>,
      7 \<mapsto> pbuf_init_alloced_pbuf [4, 5] 0 2 2 PBUF_POOL 0], pool_free = [], refs_free = []\<rparr>"

lemma two_segs_packet: "packet two_segs (Some 4) [4, 7]"
  by (simp add: two_segs_def pbuf_init_alloced_pbuf_def in_bounds_def content_def bytes_def)

lemma two_segs_content: "content two_segs [4, 7] = [1, 2, 3, 4, 5]"
  by (simp add: two_segs_def pbuf_init_alloced_pbuf_def content_def bytes_def)

theorem pbuf_byte_access_witness:
  "packet two_segs (Some 4) [4, 7] \<and> pbuf_get_at (Some 4) 3 two_segs = ret 4 \<and>
   runs (pbuf_put_at (Some 4) 3 7 two_segs) (\<lambda>m'. content m' [4, 7] = [1, 2, 3, 7, 5])"
  using two_segs_packet pbuf_byte_access [OF two_segs_packet, of 3 7]
  by (auto simp: two_segs_content runs_def simp del: packet.simps)

theorem pbuf_take_copy_witness:
  "runs (pbuf_take (Some 4) [8, 7, 6, 5] 4 two_segs) (\<lambda>(e, m'). e = ERR_OK \<and>
     content m' [4, 7] = [8, 7, 6, 5, 5] \<and>
     pbuf_copy_partial (Some 4) [0, 0] 2 2 m' = ret (2, [6, 5]))"
proof -
  have "unat (4 :: u16) \<le> length (content two_segs [4, 7])" "unat (4 :: u16) \<le> length [8, 7, 6, 5 :: u8]"
    "unat (2 :: u16) \<le> length [0, 0 :: u8]"
    by (simp_all add: two_segs_content)
  from pbuf_take_copy [OF two_segs_packet this, of 2] show ?thesis
    by (auto simp: two_segs_content runs_def simp del: packet.simps)
qed

lemma find_sample: "find_from [1, 2, 3, 4, 5] [3, 4] 1 = Some 2"
proof -
  have "[1..<Suc (length [1, 2, 3, 4, 5 :: u8] - length [3, 4 :: u8])] = [1, 2, 3]"
    by (simp add: upt_rec)
  then show ?thesis by (simp add: find_from_def)
qed

theorem pbuf_memfind_first_witness:
  "packet two_segs (Some 4) [4, 7] \<and> length [3, 4 :: u8] = unat (2 :: u16) \<and>
   pbuf_memfind (Some 4) [3, 4] 2 1 two_segs = ret 2"
  using two_segs_packet pbuf_memfind_first [OF two_segs_packet, of "[3, 4]" 2 1]
  find_sample
  by (simp add: two_segs_content del: packet.simps)

end
