(* ===== verification/Auto_Gain_Control.thy ===== *)
theory Auto_Gain_Control
  imports Pbuf_Content
begin

text \<open>
  The automatic gain control (\<open>src/src/auto_gain_control.c\<close>, \<open>auto_gain_control.h\<close>). Every
  line of a revolution has a record; a line on which a sample exceeds the permissible value
  marks the lines around it, the gain of a line marked in several revolutions in a row is
  lowered, and the gain of the next line is sent to the programmable logic when it changes.
  The file's static and global variables are one record, to which \<open>to_PL\<close> adds the messages
  passed to \<open>send_to_PL\<close>. The statics \<open>total_len\<close> and \<open>predel_na_shag\<close> are computed by the code
  and never used, so they are left out; the others that are written before every use are
  arguments.
\<close>

unbundle bit_operations_syntax

section \<open>State\<close>

record autogaincontrol =
  counter_repetition :: u8
  flag_cgange :: bool
  curent_gain :: u8

record autogaincontrolconstants =
  max_permissible_value :: u16
  weakening_zone :: u8
  number_of_permissible_revolutions :: u8

definition NOMINAL_NUMBER_OF_LINES_PER_REVOLUTION :: nat where
  "NOMINAL_NUMBER_OF_LINES_PER_REVOLUTION = 1200"

definition MINIMAL_GAIN_VALUE :: int where
  "MINIMAL_GAIN_VALUE = 100"

definition agc_constants :: "u16 \<Rightarrow> u8 \<Rightarrow> u8 \<Rightarrow> autogaincontrolconstants" where
  "agc_constants v z n =
    \<lparr>max_permissible_value = v, weakening_zone = z, number_of_permissible_revolutions = n\<rparr>"

definition autogain_control_constants :: "autogaincontrolconstants list" where
  "autogain_control_constants =
    replicate 2 (agc_constants 0xEC54 5 3) @ replicate 4 (agc_constants 0xEC54 4 3) @
    replicate 6 (agc_constants 0xEC54 3 3) @ replicate 6 (agc_constants 0xEC54 2 2) @
    replicate 2 (agc_constants 0xEC54 1 1)"

abbreviation k0 :: autogaincontrolconstants where
  "k0 \<equiv> autogain_control_constants ! 0"

record agc =
  old_gain_value :: u8
  flag_first_disckret :: bool
  average_values_of_the_ruler :: "u32 list"
  average_value_per_revolution :: "u32 list"
  average_value_over_three_revolutions :: u32
  counter_to_3 :: u8
  data_to_send_PL :: "u8 list"
  gain_lines :: "autogaincontrol list"
  to_PL :: "u8 list list"

definition fresh_line :: autogaincontrol where
  "fresh_line = \<lparr>counter_repetition = 0, flag_cgange = False, curent_gain = 127\<rparr>"

text \<open>
  \<open>malloc\<close> of the array may fail: the loop then writes through the null pointer before the
  test that was meant to catch it.
\<close>

definition create_auto_gain_control_array :: "bool \<Rightarrow> u16 \<Rightarrow> autogaincontrol list option result" where
  "create_auto_gain_control_array malloc_ok n =
    (if \<not> malloc_ok then (if n = 0 then Inr None else Inl Null_pointer)
     else Inr (Some (replicate (unat n) fresh_line)))"

definition initial_agc :: agc where
  "initial_agc = \<lparr>old_gain_value = 127, flag_first_disckret = True,
     average_values_of_the_ruler = replicate 1200 0, average_value_per_revolution = replicate 3 0,
     average_value_over_three_revolutions = 0, counter_to_3 = 0, data_to_send_PL = [127, 0xC3],
     gain_lines = replicate 1200 fresh_line, to_PL = []\<rparr>"

section \<open>Marking the lines around an overloaded one\<close>

text \<open>\<open>real_weakening_line_index\<close>, as an \<open>int\<close> computation.\<close>

definition real_weakening_line_index :: "u16 \<Rightarrow> int \<Rightarrow> nat" where
  "real_weakening_line_index line_index w =
    nat ((int (unat line_index + NOMINAL_NUMBER_OF_LINES_PER_REVOLUTION) + w)
         mod int NOMINAL_NUMBER_OF_LINES_PER_REVOLUTION)"

text \<open>What happens to one line; the counter has 8 bits, the comparison of the gain is in \<open>int\<close>.\<close>

definition weaken :: "autogaincontrol \<Rightarrow> autogaincontrol" where
  "weaken g =
    (if \<not> flag_cgange g then
       let g = g\<lparr>counter_repetition := counter_repetition g + 1\<rparr>;
           g = (if number_of_permissible_revolutions k0 < counter_repetition g then
                  if int (unat (curent_gain g)) - 10 \<le> MINIMAL_GAIN_VALUE
                  then g\<lparr>curent_gain := word_of_int MINIMAL_GAIN_VALUE\<rparr>
                  else g\<lparr>curent_gain := curent_gain g - 10\<rparr>
                else g) in
       g\<lparr>flag_cgange := True\<rparr>
     else g)"

fun weakening_loop :: "u16 \<Rightarrow> int list \<Rightarrow> autogaincontrol list \<Rightarrow> autogaincontrol list result" where
  "weakening_loop line_index [] gs = Inr gs"
| "weakening_loop line_index (w # ws) gs =
    (let i = real_weakening_line_index line_index w in
     bindr (rd gs i) (\<lambda>g. bindr (wr gs i (weaken g)) (weakening_loop line_index ws)))"

definition weakening_range :: "int list" where
  "weakening_range = [- int (unat (weakening_zone k0))..int (unat (weakening_zone k0))]"

section \<open>The samples of a line\<close>

text \<open>
  The loop over the samples of one block, from the byte \<open>kursor\<close> on; the result tells whether
  it left by \<open>goto target\<close>. The list holds the values of \<open>sample_index\<close> still to come.
\<close>

fun sample_loop :: "pbuf \<Rightarrow> nat \<Rightarrow> u16 \<Rightarrow> nat list \<Rightarrow> agc \<Rightarrow> (bool \<times> agc) result" where
  "sample_loop q kursor line_index [] s = Inr (False, s)"
| "sample_loop q kursor line_index (sample_index # is) s =
    bindr (payload_byte q (kursor + sample_index * 2)) (\<lambda>hi.
    bindr (payload_byte q (kursor + (sample_index * 2 + 1))) (\<lambda>lo.
    let discrete_value = ucast hi * 0x100 + ucast lo :: u16;
        l = unat line_index in
    bindr (rd (average_values_of_the_ruler s) l) (\<lambda>av.
    bindr (wr (average_values_of_the_ruler s) l
             (if flag_first_disckret s then ucast discrete_value else av + ucast discrete_value))
      (\<lambda>avs.
      let s = s\<lparr>average_values_of_the_ruler := avs, flag_first_disckret := False\<rparr> in
      if max_permissible_value k0 < discrete_value then
        bindr (weakening_loop line_index weakening_range (gain_lines s))
          (\<lambda>gs. Inr (True, s\<lparr>gain_lines := gs\<rparr>))
      else sample_loop q kursor line_index is s))))"

text \<open>The loop over the blocks; the header of 74 bytes is skipped in the first one.\<close>

partial_function (option) segment_loop ::
    "pmem \<Rightarrow> addr option \<Rightarrow> nat \<Rightarrow> u16 \<Rightarrow> u16 \<Rightarrow> agc \<Rightarrow> agc run" where
  "segment_loop m p kursor size_of_samples line_index s =
    (case p of None \<Rightarrow> Some (Inr s) | Some a \<Rightarrow>
      (case cells m a of None \<Rightarrow> Some (Inl Use_after_free) | Some q \<Rightarrow>
        (case sample_loop q kursor line_index [0..<unat size_of_samples] s of
           Inl e \<Rightarrow> Some (Inl e)
         | Inr (left, s) \<Rightarrow>
             if left then Some (Inr s)
             else segment_loop m (next_pbuf q) 0 size_of_samples line_index s)))"

section \<open>Averages\<close>

definition revolution_average :: "agc \<Rightarrow> agc result" where
  "revolution_average s =
    (let c = unat (counter_to_3 s); avs = average_values_of_the_ruler s in
     if length avs < 99 then Inl Out_of_bounds
     else bindr (rd (average_value_per_revolution s) c) (\<lambda>v.
       bindr (wr (average_value_per_revolution s) c ((v + sum_list (take 99 avs)) div 98)) (\<lambda>pr.
       let s = s\<lparr>average_value_per_revolution := pr\<rparr> in
       if counter_to_3 s \<noteq> 2 then Inr (s\<lparr>counter_to_3 := counter_to_3 s + 1\<rparr>)
       else bindr (rd pr 0) (\<lambda>a. bindr (rd pr 1) (\<lambda>b. bindr (rd pr 2) (\<lambda>c.
         Inr (s\<lparr>average_value_over_three_revolutions := (a + b + c) div 3,
                average_value_per_revolution := pr[0 := b, 1 := c]\<rparr>)))))))"

definition finish_average :: "u16 \<Rightarrow> u16 \<Rightarrow> agc \<Rightarrow> agc result" where
  "finish_average size_of_samples line_index s =
    (let l = unat line_index in
     bindr (rd (average_values_of_the_ruler s) l) (\<lambda>av.
     if size_of_samples = 0 then Inl Divide_by_zero
     else bindr (wr (average_values_of_the_ruler s) l (av div ucast size_of_samples)) (\<lambda>avs.
       let s = s\<lparr>average_values_of_the_ruler := avs\<rparr> in
       if line_index = 98 then revolution_average s else Inr s)))"

section \<open>Cleaning and sending\<close>

definition clean :: "autogaincontrol \<Rightarrow> autogaincontrol" where
  "clean g =
    (let g = (if \<not> flag_cgange g then g\<lparr>counter_repetition := 0, curent_gain := 127\<rparr> else g) in
     g\<lparr>flag_cgange := False\<rparr>)"

definition cleaning_auto_gain_control_array :: "nat \<Rightarrow> agc \<Rightarrow> agc result" where
  "cleaning_auto_gain_control_array boundary_line_index s =
    bindr (rd (gain_lines s) boundary_line_index) (\<lambda>g.
    bindr (wr (gain_lines s) boundary_line_index (clean g)) (\<lambda>gs. Inr (s\<lparr>gain_lines := gs\<rparr>)))"

definition update_gain_value :: "nat \<Rightarrow> agc \<Rightarrow> agc result" where
  "update_gain_value next_line_index s =
    bindr (rd (gain_lines s) next_line_index) (\<lambda>g.
      if curent_gain g \<noteq> old_gain_value s then
        let d = (data_to_send_PL s)[0 := curent_gain g] in
        Inr (s\<lparr>old_gain_value := curent_gain g, data_to_send_PL := d, to_PL := to_PL s @ [take 2 d]\<rparr>)
      else Inr s)"

section \<open>One line\<close>

definition filling_auto_gain_control_array ::
    "pmem \<Rightarrow> addr option \<Rightarrow> u16 \<Rightarrow> u16 \<Rightarrow> agc \<Rightarrow> agc run" where
  "filling_auto_gain_control_array m p size_of_samples line_index s =
    bindl (Some (cell m p)) (\<lambda>_.
    bindl (segment_loop m p 74 size_of_samples line_index s) (\<lambda>s.
    bindl (Some (finish_average size_of_samples line_index s)) (\<lambda>s.
    let s = s\<lparr>flag_first_disckret := False\<rparr>;
        n = NOMINAL_NUMBER_OF_LINES_PER_REVOLUTION;
        l = unat line_index in
    bindl (Some (cleaning_auto_gain_control_array ((l + n - (unat (weakening_zone k0) + 1)) mod n) s)) (\<lambda>s.
    Some (update_gain_value ((l + 1) mod n) s)))))"

text \<open>
  The fields of the header. With \<open>r = 3\<close> the code first reads the fields of another layout and
  then overwrites both results. \<open>size_of_samples\<close> is cut to 16 bits.
\<close>

definition header_line_index :: "pbuf \<Rightarrow> u32 result" where
  "header_line_index b =
    bindr (payload_byte b 54) (\<lambda>h. bindr (payload_byte b 55) (\<lambda>l.
      Inr ((ucast h * 0x100 + ucast l) div 0x36)))"

definition header_size :: "pbuf \<Rightarrow> u16 result" where
  "header_size b =
    bindr (payload_byte b 70) (\<lambda>a. bindr (payload_byte b 71) (\<lambda>h. bindr (payload_byte b 72) (\<lambda>l.
      Inr (ucast (ucast a * 0x10000 + ucast h * 0x100 + ucast l :: u32)))))"

definition unused_reads :: "pbuf \<Rightarrow> unit result" where
  "unused_reads b =
    bindr (payload_byte b 40) (\<lambda>_. bindr (payload_byte b 41) (\<lambda>_. bindr (payload_byte b 56) (\<lambda>_.
    bindr (payload_byte b 57) (\<lambda>_. bindr (payload_byte b 58) (\<lambda>_. Inr ())))))"

definition auto_gain_control :: "pmem \<Rightarrow> addr option \<Rightarrow> agc \<Rightarrow> agc run" where
  "auto_gain_control m p s =
    bindl (Some (cell m p)) (\<lambda>b.
    bindl (Some (unused_reads b)) (\<lambda>_.
    bindl (Some (header_line_index b)) (\<lambda>line_index.
    bindl (Some (header_size b)) (\<lambda>size_of_samples.
    filling_auto_gain_control_array m p size_of_samples (ucast line_index) s))))"

end
