(* ===== verification/Gain_Revolution.thy ===== *)
theory Gain_Revolution
  imports Auto_Gain_Control
begin

text \<open>
  What the automatic gain control does to one line over a revolution: a specification per line
  and the proof that the array code implements it, the invariant of its state, and the gain a
  line has after any number of overloaded revolutions.
\<close>

unbundle bit_operations_syntax

section \<open>The invariant\<close>

definition gain_ok :: "u8 \<Rightarrow> bool" where
  "gain_ok g \<longleftrightarrow> 100 \<le> unat g \<and> unat g \<le> 127"

definition wf_agc :: "agc \<Rightarrow> bool" where
  "wf_agc s \<longleftrightarrow> length (gain_lines s) = 1200 \<and> length (average_values_of_the_ruler s) = 1200 \<and>
    length (average_value_per_revolution s) = 3 \<and> unat (counter_to_3 s) \<le> 2 \<and>
    (\<forall>g \<in> set (gain_lines s). gain_ok (curent_gain g)) \<and> gain_ok (old_gain_value s) \<and>
    data_to_send_PL s = [old_gain_value s, 0xC3] \<and>
    (\<forall>msg \<in> set (to_PL s). \<exists>g. msg = [g, 0xC3] \<and> gain_ok g)"

lemma k0_fields [simp]:
  "max_permissible_value k0 = 0xEC54" "weakening_zone k0 = 5" "number_of_permissible_revolutions k0 = 3"
  by (simp_all add: autogain_control_constants_def agc_constants_def numeral_2_eq_2)

lemma wf_initial: "wf_agc initial_agc"
  by (auto simp: wf_agc_def initial_agc_def fresh_line_def gain_ok_def)

section \<open>Marking and cleaning one line\<close>

lemma weaken_flag [simp]: "flag_cgange (weaken g)"
  by (simp add: weaken_def Let_def)

lemma weaken_flagged: "flag_cgange g \<Longrightarrow> weaken g = g"
  by (simp add: weaken_def)

lemma weaken_idem [simp]: "weaken (weaken g) = weaken g"
  by (simp add: weaken_flagged)

lemma gain_ok_weaken: "gain_ok (curent_gain g) \<Longrightarrow> gain_ok (curent_gain (weaken g))"
proof -
  assume g: "gain_ok (curent_gain g)"
  have "unat (curent_gain g - 10) = unat (curent_gain g) - 10"
    using g by (unat_arith; simp add: gain_ok_def)
  then show ?thesis
    using g by (auto simp: weaken_def Let_def gain_ok_def MINIMAL_GAIN_VALUE_def simp del: of_nat_unat)
qed

lemma gain_ok_clean: "gain_ok (curent_gain g) \<Longrightarrow> gain_ok (curent_gain (clean g))"
  by (simp add: clean_def gain_ok_def)

text \<open>The lines near \<open>l\<close>: at most 5 away, counted around the revolution.\<close>

definition near :: "nat \<Rightarrow> nat \<Rightarrow> bool" where
  "near l j \<longleftrightarrow> (l + 1205 - j) mod 1200 \<le> 10"

definition boundary :: "nat \<Rightarrow> nat" where
  "boundary l = (l + 1194) mod 1200"

text \<open>The specification: what processing line \<open>l\<close>, overloaded or not, does to line \<open>j\<close>.\<close>

definition step_line :: "nat \<Rightarrow> nat \<times> bool \<Rightarrow> autogaincontrol \<Rightarrow> autogaincontrol" where
  "step_line j = (\<lambda>(l, hit) g.
     let g = (if hit \<and> near l j then weaken g else g) in
     if j = boundary l then clean g else g)"

lemma weakening_loop_eq:
  "\<forall>w \<in> set ws. real_weakening_line_index l w < length gs \<Longrightarrow>
    weakening_loop l ws gs =
      Inr (map (\<lambda>j. if j \<in> real_weakening_line_index l ` set ws then weaken (gs ! j) else gs ! j)
             [0..<length gs])"
proof (induction ws arbitrary: gs)
  case Nil
  then show ?case by (simp add: map_nth)
next
  case (Cons w ws)
  let ?i = "real_weakening_line_index l w"
  have "?i < length gs" using Cons.prems by simp
  then show ?case
    using Cons.prems by (auto simp: Let_def Cons.IH nth_list_update intro!: map_cong)
qed

lemma weakening_range_eq: "weakening_range = [-5..5]"
  by (simp add: weakening_range_def)

lemma set_weakening_range: "w \<in> set weakening_range \<longleftrightarrow> - 5 \<le> w \<and> w \<le> 5"
  unfolding weakening_range_eq set_upto by simp

lemma mod_1200: "x < 3600 \<Longrightarrow> x mod 1200 = (if x < 1200 then x else if x < 2400 then x - 1200 else x - 2400)"
  for x :: nat
  by (simp add: mod_if)

lemma near_iff:
  assumes "l < 1200" and "j < 1200"
  shows "near l j \<longleftrightarrow> j \<le> l + 5 \<and> l \<le> j + 5 \<or> l + 1200 \<le> j + 5 \<or> j + 1200 \<le> l + 5"
proof -
  have "l + 1205 - j < 3600" using assms by simp
  then show ?thesis unfolding near_def by (subst mod_1200) (use assms in auto)
qed

lemma index_iff:
  assumes "unat l < 1200" and "j < 1200" and "- 5 \<le> w" and "w \<le> 5"
  shows "j = real_weakening_line_index l w \<longleftrightarrow>
    int j = int (unat l) + w \<or> int j = int (unat l) + w + 1200 \<or> int j + 1200 = int (unat l) + w"
proof -
  define n where "n = nat (int (unat l) + 1200 + w)"
  have n: "int n = int (unat l) + 1200 + w" using assms(3) by (simp add: n_def del: of_nat_unat)
  have "real_weakening_line_index l w = nat (int n mod 1200)"
    by (simp add: real_weakening_line_index_def NOMINAL_NUMBER_OF_LINES_PER_REVOLUTION_def n)
  also have "\<dots> = n mod 1200" using nat_int [of "n mod 1200"] by (simp only: of_nat_mod of_nat_numeral)
  also have "n < 3600" using n assms by linarith
  then have "n mod 1200 = (if n < 1200 then n else if n < 2400 then n - 1200 else n - 2400)"
    by (rule mod_1200)
  finally have e: "real_weakening_line_index l w =
    (if n < 1200 then n else if n < 2400 then n - 1200 else n - 2400)" .
  show ?thesis unfolding e using n assms by (auto simp del: of_nat_unat)
qed

lemma weakened_lines:
  assumes "unat l < 1200" and "j < 1200"
  shows "j \<in> real_weakening_line_index l ` set weakening_range \<longleftrightarrow> near (unat l) j"
proof -
  let ?P = "\<lambda>w. int j = int (unat l) + w \<or> int j = int (unat l) + w + 1200 \<or>
    int j + 1200 = int (unat l) + w"
  have "j \<in> real_weakening_line_index l ` set weakening_range \<longleftrightarrow> (\<exists>w. - 5 \<le> w \<and> w \<le> 5 \<and> ?P w)"
    unfolding image_iff Bex_def set_weakening_range using index_iff [OF assms] by blast
  also have "\<dots> \<longleftrightarrow> near (unat l) j"
  proof
    assume "\<exists>w. - 5 \<le> w \<and> w \<le> 5 \<and> ?P w"
    then obtain w where w: "- 5 \<le> w" "w \<le> 5" "?P w" by blast
    from w(3) show "near (unat l) j"
      unfolding near_iff [OF assms] by (elim disjE) (use w(1,2) in linarith)+
  next
    assume "near (unat l) j"
    then consider "j \<le> unat l + 5" "unat l \<le> j + 5" | "unat l + 1200 \<le> j + 5" | "j + 1200 \<le> unat l + 5"
      unfolding near_iff [OF assms] by blast
    then show "\<exists>w. - 5 \<le> w \<and> w \<le> 5 \<and> ?P w"
    proof cases
      case 1
      then show ?thesis by (intro exI [of _ "int j - int (unat l)"]) linarith
    next
      case 2
      then show ?thesis using assms by (intro exI [of _ "int j - int (unat l) - 1200"]) linarith
    next
      case 3
      then show ?thesis using assms by (intro exI [of _ "int j - int (unat l) + 1200"]) linarith
    qed
  qed
  finally show ?thesis .
qed

lemma weakening_index_less: "real_weakening_line_index l w < 1200"
  by (simp add: real_weakening_line_index_def NOMINAL_NUMBER_OF_LINES_PER_REVOLUTION_def nat_less_iff)

definition mark :: "nat \<Rightarrow> autogaincontrol list \<Rightarrow> autogaincontrol list" where
  "mark l gs = map (\<lambda>j. if near l j then weaken (gs ! j) else gs ! j) [0..<1200]"

lemma weakening_loop_mark:
  "length gs = 1200 \<Longrightarrow> unat l < 1200 \<Longrightarrow> weakening_loop l weakening_range gs = Inr (mark (unat l) gs)"
  by (auto simp: weakening_loop_eq weakening_index_less mark_def weakened_lines intro!: map_cong)

section \<open>The samples read\<close>

definition sample_at :: "pbuf \<Rightarrow> nat \<Rightarrow> nat \<Rightarrow> u16" where
  "sample_at q k i = be16 (storage q ! (payload q + (k + i * 2))) (storage q ! (payload q + (k + (i * 2 + 1))))"

lemma be16_arith: "ucast h * 0x100 + ucast l = be16 h l"
proof -
  have "(ucast h :: u16) * 0x100 = push_bit 8 (ucast h)"
    by (simp add: push_bit_eq_mult)
  moreover have "push_bit 8 (ucast h :: u16) AND ucast l = 0"
    by (rule bit_word_eqI) (auto simp: bit_simps bit_u8_out)
  ultimately show ?thesis by (simp add: be16_def disjunctive_add_eq_or)
qed

text \<open>The values of all samples the code looks at: the same number from the start of each block.\<close>

fun stream :: "pmem \<Rightarrow> nat \<Rightarrow> nat \<Rightarrow> addr list \<Rightarrow> u16 list" where
  "stream m k n [] = []"
| "stream m k n (a # as) = map (sample_at (the (cells m a)) k) [0..<n] @ stream m 0 n as"

fun room :: "pmem \<Rightarrow> nat \<Rightarrow> nat \<Rightarrow> addr list \<Rightarrow> bool" where
  "room m k n [] \<longleftrightarrow> True"
| "room m k n (a # as) \<longleftrightarrow>
    payload (the (cells m a)) + k + n * 2 \<le> length (storage (the (cells m a))) \<and> room m 0 n as"

definition overload :: "u16 \<Rightarrow> bool" where
  "overload v \<longleftrightarrow> 0xEC54 < v"

text \<open>The samples up to the first overload, and their sum.\<close>

fun upto_hit :: "u16 list \<Rightarrow> u16 list" where
  "upto_hit [] = []"
| "upto_hit (v # vs) = (if overload v then [v] else v # upto_hit vs)"

abbreviation sum_samples :: "u16 list \<Rightarrow> u32" where
  "sum_samples vs \<equiv> sum_list (map ucast (upto_hit vs))"

definition hit :: "u16 list \<Rightarrow> bool" where
  "hit vs \<longleftrightarrow> (\<exists>v \<in> set vs. overload v)"

definition after_samples :: "nat \<Rightarrow> u16 list \<Rightarrow> agc \<Rightarrow> agc" where
  "after_samples l vs s =
    (if vs = [] then s
     else s\<lparr>average_values_of_the_ruler := (average_values_of_the_ruler s)
              [l := (if flag_first_disckret s then 0 else average_values_of_the_ruler s ! l) + sum_samples vs],
            flag_first_disckret := False,
            gain_lines := (if hit vs then mark l (gain_lines s) else gain_lines s)\<rparr>)"

lemma hit_simps [simp]:
  "\<not> hit []" "hit (v # vs) \<longleftrightarrow> overload v \<or> hit vs" "hit (vs @ ws) \<longleftrightarrow> hit vs \<or> hit ws"
  by (auto simp: hit_def)

lemma upto_hit_append: "upto_hit (vs @ ws) = (if hit vs then upto_hit vs else vs @ upto_hit ws)"
  by (induction vs) auto

lemma upto_hit_none: "\<not> hit vs \<Longrightarrow> upto_hit vs = vs"
  by (induction vs) auto

definition agc_sized :: "agc \<Rightarrow> bool" where
  "agc_sized s \<longleftrightarrow> length (gain_lines s) = 1200 \<and> length (average_values_of_the_ruler s) = 1200"

lemma sized_after [simp]: "agc_sized s \<Longrightarrow> agc_sized (after_samples l vs s)"
  by (simp add: agc_sized_def after_samples_def mark_def)

lemma after_samples_append:
  "agc_sized s \<Longrightarrow> l < 1200 \<Longrightarrow> after_samples l (vs @ ws) s =
    (if hit vs then after_samples l vs s else after_samples l ws (after_samples l vs s))"
  by (auto simp: after_samples_def upto_hit_append upto_hit_none agc_sized_def add.assoc)

lemma sample_loop_eq:
  assumes "unat l < 1200"
  shows "agc_sized s \<Longrightarrow> \<forall>i \<in> set is. payload q + k + i * 2 + 2 \<le> length (storage q) \<Longrightarrow>
    sample_loop q k l is s =
      Inr (hit (map (sample_at q k) is), after_samples (unat l) (map (sample_at q k) is) s)"
proof (induction "is" arbitrary: s)
  case Nil
  then show ?case by (simp add: after_samples_def)
next
  case (Cons i ids)
  let ?v = "sample_at q k i"
  let ?s = "after_samples (unat l) [?v] s"
  have hi: "payload_byte q (k + i * 2) = Inr (storage q ! (payload q + (k + i * 2)))"
    and lo: "payload_byte q (k + (i * 2 + 1)) = Inr (storage q ! (payload q + (k + (i * 2 + 1))))"
    using Cons.prems(2) by (simp_all add: payload_byte_def)
  have v: "ucast (storage q ! (payload q + (k + i * 2))) * 0x100 +
      ucast (storage q ! (payload q + (k + (i * 2 + 1)))) = ?v"
    by (simp only: sample_at_def be16_arith)
  have sz: "unat l < length (average_values_of_the_ruler s)" "length (gain_lines s) = 1200"
    using Cons.prems(1) assms by (simp_all add: agc_sized_def)
  have first: "sample_loop q k l (i # ids) s =
    (if overload ?v then Inr (True, ?s) else sample_loop q k l ids ?s)"
    unfolding sample_loop.simps hi lo bindr.simps Let_def v
    using sz assms
    by (simp add: overload_def weakening_loop_mark after_samples_def)
  have parts: "after_samples (unat l) (?v # map (sample_at q k) ids) s =
      (if overload ?v then ?s else after_samples (unat l) (map (sample_at q k) ids) ?s)"
    using after_samples_append [OF Cons.prems(1) assms, of "[?v]"] by simp
  show ?case
    using Cons.IH [OF sized_after [OF Cons.prems(1)]] Cons.prems(2)
    by (simp add: first parts del: sample_loop.simps)
qed

lemma segment_loop_eq:
  assumes "unat l < 1200"
  shows "chain (cells m) p xs \<Longrightarrow> room m k (unat n) xs \<Longrightarrow> agc_sized s \<Longrightarrow>
    segment_loop m p k n l s = ret (after_samples (unat l) (stream m k (unat n) xs) s)"
proof (induction xs arbitrary: p k s)
  case Nil
  then show ?case by (simp add: segment_loop.simps after_samples_def)
next
  case (Cons a as)
  obtain q where q: "p = Some a" "cells m a = Some q" "chain (cells m) (next_pbuf q) as"
    using Cons.prems(1) by (auto split: option.splits)
  let ?vs = "map (sample_at q k) [0..<unat n]"
  have bound: "payload q + k + i * 2 + 2 \<le> length (storage q)" if "i < unat n" for i
    using that Cons.prems(2) q(2) by simp
  have sl: "sample_loop q k l [0..<unat n] s = Inr (hit ?vs, after_samples (unat l) ?vs s)"
    using bound by (intro sample_loop_eq [OF assms Cons.prems(3)]) simp
  have "segment_loop m p k n l s =
    (if hit ?vs then ret (after_samples (unat l) ?vs s)
     else segment_loop m (next_pbuf q) 0 n l (after_samples (unat l) ?vs s))"
    unfolding q(1) by (subst segment_loop.simps) (simp add: q(2) sl)
  moreover have "room m 0 (unat n) as" using Cons.prems(2) by simp
  ultimately show ?case
    using Cons.IH [OF q(3) _ sized_after [OF Cons.prems(3)]] q(2)
    by (simp add: after_samples_append [OF Cons.prems(3) assms])
qed

section \<open>One line\<close>

lemma wf_sized: "wf_agc s \<Longrightarrow> agc_sized s"
  by (simp add: wf_agc_def agc_sized_def)

lemma mark_nth: "j < 1200 \<Longrightarrow> mark l gs ! j = (if near l j then weaken (gs ! j) else gs ! j)"
  by (simp add: mark_def)

lemma gain_ok_mark:
  "length gs = 1200 \<Longrightarrow> \<forall>g \<in> set gs. gain_ok (curent_gain g) \<Longrightarrow>
    \<forall>g \<in> set (mark l gs). gain_ok (curent_gain g)"
  by (auto simp: mark_def gain_ok_weaken)

lemma wf_after_samples [keeps]: "wf_agc s \<Longrightarrow> wf_agc (after_samples l vs s)"
  by (auto simp: wf_agc_def after_samples_def gain_ok_mark mark_def [of l "gain_lines s"] gain_ok_weaken)

text \<open>The fields no average touches.\<close>

definition same_gains :: "agc \<Rightarrow> agc \<Rightarrow> bool" where
  "same_gains s s' \<longleftrightarrow> gain_lines s' = gain_lines s \<and> old_gain_value s' = old_gain_value s \<and>
    to_PL s' = to_PL s \<and> data_to_send_PL s' = data_to_send_PL s"

lemma revolution_average_ok:
  assumes "wf_agc s"
  shows "\<exists>s'. revolution_average s = Inr s' \<and> wf_agc s' \<and> same_gains s s' \<and>
    average_values_of_the_ruler s' = average_values_of_the_ruler s"
proof (cases "counter_to_3 s = 2")
  case True
  then show ?thesis using assms
    by (auto simp: revolution_average_def Let_def wf_agc_def same_gains_def)
next
  case False
  then have "unat (counter_to_3 s) \<noteq> 2" by (auto simp: word_unat_eq_iff)
  then have c: "unat (counter_to_3 s) < 2" using assms by (simp add: wf_agc_def)
  then have "unat (counter_to_3 s + 1) = unat (counter_to_3 s) + 1"
    by (unat_arith) auto
  then show ?thesis using assms False c
    by (auto simp: revolution_average_def Let_def wf_agc_def same_gains_def)
qed

lemma finish_average_ok:
  assumes "wf_agc s" and "unat l < 1200" and "n \<noteq> 0"
  shows "\<exists>s'. finish_average n l s = Inr s' \<and> wf_agc s' \<and> same_gains s s' \<and>
    average_values_of_the_ruler s' = (average_values_of_the_ruler s)
      [unat l := average_values_of_the_ruler s ! unat l div ucast n]"
proof -
  let ?s = "s\<lparr>average_values_of_the_ruler := (average_values_of_the_ruler s)
      [unat l := average_values_of_the_ruler s ! unat l div ucast n]\<rparr>"
  have wf: "wf_agc ?s" and same: "same_gains s ?s"
    using assms(1) by (auto simp: wf_agc_def same_gains_def)
  have "finish_average n l s = (if l = 98 then revolution_average ?s else Inr ?s)"
    using assms by (simp add: finish_average_def Let_def wf_agc_def)
  then show ?thesis
    using revolution_average_ok [OF wf] wf same by (auto simp: same_gains_def)
qed

definition boundary_of :: "nat \<Rightarrow> nat" where
  "boundary_of l = (l + NOMINAL_NUMBER_OF_LINES_PER_REVOLUTION - (unat (weakening_zone k0) + 1))
     mod NOMINAL_NUMBER_OF_LINES_PER_REVOLUTION"

lemma boundary_of_eq: "boundary_of l = boundary l"
  by (simp add: boundary_of_def boundary_def NOMINAL_NUMBER_OF_LINES_PER_REVOLUTION_def add.commute [of 1194])

lemma cleaning_ok:
  assumes "wf_agc s" and "i < 1200"
  shows "\<exists>s'. cleaning_auto_gain_control_array i s = Inr s' \<and> wf_agc s' \<and>
    gain_lines s' = (gain_lines s)[i := clean (gain_lines s ! i)] \<and>
    old_gain_value s' = old_gain_value s \<and> to_PL s' = to_PL s \<and>
    average_values_of_the_ruler s' = average_values_of_the_ruler s"
proof -
  have "gain_ok (curent_gain (gain_lines s ! i))" using assms by (simp add: wf_agc_def)
  then have "\<forall>g \<in> set ((gain_lines s)[i := clean (gain_lines s ! i)]). gain_ok (curent_gain g)"
    using assms by (auto simp: wf_agc_def gain_ok_clean dest!: set_update_subset_insert [THEN subsetD])
  then show ?thesis using assms
    by (simp add: cleaning_auto_gain_control_array_def wf_agc_def)
qed

lemma update_gain_value_ok:
  assumes "wf_agc s" and "i < 1200"
  shows "\<exists>s'. update_gain_value i s = Inr s' \<and> wf_agc s' \<and> gain_lines s' = gain_lines s \<and>
    old_gain_value s' = curent_gain (gain_lines s ! i) \<and>
    average_values_of_the_ruler s' = average_values_of_the_ruler s \<and>
    to_PL s' = to_PL s @ (if old_gain_value s' = old_gain_value s then [] else [[old_gain_value s', 0xC3]])"
proof -
  have "gain_ok (curent_gain (gain_lines s ! i))" using assms by (simp add: wf_agc_def)
  then show ?thesis using assms
    by (auto simp: update_gain_value_def wf_agc_def Let_def)
qed

text \<open>Everything one call of \<open>filling_auto_gain_control_array\<close> does to the gains.\<close>

definition line_done :: "nat \<Rightarrow> bool \<Rightarrow> agc \<Rightarrow> agc \<Rightarrow> bool" where
  "line_done l h s s' \<longleftrightarrow> wf_agc s' \<and>
    (\<forall>j < 1200. gain_lines s' ! j = step_line j (l, h) (gain_lines s ! j)) \<and>
    old_gain_value s' = curent_gain (gain_lines s' ! ((l + 1) mod 1200)) \<and>
    to_PL s' = to_PL s @ (if old_gain_value s' = old_gain_value s then [] else [[old_gain_value s', 0xC3]])"

lemma filling_ok:
  assumes "chain (cells m) (Some a) xs" and "room m 74 (unat n) xs" and "wf_agc s"
    and "unat l < 1200" and "n \<noteq> 0"
  shows "runs (filling_auto_gain_control_array m (Some a) n l s) (\<lambda>s'.
    line_done (unat l) (hit (stream m 74 (unat n) xs)) s s' \<and>
    average_values_of_the_ruler s' ! unat l =
      average_values_of_the_ruler (after_samples (unat l) (stream m 74 (unat n) xs) s) ! unat l div ucast n)"
proof -
  define L where "L = unat l"
  define h where "h = hit (stream m 74 (unat n) xs)"
  define s1 where "s1 = after_samples L (stream m 74 (unat n) xs) s"
  have L: "L < 1200" using assms(4) by (simp add: L_def)
  have nz: "0 < unat n" using assms(5) by (simp add: unat_gt_0)
  obtain q where q: "cells m a = Some q" using chain_Cons_cell [OF assms(1)] by blast
  have seg: "segment_loop m (Some a) 74 n l s = ret s1"
    using segment_loop_eq [OF assms(4,1,2) wf_sized [OF assms(3)]] by (simp add: s1_def L_def)
  have w1: "wf_agc s1" using assms(3) by (simp add: s1_def keeps)
  have g1: "gain_lines s1 = (if h then mark L (gain_lines s) else gain_lines s)"
    "old_gain_value s1 = old_gain_value s" "to_PL s1 = to_PL s"
    by (auto simp: s1_def after_samples_def h_def)
  obtain s2 where s2: "finish_average n l s1 = Inr s2" "wf_agc s2" "same_gains s1 s2"
    "average_values_of_the_ruler s2 ! L = average_values_of_the_ruler s1 ! L div ucast n"
    using finish_average_ok [OF w1 assms(4,5)] w1 L by (auto simp: L_def wf_agc_def)
  let ?s3 = "s2\<lparr>flag_first_disckret := False\<rparr>"
  have w3: "wf_agc ?s3" using s2(2) by (simp add: wf_agc_def)
  have b: "boundary L < 1200" by (simp add: boundary_def)
  obtain s4 where s4: "cleaning_auto_gain_control_array (boundary L) ?s3 = Inr s4" "wf_agc s4"
    "gain_lines s4 = (gain_lines s2)[boundary L := clean (gain_lines s2 ! boundary L)]"
    "old_gain_value s4 = old_gain_value s2" "to_PL s4 = to_PL s2"
    "average_values_of_the_ruler s4 = average_values_of_the_ruler s2"
    using cleaning_ok [OF w3 b] by auto
  obtain s5 where s5: "update_gain_value ((L + 1) mod 1200) s4 = Inr s5" "wf_agc s5"
    "gain_lines s5 = gain_lines s4" "old_gain_value s5 = curent_gain (gain_lines s4 ! ((L + 1) mod 1200))"
    "average_values_of_the_ruler s5 = average_values_of_the_ruler s4"
    "to_PL s5 = to_PL s4 @ (if old_gain_value s5 = old_gain_value s4 then [] else [[old_gain_value s5, 0xC3]])"
    using update_gain_value_ok [OF s4(2), of "(L + 1) mod 1200"] by auto
  have run: "filling_auto_gain_control_array m (Some a) n l s = ret s5"
    using seg s2(1) s4(1) s5(1) boundary_of_eq [of L]
    by (simp add: filling_auto_gain_control_array_def cell_def q Let_def boundary_of_def
        NOMINAL_NUMBER_OF_LINES_PER_REVOLUTION_def flip: L_def)
  have "gain_lines s5 ! j = step_line j (L, h) (gain_lines s ! j)" if "j < 1200" for j
    using that s5(3) s4(3) s2(2,3) g1(1) b
    by (auto simp: step_line_def same_gains_def mark_nth nth_list_update wf_agc_def)
  then have "line_done L h s s5"
    using s5 s4 s2(3) g1 by (simp add: line_done_def same_gains_def)
  then show ?thesis
    using run s5(5) s4(6) s2(4) by (simp add: h_def s1_def flip: L_def)
qed

section \<open>One packet\<close>

abbreviation byte_at :: "pbuf \<Rightarrow> nat \<Rightarrow> u8" where
  "byte_at b i \<equiv> storage b ! (payload b + i)"

definition line_of :: "pbuf \<Rightarrow> nat" where
  "line_of b = (256 * unat (byte_at b 54) + unat (byte_at b 55)) div 54"

definition size_of :: "pbuf \<Rightarrow> nat" where
  "size_of b = 256 * unat (byte_at b 71) + unat (byte_at b 72)"

definition has_header :: "pbuf \<Rightarrow> bool" where
  "has_header b \<longleftrightarrow> payload b + 73 \<le> length (storage b)"

lemma header_byte: "has_header b \<Longrightarrow> i \<le> 72 \<Longrightarrow> payload_byte b i = Inr (byte_at b i)"
  by (simp add: has_header_def payload_byte_def)

lemma unat_be: "unat (ucast h * 0x100 + ucast l :: u32) = 256 * unat h + unat l" for h l :: u8
proof -
  have "256 * unat h + unat l < 4294967296"
    using unat_u8_less [of h] unat_u8_less [of l] by linarith
  then show ?thesis by (simp add: unat_word_ariths)
qed

lemma header_line: "has_header b \<Longrightarrow> \<exists>w. header_line_index b = Inr w \<and> unat w = line_of b"
  by (simp add: header_line_index_def header_byte line_of_def unat_div unat_be)

lemma unat_trunc_size:
  "unat (ucast (ucast a * 0x10000 + ucast h * 0x100 + ucast l :: u32) :: u16) = 256 * unat h + unat l"
  for a h l :: u8
proof -
  let ?n = "65536 * unat a + (256 * unat h + unat l)"
  have s: "256 * unat h + unat l < 65536"
    using unat_u8_less [of h] unat_u8_less [of l] by linarith
  have "?n < 4294967296" using s unat_u8_less [of a] by linarith
  then have "unat (ucast a * 0x10000 + ucast h * 0x100 + ucast l :: u32) = ?n"
    by (simp add: unat_word_ariths)
  then have "unat (ucast (ucast a * 0x10000 + ucast h * 0x100 + ucast l :: u32) :: u16) = ?n mod 65536"
    by (simp add: unsigned_ucast_eq take_bit_eq_mod)
  then show ?thesis using s by simp
qed

lemma header_size_eq: "has_header b \<Longrightarrow> \<exists>w. header_size b = Inr w \<and> unat w = size_of b"
  by (simp add: header_size_def header_byte size_of_def unat_trunc_size)

lemma unused_reads_ok: "has_header b \<Longrightarrow> unused_reads b = Inr ()"
  by (simp add: unused_reads_def header_byte)

lemma line_of_less: "line_of b < 1214"
proof -
  have "256 * unat (byte_at b 54) + unat (byte_at b 55) < 65556"
    using unat_u8_less [of "byte_at b 54"] unat_u8_less [of "byte_at b 55"] by linarith
  then show ?thesis by (simp add: line_of_def div_less_iff_less_mult)
qed

lemma agc_calls_filling:
  assumes "cells m a = Some b" and "has_header b"
  shows "\<exists>n l. auto_gain_control m (Some a) s = filling_auto_gain_control_array m (Some a) n l s \<and>
    unat n = size_of b \<and> unat l = line_of b"
proof -
  obtain w n where w: "header_line_index b = Inr w" "unat w = line_of b"
    "header_size b = Inr n" "unat n = size_of b"
    using header_line [OF assms(2)] header_size_eq [OF assms(2)] by blast
  have "unat (ucast w :: u16) = line_of b"
    using w(2) line_of_less [of b] by (simp add: unsigned_ucast_eq take_bit_nat_eq_self_iff)
  then show ?thesis
    using w assms by (intro exI [of _ n] exI [of _ "ucast w"])
      (simp add: auto_gain_control_def cell_def unused_reads_ok)
qed

text \<open>A packet the code can process: its header and the samples it announces are there.\<close>

definition line_packet :: "pmem \<Rightarrow> addr \<Rightarrow> addr list \<Rightarrow> bool" where
  "line_packet m a xs \<longleftrightarrow> chain (cells m) (Some a) xs \<and>
    (let b = the (cells m a) in has_header b \<and> line_of b < 1200 \<and> 0 < size_of b \<and>
       room m 74 (size_of b) xs)"

definition packet_line :: "pmem \<Rightarrow> addr \<Rightarrow> nat" where
  "packet_line m a = line_of (the (cells m a))"

definition packet_hit :: "pmem \<Rightarrow> addr \<Rightarrow> addr list \<Rightarrow> bool" where
  "packet_hit m a xs = hit (stream m 74 (size_of (the (cells m a))) xs)"

lemma auto_gain_control_ok:
  assumes "line_packet m a xs" and "wf_agc s"
  shows "runs (auto_gain_control m (Some a) s) (line_done (packet_line m a) (packet_hit m a xs) s)"
proof -
  obtain b where b: "cells m a = Some b" "has_header b" "line_of b < 1200" "0 < size_of b"
    "room m 74 (size_of b) xs" "chain (cells m) (Some a) xs"
    using assms(1) chain_Cons_cell by (fastforce simp: line_packet_def Let_def)
  obtain n l where nl: "auto_gain_control m (Some a) s = filling_auto_gain_control_array m (Some a) n l s"
    "unat n = size_of b" "unat l = line_of b"
    using agc_calls_filling [OF b(1,2)] by blast
  have "n \<noteq> 0" using nl(2) b(4) by auto
  then show ?thesis
    using filling_ok [OF b(6) _ assms(2), of n l] b nl
    by (auto simp: packet_line_def packet_hit_def elim!: runs_mono)
qed

section \<open>A sequence of packets\<close>

text \<open>The calls the task makes, one per packet received.\<close>

fun agc_calls :: "(pmem \<times> addr) list \<Rightarrow> agc \<Rightarrow> agc run" where
  "agc_calls [] s = ret s"
| "agc_calls ((m, a) # ps) s = bindl (auto_gain_control m (Some a) s) (agc_calls ps)"

text \<open>The line and whether it is overloaded, for every packet.\<close>

definition events :: "(pmem \<times> addr \<times> addr list) list \<Rightarrow> (nat \<times> bool) list" where
  "events ps = map (\<lambda>(m, a, xs). (packet_line m a, packet_hit m a xs)) ps"

lemma agc_calls_ok:
  "\<forall>(m, a, xs) \<in> set ps. line_packet m a xs \<Longrightarrow> wf_agc s \<Longrightarrow>
    runs (agc_calls (map (\<lambda>(m, a, xs). (m, a)) ps) s)
      (\<lambda>s'. wf_agc s' \<and> (\<forall>j < 1200. gain_lines s' ! j = fold (step_line j) (events ps) (gain_lines s ! j)))"
proof (induction ps arbitrary: s)
  case (Cons p ps)
  obtain m a xs where p: "p = (m, a, xs)" by (cases p)
  have "runs (auto_gain_control m (Some a) s) (line_done (packet_line m a) (packet_hit m a xs) s)"
    using Cons.prems p by (intro auto_gain_control_ok) auto
  then show ?case
    unfolding p
  proof (simp, elim runs_bindl)
    fix s1 assume d: "line_done (packet_line m a) (packet_hit m a xs) s s1"
    then have "wf_agc s1" by (simp add: line_done_def)
    then have "runs (agc_calls (map (\<lambda>(m, a, xs). (m, a)) ps) s1)
      (\<lambda>s'. wf_agc s' \<and> (\<forall>j < 1200. gain_lines s' ! j = fold (step_line j) (events ps) (gain_lines s1 ! j)))"
      using Cons.prems(1) by (intro Cons.IH) auto
    then show "runs (agc_calls (map (\<lambda>(m, a, xs). (m, a)) ps) s1)
      (\<lambda>s'. wf_agc s' \<and> (\<forall>j < 1200. gain_lines s' ! j =
         fold (step_line j) (events ((m, a, xs) # ps)) (gain_lines s ! j)))"
      by (rule runs_mono) (use d in \<open>simp add: events_def line_done_def\<close>)
  qed
qed (simp add: events_def)

section \<open>A revolution\<close>

definition outcome :: "bool \<Rightarrow> autogaincontrol \<Rightarrow> autogaincontrol" where
  "outcome h g = (if h then (weaken g)\<lparr>flag_cgange := False\<rparr> else fresh_line)"

text \<open>The lines after the one that cleaned \<open>j\<close>, once around.\<close>

definition revolution :: "nat \<Rightarrow> (nat \<Rightarrow> bool) \<Rightarrow> (nat \<times> bool) list" where
  "revolution j hs = map (\<lambda>k. ((j + 7 + k) mod 1200, hs k)) [0..<1200]"

lemma around_boundary: "j < 1200 \<Longrightarrow> k < 1200 \<Longrightarrow> j = boundary ((j + 7 + k) mod 1200) \<longleftrightarrow> k = 1199"
proof -
  assume j: "j < 1200" and k: "k < 1200"
  have "boundary ((j + 7 + k) mod 1200) = (j + k + 1201) mod 1200"
    unfolding boundary_def mod_add_left_eq by (rule arg_cong [of _ _ "\<lambda>x. x mod 1200"]) simp
  also have "\<dots> = (j + k + 1) mod 1200"
  proof -
    have "j + k + 1201 = (j + k + 1) + 1200" by simp
    then show ?thesis by (simp only: mod_add_self2)
  qed
  also have "\<dots> = (if j + k + 1 < 1200 then j + k + 1 else j + k + 1 - 1200)"
    using j k by (subst mod_1200) auto
  finally show "j = boundary ((j + 7 + k) mod 1200) \<longleftrightarrow> k = 1199"
    using j k by (auto split: if_splits)
qed

lemma around_near: "j < 1200 \<Longrightarrow> k < 1200 \<Longrightarrow> near ((j + 7 + k) mod 1200) j \<longleftrightarrow> 1188 \<le> k \<and> k \<le> 1198"
proof -
  assume j: "j < 1200" and k: "k < 1200"
  have "((j + 7 + k) mod 1200 + 1205 - j) mod 1200 = ((j + 7 + k) mod 1200 + (1205 - j)) mod 1200"
    using j by (rule_tac arg_cong [of _ _ "\<lambda>x. x mod 1200"]) simp
  also have "\<dots> = (j + 7 + k + (1205 - j)) mod 1200" by (rule mod_add_left_eq)
  also have "\<dots> = (k + 12) mod 1200"
  proof -
    have "j + 7 + k + (1205 - j) = (k + 12) + 1200" using j by simp
    then show ?thesis by (simp only: mod_add_self2)
  qed
  also have "\<dots> = (if k + 12 < 1200 then k + 12 else k + 12 - 1200)"
    using k by (subst mod_1200) auto
  finally show "near ((j + 7 + k) mod 1200) j \<longleftrightarrow> 1188 \<le> k \<and> k \<le> 1198"
    using k by (simp add: near_def) linarith
qed

lemma fold_marks:
  "fold (\<lambda>k g. if hs k then weaken g else g) ks g = (if \<exists>k \<in> set ks. hs k then weaken g else g)"
  by (induction ks arbitrary: g) (auto simp: weaken_flagged)

lemma fold_skip: "(\<And>x g. x \<in> set xs \<Longrightarrow> f x g = g) \<Longrightarrow> fold f xs g = g"
  by (induction xs arbitrary: g) auto

lemma revolution_outcome:
  assumes "j < 1200" and "\<not> flag_cgange g"
  shows "fold (step_line j) (revolution j hs) g = outcome (\<exists>k \<in> {1188..<1199}. hs k) g"
proof -
  define f where "f = (\<lambda>k. step_line j ((j + 7 + k) mod 1200, hs k))"
  have f: "f k = (\<lambda>g. let g = (if hs k \<and> 1188 \<le> k \<and> k \<le> 1198 then weaken g else g) in
      if k = 1199 then clean g else g)" if "k < 1200" for k
    using assms(1) that by (simp add: f_def step_line_def around_near around_boundary fun_eq_iff)
  have "fold (step_line j) (revolution j hs) g = fold f [0..<1200] g"
    by (simp add: revolution_def fold_map f_def comp_def)
  also have "[0..<1200] = [0..<1188] @ [1188..<1199] @ [1199]"
  proof -
    have "[0..<1200] = [0..<1188] @ [1188..<1200]" using upt_add_eq_append [of 0 1188 12] by simp
    moreover have "[1188..<1200] = [1188..<1199] @ [1199]" using upt_Suc_append [of 1188 1199] by simp
    ultimately show ?thesis by simp
  qed
  also have "fold f \<dots> g = f 1199 (fold f [1188..<1199] (fold f [0..<1188] g))"
    by (simp only: fold_append comp_apply fold.simps id_apply)
  also have "fold f [0..<1188] g = g"
    by (rule fold_skip) (simp add: f)
  also have "fold f [1188..<1199] g = fold (\<lambda>k g. if hs k then weaken g else g) [1188..<1199] g"
  proof (rule fold_cong)
    fix x :: nat assume "x \<in> set [1188..<1199]"
    then have "1188 \<le> x" "x \<le> 1198" unfolding set_upt by simp_all
    then show "f x = (\<lambda>g. if hs x then weaken g else g)" by (simp add: f fun_eq_iff)
  qed simp_all
  also have "\<dots> = (if \<exists>k \<in> {1188..<1199}. hs k then weaken g else g)"
    by (simp only: fold_marks set_upt)
  also have "f 1199 \<dots> = outcome (\<exists>k \<in> {1188..<1199}. hs k) g"
    using assms(2) by (simp add: f outcome_def clean_def fresh_line_def Let_def)
  finally show ?thesis .
qed

lemma outcome_flag [simp]: "\<not> flag_cgange (outcome h g)"
  by (simp add: outcome_def fresh_line_def)

text \<open>The gain after \<open>n\<close> overloaded revolutions in a row.\<close>

definition gain_after :: "nat \<Rightarrow> u8" where
  "gain_after n = (if n \<le> 3 then 127 else if n = 4 then 117 else if n = 5 then 107 else 100)"

definition gain_record :: "nat \<Rightarrow> autogaincontrol" where
  "gain_record n = \<lparr>counter_repetition = of_nat n, flag_cgange = False, curent_gain = gain_after n\<rparr>"

lemma outcome_gain_record: "outcome True (gain_record n) = gain_record (Suc n)"
proof -
  have eq: "outcome True (gain_record n) = \<lparr>counter_repetition = of_nat (Suc n), flag_cgange = False,
    curent_gain = (if (3 :: u8) < of_nat (Suc n) then
       if int (unat (gain_after n)) - 10 \<le> 100 then 100 else gain_after n - 10 else gain_after n)\<rparr>"
    by (simp add: outcome_def gain_record_def weaken_def Let_def MINIMAL_GAIN_VALUE_def add.commute)
  consider "n < 3" | "n = 3" | "n = 4" | "n = 5" | "6 \<le> n" by linarith
  then have "(if (3 :: u8) < of_nat (Suc n) then
       if int (unat (gain_after n)) - 10 \<le> 100 then 100 else gain_after n - 10 else gain_after n)
     = gain_after (Suc n)"
  proof cases
    case 1
    then have "n = 0 \<or> n = 1 \<or> n = 2" by linarith
    then show ?thesis by (auto simp: gain_after_def)
  qed (auto simp: gain_after_def)
  then show ?thesis unfolding eq by (simp add: gain_record_def)
qed

lemma gain_record_0: "gain_record 0 = fresh_line"
  by (simp add: gain_record_def gain_after_def fresh_line_def)

lemma overloaded_revolutions:
  assumes "j < 1200" and "\<forall>r < n. \<exists>k \<in> {1188..<1199}. hs r k"
  shows "fold (step_line j) (concat (map (\<lambda>r. revolution j (hs r)) [0..<n])) fresh_line = gain_record n"
  using assms(2)
proof (induction n)
  case (Suc n)
  then have "fold (step_line j) (concat (map (\<lambda>r. revolution j (hs r)) [0..<n])) fresh_line = gain_record n"
    by simp
  moreover have "fold (step_line j) (revolution j (hs n)) (gain_record n) = outcome True (gain_record n)"
    using Suc.prems revolution_outcome [OF assms(1), of "gain_record n" "hs n"]
    by (simp add: gain_record_def)
  ultimately show ?case by (simp add: outcome_gain_record)
qed (simp add: gain_record_0)

section \<open>Properties\<close>

text \<open>
  C15: One packet. If the packet holds its header and the samples it announces, its line is below
  1200 and it announces at least one sample, \<open>auto_gain_control\<close> ends without a fault, keeps the
  invariant (array sizes, every gain and the gain sent between 100 and 127, every message sent of
  the form gain, \<open>0xC3\<close>), does to every line exactly what the specification of that line says,
  and sends the gain of the next line if and only if it differs from the one sent last.
\<close>

theorem agc_one_packet:
  assumes "line_packet m a xs" and "wf_agc s"
  shows "runs (auto_gain_control m (Some a) s) (\<lambda>s'. wf_agc s' \<and>
    (\<forall>j < 1200. gain_lines s' ! j =
      step_line j (packet_line m a, packet_hit m a xs) (gain_lines s ! j)) \<and>
    (let g = curent_gain (gain_lines s' ! ((packet_line m a + 1) mod 1200)) in
      old_gain_value s' = g \<and>
      to_PL s' = to_PL s @ (if g = old_gain_value s then [] else [[g, 0xC3]])))"
  using auto_gain_control_ok [OF assms] by (rule runs_mono) (auto simp: line_done_def Let_def)

text \<open>
  Out-of-range headers. If the two bytes of the azimuth give a line of 1200 or more (as
  azimuths from \<open>0xFD20\<close> on do), \<open>auto_gain_control\<close> accesses the arrays of 1200 lines out of
  bounds, and if the packet announces 0 samples it divides by zero: neither field is checked.
\<close>

theorem agc_bad_header:
  assumes "cells m a = Some b" and "has_header b" and "wf_agc s" and "room m 74 (size_of b) xs"
    and "chain (cells m) (Some a) xs"
  shows "(1200 \<le> line_of b \<longrightarrow> auto_gain_control m (Some a) s = fails Out_of_bounds) \<and>
    (line_of b < 1200 \<and> size_of b = 0 \<longrightarrow> auto_gain_control m (Some a) s = fails Divide_by_zero)"
proof -
  obtain n l where nl: "auto_gain_control m (Some a) s = filling_auto_gain_control_array m (Some a) n l s"
    "unat n = size_of b" "unat l = line_of b"
    using agc_calls_filling [OF assms(1,2)] by blast
  obtain ys where xs: "xs = a # ys" using chain_Cons_cell [OF assms(5)] by blast
  have len: "length (average_values_of_the_ruler s) = 1200" using assms(3) by (simp add: wf_agc_def)
  have big: "filling_auto_gain_control_array m (Some a) n l s = fails Out_of_bounds" if "1200 \<le> line_of b"
  proof (cases "unat n = 0")
    case True
    have "segment_loop m p k n l s = ret s" if "chain (cells m) p zs" for p zs k
      using that
    proof (induction zs arbitrary: p k)
      case (Cons z zs)
      then show ?case using True
        by (subst segment_loop.simps) (auto split: option.splits)
    qed (simp add: segment_loop.simps)
    then show ?thesis
      using assms(1,5) that nl(3) len
      by (simp add: filling_auto_gain_control_array_def cell_def finish_average_def rd_def)
  next
    case False
    then have "[0..<unat n] = 0 # [1..<unat n]" by (simp add: upt_conv_Cons)
    moreover have "payload b + 74 + 2 \<le> length (storage b)"
      using assms(1,4) xs False nl(2) by simp
    ultimately have "sample_loop b 74 l [0..<unat n] s = Inl Out_of_bounds"
      using that nl(3) len by (simp add: payload_byte_def rd_def Let_def)
    then have "segment_loop m (Some a) 74 n l s = fails Out_of_bounds"
      using assms(1) by (subst segment_loop.simps) simp
    then show ?thesis by (simp add: filling_auto_gain_control_array_def cell_def assms(1))
  qed
  have zero: "filling_auto_gain_control_array m (Some a) n l s = fails Divide_by_zero"
    if "line_of b < 1200" "size_of b = 0"
  proof -
    have "segment_loop m (Some a) 74 n l s = ret (after_samples (unat l) (stream m 74 (unat n) xs) s)"
      using that nl assms(3-5) by (intro segment_loop_eq wf_sized) simp_all
    moreover have "agc_sized (after_samples (unat l) (stream m 74 (unat n) xs) s)"
      using assms(3) by (simp add: wf_sized)
    moreover have "n = 0" using that nl(2) by (simp add: unat_eq_zero)
    ultimately show ?thesis
      using that nl(3) by (simp add: filling_auto_gain_control_array_def cell_def assms(1)
          finish_average_def agc_sized_def)
  qed
  show ?thesis using nl(1) big zero by simp
qed

text \<open>
  C16: A revolution. Take the packets of one revolution, starting with the line after the one whose
  processing cleaned line \<open>j\<close>. Whatever happens on the other lines, the record of line \<open>j\<close> ends up as
  one weakening of what it was if any of the 11 lines around \<open>j\<close> was overloaded (never two,
  however many of them were), and is reset to gain 127 and count 0 otherwise.
\<close>

theorem agc_revolution:
  assumes "\<forall>(m, a, xs) \<in> set ps. line_packet m a xs" and "wf_agc s" and "j < 1200"
    and "\<not> flag_cgange (gain_lines s ! j)" and "events ps = revolution j hs"
  shows "runs (agc_calls (map (\<lambda>(m, a, xs). (m, a)) ps) s) (\<lambda>s'.
    gain_lines s' ! j = outcome (\<exists>k \<in> {1188..<1199}. hs k) (gain_lines s ! j))"
  using agc_calls_ok [OF assms(1,2)]
  by (rule runs_mono) (use assms revolution_outcome in auto)

text \<open>
  C17: The gain of a line that is overloaded in \<open>n\<close> revolutions in a row: it stays at 127 for three
  revolutions, is then lowered to 117, 107 and 100, and stays at 100 for good, also after the
  8-bit counter of repetitions has wrapped around.
\<close>

theorem agc_overloaded_gain:
  assumes "\<forall>(m, a, xs) \<in> set ps. line_packet m a xs" and "wf_agc s" and "j < 1200"
    and "gain_lines s ! j = fresh_line"
    and "events ps = concat (map (\<lambda>r. revolution j (hs r)) [0..<n])"
    and "\<forall>r < n. \<exists>k \<in> {1188..<1199}. hs r k"
  shows "runs (agc_calls (map (\<lambda>(m, a, xs). (m, a)) ps) s) (\<lambda>s'.
    curent_gain (gain_lines s' ! j) =
      (if n \<le> 3 then 127 else if n = 4 then 117 else if n = 5 then 107 else 100) \<and>
    counter_repetition (gain_lines s' ! j) = of_nat n)"
  using agc_calls_ok [OF assms(1,2)]
proof (rule runs_mono)
  fix s' assume "wf_agc s' \<and> (\<forall>j < 1200. gain_lines s' ! j = fold (step_line j) (events ps) (gain_lines s ! j))"
  then have "gain_lines s' ! j = gain_record n"
    using assms(3-5) overloaded_revolutions [OF assms(3,6)] by simp
  then show "curent_gain (gain_lines s' ! j) =
      (if n \<le> 3 then 127 else if n = 4 then 117 else if n = 5 then 107 else 100) \<and>
    counter_repetition (gain_lines s' ! j) = of_nat n"
    by (simp add: gain_record_def gain_after_def)
qed

text \<open>
  The average of a line. Only the very first sample ever processed starts a sum anew; in every
  other call the sum starts from the average left by the previous revolution, so the value kept
  for the line is (previous average + sum of the samples) / number of samples.
\<close>

theorem agc_average_accumulates:
  assumes "line_packet m a xs" and "wf_agc s" and "\<not> flag_first_disckret s"
    and "cells m a = Some b"
  shows "\<exists>n. unat n = size_of b \<and> runs (auto_gain_control m (Some a) s) (\<lambda>s'.
    average_values_of_the_ruler s' ! line_of b =
      (average_values_of_the_ruler s ! line_of b + sum_samples (stream m 74 (size_of b) xs)) div ucast (n :: u16))"
proof -
  have b: "has_header b" "line_of b < 1200" "0 < size_of b" "room m 74 (size_of b) xs"
    "chain (cells m) (Some a) xs"
    using assms(1,4) by (simp_all add: line_packet_def Let_def)
  obtain ys where xs: "xs = a # ys" using chain_Cons_cell [OF b(5)] by blast
  obtain n l where nl: "auto_gain_control m (Some a) s = filling_auto_gain_control_array m (Some a) n l s"
    "unat n = size_of b" "unat l = line_of b"
    using agc_calls_filling [OF assms(4) b(1)] by blast
  have "n \<noteq> 0" using nl(2) b(3) by auto
  moreover have "stream m 74 (size_of b) xs \<noteq> []" using b(3) by (simp add: xs)
  moreover have "length (average_values_of_the_ruler s) = 1200" using assms(2) by (simp add: wf_agc_def)
  ultimately have "average_values_of_the_ruler (after_samples (unat l) (stream m 74 (size_of b) xs) s) ! unat l
      = average_values_of_the_ruler s ! line_of b + sum_samples (stream m 74 (size_of b) xs)"
    using assms(3) nl(3) b(2) by (simp add: after_samples_def)
  then show ?thesis
    using filling_ok [OF b(5) _ assms(2), of n l] b nl \<open>n \<noteq> 0\<close>
    by (intro exI [of _ n]) (auto elim!: runs_mono)
qed

section \<open>Sample packets\<close>

text \<open>A packet of one block with one sample, of line \<open>l\<close>, overloaded or not.\<close>

definition sample_block :: "nat \<Rightarrow> bool \<Rightarrow> pbuf" where
  "sample_block l h = pbuf_init_alloced_pbuf
    (replicate 54 0 @ [of_nat (l * 54 div 256), of_nat (l * 54 mod 256)] @ replicate 16 0 @
     [1, 0, if h then 0xFF else 0, 0]) 0 76 76 PBUF_POOL 0"

definition sample_packet :: "nat \<Rightarrow> bool \<Rightarrow> pmem" where
  "sample_packet l h = \<lparr>cells = [1 \<mapsto> sample_block l h], pool_free = [], refs_free = []\<rparr>"

lemma sample_fields:
  "payload (sample_block l h) = 0" "length (storage (sample_block l h)) = 76"
  "next_pbuf (sample_block l h) = None"
  by (simp_all add: sample_block_def pbuf_init_alloced_pbuf_def)

lemma sample_bytes:
  "storage (sample_block l h) ! 54 = of_nat (l * 54 div 256)"
  "storage (sample_block l h) ! 55 = of_nat (l * 54 mod 256)"
  "storage (sample_block l h) ! 71 = 0" "storage (sample_block l h) ! 72 = 1"
  "storage (sample_block l h) ! 74 = (if h then 0xFF else 0)" "storage (sample_block l h) ! 75 = 0"
  by (simp_all add: sample_block_def pbuf_init_alloced_pbuf_def nth_append)

lemma unat_high_low: "x < 65536 \<Longrightarrow> 256 * unat (of_nat (x div 256) :: u8) + unat (of_nat (x mod 256) :: u8) = x"
  by (simp add: unat_of_nat_u8 div_less_iff_less_mult)

lemma sample_line: "l < 1214 \<Longrightarrow> line_of (sample_block l h) = l"
  using unat_high_low [of "l * 54"] unfolding line_of_def sample_fields add_0 sample_bytes by simp

lemma sample_size: "size_of (sample_block l h) = 1"
  by (simp add: size_of_def sample_fields sample_bytes)

lemma sample_line_packet: "l < 1200 \<Longrightarrow> line_packet (sample_packet l h) 1 [1]"
  by (simp add: line_packet_def sample_packet_def has_header_def sample_fields sample_line sample_size)

lemma sample_line_eq: "l < 1200 \<Longrightarrow> packet_line (sample_packet l h) 1 = l"
  by (simp add: packet_line_def sample_packet_def sample_line)

lemma sample_hit: "packet_hit (sample_packet l h) 1 [1] = h"
  by (simp add: packet_hit_def sample_packet_def sample_size sample_at_def sample_fields sample_bytes
      overload_def be16_def)

definition sample_revolution :: "nat \<Rightarrow> (nat \<Rightarrow> bool) \<Rightarrow> (pmem \<times> addr \<times> addr list) list" where
  "sample_revolution j hs = map (\<lambda>(l, h). (sample_packet l h, 1, [1])) (revolution j hs)"

lemma sample_revolution_ok: "\<forall>(m, a, xs) \<in> set (sample_revolution j hs). line_packet m a xs"
  by (auto simp: sample_revolution_def revolution_def sample_line_packet [unfolded One_nat_def])

lemma sample_revolution_events: "events (sample_revolution j hs) = revolution j hs"
  by (simp add: sample_revolution_def revolution_def events_def
      sample_line_eq [unfolded One_nat_def] sample_hit [unfolded One_nat_def] comp_def)

theorem agc_one_packet_witness:
  "line_packet (sample_packet 7 True) 1 [1] \<and> wf_agc initial_agc \<and>
   runs (auto_gain_control (sample_packet 7 True) (Some 1) initial_agc)
     (\<lambda>s'. wf_agc s' \<and> gain_lines s' ! 9 = weaken fresh_line \<and> to_PL s' = [])"
proof -
  have p: "line_packet (sample_packet 7 True) 1 [1]" by (rule sample_line_packet) simp
  have i: "gain_lines initial_agc ! j = fresh_line" if "j < 1200" for j
    using that by (simp add: initial_agc_def)
  have k: "packet_line (sample_packet 7 True) 1 = 7" by (rule sample_line_eq) simp
  have n9: "step_line 9 (7, True) fresh_line = weaken fresh_line"
    and n8: "curent_gain (step_line 8 (7, True) fresh_line) = 127"
    by (simp_all add: step_line_def near_def boundary_def weaken_def fresh_line_def Let_def)
  have old: "old_gain_value initial_agc = 127" "to_PL initial_agc = []" by (simp_all add: initial_agc_def)
  have "runs (auto_gain_control (sample_packet 7 True) (Some 1) initial_agc)
     (\<lambda>s'. wf_agc s' \<and> gain_lines s' ! 9 = weaken fresh_line \<and> to_PL s' = [])"
    using agc_one_packet [OF p wf_initial, unfolded k sample_hit]
  proof (rule runs_mono, elim conjE)
    fix s'
    assume w: "wf_agc s'"
      and g: "\<forall>j < 1200. gain_lines s' ! j = step_line j (7, True) (gain_lines initial_agc ! j)"
      and d: "let g = curent_gain (gain_lines s' ! ((7 + 1) mod 1200)) in
        old_gain_value s' = g \<and>
        to_PL s' = to_PL initial_agc @ (if g = old_gain_value initial_agc then [] else [[g, 0xC3]])"
    have "gain_lines s' ! 9 = weaken fresh_line" using g i n9 by simp
    moreover have "curent_gain (gain_lines s' ! 8) = 127" using g i n8 by simp
    ultimately show "wf_agc s' \<and> gain_lines s' ! 9 = weaken fresh_line \<and> to_PL s' = []"
      using w d old by simp
  qed
  then show ?thesis using p wf_initial by blast
qed

theorem agc_bad_header_witness:
  "1200 \<le> line_of (sample_block 1200 False) \<and>
   auto_gain_control (sample_packet 1200 False) (Some 1) initial_agc = fails Out_of_bounds"
proof -
  have c: "cells (sample_packet 1200 False) 1 = Some (sample_block 1200 False)"
    by (simp add: sample_packet_def)
  have h: "has_header (sample_block 1200 False)" by (simp add: has_header_def sample_fields)
  have r: "room (sample_packet 1200 False) 74 (size_of (sample_block 1200 False)) [1]"
    by (simp add: sample_size sample_packet_def sample_fields)
  have ch: "chain (cells (sample_packet 1200 False)) (Some 1) [1]"
    by (simp add: sample_packet_def sample_fields)
  have l: "1200 \<le> line_of (sample_block 1200 False)" by (simp add: sample_line)
  show ?thesis using l agc_bad_header [OF c h wf_initial r ch] by simp
qed

theorem agc_revolution_witness:
  "events (sample_revolution 3 (\<lambda>k. k = 1190)) = revolution 3 (\<lambda>k. k = 1190) \<and>
   runs (agc_calls (map (\<lambda>(m, a, xs). (m, a)) (sample_revolution 3 (\<lambda>k. k = 1190))) initial_agc)
     (\<lambda>s'. gain_lines s' ! 3 = outcome True (gain_lines initial_agc ! 3))"
proof -
  have f: "\<not> flag_cgange (gain_lines initial_agc ! 3)" by (simp add: initial_agc_def fresh_line_def)
  have "(\<exists>k \<in> {1188..<1199}. k = (1190 :: nat)) = True" by simp
  then show ?thesis
    using agc_revolution [OF sample_revolution_ok wf_initial _ f sample_revolution_events, of "\<lambda>k. k = 1190"]
    by (simp add: sample_revolution_events)
qed

theorem agc_overloaded_gain_witness:
  "\<exists>ps. (\<forall>p \<in> set ps. case p of (m, a, xs) \<Rightarrow> line_packet m a xs) = True \<and> length ps = 7200 \<and>
   runs (agc_calls (map (\<lambda>(m, a, xs). (m, a)) ps) initial_agc)
     (\<lambda>s'. curent_gain (gain_lines s' ! 3) = 100)"
proof -
  let ?hs = "\<lambda>r k :: nat. k = (1190 :: nat)"
  let ?ps = "concat (map (\<lambda>r. sample_revolution 3 (?hs r)) [0..<6])"
  have ok: "\<forall>(m, a, xs) \<in> set ?ps. line_packet m a xs"
    using sample_revolution_ok by fastforce
  have ev: "events ?ps = concat (map (\<lambda>r. revolution 3 (?hs r)) [0..<6])"
    using sample_revolution_events [of 3] by (simp add: events_def map_concat comp_def)
  have g: "gain_lines initial_agc ! 3 = fresh_line" by (simp add: initial_agc_def)
  have hits: "\<forall>r < (6 :: nat). \<exists>k \<in> {1188..<1199}. ?hs r k" by simp
  have "length ?ps = 7200"
    by (simp add: length_concat comp_def sample_revolution_def revolution_def sum_list_triv)
  then show ?thesis
    using ok agc_overloaded_gain [OF ok wf_initial _ g ev hits]
    by (intro exI [of _ ?ps]) (auto elim!: runs_mono)
qed

theorem agc_average_accumulates_witness:
  "\<exists>n. unat n = size_of (sample_block 7 True) \<and>
   runs (auto_gain_control (sample_packet 7 True) (Some 1) (initial_agc\<lparr>flag_first_disckret := False\<rparr>))
     (\<lambda>s'. average_values_of_the_ruler s' ! 7 = 0xFF00 div ucast (n :: u16))"
proof -
  have p: "line_packet (sample_packet 7 True) 1 [1]" by (rule sample_line_packet) simp
  have c: "cells (sample_packet 7 True) 1 = Some (sample_block 7 True)" by (simp add: sample_packet_def)
  have w: "wf_agc (initial_agc\<lparr>flag_first_disckret := False\<rparr>)"
    using wf_initial by (simp add: wf_agc_def)
  have "sum_samples (stream (sample_packet 7 True) 74 (size_of (sample_block 7 True)) [1]) = 0xFF00"
    by (simp add: sample_size sample_packet_def sample_at_def sample_fields sample_bytes be16_def overload_def)
  then show ?thesis
    using agc_average_accumulates [OF p w _ c] by (simp add: sample_line initial_agc_def)
qed

end
