(* ===== verification/Heap_4.thy ===== *)
theory Heap_4
  imports Prelude
begin

text \<open>
  The memory manager of the kernel (\<open>heap_4.c\<close>), to the level of its block headers. A pointer is
  the address it holds; \<open>links\<close> gives the \<open>BlockLink_t\<close> last written at an address of the array
  \<open>ucHeap\<close>, whose own address is a parameter. \<open>xStart\<close> is an object of its own, so no block of the
  heap begins at its end. Sizes are 32 bits wide and wrap; a loop over the free list is \<open>None\<close>
  when it never ends.
\<close>

unbundle bit_operations_syntax

section \<open>Headers\<close>

record block_link =
  pxNextFreeBlock :: "nat option"
  xBlockSize :: size_t

record heap4 =
  links :: "nat \<rightharpoonup> block_link"
  xStart :: block_link
  pxEnd :: "nat option"
  xFreeBytesRemaining :: size_t
  xMinimumEverFreeBytesRemaining :: size_t
  xBlockAllocatedBit :: size_t

text \<open>A pointer of the traversals: to \<open>xStart\<close>, or to a header in the heap.\<close>

datatype place = Before_first | Header nat

definition link :: "place \<Rightarrow> heap4 \<Rightarrow> block_link result" where
  "link p h = (case p of Before_first \<Rightarrow> Inr (xStart h)
     | Header a \<Rightarrow> (case links h a of None \<Rightarrow> Inl Out_of_bounds | Some l \<Rightarrow> Inr l))"

definition put_link :: "place \<Rightarrow> block_link \<Rightarrow> heap4 \<Rightarrow> heap4" where
  "put_link p l h = (case p of Before_first \<Rightarrow> h\<lparr>xStart := l\<rparr>
     | Header a \<Rightarrow> h\<lparr>links := (links h)(a \<mapsto> l)\<rparr>)"

text \<open>Writing the size of a header whose other field keeps what the memory held.\<close>

definition put_size :: "nat \<Rightarrow> size_t \<Rightarrow> heap4 \<Rightarrow> heap4" where
  "put_size a s h = put_link (Header a)
     (case links h a of None \<Rightarrow> \<lparr>pxNextFreeBlock = None, xBlockSize = s\<rparr> | Some l \<Rightarrow> l\<lparr>xBlockSize := s\<rparr>) h"

definition xHeapStructSize :: size_t where
  "xHeapStructSize = (8 + (8 - 1)) AND NOT 7"

definition heapMINIMUM_BLOCK_SIZE :: size_t where
  "heapMINIMUM_BLOCK_SIZE = push_bit 1 xHeapStructSize"

definition configTOTAL_HEAP_SIZE :: size_t where
  "configTOTAL_HEAP_SIZE = 100000"

section \<open>Initialisation\<close>

definition prvHeapInit :: "u32 \<Rightarrow> heap4 \<Rightarrow> heap4" where
  "prvHeapInit ucHeap h =
    (let (uxAddress, total) =
       (if ucHeap AND 7 \<noteq> 0 then
          let a = (ucHeap + 7) AND NOT 7 in (a, configTOTAL_HEAP_SIZE - (a - ucHeap))
        else (ucHeap, configTOTAL_HEAP_SIZE));
       end = (uxAddress + total - xHeapStructSize) AND NOT 7;
       first = end - uxAddress in
     h\<lparr>xStart := \<lparr>pxNextFreeBlock = Some (unat uxAddress), xBlockSize = 0\<rparr>,
       pxEnd := Some (unat end),
       links := (links h)(unat end \<mapsto> \<lparr>pxNextFreeBlock = None, xBlockSize = 0\<rparr>,
         unat uxAddress \<mapsto> \<lparr>pxNextFreeBlock = Some (unat end), xBlockSize = first\<rparr>),
       xMinimumEverFreeBytesRemaining := first,
       xFreeBytesRemaining := first,
       xBlockAllocatedBit := push_bit (4 * 8 - 1) 1\<rparr>)"

section \<open>Inserting a block into the free list\<close>

text \<open>
  The \<open>for\<close> loop. A null \<open>pxNextFreeBlock\<close> compares less than any block, and the next test reads
  through it.
\<close>

partial_function (option) insert_after :: "nat \<Rightarrow> place \<Rightarrow> heap4 \<Rightarrow> place run" where
  "insert_after b p h =
    (case link p h of Inl e \<Rightarrow> Some (Inl e)
     | Inr l \<Rightarrow>
         (case pxNextFreeBlock l of None \<Rightarrow> Some (Inl Null_pointer)
          | Some n \<Rightarrow> if n < b then insert_after b (Header n) h else Some (Inr p)))"

text \<open>The block at a place ends where another one begins.\<close>

definition ends_at :: "place \<Rightarrow> size_t \<Rightarrow> nat option \<Rightarrow> bool" where
  "ends_at p s b = (case p of Before_first \<Rightarrow> False | Header a \<Rightarrow> Some (a + unat s) = b)"

definition merge_before :: "place \<Rightarrow> nat \<Rightarrow> heap4 \<Rightarrow> (place \<times> heap4) result" where
  "merge_before p b h =
    bindr (link p h) (\<lambda>i. bindr (link (Header b) h) (\<lambda>l.
      if ends_at p (xBlockSize i) (Some b)
      then Inr (p, put_link p (i\<lparr>xBlockSize := xBlockSize i + xBlockSize l\<rparr>) h)
      else Inr (Header b, h)))"

definition merge_after :: "place \<Rightarrow> place \<Rightarrow> heap4 \<Rightarrow> heap4 result" where
  "merge_after p b h =
    bindr (link p h) (\<lambda>i. bindr (link b h) (\<lambda>l.
      if ends_at b (xBlockSize l) (pxNextFreeBlock i) then
        if pxNextFreeBlock i \<noteq> pxEnd h then
          bindr (link (Header (the (pxNextFreeBlock i))) h) (\<lambda>n.
            Inr (put_link b \<lparr>pxNextFreeBlock = pxNextFreeBlock n, xBlockSize = xBlockSize l + xBlockSize n\<rparr> h))
        else Inr (put_link b (l\<lparr>pxNextFreeBlock := pxEnd h\<rparr>) h)
      else Inr (put_link b (l\<lparr>pxNextFreeBlock := pxNextFreeBlock i\<rparr>) h)))"

definition link_before :: "place \<Rightarrow> place \<Rightarrow> heap4 \<Rightarrow> heap4 result" where
  "link_before p b h =
    (if p \<noteq> b then
       bindr (link p h) (\<lambda>i. Inr (put_link p
         (i\<lparr>pxNextFreeBlock := (case b of Before_first \<Rightarrow> None | Header a \<Rightarrow> Some a)\<rparr>) h))
     else Inr h)"

definition prvInsertBlockIntoFreeList :: "nat \<Rightarrow> heap4 \<Rightarrow> heap4 run" where
  "prvInsertBlockIntoFreeList b h =
    bindl (insert_after b Before_first h) (\<lambda>p.
    Some (bindr (merge_before p b h) (\<lambda>(c, h).
      bindr (merge_after p c h) (\<lambda>h. link_before p c h))))"

section \<open>Allocating\<close>

definition block_bytes :: "size_t \<Rightarrow> size_t" where
  "block_bytes w =
    (if 0 < w then
       let w = w + xHeapStructSize in
       if w AND 7 \<noteq> 0 then w + (8 - (w AND 7)) else w
     else w)"

text \<open>The traversal that looks for a block: the previous place and the block.\<close>

partial_function (option) first_fit :: "size_t \<Rightarrow> place \<Rightarrow> nat \<Rightarrow> heap4 \<Rightarrow> (place \<times> nat) run" where
  "first_fit w p b h =
    (case link (Header b) h of Inl e \<Rightarrow> Some (Inl e)
     | Inr l \<Rightarrow>
         if xBlockSize l < w \<and> pxNextFreeBlock l \<noteq> None
         then first_fit w (Header b) (the (pxNextFreeBlock l)) h
         else Some (Inr (p, b)))"

definition split_block :: "size_t \<Rightarrow> nat \<Rightarrow> heap4 \<Rightarrow> heap4 run" where
  "split_block w b h =
    bindl (Some (link (Header b) h)) (\<lambda>l.
    if heapMINIMUM_BLOCK_SIZE < xBlockSize l - w then
      let new = b + unat w in
      bindl (Some (guard (new mod 8 = 0) Assert_failed)) (\<lambda>_.
        prvInsertBlockIntoFreeList new (put_size b w (put_size new (xBlockSize l - w) h)))
    else ret h)"

definition mark_allocated :: "nat \<Rightarrow> heap4 \<Rightarrow> heap4 result" where
  "mark_allocated b h =
    bindr (link (Header b) h) (\<lambda>l.
    let free = xFreeBytesRemaining h - xBlockSize l in
    Inr (put_link (Header b) \<lparr>pxNextFreeBlock = None, xBlockSize = xBlockSize l OR xBlockAllocatedBit h\<rparr>
      (h\<lparr>xFreeBytesRemaining := free,
         xMinimumEverFreeBytesRemaining :=
           (if free < xMinimumEverFreeBytesRemaining h then free else xMinimumEverFreeBytesRemaining h)\<rparr>)))"

definition take_block :: "size_t \<Rightarrow> place \<Rightarrow> nat \<Rightarrow> heap4 \<Rightarrow> (nat option \<times> heap4) run" where
  "take_block w p b h =
    bindl (Some (link p h)) (\<lambda>i. bindl (Some (link (Header b) h)) (\<lambda>l.
    bindl (split_block w b (put_link p (i\<lparr>pxNextFreeBlock := pxNextFreeBlock l\<rparr>) h)) (\<lambda>h.
    bindl (Some (mark_allocated b h)) (\<lambda>h.
    ret (map_option (\<lambda>n. n + unat xHeapStructSize) (pxNextFreeBlock i), h)))))"

text \<open>The part of \<open>pvPortMalloc\<close> that runs with the scheduler suspended.\<close>

definition malloc_critical :: "u32 \<Rightarrow> size_t \<Rightarrow> heap4 \<Rightarrow> (nat option \<times> heap4) run" where
  "malloc_critical ucHeap w h =
    (let h = (if pxEnd h = None then prvHeapInit ucHeap h else h); bytes = block_bytes w in
     if w AND xBlockAllocatedBit h = 0 \<and> 0 < bytes \<and> bytes \<le> xFreeBytesRemaining h then
       (case pxNextFreeBlock (xStart h) of
          None \<Rightarrow> fails Null_pointer
        | Some b \<Rightarrow>
            bindl (first_fit bytes Before_first b h) (\<lambda>(p, b).
              if Some b \<noteq> pxEnd h then take_block bytes p b h else ret (None, h)))
     else ret (None, h))"

section \<open>Releasing\<close>

text \<open>
  The assertions of \<open>vPortFree\<close>, which make the two tests after them redundant, and the part that
  runs with the scheduler suspended.
\<close>

definition free_prepare :: "nat \<Rightarrow> heap4 \<Rightarrow> heap4 result" where
  "free_prepare a h =
    bindr (link (Header a) h) (\<lambda>l.
    bindr (guard (xBlockSize l AND xBlockAllocatedBit h \<noteq> 0) Assert_failed) (\<lambda>_.
    bindr (guard (pxNextFreeBlock l = None) Assert_failed) (\<lambda>_.
    Inr (put_link (Header a) (l\<lparr>xBlockSize := xBlockSize l AND NOT (xBlockAllocatedBit h)\<rparr>) h))))"

definition free_critical :: "nat \<Rightarrow> heap4 \<Rightarrow> heap4 run" where
  "free_critical a h =
    bindl (Some (link (Header a) h)) (\<lambda>l.
    prvInsertBlockIntoFreeList a (h\<lparr>xFreeBytesRemaining := xFreeBytesRemaining h + xBlockSize l\<rparr>))"

definition xPortGetFreeHeapSize :: "heap4 \<Rightarrow> size_t" where
  "xPortGetFreeHeapSize h = xFreeBytesRemaining h"

definition xPortGetMinimumEverFreeHeapSize :: "heap4 \<Rightarrow> size_t" where
  "xPortGetMinimumEverFreeHeapSize h = xMinimumEverFreeBytesRemaining h"

text \<open>The statics before the first call.\<close>

definition no_heap :: heap4 where
  "no_heap = \<lparr>links = Map.empty, xStart = \<lparr>pxNextFreeBlock = None, xBlockSize = 0\<rparr>, pxEnd = None,
     xFreeBytesRemaining = 0, xMinimumEverFreeBytesRemaining = 0, xBlockAllocatedBit = 0\<rparr>"

end
