(* ===== verification/Heap_4_List.thy ===== *)
theory Heap_4_List
  imports Heap_4
begin

text \<open>
  The free list of the heap as a list of blocks in the order of their addresses, and what
  \<open>prvInsertBlockIntoFreeList\<close> and the traversal of \<open>pvPortMalloc\<close> do to it.
\<close>

section \<open>The list of free blocks\<close>

type_synonym block = "nat \<times> nat"

fun first_addr :: "block list \<Rightarrow> nat \<Rightarrow> nat" where
  "first_addr [] x = x"
| "first_addr ((a, s) # F) x = a"

fun chain :: "heap4 \<Rightarrow> block list \<Rightarrow> nat \<Rightarrow> bool" where
  "chain h [] x \<longleftrightarrow> True"
| "chain h ((a, s) # F) x \<longleftrightarrow>
    links h a = Some \<lparr>pxNextFreeBlock = Some (first_addr F x), xBlockSize = of_nat s\<rparr> \<and> chain h F x"

definition free_list :: "heap4 \<Rightarrow> block list \<Rightarrow> nat \<Rightarrow> bool" where
  "free_list h F x \<longleftrightarrow> xStart h = \<lparr>pxNextFreeBlock = Some (first_addr F x), xBlockSize = 0\<rparr> \<and> chain h F x"

text \<open>The blocks lie between two addresses, in order, and no two of them touch.\<close>

fun spaced :: "nat \<Rightarrow> block list \<Rightarrow> nat \<Rightarrow> bool" where
  "spaced lo [] hi \<longleftrightarrow> lo \<le> hi"
| "spaced lo ((a, s) # F) hi \<longleftrightarrow> lo \<le> a \<and> 0 < s \<and> a + s \<le> hi \<and>
    (F = [] \<or> a + s < first_addr F hi) \<and> spaced (a + s) F hi"

definition last_place :: "place \<Rightarrow> block list \<Rightarrow> place" where
  "last_place p F = (if F = [] then p else Header (fst (last F)))"

text \<open>A block joins the free ones after it and before it when it touches them.\<close>

fun join_right :: "block \<Rightarrow> block list \<Rightarrow> block list" where
  "join_right (n, s) [] = [(n, s)]"
| "join_right (n, s) ((a, t) # F) = (if n + s = a then (n, s + t) # F else (n, s) # (a, t) # F)"

fun join_left :: "block list \<Rightarrow> block list \<Rightarrow> block list" where
  "join_left [] G = G"
| "join_left [(p, s)] G = (if G \<noteq> [] \<and> p + s = fst (hd G) then (p, s + snd (hd G)) # tl G else (p, s) # G)"
| "join_left (b # F) G = b # join_left F G"

lemma join_left_snoc:
  "join_left (F @ [(p, s)]) ((n, t) # G) = F @ (if p + s = n then (p, s + t) # G else (p, s) # (n, t) # G)"
proof (induction F)
  case (Cons b F)
  then show ?case by (cases F) auto
qed simp

lemma first_addr_append [simp]: "first_addr (F @ G) x = first_addr F (first_addr G x)"
  by (induction F x rule: first_addr.induct) simp_all

lemma chain_append: "chain h (F @ G) x \<longleftrightarrow> chain h F (first_addr G x) \<and> chain h G x"
  by (induction h F x rule: chain.induct) auto

lemma chain_frame:
  "(\<And>a. a \<in> fst ` set F \<Longrightarrow> links h' a = links h a) \<Longrightarrow> chain h' F x = chain h F x"
  by (induction h F x rule: chain.induct) auto

lemma spaced_bounds:
  assumes "spaced lo F hi" "(a, s) \<in> set F"
  shows "lo \<le> a \<and> 0 < s \<and> a + s \<le> hi"
  using assms
proof (induction lo F hi rule: spaced.induct)
  case (2 lo b t F hi)
  then show ?case by (cases "(a, s) = (b, t)") auto
qed simp

lemma spaced_le: "spaced lo F hi \<Longrightarrow> lo \<le> hi"
  by (induction lo F hi rule: spaced.induct) auto

lemma spaced_first: "spaced lo F hi \<Longrightarrow> lo \<le> first_addr F hi \<and> first_addr F hi \<le> hi"
  by (cases "(lo, F, hi)" rule: spaced.cases) auto

lemma spaced_mono: "spaced lo F hi \<Longrightarrow> lo' \<le> lo \<Longrightarrow> spaced lo' F hi"
  by (cases "(lo, F, hi)" rule: spaced.cases) auto

definition gap_after :: "block list \<Rightarrow> nat \<Rightarrow> bool" where
  "gap_after F m \<longleftrightarrow> F = [] \<or> fst (last F) + snd (last F) < m"

lemma spaced_append_Cons:
  "spaced lo (F @ (a, s) # G) hi \<longleftrightarrow> spaced lo F a \<and> gap_after F a \<and> spaced a ((a, s) # G) hi"
proof (induction F arbitrary: lo)
  case Nil
  then show ?case using spaced_le by (auto simp: gap_after_def)
next
  case (Cons b F)
  obtain c t where "b = (c, t)" by fastforce
  then show ?case
    using Cons spaced_le [of "c + t" F a] by (cases F) (auto simp: gap_after_def)
qed

lemma spaced_snoc: "spaced lo (F @ [(p, s)]) hi \<longleftrightarrow> spaced lo F p \<and> gap_after F p \<and> 0 < s \<and> p + s \<le> hi"
  by (auto simp: spaced_append_Cons)

lemma spaced_join_right:
  assumes "spaced (n + s) F hi" "0 < s"
  shows "spaced n (join_right (n, s) F) hi"
  using assms spaced_le [OF assms(1)] by (cases "((n, s), F)" rule: join_right.cases) (auto intro: spaced_mono)

lemma join_right_Cons: "\<exists>t G. join_right (n, s) F = (n, t) # G \<and> s \<le> t"
  by (cases "((n, s), F)" rule: join_right.cases) auto

lemma spaced_join:
  assumes "spaced lo F n" "spaced (n + s) G hi" "0 < s"
  shows "spaced lo (join_left F (join_right (n, s) G)) hi"
proof -
  have right: "spaced n (join_right (n, s) G) hi" using spaced_join_right [OF assms(2,3)] .
  obtain t H where j: "join_right (n, s) G = (n, t) # H" using join_right_Cons by blast
  show ?thesis
  proof (cases F rule: rev_cases)
    case Nil
    then show ?thesis using right assms(1) by (auto intro: spaced_mono)
  next
    case (snoc E b)
    obtain p u where b: "b = (p, u)" by fastforce
    have left: "spaced lo E p" "gap_after E p" "0 < u" "p + u \<le> n"
      using assms(1) by (simp_all add: snoc b spaced_snoc)
    show ?thesis
    proof (cases "p + u = n")
      case True
      then have "spaced p ((p, u + t) # H) hi" using right left by (auto simp: j add.assoc)
      then show ?thesis using True left by (simp add: snoc b j join_left_snoc spaced_append_Cons)
    next
      case False
      then have "spaced p ((p, u) # (n, t) # H) hi" using right left by (auto simp: j)
      then show ?thesis using False left by (simp add: snoc b j join_left_snoc spaced_append_Cons)
    qed
  qed
qed

section \<open>Inserting\<close>

lemma link_Header [simp]: "links h a = Some l \<Longrightarrow> link (Header a) h = Inr l"
  by (simp add: link_def)

lemma link_Before_first [simp]: "link Before_first h = Inr (xStart h)"
  by (simp add: link_def)

text \<open>The loop stops at the last free block below the one to insert.\<close>

lemma insert_after_place:
  assumes "chain h F y" "spaced lo F n" "link p h = Inr l" "pxNextFreeBlock l = Some (first_addr F y)" "n \<le> y"
  shows "insert_after n p h = ret (last_place p F)"
  using assms
proof (induction F arbitrary: p l lo)
  case Nil
  then show ?case by (subst insert_after.simps) (simp add: last_place_def)
next
  case (Cons b F)
  obtain a s where b: "b = (a, s)" by fastforce
  have "a < n" using Cons.prems(2) by (auto simp: b)
  then have "insert_after n p h = insert_after n (Header a) h"
    using Cons.prems by (subst insert_after.simps) (simp add: b)
  also have "\<dots> = ret (last_place (Header a) F)"
    by (rule Cons.IH) (use Cons.prems in \<open>auto simp: b\<close>)
  finally show ?case by (auto simp: last_place_def b)
qed

lemma unat_size: "n < 4294967296 \<Longrightarrow> unat (of_nat n :: size_t) = n"
  by (rule unat_of_nat_u32)

text \<open>Joining with the next block, seen from the place before it.\<close>

definition joined_header :: "nat \<Rightarrow> nat \<Rightarrow> block list \<Rightarrow> nat \<Rightarrow> block_link" where
  "joined_header a z G e =
    (let J = join_right (a, z) G in
     \<lparr>pxNextFreeBlock = Some (first_addr (tl J) e), xBlockSize = of_nat (snd (hd J))\<rparr>)"

lemma merge_after_joins:
  assumes "link p h = Inr i" "pxNextFreeBlock i = Some (first_addr G e)"
    and "links h a = Some l" "xBlockSize l = of_nat z" "0 < z"
    and "chain h G e" "spaced (a + z) G e" "pxEnd h = Some e" "e < 4294967296"
  shows "merge_after p (Header a) h = Inr (put_link (Header a) (joined_header a z G e) h)"
proof -
  have "z < 4294967296" using spaced_le [OF assms(7)] assms(9) by linarith
  then have z: "unat (xBlockSize l) = z" by (simp add: assms(4) unat_size)
  show ?thesis
  proof (cases "((a, z), G)" rule: join_right.cases)
    case (1 n s)
    then have "G = []" by simp
    then show ?thesis using assms z
      by (cases l) (simp add: merge_after_def ends_at_def joined_header_def)
  next
    case (2 n s b t F)
    then have G: "G = (b, t) # F" by simp
    then have "b \<noteq> e" using assms(7) by auto
    then show ?thesis using assms z
      by (cases l) (auto simp add: merge_after_def ends_at_def joined_header_def G)
  qed
qed

definition same_counts :: "heap4 \<Rightarrow> heap4 \<Rightarrow> bool" where
  "same_counts h h' \<longleftrightarrow> pxEnd h' = pxEnd h \<and> xFreeBytesRemaining h' = xFreeBytesRemaining h \<and>
    xMinimumEverFreeBytesRemaining h' = xMinimumEverFreeBytesRemaining h \<and>
    xBlockAllocatedBit h' = xBlockAllocatedBit h"

lemma same_counts_put_link [simp]: "same_counts h (put_link p l h)" "same_counts h h"
  by (cases p; simp add: same_counts_def put_link_def)+

lemma same_counts_trans: "same_counts h h' \<Longrightarrow> same_counts h' h'' \<Longrightarrow> same_counts h h''"
  by (simp add: same_counts_def)

lemma put_link_Header [simp]:
  "links (put_link (Header a) l h) = (links h)(a \<mapsto> l)"
  "xStart (put_link (Header a) l h) = xStart h"
  "links (put_link Before_first l h) = links h"
  "xStart (put_link Before_first l h) = l"
  "pxEnd (put_link p l h) = pxEnd h"
  by (simp_all add: put_link_def split: place.split)

lemma put_size_fields:
  "xStart (put_size a s h) = xStart h" "pxEnd (put_size a s h) = pxEnd h" "same_counts h (put_size a s h)"
  "c \<noteq> a \<Longrightarrow> links (put_size a s h) c = links h c"
  "\<exists>l. links (put_size a s h) a = Some l \<and> xBlockSize l = s"
  by (simp_all add: put_size_def split: option.split)

lemma chain_tl: "chain h F x \<Longrightarrow> chain h (tl F) x"
  by (cases F) auto

lemma chain_joined:
  assumes "chain h G e" "links h a = Some (joined_header a z G e)"
  shows "chain h (join_right (a, z) G) e"
  using assms by (cases "((a, z), G)" rule: join_right.cases) (auto simp: joined_header_def)

lemma join_right_first [simp]: "first_addr (join_right (n, s) G) e = n"
  by (cases "((n, s), G)" rule: join_right.cases) auto

lemma join_left_touching:
  assumes "q + u = n"
  shows "join_left (E @ [(q, u)]) (join_right (n, s) G) = E @ join_right (q, u + s) G"
  using assms by (cases "((n, s), G)" rule: join_right.cases) (auto simp: join_left_snoc add.assoc)

lemma join_left_apart:
  assumes "q + u \<noteq> n"
  shows "join_left (E @ [(q, u)]) (join_right (n, s) G) = E @ (q, u) # join_right (n, s) G"
  using assms by (cases "((n, s), G)" rule: join_right.cases) (auto simp: join_left_snoc)

lemma not_in_spaced:
  assumes "spaced lo F hi" "x < lo \<or> hi \<le> x"
  shows "x \<notin> fst ` set F"
  using spaced_bounds [OF assms(1)] assms(2) by fastforce

definition inserts :: "nat \<Rightarrow> nat \<Rightarrow> block list \<Rightarrow> block list \<Rightarrow> nat \<Rightarrow> heap4 \<Rightarrow> heap4 \<Rightarrow> bool" where
  "inserts n s F G e h h' \<longleftrightarrow> free_list h' (join_left F (join_right (n, s) G)) e \<and> same_counts h h' \<and>
    (\<forall>a. a \<notin> insert n (fst ` set (F @ G)) \<longrightarrow> links h' a = links h a)"

text \<open>Nothing touches the block from below: it gets a header of its own.\<close>

lemma insert_apart_first:
  assumes "free_list h G e" "spaced (n + s) G e" "0 < s"
    and "links h n = Some l" "xBlockSize l = of_nat s" "pxEnd h = Some e" "e < 4294967296"
  shows "runs (prvInsertBlockIntoFreeList n h) (inserts n s [] G e h)"
proof -
  note start = assms(1) [unfolded free_list_def]
  have le: "n + s \<le> first_addr G e" using spaced_first [OF assms(2)] by simp
  have place: "insert_after n Before_first h = ret Before_first"
    using start le assms(3) by (subst insert_after.simps) simp
  have before: "merge_before Before_first n h = Inr (Header n, h)"
    by (simp add: merge_before_def ends_at_def assms(4))
  have after: "merge_after Before_first (Header n) h = Inr (put_link (Header n) (joined_header n s G e) h)"
    by (rule merge_after_joins [of _ _ "xStart h" G e n l s]) (use assms start in auto)
  let ?h = "put_link (Header n) (joined_header n s G e) h"
  let ?h' = "put_link Before_first ((xStart h)\<lparr>pxNextFreeBlock := Some n\<rparr>) ?h"
  have run: "prvInsertBlockIntoFreeList n h = ret ?h'"
    by (simp add: prvInsertBlockIntoFreeList_def place before after link_before_def)
  have "n \<notin> fst ` set G" by (rule not_in_spaced [OF assms(2)]) (simp add: assms(3))
  then have "chain ?h' G e" using start by (subst chain_frame [of G ?h' h]) auto
  then have "chain ?h' (join_right (n, s) G) e" by (rule chain_joined) simp
  moreover have "xStart ?h' = \<lparr>pxNextFreeBlock = Some n, xBlockSize = 0\<rparr>"
    using start by simp
  ultimately have "free_list ?h' (join_right (n, s) G) e" by (simp add: free_list_def)
  moreover have "same_counts h ?h'" by (rule same_counts_trans [of _ ?h]) simp_all
  ultimately show ?thesis by (simp add: run inserts_def)
qed

text \<open>The free block below ends where the block begins, and swallows it.\<close>

lemma insert_touching:
  assumes "free_list h ((E @ [(q, u)]) @ G) e" "spaced lo (E @ [(q, u)]) n" "spaced (n + s) G e" "0 < s"
    and "links h n = Some l" "xBlockSize l = of_nat s" "pxEnd h = Some e" "e < 4294967296"
    and "q + u = n"
  shows "runs (prvInsertBlockIntoFreeList n h) (inserts n s (E @ [(q, u)]) G e h)"
proof -
  let ?F = "E @ [(q, u)]"
  have start: "xStart h = \<lparr>pxNextFreeBlock = Some (first_addr ?F (first_addr G e)), xBlockSize = 0\<rparr>"
    and chF: "chain h ?F (first_addr G e)" and chG: "chain h G e"
    using assms(1) by (simp_all add: free_list_def chain_append)
  have q: "links h q = Some \<lparr>pxNextFreeBlock = Some (first_addr G e), xBlockSize = of_nat u\<rparr>"
    using chF by (simp add: chain_append)
  have sp: "spaced lo E q" "0 < u" using assms(2) by (simp_all add: spaced_snoc)
  have le: "n + s \<le> first_addr G e" "n + s \<le> e" using spaced_first [OF assms(3)] by auto
  have u: "unat (of_nat u :: size_t) = u" using le assms(8,9) by (simp add: unat_size)
  have place: "insert_after n Before_first h = ret (Header q)"
    using insert_after_place [OF chF assms(2) link_Before_first] start le by (simp add: last_place_def)
  let ?l = "\<lparr>pxNextFreeBlock = Some (first_addr G e), xBlockSize = of_nat (u + s)\<rparr> :: block_link"
  let ?h1 = "put_link (Header q) ?l h"
  have before: "merge_before (Header q) n h = Inr (Header q, ?h1)"
    by (simp add: merge_before_def ends_at_def assms(5,6,9) q u)
  have q_notin: "q \<notin> fst ` set G" by (rule not_in_spaced [OF assms(3)]) (use assms(4,9) in simp)
  let ?h' = "put_link (Header q) (joined_header q (u + s) G e) ?h1"
  have ch1: "chain ?h1 G e" using chG q_notin by (subst chain_frame [of G ?h1 h]) auto
  have after: "merge_after (Header q) (Header q) ?h1 = Inr ?h'"
  proof (rule merge_after_joins [of _ _ ?l G e q ?l "u + s"])
    show "spaced (q + (u + s)) G e" using assms(3,9) by (simp add: add.assoc [symmetric])
  qed (use sp assms(7,8) ch1 in simp_all)
  have run: "prvInsertBlockIntoFreeList n h = ret ?h'"
    by (simp add: prvInsertBlockIntoFreeList_def place before after link_before_def del: of_nat_add)
  have "chain ?h' G e" using chG q_notin by (subst chain_frame [of G ?h' h]) auto
  then have "chain ?h' (join_right (q, u + s) G) e" by (rule chain_joined) simp
  moreover have "q \<notin> fst ` set E" by (rule not_in_spaced [OF sp(1)]) simp
  then have "chain ?h' E q" using chF by (subst chain_frame [of E ?h' h]) (auto simp: chain_append)
  ultimately have "free_list ?h' (join_left ?F (join_right (n, s) G)) e"
    using start by (simp add: free_list_def join_left_touching [OF assms(9)] chain_append)
  moreover have "same_counts h ?h'" by (rule same_counts_trans [of _ ?h1]) simp_all
  ultimately show ?thesis by (simp add: run inserts_def)
qed

text \<open>The free block below stays apart, and points to the block.\<close>

lemma insert_apart:
  assumes "free_list h ((E @ [(q, u)]) @ G) e" "spaced lo (E @ [(q, u)]) n" "spaced (n + s) G e" "0 < s"
    and "links h n = Some l" "xBlockSize l = of_nat s" "pxEnd h = Some e" "e < 4294967296"
    and "q + u \<noteq> n"
  shows "runs (prvInsertBlockIntoFreeList n h) (inserts n s (E @ [(q, u)]) G e h)"
proof -
  let ?F = "E @ [(q, u)]"
  have start: "xStart h = \<lparr>pxNextFreeBlock = Some (first_addr ?F (first_addr G e)), xBlockSize = 0\<rparr>"
    and chF: "chain h ?F (first_addr G e)" and chG: "chain h G e"
    using assms(1) by (simp_all add: free_list_def chain_append)
  have q: "links h q = Some \<lparr>pxNextFreeBlock = Some (first_addr G e), xBlockSize = of_nat u\<rparr>"
    using chF by (simp add: chain_append)
  have sp: "spaced lo E q" "0 < u" "q + u \<le> n" using assms(2) by (simp_all add: spaced_snoc)
  have le: "n + s \<le> first_addr G e" "n + s \<le> e" using spaced_first [OF assms(3)] by auto
  have u: "unat (of_nat u :: size_t) = u" using sp le assms(8) by (simp add: unat_size)
  have place: "insert_after n Before_first h = ret (Header q)"
    using insert_after_place [OF chF assms(2) link_Before_first] start le by (simp add: last_place_def)
  have before: "merge_before (Header q) n h = Inr (Header n, h)"
    by (simp add: merge_before_def ends_at_def assms(5,9) q u)
  let ?h1 = "put_link (Header n) (joined_header n s G e) h"
  have after: "merge_after (Header q) (Header n) h = Inr ?h1"
    by (rule merge_after_joins [of _ _ "\<lparr>pxNextFreeBlock = Some (first_addr G e), xBlockSize = of_nat u\<rparr>" G e n l s])
      (simp_all add: q chG assms)
  let ?h' = "put_link (Header q) \<lparr>pxNextFreeBlock = Some n, xBlockSize = of_nat u\<rparr> ?h1"
  have qn: "q \<noteq> n" using sp by simp
  have run: "prvInsertBlockIntoFreeList n h = ret ?h'"
    using qn by (simp add: prvInsertBlockIntoFreeList_def place before after link_before_def q)
  have outG: "q \<notin> fst ` set G" "n \<notin> fst ` set G"
    by (rule not_in_spaced [OF assms(3)], use sp assms(4) in simp)+
  have "chain ?h' G e" using chG outG by (subst chain_frame [of G ?h' h]) auto
  then have "chain ?h' (join_right (n, s) G) e" by (rule chain_joined) (use qn in simp)
  moreover have outE: "q \<notin> fst ` set E" "n \<notin> fst ` set E"
    by (rule not_in_spaced [OF sp(1)], use sp in simp)+
  then have "chain ?h' E q" using chF by (subst chain_frame [of E ?h' h]) (auto simp: chain_append)
  ultimately have "free_list ?h' (join_left ?F (join_right (n, s) G)) e"
    using start by (simp add: free_list_def join_left_apart [OF assms(9)] chain_append)
  moreover have "same_counts h ?h'" by (rule same_counts_trans [of _ ?h1]) simp_all
  moreover have "links ?h' a = links h a" if "a \<notin> insert n (fst ` set (?F @ G))" for a
    using that by auto
  ultimately show ?thesis unfolding run inserts_def runs_ret by blast
qed

lemma insert_joins:
  assumes "free_list h (F @ G) e" "spaced lo F n" "spaced (n + s) G e" "0 < s"
    and "links h n = Some l" "xBlockSize l = of_nat s" "pxEnd h = Some e" "e < 4294967296"
  shows "runs (prvInsertBlockIntoFreeList n h) (inserts n s F G e h)"
proof (cases F rule: rev_cases)
  case Nil
  then show ?thesis using insert_apart_first [of h G e n s l] assms by simp
next
  case (snoc E b)
  obtain q u where b: "b = (q, u)" by fastforce
  note F = snoc [unfolded b]
  show ?thesis
  proof (cases "q + u = n")
    case True
    then show ?thesis using insert_touching [OF assms(1,2) [unfolded F] assms(3-8)] F by metis
  next
    case False
    then show ?thesis using insert_apart [OF assms(1,2) [unfolded F] assms(3-8)] F by metis
  qed
qed

end
