(* ===== verification/Heap_4_Words.thy ===== *)
theory Heap_4_Words
  imports Heap_4
begin

text \<open>
  The word arithmetic of the heap: alignment to eight bytes, the size of a block for a request,
  and the top bit that marks an allocated block.
\<close>

unbundle bit_operations_syntax

lemma and_7: "(x :: u32) AND 7 = x mod 8"
  using take_bit_eq_mod [of 3 x] take_bit_eq_mask [of 3 x] by (simp add: mask_eq_exp_minus_1)

lemma unat_and_7 [simp]: "unat ((x :: u32) AND 7) = unat x mod 8"
  by (simp add: and_7 unat_mod)

lemma unat_and_not_7: "unat ((x :: u32) AND NOT 7) = unat x div 8 * 8"
proof -
  have mask: "(7 :: u32) = mask 3" by (simp add: mask_eq_exp_minus_1)
  have "x AND NOT 7 = push_bit 3 (drop_bit 3 x)" unfolding mask
    by (auto intro!: bit_word_eqI simp: bit_simps simp del: mask_numeral)
  moreover have "unat x div 8 * 8 < 4294967296"
    by (rule le_less_trans [OF div_times_less_eq_dividend unat_u32_less])
  ultimately show ?thesis
    by (simp add: push_bit_eq_mult drop_bit_eq_div unat_word_ariths unat_div)
qed

lemma and_7_eq_0: "(x :: u32) AND 7 = 0 \<longleftrightarrow> 8 dvd unat x"
  by (simp add: and_7 unat_eq_zero [symmetric] unat_mod dvd_eq_mod_eq_0 del: unat_eq_zero)

lemma top_bit: "bit (x :: u32) 31 \<longleftrightarrow> 2147483648 \<le> unat x"
proof -
  define n where "n = unat x"
  have less: "n < 4294967296" unfolding n_def by (rule unat_u32_less)
  have "bit x 31 = bit n 31" unfolding n_def by (simp add: bit_unsigned_iff)
  also have "\<dots> = odd (n div 2 ^ 31)" by (rule bit_iff_odd)
  also have "\<dots> = (2 ^ 31 \<le> n)"
  proof (cases "2 ^ 31 \<le> n")
    case True
    then have "n div 2 ^ 31 = 1" using less by (simp add: div_nat_eqI)
    then show ?thesis using True by simp
  qed simp
  finally show ?thesis by (simp add: n_def)
qed

section \<open>The mark of an allocated block\<close>

definition mark :: size_t where
  "mark = 0x80000000"

lemma push_bit_mark: "push_bit (4 * 8 - 1) 1 = mark"
  by (simp add: mark_def push_bit_eq_mult)

lemma bit_mark: "bit mark n \<longleftrightarrow> n = 31"
  using bit_push_bit_iff [of 31 "1 :: u32" n] bit_imp_le_length [of mark n]
  by (auto simp: push_bit_mark [symmetric] bit_simps)

lemma mark_neq_0: "mark \<noteq> 0"
  by (simp add: mark_def)

lemma and_mark: "x AND mark = (if bit x 31 then mark else 0)"
  by (auto intro!: bit_word_eqI simp: bit_simps bit_mark)

lemma and_mark_eq_0 [simp]: "x AND mark = 0 \<longleftrightarrow> unat x < 2147483648"
  using mark_neq_0 by (auto simp add: and_mark top_bit)

lemma marked_and: "(x OR mark) AND mark \<noteq> 0"
  using mark_neq_0 by (simp add: and_mark bit_simps bit_mark)

lemma marked_large [simp]: "2147483648 \<le> unat (x OR mark)"
  using marked_and [of x] by (simp only: and_mark_eq_0 not_less)

lemma marked_clear: "unat x < 2147483648 \<Longrightarrow> (x OR mark) AND NOT mark = x"
  using top_bit [of x] by (intro bit_word_eqI) (auto simp: bit_simps bit_mark)

section \<open>Sizes\<close>

lemma unat_xHeapStructSize [simp]: "xHeapStructSize = 8" "heapMINIMUM_BLOCK_SIZE = 16"
  by (code_simp, code_simp)

text \<open>The bytes of the block for a request of \<open>w\<close> bytes.\<close>

definition request :: "nat \<Rightarrow> nat" where
  "request w = (w + 15) div 8 * 8"

lemma request_bounds: "w + 8 \<le> request w" "request w \<le> w + 15" "8 dvd request w"
  by (simp_all add: request_def)

lemma request_large: "0 < w \<Longrightarrow> 16 \<le> request w"
  by (simp add: request_def)

lemma request_unaligned:
  assumes "\<not> 8 dvd m + 8"
  shows "m + 8 + (8 - (m + 8) mod 8) = request m"
proof -
  define q r where "q = m div 8" and "r = m mod 8"
  have m: "m = 8 * q + r" "r < 8" by (simp_all add: q_def r_def)
  have "0 < r" using assms by (auto simp: m(1) intro: ccontr)
  then have "(m + 15) div 8 = q + 2" using m by (intro div_nat_eqI) simp_all
  moreover have "(m + 8) mod 8 = r" by (simp add: r_def)
  ultimately show ?thesis using m by (simp add: request_def)
qed

lemma block_bytes_request:
  assumes "0 < unat w" "unat w < 2147483648"
  shows "unat (block_bytes w) = request (unat w)"
proof -
  define v where "v = w + 8"
  have v: "unat v = unat w + 8" using assms by (simp add: v_def unat_word_ariths)
  have "0 < w" using assms by (simp add: word_less_nat_alt)
  then have bb: "block_bytes w = (if v AND 7 \<noteq> 0 then v + (8 - (v AND 7)) else v)"
    by (simp add: block_bytes_def Let_def v_def)
  show ?thesis
  proof (cases "8 dvd unat v")
    case True
    then have "unat (block_bytes w) = unat w + 8" by (simp add: bb and_7_eq_0 v)
    also have "\<dots> = request (unat w)" using True unfolding v request_def by presburger
    finally show ?thesis .
  next
    case False
    have "unat (8 - (v AND 7)) = 8 - unat v mod 8" by (simp add: unat_sub_if')
    then have "unat (v + (8 - (v AND 7))) = unat v + (8 - unat v mod 8)"
      using assms v by (simp add: unat_word_ariths)
    also have "\<dots> = request (unat w)" unfolding v by (rule request_unaligned) (use False v in simp)
    finally show ?thesis using False by (simp add: bb and_7_eq_0)
  qed
qed

lemma block_bytes_0: "block_bytes 0 = 0"
  by (simp add: block_bytes_def)

end
