(* ===== verification/Heap_4_Layout.thy ===== *)
theory Heap_4_Layout
  imports Heap_4_List Heap_4_Words
begin

text \<open>
  The heap as a row of blocks, free or in use, without holes and with no two free blocks side by
  side: the invariant of the memory manager, and what \<open>pvPortMalloc\<close> and \<open>vPortFree\<close> do to the
  row.
\<close>

section \<open>Rows of blocks\<close>

text \<open>A block: its address, its size with the header, and whether it is free.\<close>

type_synonym tile = "nat \<times> nat \<times> bool"

fun tiled :: "nat \<Rightarrow> tile list \<Rightarrow> nat \<Rightarrow> bool" where
  "tiled b [] e \<longleftrightarrow> b = e"
| "tiled b ((a, s, f) # L) e \<longleftrightarrow> a = b \<and> 16 \<le> s \<and> 8 dvd s \<and> tiled (a + s) L e"

fun starts_free :: "tile list \<Rightarrow> bool" where
  "starts_free ((a, s, True) # L) \<longleftrightarrow> True"
| "starts_free L \<longleftrightarrow> False"

fun coalesced :: "tile list \<Rightarrow> bool" where
  "coalesced [] \<longleftrightarrow> True"
| "coalesced ((a, s, f) # L) \<longleftrightarrow> \<not> (f \<and> starts_free L) \<and> coalesced L"

fun blocks :: "bool \<Rightarrow> tile list \<Rightarrow> block list" where
  "blocks w [] = []"
| "blocks w ((a, s, f) # L) = (if f = w then (a, s) # blocks w L else blocks w L)"

abbreviation "free_blocks \<equiv> blocks True"
abbreviation "used_blocks \<equiv> blocks False"

definition block_total :: "block list \<Rightarrow> nat" where
  "block_total F = sum_list (map snd F)"

lemma block_total_simps [simp]:
  "block_total [] = 0" "block_total (b # F) = snd b + block_total F"
  "block_total (F @ G) = block_total F + block_total G"
  by (simp_all add: block_total_def)

lemma blocks_append [simp]: "blocks w (L @ M) = blocks w L @ blocks w M"
  by (induction w L rule: blocks.induct) auto

lemma set_blocks: "(a, s) \<in> set (blocks w L) \<longleftrightarrow> (a, s, w) \<in> set L"
  by (induction w L rule: blocks.induct) auto

lemma tiled_append: "tiled b (L @ M) e \<longleftrightarrow> (\<exists>m. tiled b L m \<and> tiled m M e)"
  by (induction b L e rule: tiled.induct) auto

lemma tiled_le: "tiled b L e \<Longrightarrow> b + block_total (blocks w L) \<le> e"
  by (induction b L e rule: tiled.induct) auto

lemma tiled_bounds: "tiled b L e \<Longrightarrow> (a, s, f) \<in> set L \<Longrightarrow> b \<le> a \<and> a + s \<le> e \<and> 16 \<le> s \<and> 8 dvd s"
proof (induction b L e rule: tiled.induct)
  case (2 b c t g L e)
  then show ?case using tiled_le [of "c + t" L e True] by auto
qed simp

lemma coalesced_append:
  "coalesced (L @ M) \<longleftrightarrow> coalesced L \<and> coalesced M \<and>
     \<not> (L \<noteq> [] \<and> snd (snd (last L)) \<and> starts_free M)"
proof (induction L rule: coalesced.induct)
  case (2 a s f L)
  then show ?case by (cases L rule: starts_free.cases) auto
qed simp

lemma starts_free_iff: "starts_free L \<longleftrightarrow> (\<exists>a s M. L = (a, s, True) # M)"
  by (cases L rule: starts_free.cases) auto

lemma first_free_le: "tiled b L e \<Longrightarrow> b \<le> first_addr (free_blocks L) e"
  by (induction b L e rule: tiled.induct) force+

lemma first_free_less:
  assumes "tiled b L e" "\<not> starts_free L" "L \<noteq> []"
  shows "b < first_addr (free_blocks L) e"
proof (cases L rule: coalesced.cases)
  case (2 a s f M)
  then show ?thesis using assms first_free_le [of "a + s" M e] by (cases f) auto
qed (use assms in simp)

lemma tiled_spaced:
  assumes "tiled b L e" "coalesced L"
  shows "spaced b (free_blocks L) e"
  using assms
proof (induction b L e rule: tiled.induct)
  case (2 b a s f L e)
  then have sp: "spaced (a + s) (free_blocks L) e" and a: "a = b" and s: "0 < s" and le: "a + s \<le> e"
    using tiled_le [of "a + s" L e True] by auto
  show ?case
  proof (cases f)
    case True
    then have "free_blocks L = [] \<or> a + s < first_addr (free_blocks L) e"
      using first_free_less [of "a + s" L e] 2 by (cases L) auto
    then show ?thesis using True sp a s le by simp
  next
    case False
    then show ?thesis using spaced_mono [OF sp, of b] a by simp
  qed
qed simp

section \<open>Joining in a row\<close>

fun row_right :: "nat \<Rightarrow> nat \<Rightarrow> tile list \<Rightarrow> tile list" where
  "row_right n s ((a, t, True) # L) = (n, s + t, True) # L"
| "row_right n s L = (n, s, True) # L"

fun row_left :: "tile list \<Rightarrow> nat \<Rightarrow> nat \<Rightarrow> tile list \<Rightarrow> tile list" where
  "row_left [] n s L = row_right n s L"
| "row_left [(p, t, True)] n s L = row_right p (t + s) L"
| "row_left (x # K) n s L = x # row_left K n s L"

text \<open>The row after the block at \<open>a\<close> is given back.\<close>

definition give_back :: "nat \<Rightarrow> tile list \<Rightarrow> tile list" where
  "give_back a L = (case dropWhile (\<lambda>t. fst t \<noteq> a) L of
     [] \<Rightarrow> L | (n, s, f) # M \<Rightarrow> row_left (takeWhile (\<lambda>t. fst t \<noteq> a) L) n s M)"

text \<open>The first free block of at least \<open>w\<close> bytes is taken, and split if the rest is large enough.\<close>

fun carve :: "nat \<Rightarrow> tile list \<Rightarrow> (nat \<times> tile list) option" where
  "carve w [] = None"
| "carve w ((a, s, f) # L) =
    (if f \<and> w \<le> s then
       Some (a, if 16 < s - w then (a, w, False) # (a + w, s - w, True) # L else (a, s, False) # L)
     else map_option (\<lambda>(p, M). (p, (a, s, f) # M)) (carve w L))"

lemma row_left_snoc: "row_left (K @ [(p, t, True)]) n s L = K @ row_right p (t + s) L"
proof (induction K)
  case (Cons x K)
  then show ?case by (cases "(x # K @ [(p, t, True)], n, s, L)" rule: row_left.cases) auto
qed simp

lemma row_left_used: "K = [] \<or> \<not> snd (snd (last K)) \<Longrightarrow> row_left K n s L = K @ row_right n s L"
  by (induction K n s L rule: row_left.induct) (auto split: if_splits)

text \<open>The two cases of the block before.\<close>

lemma row_before:
  obtains "K = [] \<or> \<not> snd (snd (last K))" | K' p t where "K = K' @ [(p, t, True)]"
  by (cases K rule: rev_cases) (auto, metis prod.collapse)

lemma tiled_row_right:
  assumes "tiled (n + s) L e" "16 \<le> s" "8 dvd s"
  shows "tiled n (row_right n s L) e"
  using assms by (cases "(n, s, L)" rule: row_right.cases) (auto simp: add.assoc)

lemma coalesced_row_right: "coalesced L \<Longrightarrow> coalesced (row_right n s L)"
  by (cases "(n, s, L)" rule: row_right.cases) auto

lemma free_row_right:
  assumes "tiled (n + s) L e"
  shows "free_blocks (row_right n s L) = join_right (n, s) (free_blocks L)"
proof (cases "starts_free L")
  case True
  then show ?thesis using assms by (auto simp: starts_free_iff)
next
  case False
  then have "row_right n s L = (n, s, True) # L" by (cases "(n, s, L)" rule: row_right.cases) auto
  moreover have "free_blocks L = [] \<or> n + s \<noteq> first_addr (free_blocks L) e"
    using first_free_less [OF assms False] by (cases L) auto
  then have "join_right (n, s) (free_blocks L) = (n, s) # free_blocks L"
    by (cases "((n, s), free_blocks L)" rule: join_right.cases) auto
  ultimately show ?thesis by simp
qed

lemma used_row_right: "used_blocks (row_right n s L) = used_blocks L"
  by (cases "(n, s, L)" rule: row_right.cases) auto

lemma total_row_right: "block_total (free_blocks (row_right n s L)) = s + block_total (free_blocks L)"
  by (cases "(n, s, L)" rule: row_right.cases) auto

lemma tiled_row_left:
  assumes "tiled b (K @ (n, s, f) # L) e"
  shows "tiled b (row_left K n s L) e"
proof -
  have K: "tiled b K n" and L: "tiled (n + s) L e" "16 \<le> s" "8 dvd s" using assms by (auto simp: tiled_append)
  show ?thesis
  proof (rule row_before [of K])
    assume "K = [] \<or> \<not> snd (snd (last K))"
    then show ?thesis using K tiled_row_right [OF L] by (auto simp: row_left_used tiled_append)
  next
    fix K' p t assume K': "K = K' @ [(p, t, True)]"
    then have "tiled b K' p" "p + t = n" "16 \<le> t" "8 dvd t" using K by (auto simp: tiled_append)
    then show ?thesis using L tiled_row_right [of p "t + s" L e]
      by (auto simp: K' row_left_snoc tiled_append add.assoc [symmetric])
  qed
qed

lemma coalesced_row_left:
  assumes "coalesced K" "coalesced L"
  shows "coalesced (row_left K n s L)"
proof (rule row_before [of K])
  assume "K = [] \<or> \<not> snd (snd (last K))"
  then show ?thesis using assms coalesced_row_right by (auto simp: row_left_used coalesced_append)
next
  fix K' p t assume K': "K = K' @ [(p, t, True)]"
  then show ?thesis using assms coalesced_row_right by (auto simp: row_left_snoc coalesced_append)
qed

lemma used_row_left: "used_blocks (row_left K n s L) = used_blocks K @ used_blocks L"
  by (rule row_before [of K]) (auto simp: row_left_used row_left_snoc used_row_right)

lemma total_row_left:
  "block_total (free_blocks (row_left K n s L)) =
    block_total (free_blocks K) + s + block_total (free_blocks L)"
  by (rule row_before [of K]) (auto simp: row_left_used row_left_snoc total_row_right)

text \<open>Joining in the row is joining in the list of the free blocks.\<close>

lemma free_row_left:
  assumes "tiled b K n" "tiled (n + s) L e" "coalesced K"
  shows "free_blocks (row_left K n s L) = join_left (free_blocks K) (join_right (n, s) (free_blocks L))"
proof (rule row_before [of K])
  assume apart: "K = [] \<or> \<not> snd (snd (last K))"
  have "join_left (free_blocks K) (join_right (n, s) (free_blocks L))
      = free_blocks K @ join_right (n, s) (free_blocks L)"
  proof (cases "free_blocks K" rule: rev_cases)
    case (snoc F c)
    obtain q u where c: "c = (q, u)" by fastforce
    obtain K' x where K: "K = K' @ [x]" using snoc by (cases K rule: rev_cases) auto
    obtain m v where x: "x = (m, v, False)" using apart by (cases x) (auto simp: K)
    have "tiled b K' m" "m + v = n" "16 \<le> v" using assms(1) by (auto simp: K x tiled_append)
    moreover have "(q, u, True) \<in> set K'" using snoc set_blocks [of q u True K'] by (simp add: K x c)
    ultimately have "q + u \<noteq> n" using tiled_bounds [of b K' m q u True] by linarith
    then show ?thesis using join_left_apart snoc by (simp add: c)
  qed simp
  then show ?thesis using apart by (simp add: row_left_used free_row_right [OF assms(2)])
next
  fix K' p t assume K: "K = K' @ [(p, t, True)]"
  then have p: "p + t = n" using assms(1) by (auto simp: tiled_append)
  then have "tiled (p + (t + s)) L e" using assms(2) by (simp add: add.assoc [symmetric])
  then show ?thesis
    by (simp add: K row_left_snoc free_row_right join_left_touching [OF p])
qed

end
