(* ===== verification/Heap_4_Safety.thy ===== *)
theory Heap_4_Safety
  imports Heap_4_Layout
begin

text \<open>
  The invariant of the heap, and what \<open>pvPortMalloc\<close> and \<open>vPortFree\<close> do to the row of blocks.
\<close>

section \<open>The invariant\<close>

definition used_header :: "nat \<Rightarrow> block_link" where
  "used_header s = \<lparr>pxNextFreeBlock = None, xBlockSize = of_nat s OR mark\<rparr>"

definition used_marked :: "tile list \<Rightarrow> heap4 \<Rightarrow> bool" where
  "used_marked L h \<longleftrightarrow> (\<forall>(a, s) \<in> set (used_blocks L). links h a = Some (used_header s))"

text \<open>The array from the first block to \<open>pxEnd\<close>.\<close>

definition heap_area :: "nat \<Rightarrow> nat \<Rightarrow> bool" where
  "heap_area b e \<longleftrightarrow> 8 dvd b \<and> e < 4294967296 \<and> e < b + 2147483648"

definition end_marked :: "nat \<Rightarrow> heap4 \<Rightarrow> bool" where
  "end_marked e h \<longleftrightarrow> pxEnd h = Some e \<and> links h e = Some \<lparr>pxNextFreeBlock = None, xBlockSize = 0\<rparr> \<and>
    xBlockAllocatedBit h = mark"

definition counted :: "tile list \<Rightarrow> heap4 \<Rightarrow> bool" where
  "counted L h \<longleftrightarrow> xFreeBytesRemaining h = of_nat (block_total (free_blocks L)) \<and>
    xMinimumEverFreeBytesRemaining h \<le> xFreeBytesRemaining h"

definition heap_ok :: "nat \<Rightarrow> nat \<Rightarrow> tile list \<Rightarrow> heap4 \<Rightarrow> bool" where
  "heap_ok b e L h \<longleftrightarrow> heap_area b e \<and> tiled b L e \<and> coalesced L \<and> free_list h (free_blocks L) e \<and>
    used_marked L h \<and> end_marked e h \<and> counted L h"

lemma heap_okD:
  assumes "heap_ok b e L h"
  shows "heap_area b e" "tiled b L e" "coalesced L" "free_list h (free_blocks L) e"
    "used_marked L h" "end_marked e h" "counted L h"
  using assms by (simp_all add: heap_ok_def)

lemma tiled_distinct: "tiled b L e \<Longrightarrow> distinct (map fst L)"
proof (induction b L e rule: tiled.induct)
  case (2 b a s f L e)
  then show ?case using tiled_bounds [of "a + s" L e] by fastforce
qed simp

lemma same_tile: "tiled b L e \<Longrightarrow> (a, x) \<in> set L \<Longrightarrow> (a, y) \<in> set L \<Longrightarrow> x = y"
  using tiled_distinct eq_key_imp_eq_value by fast

lemma free_not_used:
  assumes "tiled b L e" "(a, s) \<in> set (used_blocks L)"
  shows "a \<notin> fst ` set (free_blocks L)"
  using assms same_tile [of b L e a] by (force simp: set_blocks)

lemma end_not_block: "tiled b L e \<Longrightarrow> e \<notin> fst ` set (blocks w L)"
  using tiled_bounds [of b L e e] by (force simp: set_blocks)

lemma size_less:
  assumes "heap_area b e" "tiled b L e" "(a, s, f) \<in> set L"
  shows "s < 2147483648"
  using tiled_bounds [OF assms(2,3)] assms(1) by (simp add: heap_area_def)

text \<open>What the operations leave alone.\<close>

lemma used_marked_frame:
  assumes "used_marked L h" "\<And>a s. (a, s) \<in> set (used_blocks L) \<Longrightarrow> links h' a = links h a"
  shows "used_marked L h'"
  using assms unfolding used_marked_def by fastforce

lemma end_marked_frame:
  assumes "end_marked e h" "same_counts h h'" "links h' e = links h e"
  shows "end_marked e h'"
  using assms by (simp add: end_marked_def same_counts_def)

lemma blocks_split:
  assumes "tiled b (K @ (a, s, f) # M) e" "coalesced (K @ (a, s, f) # M)"
  shows "spaced b (free_blocks K) a" "spaced (a + s) (free_blocks M) e"
  using assms by (auto simp: tiled_append coalesced_append intro: tiled_spaced)

section \<open>Releasing\<close>

lemma give_back_split:
  assumes "tiled b (K @ (a, s, f) # M) e"
  shows "give_back a (K @ (a, s, f) # M) = row_left K a s M"
proof -
  have "a \<notin> fst ` set K" using tiled_distinct [OF assms] by auto
  then have "\<forall>t \<in> set K. fst t \<noteq> a" by auto
  then show ?thesis by (simp add: give_back_def takeWhile_append2 dropWhile_append2)
qed

lemma free_prepare_ok:
  assumes "heap_ok b e L h" "(a, s, False) \<in> set L"
  shows "free_prepare a h = Inr (put_link (Header a) \<lparr>pxNextFreeBlock = None, xBlockSize = of_nat s\<rparr> h)"
proof -
  have "links h a = Some (used_header s)"
    using heap_okD(5) [OF assms(1)] assms(2) by (auto simp: used_marked_def set_blocks)
  moreover have "unat (of_nat s :: size_t) < 2147483648"
    using size_less [OF heap_okD(1,2) [OF assms(1)] assms(2)] by (simp add: unat_size)
  moreover have "xBlockAllocatedBit h = mark" using heap_okD(6) [OF assms(1)] by (simp add: end_marked_def)
  ultimately show ?thesis
    using marked_clear by (simp add: free_prepare_def used_header_def not_less)
qed

lemma free_gives_back:
  assumes ok: "heap_ok b e L h" and L: "L = K @ (a, s, False) # M" and "free_prepare a h = Inr h1"
  shows "runs (free_critical a h1) (heap_ok b e (row_left K a s M))"
proof -
  note inv = heap_okD [OF ok, unfolded L]
  define l :: block_link where "l = \<lparr>pxNextFreeBlock = None, xBlockSize = of_nat s\<rparr>"
  have h1: "h1 = put_link (Header a) l h"
    using free_prepare_ok [OF ok, of a s] assms(3) by (simp add: L l_def)
  define h2 where "h2 = h1\<lparr>xFreeBytesRemaining := xFreeBytesRemaining h1 + of_nat s\<rparr>"
  have h2 [simp]: "links h2 = (links h)(a \<mapsto> l)" "xStart h2 = xStart h" "pxEnd h2 = pxEnd h"
    by (simp_all add: h2_def h1)
  have a_out: "a \<notin> fst ` set (free_blocks L)"
    using free_not_used [of b L e a s] inv by (auto simp: L set_blocks)
  have "chain h2 (free_blocks K @ free_blocks M) e = chain h (free_blocks K @ free_blocks M) e"
    by (rule chain_frame) (use a_out in \<open>auto simp: L\<close>)
  then have fl: "free_list h2 (free_blocks K @ free_blocks M) e" using inv(4) by (simp add: free_list_def)
  have ins: "runs (prvInsertBlockIntoFreeList a h2) (inserts a s (free_blocks K) (free_blocks M) e h2)"
    by (rule insert_joins [OF fl blocks_split [OF inv(2,3)], of l])
      (use inv size_less [OF inv(1,2), of a s False] tiled_bounds [OF inv(2), of a s False]
       in \<open>simp_all add: l_def end_marked_def heap_area_def\<close>)
  have crit: "free_critical a h1 = prvInsertBlockIntoFreeList a h2"
    by (simp add: free_critical_def h1 l_def h2_def)
  show ?thesis unfolding crit
  proof (rule runs_mono [OF ins])
    fix h' assume h': "inserts a s (free_blocks K) (free_blocks M) e h2 h'"
    have frame: "links h' c = links h c" if "c \<noteq> a" "c \<notin> fst ` set (free_blocks L)" for c
      using h' that by (simp add: inserts_def L)
    have same: "same_counts h2 h'" using h' by (simp add: inserts_def)
    let ?L = "row_left K a s M"
    have "free_list h' (free_blocks ?L) e"
      using h' free_row_left [of b K a s M e] inv(2,3)
      by (auto simp: inserts_def tiled_append coalesced_append)
    moreover have "used_marked ?L h'"
    proof (rule used_marked_frame)
      show "used_marked ?L h" using inv(5) by (simp add: used_marked_def used_row_left)
      fix c t assume "(c, t) \<in> set (used_blocks ?L)"
      then have c: "(c, t) \<in> set (used_blocks (K @ M))" by (simp add: used_row_left)
      have "c \<noteq> a" using c tiled_distinct [OF inv(2)] by (force simp: set_blocks)
      moreover have "c \<notin> fst ` set (free_blocks L)"
        by (rule free_not_used [of b L e c t]) (use c inv(2) in \<open>auto simp: L\<close>)
      ultimately show "links h' c = links h c" by (rule frame)
    qed
    moreover have "e \<noteq> a" "e \<notin> fst ` set (free_blocks L)"
      using end_not_block [OF inv(2), of False] end_not_block [OF inv(2), of True] by (auto simp: L)
    then have "end_marked e h'"
      using inv(6) same frame [of e] by (auto simp: end_marked_def same_counts_def h2_def h1 put_link_def)
    moreover have "counted ?L h'"
    proof -
      have "block_total (free_blocks K) + s + block_total (free_blocks M) < 2147483648"
        using inv(1) tiled_le [OF tiled_row_left [OF inv(2)], of True]
        by (simp add: heap_area_def total_row_left)
      then have "xFreeBytesRemaining h \<le> xFreeBytesRemaining h + of_nat s"
        using inv(7) by (simp add: counted_def word_le_nat_alt unat_word_ariths unat_size)
      then show ?thesis using same inv(7)
        by (auto simp: counted_def same_counts_def h2_def h1 put_link_def total_row_left)
    qed
    ultimately show "heap_ok b e ?L h'"
      using inv(1,3) tiled_row_left [OF inv(2)] coalesced_row_left [of K M a s]
      by (simp add: heap_ok_def coalesced_append)
  qed
qed

section \<open>Looking for a block\<close>

lemma carve_None: "carve w L = None \<longleftrightarrow> (\<forall>(a, s) \<in> set (free_blocks L). s < w)"
  by (induction w L rule: carve.induct) auto

lemma carve_Some:
  assumes "carve w L = Some (a, M)"
  obtains K s N where "L = K @ (a, s, True) # N" "w \<le> s" "\<forall>(c, t) \<in> set (free_blocks K). t < w"
    "M = K @ (if 16 < s - w then (a, w, False) # (a + w, s - w, True) # N else (a, s, False) # N)"
  using assms
proof (induction w L arbitrary: M thesis rule: carve.induct)
  case (2 w c t f L)
  show ?case
  proof (cases "f \<and> w \<le> t")
    case True
    show ?thesis by (rule 2(2) [of "[]" t L]) (use True 2(3) in auto)
  next
    case False
    then obtain M' where M': "carve w L = Some (a, M')" "M = (c, t, f) # M'" using 2(3) by auto
    obtain K s N where K: "L = K @ (a, s, True) # N" "w \<le> s" "\<forall>(c, t) \<in> set (free_blocks K). t < w"
      "M' = K @ (if 16 < s - w then (a, w, False) # (a + w, s - w, True) # N else (a, s, False) # N)"
      using 2(1) [OF False _ M'(1)] by blast
    show ?thesis by (rule 2(2) [of "(c, t, f) # K" s N]) (use K M'(2) False in auto)
  qed
qed simp

text \<open>The traversal passes over the blocks that are too small.\<close>

lemma first_fit_skips:
  assumes "chain h F y" "\<forall>(a, s) \<in> set F. s < unat w"
  shows "first_fit w p (first_addr F y) h = first_fit w (last_place p F) y h"
  using assms
proof (induction F arbitrary: p)
  case (Cons b F)
  obtain a s where b: "b = (a, s)" by fastforce
  have s: "s < unat w" using Cons.prems(2) by (auto simp: b)
  then have "of_nat s < w"
    using order_less_trans [OF s unat_u32_less] by (simp add: word_less_nat_alt unat_size)
  then have "first_fit w p a h = first_fit w (Header a) (first_addr F y) h"
    using Cons.prems(1) by (subst first_fit.simps) (simp add: b)
  then show ?case using Cons.IH [of "Header a"] Cons.prems by (auto simp: b last_place_def)
qed (simp add: last_place_def)

lemma first_fit_stops:
  assumes "links h a = Some l" "\<not> xBlockSize l < w \<or> pxNextFreeBlock l = None"
  shows "first_fit w p a h = ret (p, a)"
  using assms by (subst first_fit.simps) auto

section \<open>Taking a block out of the list\<close>

lemma place_link:
  assumes "free_list h (F @ G) e"
  obtains i where "link (last_place Before_first F) h = Inr i" "pxNextFreeBlock i = Some (first_addr G e)"
proof (cases F rule: rev_cases)
  case Nil
  then show ?thesis using that assms by (auto simp: last_place_def free_list_def)
next
  case (snoc E b)
  obtain q u where "b = (q, u)" by fastforce
  then show ?thesis using that assms snoc by (auto simp: last_place_def free_list_def chain_append)
qed

lemma unlink:
  assumes fl: "free_list h (F @ (a, s) # G) e" and sp: "spaced lo F a" "spaced (a + s) G e" "0 < s"
    and i: "link (last_place Before_first F) h = Inr i"
  defines "h' \<equiv> put_link (last_place Before_first F) (i\<lparr>pxNextFreeBlock := Some (first_addr G e)\<rparr>) h"
  shows "free_list h' (F @ G) e" "\<And>c. c \<notin> fst ` set F \<Longrightarrow> links h' c = links h c" "same_counts h h'"
proof -
  show "same_counts h h'" by (simp add: h'_def)
  have out: "c \<notin> fst ` set G" if "c \<in> fst ` set F \<or> c = a" for c
    using that not_in_spaced [OF sp(2), of c] not_in_spaced [OF sp(1), of c] sp(3) by fastforce
  show "links h' c = links h c" if "c \<notin> fst ` set F" for c
  proof (cases F rule: rev_cases)
    case (snoc E b)
    then show ?thesis using that by (auto simp: h'_def last_place_def)
  qed (simp add: h'_def last_place_def)
  show "free_list h' (F @ G) e"
  proof (cases F rule: rev_cases)
    case Nil
    then have "chain h' G e = chain h G e" by (intro chain_frame) (simp add: h'_def last_place_def)
    then show ?thesis using Nil fl i by (cases i) (simp add: h'_def last_place_def free_list_def)
  next
    case (snoc E b)
    obtain q u where b: "b = (q, u)" by fastforce
    have q: "q \<notin> fst ` set G" using out [of q] by (simp add: snoc b)
    have "q \<notin> fst ` set E" using sp(1) not_in_spaced [of lo E q q] by (simp add: snoc b spaced_snoc)
    then have "chain h' E q = chain h E q" "chain h' G e = chain h G e"
      using q by (intro chain_frame; force simp: h'_def last_place_def snoc b)+
    then show ?thesis using fl i
      by (auto simp: h'_def last_place_def snoc b free_list_def chain_append)
  qed
qed

section \<open>Splitting the block\<close>

lemma spaced_higher: "spaced lo F hi \<Longrightarrow> hi \<le> hi' \<Longrightarrow> spaced lo F hi'"
proof (induction lo F hi rule: spaced.induct)
  case (2 lo a s F hi)
  then show ?case by (cases F) auto
qed simp

lemma join_gaps:
  assumes "spaced lo F a" "a < n" "n + s < first_addr G e \<or> G = []"
  shows "join_left F (join_right (n, s) G) = F @ (n, s) # G"
proof -
  have "join_right (n, s) G = (n, s) # G"
    using assms(3) by (cases "((n, s), G)" rule: join_right.cases) auto
  then show ?thesis
    using assms(1,2) by (cases F rule: rev_cases) (auto simp: join_left_snoc spaced_snoc)
qed

text \<open>What is left of a block of \<open>s\<close> bytes at \<open>a\<close> after \<open>w\<close> bytes are taken, and the size taken.\<close>

definition rest :: "nat \<Rightarrow> nat \<Rightarrow> nat \<Rightarrow> block list" where
  "rest a w s = (if 16 < s - w then [(a + w, s - w)] else [])"

definition taken :: "nat \<Rightarrow> nat \<Rightarrow> nat" where
  "taken w s = (if 16 < s - w then w else s)"

lemma split_block_ok:
  assumes fl: "free_list h (F @ G) e" and sp: "spaced lo F a" "spaced (a + s) G e"
    and gap: "G = [] \<or> a + s < first_addr G e"
    and a: "links h a = Some l" "xBlockSize l = of_nat s" "a \<notin> fst ` set (F @ G)"
    and w: "unat w \<le> s" "0 < unat w" "8 dvd unat w" "8 dvd a"
    and e: "pxEnd h = Some e" "e < 4294967296"
  shows "runs (split_block w a h) (\<lambda>h'. free_list h' (F @ rest a (unat w) s @ G) e \<and> same_counts h h' \<and>
    (\<exists>l'. links h' a = Some l' \<and> xBlockSize l' = of_nat (taken (unat w) s)) \<and>
    (\<forall>c. c \<notin> insert a (fst ` set (F @ rest a (unat w) s @ G)) \<longrightarrow> links h' c = links h c))"
proof -
  have s: "s < 4294967296" using spaced_le [OF sp(2)] e(2) by linarith
  then have diff: "unat (xBlockSize l - w) = s - unat w"
    using w(1) by (simp add: a(2) unat_sub_if' unat_size)
  show ?thesis
  proof (cases "16 < s - unat w")
    case False
    then have "\<not> (16 :: size_t) < xBlockSize l - w" by (simp add: word_less_nat_alt diff)
    then have "split_block w a h = ret h" by (simp add: split_block_def a(1))
    then show ?thesis using False fl a by (auto simp: rest_def taken_def)
  next
    case True
    define n where "n = a + unat w"
    define h2 where "h2 = put_size a w (put_size n (xBlockSize l - w) h)"
    have na: "n \<noteq> a" using w(2) by (simp add: n_def)
    have "16 < xBlockSize l - w" using True by (simp add: word_less_nat_alt diff)
    moreover have "n mod 8 = 0" using w(3,4) by (simp add: n_def dvd_add)
    ultimately have run: "split_block w a h = prvInsertBlockIntoFreeList n h2"
      by (simp add: split_block_def a(1) h2_def n_def Let_def)
    have "n \<notin> fst ` set G" by (rule not_in_spaced [OF sp(2)]) (use True in \<open>auto simp add: n_def\<close>)
    moreover have "n \<notin> fst ` set F" by (rule not_in_spaced [OF sp(1)]) (simp add: n_def)
    ultimately have nFG: "n \<notin> fst ` set (F @ G)" by auto
    have rest_size: "of_nat (s - unat w) = xBlockSize l - w" using w(1) by (simp add: of_nat_diff a(2))
    obtain l2 where l2: "links h2 n = Some l2" "xBlockSize l2 = of_nat (s - unat w)"
      using put_size_fields(5) [of n "xBlockSize l - w" h] put_size_fields(4) [OF na] rest_size
      by (auto simp: h2_def)
    have frame: "links h2 c = links h c" if "c \<noteq> a" "c \<noteq> n" for c
      using that by (simp add: h2_def put_size_fields(4))
    have others: "xStart h2 = xStart h" "pxEnd h2 = pxEnd h" "same_counts h h2"
      unfolding h2_def by (simp_all add: put_size_fields same_counts_trans [OF put_size_fields(3) put_size_fields(3)])
    have l1: "\<exists>l'. links h2 a = Some l' \<and> xBlockSize l' = w"
      using put_size_fields(5) by (simp add: h2_def)
    have "chain h2 (F @ G) e = chain h (F @ G) e"
      by (rule chain_frame) (use a(3) nFG frame in metis)
    then have fl2: "free_list h2 (F @ G) e" using fl others by (simp add: free_list_def)
    have join: "join_left F (join_right (n, s - unat w) G) = F @ (n, s - unat w) # G"
      by (rule join_gaps [OF sp(1)]) (use gap True na in \<open>auto simp: n_def\<close>)
    have ins: "runs (prvInsertBlockIntoFreeList n h2) (inserts n (s - unat w) F G e h2)"
      by (rule insert_joins [OF fl2 spaced_higher [OF sp(1)] _ _ l2])
        (use sp True e others in \<open>simp_all add: n_def\<close>)
    show ?thesis unfolding run
    proof (rule runs_mono [OF ins])
      fix h' assume h': "inserts n (s - unat w) F G e h2 h'"
      then have "links h' a = links h2 a" "same_counts h h'"
        using a(3) na others(3) same_counts_trans by (auto simp: inserts_def)
      moreover have "links h' c = links h c" if "c \<notin> insert a (fst ` set (F @ (n, s - unat w) # G))" for c
        using h' that frame [of c] by (simp add: inserts_def)
      moreover have "free_list h' (F @ rest a (unat w) s @ G) e"
        using h' [unfolded inserts_def join] True by (simp add: rest_def n_def)
      ultimately show "free_list h' (F @ rest a (unat w) s @ G) e \<and> same_counts h h' \<and>
        (\<exists>l'. links h' a = Some l' \<and> xBlockSize l' = of_nat (taken (unat w) s)) \<and>
        (\<forall>c. c \<notin> insert a (fst ` set (F @ rest a (unat w) s @ G)) \<longrightarrow> links h' c = links h c)"
        using l1 True by (simp add: taken_def rest_def n_def)
    qed
  qed
qed

section \<open>Allocating\<close>

text \<open>The row after the block of \<open>s\<close> bytes at \<open>a\<close> is taken for a request of \<open>r\<close> bytes.\<close>

definition take_row :: "tile list \<Rightarrow> nat \<Rightarrow> nat \<Rightarrow> nat \<Rightarrow> tile list \<Rightarrow> tile list" where
  "take_row K a r s N =
    K @ (if 16 < s - r then (a, r, False) # (a + r, s - r, True) # N else (a, s, False) # N)"

lemma take_row_blocks:
  "free_blocks (take_row K a r s N) = free_blocks K @ rest a r s @ free_blocks N"
  "used_blocks (take_row K a r s N) = used_blocks K @ (a, taken r s) # used_blocks N"
  by (simp_all add: take_row_def rest_def taken_def)

lemma take_row_ok:
  assumes "tiled b (K @ (a, s, True) # N) e" "coalesced (K @ (a, s, True) # N)" "16 \<le> r" "8 dvd r" "r \<le> s"
  shows "tiled b (take_row K a r s N) e" "coalesced (take_row K a r s N)"
  using assms by (auto simp: take_row_def tiled_append coalesced_append dvd_diff_nat)

lemma take_row_total:
  assumes "r \<le> s"
  shows "block_total (free_blocks (K @ (a, s, True) # N)) =
    block_total (free_blocks (take_row K a r s N)) + taken r s"
  using assms by (simp add: take_row_blocks rest_def taken_def)

lemma mark_allocated_ok:
  assumes "links h a = Some l" "xBlockSize l = of_nat t" "xBlockAllocatedBit h = mark"
  shows "\<exists>h'. mark_allocated a h = Inr h' \<and> links h' = (links h)(a \<mapsto> used_header t) \<and> xStart h' = xStart h \<and>
    pxEnd h' = pxEnd h \<and> xBlockAllocatedBit h' = mark \<and>
    xFreeBytesRemaining h' = xFreeBytesRemaining h - of_nat t \<and>
    xMinimumEverFreeBytesRemaining h' = min (xFreeBytesRemaining h - of_nat t) (xMinimumEverFreeBytesRemaining h)"
  using assms by (auto simp add: mark_allocated_def Let_def put_link_def used_header_def min_def)

lemma counted_take:
  assumes "heap_area b e" "tiled b (K @ (a, s, True) # N) e" "r \<le> s" "counted (K @ (a, s, True) # N) h"
    and "xFreeBytesRemaining h' = xFreeBytesRemaining h - of_nat (taken r s)"
    and "xMinimumEverFreeBytesRemaining h' =
      min (xFreeBytesRemaining h - of_nat (taken r s)) (xMinimumEverFreeBytesRemaining h)"
  shows "counted (take_row K a r s N) h'"
  using assms(4-6) unfolding counted_def take_row_total [OF assms(3), of K a N] by simp

lemma tiled_aligned: "tiled b (K @ (a, s, f) # N) e \<Longrightarrow> 8 dvd b \<Longrightarrow> 8 dvd a"
proof (induction K arbitrary: b)
  case (Cons x K)
  then show ?case by (cases x) (auto simp: dvd_add)
qed simp

lemma take_block_ok:
  assumes ok: "heap_ok b e L h" and L: "L = K @ (a, s, True) # N"
    and r: "unat bytes \<le> s" "16 \<le> unat bytes" "8 dvd unat bytes"
  shows "runs (take_block bytes (last_place Before_first (free_blocks K)) a h)
    (\<lambda>(p, h'). p = Some (a + 8) \<and> heap_ok b e (take_row K a (unat bytes) s N) h')"
proof -
  note inv = heap_okD [OF ok, unfolded L]
  let ?F = "free_blocks K" and ?G = "free_blocks N" and ?p = "last_place Before_first (free_blocks K)"
  let ?r = "unat bytes" and ?M = "take_row K a (unat bytes) s N"
  have fl: "free_list h (?F @ (a, s) # ?G) e" using inv(4) by simp
  note sp = blocks_split [OF inv(2,3)]
  have s: "0 < s" using r by linarith
  obtain i where i: "link ?p h = Inr i" "pxNextFreeBlock i = Some a"
    using place_link [OF fl] by auto
  have ha: "links h a = Some \<lparr>pxNextFreeBlock = Some (first_addr ?G e), xBlockSize = of_nat s\<rparr>"
    using fl by (simp add: free_list_def chain_append)
  define h1 where "h1 = put_link ?p (i\<lparr>pxNextFreeBlock := Some (first_addr ?G e)\<rparr>) h"
  note un = unlink [OF fl sp s i(1), folded h1_def]
  have aF: "a \<notin> fst ` set ?F" by (rule not_in_spaced [OF sp(1)]) simp
  have aG: "a \<notin> fst ` set ?G" by (rule not_in_spaced [OF sp(2)]) (simp add: s)
  have gap: "?G = [] \<or> a + s < first_addr ?G e"
    using first_free_less [of "a + s" N e] inv(2,3) by (cases N) (auto simp: tiled_append coalesced_append)
  have a8: "8 dvd a" using tiled_aligned [OF inv(2)] inv(1) by (simp add: heap_area_def)
  have e: "pxEnd h1 = Some e" "e < 4294967296" using inv(1,6) un(3)
    by (simp_all add: heap_area_def end_marked_def same_counts_def)
  have split: "runs (split_block bytes a h1) (\<lambda>h'. free_list h' (?F @ rest a ?r s @ ?G) e \<and> same_counts h1 h' \<and>
    (\<exists>l'. links h' a = Some l' \<and> xBlockSize l' = of_nat (taken ?r s)) \<and>
    (\<forall>c. c \<notin> insert a (fst ` set (?F @ rest a ?r s @ ?G)) \<longrightarrow> links h' c = links h1 c))"
    by (rule split_block_ok [OF un(1) sp gap _ _ _ r(1) _ r(3) a8 e])
      (use un(2) [of a] aF aG ha r in auto)
  note M = take_row_ok [OF inv(2,3) r(2,3,1)]
  have finish: "runs (Some (mark_allocated a h2)) (heap_ok b e ?M)"
    if h2: "free_list h2 (?F @ rest a ?r s @ ?G) e" "same_counts h1 h2"
      "links h2 a = Some l" "xBlockSize l = of_nat (taken ?r s)"
      "\<And>c. c \<notin> insert a (fst ` set (?F @ rest a ?r s @ ?G)) \<Longrightarrow> links h2 c = links h1 c" for h2 l
  proof -
    have same: "same_counts h h2" by (rule same_counts_trans [OF un(3) h2(2)])
    have "xBlockAllocatedBit h2 = mark" using same inv(6) by (simp add: same_counts_def end_marked_def)
    then obtain h3 where run: "mark_allocated a h2 = Inr h3"
      and h3: "links h3 = (links h2)(a \<mapsto> used_header (taken ?r s))" "xStart h3 = xStart h2"
        "pxEnd h3 = pxEnd h2" "xBlockAllocatedBit h3 = mark"
        "xFreeBytesRemaining h3 = xFreeBytesRemaining h - of_nat (taken ?r s)"
        "xMinimumEverFreeBytesRemaining h3 =
          min (xFreeBytesRemaining h - of_nat (taken ?r s)) (xMinimumEverFreeBytesRemaining h)"
      using mark_allocated_ok [OF h2(3,4)] same by (auto simp: same_counts_def)
    have outside: "links h3 c = links h c" if "c \<noteq> a" "c \<notin> fst ` set (free_blocks ?M)" for c
      using that h2(5) [of c] un(2) [of c] by (simp add: h3(1) take_row_blocks image_Un)
    have "a \<notin> fst ` set (free_blocks ?M)"
      by (rule free_not_used [OF M(1), of _ "taken ?r s"]) (simp add: take_row_blocks)
    then have "chain h3 (free_blocks ?M) e = chain h2 (free_blocks ?M) e"
      by (intro chain_frame) (auto simp: h3(1))
    then have "free_list h3 (free_blocks ?M) e"
      using h2(1) h3(2) by (simp add: free_list_def take_row_blocks)
    moreover have "used_marked ?M h3" unfolding used_marked_def
    proof clarify
      fix c t assume c: "(c, t) \<in> set (used_blocks ?M)"
      show "links h3 c = Some (used_header t)"
      proof (cases "c = a")
        case True
        then have "t = taken ?r s"
          using c same_tile [OF M(1), of a "(t, False)" "(taken ?r s, False)"]
          by (simp add: take_row_blocks flip: set_blocks)
        then show ?thesis using True h3(1) by simp
      next
        case False
        then have "(c, t) \<in> set (used_blocks (K @ (a, s, True) # N))" using c by (simp add: take_row_blocks)
        then have "links h c = Some (used_header t)" using inv(5) by (auto simp: used_marked_def)
        then show ?thesis using outside [OF False free_not_used [OF M(1) c]] by simp
      qed
    qed
    moreover have "e \<noteq> a" "e \<notin> fst ` set (free_blocks ?M)"
      using end_not_block [OF inv(2), of True] end_not_block [OF M(1)] by auto
    then have "end_marked e h3"
      using inv(6) same outside [of e] h3(3,4) by (simp add: end_marked_def same_counts_def)
    moreover have "counted ?M h3" by (rule counted_take [OF inv(1,2) r(1) inv(7) h3(5,6)])
    ultimately show ?thesis using inv(1) M by (simp add: run heap_ok_def)
  qed
  have "take_block bytes ?p a h =
      bindl (split_block bytes a h1) (\<lambda>h. bindl (Some (mark_allocated a h)) (\<lambda>h. ret (Some (a + 8), h)))"
    by (simp add: take_block_def i ha h1_def)
  moreover have "runs \<dots> (\<lambda>(p, h'). p = Some (a + 8) \<and> heap_ok b e ?M h')"
  proof (rule runs_bindl [OF split])
    fix h2 assume h2: "free_list h2 (?F @ rest a ?r s @ ?G) e \<and> same_counts h1 h2 \<and>
      (\<exists>l'. links h2 a = Some l' \<and> xBlockSize l' = of_nat (taken ?r s)) \<and>
      (\<forall>c. c \<notin> insert a (fst ` set (?F @ rest a ?r s @ ?G)) \<longrightarrow> links h2 c = links h1 c)"
    then obtain l where "links h2 a = Some l" "xBlockSize l = of_nat (taken ?r s)" by blast
    then have "runs (Some (mark_allocated a h2)) (heap_ok b e ?M)" using finish h2 by blast
    then show "runs (bindl (Some (mark_allocated a h2)) (\<lambda>h. ret (Some (a + 8), h)))
        (\<lambda>(p, h'). p = Some (a + 8) \<and> heap_ok b e ?M h')"
      by (rule runs_bindl) simp
  qed
  ultimately show ?thesis by simp
qed

text \<open>Allocation is taking the first block that is large enough.\<close>

definition carves :: "nat \<Rightarrow> nat \<Rightarrow> tile list \<Rightarrow> size_t \<Rightarrow> heap4 \<Rightarrow> nat option \<times> heap4 \<Rightarrow> bool" where
  "carves b e L w h = (\<lambda>(p, h').
     if 0 < unat w \<and> unat w < 2147483648 then
       (case carve (request (unat w)) L of
          None \<Rightarrow> p = None \<and> h' = h
        | Some (a, M) \<Rightarrow> p = Some (a + 8) \<and> heap_ok b e M h')
     else p = None \<and> h' = h)"

lemma malloc_carves:
  assumes ok: "heap_ok b e L h"
  shows "runs (malloc_critical u w h) (carves b e L w h)"
proof (cases "0 < unat w \<and> unat w < 2147483648")
  case False
  have "block_bytes w = 0 \<or> \<not> unat w < 2147483648" using False by (cases "w = 0") (auto simp: block_bytes_0 unat_gt_0)
  then show ?thesis using heap_okD(6) [OF ok] False
    by (auto simp: malloc_critical_def Let_def end_marked_def carves_def)
next
  case True
  note inv = heap_okD [OF ok]
  let ?F = "free_blocks L" and ?r = "request (unat w)"
  have bytes: "unat (block_bytes w) = ?r" by (rule block_bytes_request) (use True in auto)
  have pos: "0 < block_bytes w" using bytes request_large [of "unat w"] True by (simp add: word_less_nat_alt)
  have endm: "pxEnd h = Some e" "links h e = Some \<lparr>pxNextFreeBlock = None, xBlockSize = 0\<rparr>"
    "xBlockAllocatedBit h = mark" using inv(6) by (simp_all add: end_marked_def)
  have start: "pxNextFreeBlock (xStart h) = Some (first_addr ?F e)" using inv(4) by (simp add: free_list_def)
  have ch: "chain h ?F e" using inv(4) by (simp add: free_list_def)
  have crit: "malloc_critical u w h =
      (if block_bytes w \<le> xFreeBytesRemaining h then
         bindl (first_fit (block_bytes w) Before_first (first_addr ?F e) h) (\<lambda>(p, b).
           if Some b \<noteq> Some e then take_block (block_bytes w) p b h else ret (None, h))
       else ret (None, h))"
    using True pos by (simp add: malloc_critical_def Let_def endm start)
  show ?thesis
  proof (cases "carve ?r L")
    case None
    then have small: "\<forall>(a, s) \<in> set ?F. s < unat (block_bytes w)" by (simp add: carve_None bytes)
    have "first_fit (block_bytes w) Before_first (first_addr ?F e) h = ret (last_place Before_first ?F, e)"
      by (simp add: first_fit_skips [OF ch small] first_fit_stops [OF endm(2)])
    then show ?thesis using None True by (simp add: crit carves_def)
  next
    case (Some c)
    obtain a M where c: "c = (a, M)" by fastforce
    obtain K s N where L: "L = K @ (a, s, True) # N" "?r \<le> s" "\<forall>(c, t) \<in> set (free_blocks K). t < ?r"
      "M = take_row K a ?r s N"
      using carve_Some [OF Some [unfolded c]] unfolding take_row_def by metis
    have "s < 2147483648" by (rule size_less [OF inv(1,2), of a s True]) (simp add: L)
    then have sw: "unat (of_nat s :: size_t) = s" by (simp add: unat_size)
    have "chain h (free_blocks K) a" and ha: "links h a = Some \<lparr>pxNextFreeBlock = Some (first_addr (free_blocks N) e),
        xBlockSize = of_nat s\<rparr>" using ch by (simp_all add: L chain_append)
    then have "first_fit (block_bytes w) Before_first (first_addr ?F e) h = ret (last_place Before_first (free_blocks K), a)"
      using L(3) sw by (simp add: L(1) first_fit_skips first_fit_stops bytes word_less_nat_alt L(2) not_less)
    moreover have "a \<noteq> e" using end_not_block [OF inv(2), of True] by (auto simp: L)
    moreover have "block_total ?F < 4294967296" using tiled_le [OF inv(2), of True] inv(1) by (simp add: heap_area_def)
    then have "block_bytes w \<le> xFreeBytesRemaining h"
      using inv(7) L(2) bytes by (simp add: counted_def word_le_nat_alt unat_size L(1) del: of_nat_add)
    moreover have "runs (take_block (block_bytes w) (last_place Before_first (free_blocks K)) a h)
        (\<lambda>(p, h'). p = Some (a + 8) \<and> heap_ok b e M h')"
      using take_block_ok [OF ok L(1), of "block_bytes w"] L(2,4) bytes request_large [of "unat w"] True
        request_bounds(3) by simp
    ultimately show ?thesis using True by (simp add: crit carves_def Some c split_def)
  qed
qed

end
