(* ===== verification/Heap_4_Calls.thy ===== *)
theory Heap_4_Calls
  imports Heap_4_Safety
begin

text \<open>
  Sequences of calls of the memory manager, from the first one on: the regions handed out are
  inside the array, aligned and apart; releasing a region undoes its allocation; and when all
  regions are back the heap is one free block again.
\<close>

unbundle bit_operations_syntax

section \<open>The first call\<close>

definition heap_first :: "u32 \<Rightarrow> nat" where
  "heap_first u = (unat u + 7) div 8 * 8"

definition heap_last :: "u32 \<Rightarrow> nat" where
  "heap_last u = (unat u + 99992) div 8 * 8"

definition fits_memory :: "u32 \<Rightarrow> bool" where
  "fits_memory u \<longleftrightarrow> unat u + 100000 < 4294967296"

lemma prvHeapInit_fields:
  assumes "fits_memory u"
  shows "prvHeapInit u h = h
    \<lparr>xStart := \<lparr>pxNextFreeBlock = Some (heap_first u), xBlockSize = 0\<rparr>,
     pxEnd := Some (heap_last u),
     links := (links h)(heap_last u \<mapsto> \<lparr>pxNextFreeBlock = None, xBlockSize = 0\<rparr>,
       heap_first u \<mapsto> \<lparr>pxNextFreeBlock = Some (heap_last u), xBlockSize = of_nat (heap_last u - heap_first u)\<rparr>),
     xMinimumEverFreeBytesRemaining := of_nat (heap_last u - heap_first u),
     xFreeBytesRemaining := of_nat (heap_last u - heap_first u),
     xBlockAllocatedBit := mark\<rparr>"
proof -
  define a where "a = (if u AND 7 \<noteq> 0 then (u + 7) AND NOT 7 else u)"
  define total where "total = (if u AND 7 \<noteq> 0 then configTOTAL_HEAP_SIZE - (a - u) else configTOTAL_HEAP_SIZE)"
  define e where "e = (a + total - xHeapStructSize) AND NOT 7"
  have u: "unat u + 100000 < 4294967296" using assms by (simp add: fits_memory_def)
  have "unat (u + 7) = unat u + 7" using u by (simp add: unat_word_ariths)
  then have a: "unat a = heap_first u"
    by (auto simp add: a_def unat_and_not_7 [simplified] heap_first_def and_7_eq_0 elim!: dvdE)
  have start: "a + total - xHeapStructSize = u + 99992"
    by (simp add: total_def a_def configTOTAL_HEAP_SIZE_def)
  have off: "unat (u + 99992) = unat u + 99992" using u by (simp add: unat_word_ariths)
  have e: "unat e = heap_last u" unfolding e_def start unat_and_not_7 off heap_last_def by (rule refl)
  have "heap_first u \<le> heap_last u" by (simp add: heap_first_def heap_last_def div_le_mono)
  then have size: "e - a = of_nat (heap_last u - heap_first u)"
    unfolding a [symmetric] e [symmetric] by (simp add: of_nat_diff)
  have "prvHeapInit u h = h
    \<lparr>xStart := \<lparr>pxNextFreeBlock = Some (unat a), xBlockSize = 0\<rparr>,
     pxEnd := Some (unat e),
     links := (links h)(unat e \<mapsto> \<lparr>pxNextFreeBlock = None, xBlockSize = 0\<rparr>,
       unat a \<mapsto> \<lparr>pxNextFreeBlock = Some (unat e), xBlockSize = e - a\<rparr>),
     xMinimumEverFreeBytesRemaining := e - a, xFreeBytesRemaining := e - a,
     xBlockAllocatedBit := push_bit (4 * 8 - 1) 1\<rparr>"
    by (cases "u AND 7 = 0") (simp_all add: prvHeapInit_def Let_def a_def e_def total_def)
  then show ?thesis by (simp add: a e size mark_def)
qed

lemma heap_span:
  "unat u \<le> heap_first u" "heap_last u + 8 \<le> unat u + 100000"
  "heap_first u + 99984 \<le> heap_last u" "heap_last u \<le> heap_first u + 99992"
  "8 dvd heap_first u" "8 dvd heap_last u"
  unfolding heap_first_def heap_last_def by simp_all presburger+

text \<open>After the first call all of the array but the last header is one free block.\<close>

lemma prvHeapInit_ok:
  assumes "fits_memory u"
  shows "heap_ok (heap_first u) (heap_last u) [(heap_first u, heap_last u - heap_first u, True)] (prvHeapInit u h)"
proof -
  have "8 dvd heap_last u - heap_first u" using heap_span(5,6) [of u] by (simp add: dvd_diff_nat)
  moreover have "heap_area (heap_first u) (heap_last u)"
    using heap_span [of u] assms by (simp add: heap_area_def fits_memory_def)
  ultimately show ?thesis using heap_span(3) [of u]
    by (simp add: heap_ok_def prvHeapInit_fields [OF assms] free_list_def used_marked_def end_marked_def counted_def)
qed

lemma malloc_first:
  assumes "fits_memory u" "pxEnd h = None"
  shows "malloc_critical u w h = malloc_critical u w (prvHeapInit u h)"
  using assms by (simp add: malloc_critical_def prvHeapInit_fields)

section \<open>Sequences of calls\<close>

text \<open>
  The states after calls of the two functions, with the regions in the hands of the callers: the
  bytes asked for, by pointer. Callers give back only what they hold.
\<close>

inductive heap_calls :: "u32 \<Rightarrow> heap4 \<Rightarrow> (nat \<rightharpoonup> nat) \<Rightarrow> bool" for u where
  none_yet: "heap_calls u no_heap Map.empty"
| malloc_fails: "heap_calls u h U \<Longrightarrow> malloc_critical u w h = ret (None, h') \<Longrightarrow> heap_calls u h' U"
| malloc_gives: "heap_calls u h U \<Longrightarrow> malloc_critical u w h = ret (Some p, h') \<Longrightarrow>
    heap_calls u h' (U(p \<mapsto> unat w))"
| gives_back: "heap_calls u h U \<Longrightarrow> U p = Some n \<Longrightarrow> free_prepare (p - 8) h = Inr h1 \<Longrightarrow>
    free_critical (p - 8) h1 = ret h' \<Longrightarrow> heap_calls u h' (U(p := None))"

text \<open>The regions are the blocks in use without their headers, each at least as large as asked for.\<close>

definition pointers :: "tile list \<Rightarrow> nat set" where
  "pointers L = (\<lambda>(a, s). a + 8) ` set (used_blocks L)"

definition hands_out :: "(nat \<rightharpoonup> nat) \<Rightarrow> tile list \<Rightarrow> bool" where
  "hands_out U L \<longleftrightarrow> dom U = pointers L \<and>
    (\<forall>a s n. (a, s) \<in> set (used_blocks L) \<longrightarrow> U (a + 8) = Some n \<longrightarrow> n + 8 \<le> s)"

definition heap_inv :: "u32 \<Rightarrow> heap4 \<Rightarrow> (nat \<rightharpoonup> nat) \<Rightarrow> bool" where
  "heap_inv u h U \<longleftrightarrow> h = no_heap \<and> U = Map.empty \<or>
    (\<exists>L. heap_ok (heap_first u) (heap_last u) L h \<and> hands_out U L)"

text \<open>The state in which a call of \<open>pvPortMalloc\<close> does its work.\<close>

definition ready :: "u32 \<Rightarrow> heap4 \<Rightarrow> heap4" where
  "ready u h = (if pxEnd h = None then prvHeapInit u h else h)"

lemma malloc_ready: "fits_memory u \<Longrightarrow> malloc_critical u w h = malloc_critical u w (ready u h)"
  by (simp add: ready_def malloc_first)

lemma ready_ok:
  assumes "heap_inv u h U" "fits_memory u"
  obtains L where "heap_ok (heap_first u) (heap_last u) L (ready u h)" "hands_out U L"
proof (cases "h = no_heap \<and> U = Map.empty")
  case True
  then show ?thesis
    using that [of "[(heap_first u, heap_last u - heap_first u, True)]"] prvHeapInit_ok [OF assms(2)]
    by (simp add: ready_def no_heap_def hands_out_def pointers_def)
next
  case False
  then obtain L where L: "heap_ok (heap_first u) (heap_last u) L h" "hands_out U L"
    using assms(1) by (auto simp: heap_inv_def)
  then have "ready u h = h" using heap_okD(6) [OF L(1)] by (simp add: ready_def end_marked_def)
  then show ?thesis using that L by simp
qed

lemma carve_parts:
  assumes "carve r L = Some (a, M)"
  obtains K s N where "L = K @ (a, s, True) # N" "r \<le> s" "M = take_row K a r s N"
  using carve_Some [OF assms] unfolding take_row_def by metis

lemma taken_bounds: "r \<le> s \<Longrightarrow> r \<le> taken r s \<and> taken r s \<le> s"
  by (simp add: taken_def)

lemma hands_out_take:
  assumes "hands_out U L" "tiled b L e" "carve (request w) L = Some (a, M)"
  shows "hands_out (U(a + 8 \<mapsto> w)) M" "U (a + 8) = None"
proof -
  obtain K s N where L: "L = K @ (a, s, True) # N" "request w \<le> s" "M = take_row K a (request w) s N"
    using carve_parts [OF assms(3)] by blast
  have new: "(a, t) \<notin> set (used_blocks L)" for t
    using same_tile [OF assms(2), of a "(t, False)" "(s, True)"] by (auto simp: set_blocks L)
  then have "a + 8 \<notin> pointers L" by (auto simp: pointers_def)
  then show "U (a + 8) = None" using assms(1) by (auto simp: hands_out_def)
  have used: "set (used_blocks M) = insert (a, taken (request w) s) (set (used_blocks L))"
    by (auto simp: L take_row_blocks)
  have "w + 8 \<le> taken (request w) s"
    using request_bounds(1) [of w] taken_bounds [OF L(2)] by linarith
  moreover have "dom (U(a + 8 \<mapsto> w)) = pointers M"
    using assms(1) used by (auto simp: hands_out_def pointers_def)
  ultimately show "hands_out (U(a + 8 \<mapsto> w)) M"
    using assms(1) new by (auto simp: hands_out_def used split: if_splits)
qed

lemma row_of_region:
  assumes "hands_out U L" "U p = Some n"
  obtains K s M where "L = K @ (p - 8, s, False) # M" "n + 8 \<le> s" "8 \<le> p"
proof -
  have "p \<in> pointers L" using assms by (auto simp: hands_out_def)
  then obtain s where s: "(p - 8, s) \<in> set (used_blocks L)" "8 \<le> p" by (auto simp: pointers_def)
  then have "n + 8 \<le> s" using assms by (fastforce simp: hands_out_def)
  then show ?thesis using that s split_list [of "(p - 8, s, False)" L] by (auto simp: set_blocks)
qed

lemma hands_out_back:
  assumes "hands_out U L" "tiled b L e" "L = K @ (a, s, False) # M"
  shows "hands_out (U(a + 8 := None)) (row_left K a s M)"
proof -
  have "a \<notin> fst ` set (K @ M)" using tiled_distinct [OF assms(2)] by (auto simp: assms(3))
  then have "(a, s) \<notin> set (used_blocks (K @ M))" for s by (force simp: set_blocks)
  then have a: "(a, s) \<notin> set (used_blocks K) \<union> set (used_blocks M)" for s by simp
  have used: "set (used_blocks (row_left K a s M)) = set (used_blocks K) \<union> set (used_blocks M)"
    by (simp add: used_row_left)
  have "dom (U(a + 8 := None)) = pointers (row_left K a s M)"
    using assms(1) a by (auto simp: hands_out_def pointers_def used assms(3))
  then show ?thesis using assms(1) a by (auto simp: hands_out_def used assms(3) split: if_splits)
qed

text \<open>Giving back any region held runs, and forgets the region.\<close>

lemma free_runs:
  assumes ok: "heap_ok b e L h" and U: "hands_out U L" "U p = Some n"
  shows "\<exists>h1 h' L'. free_prepare (p - 8) h = Inr h1 \<and> free_critical (p - 8) h1 = ret h' \<and>
    heap_ok b e L' h' \<and> hands_out (U(p := None)) L'"
proof -
  obtain K s M where L: "L = K @ (p - 8, s, False) # M" "8 \<le> p" using row_of_region [OF U] by metis
  obtain h1 where h1: "free_prepare (p - 8) h = Inr h1"
    using free_prepare_ok [OF ok, of "p - 8" s] by (simp add: L(1))
  obtain h' where "free_critical (p - 8) h1 = ret h'" "heap_ok b e (row_left K (p - 8) s M) h'"
    using free_gives_back [OF ok L(1) h1] by (auto simp: runs_def)
  moreover have "hands_out (U(p := None)) (row_left K (p - 8) s M)"
    using hands_out_back [OF U(1) heap_okD(2) [OF ok] L(1)] L(2) by simp
  ultimately show ?thesis using h1 by blast
qed

lemma heap_calls_inv:
  assumes "heap_calls u h U" "fits_memory u"
  shows "heap_inv u h U"
  using assms(1)
proof induction
  case none_yet
  then show ?case by (simp add: heap_inv_def)
next
  case (malloc_fails h U w h')
  obtain L where L: "heap_ok (heap_first u) (heap_last u) L (ready u h)" "hands_out U L"
    using ready_ok [OF malloc_fails.IH assms(2)] .
  have "h' = ready u h"
    using malloc_carves [OF L(1), of u w] malloc_fails.hyps
    by (auto simp: malloc_ready [OF assms(2), of w h] runs_def carves_def split: if_splits option.splits)
  then show ?case using L by (auto simp: heap_inv_def)
next
  case (malloc_gives h U w p h')
  obtain L where L: "heap_ok (heap_first u) (heap_last u) L (ready u h)" "hands_out U L"
    using ready_ok [OF malloc_gives.IH assms(2)] .
  obtain a M where M: "carve (request (unat w)) L = Some (a, M)" "p = a + 8"
      "heap_ok (heap_first u) (heap_last u) M h'"
    using malloc_carves [OF L(1), of u w] malloc_gives.hyps
    by (auto simp: malloc_ready [OF assms(2), of w h] runs_def carves_def split: if_splits option.splits)
  have "hands_out (U(p \<mapsto> unat w)) M"
    using hands_out_take(1) [OF L(2) heap_okD(2) [OF L(1)] M(1)] M(2) by simp
  then show ?case unfolding heap_inv_def using M(3) by blast
next
  case (gives_back h U p n h1 h')
  then obtain L where L: "heap_ok (heap_first u) (heap_last u) L h" "hands_out U L"
    by (auto simp: heap_inv_def)
  obtain L' where "heap_ok (heap_first u) (heap_last u) L' h'" "hands_out (U(p := None)) L'"
    using free_runs [OF L gives_back.hyps(2)] gives_back.hyps by auto
  then show ?case unfolding heap_inv_def by blast
qed

lemma region_place:
  assumes "heap_ok b e L h" "hands_out U L" "U p = Some n"
  shows "8 dvd p \<and> b + 8 \<le> p \<and> p + n \<le> e"
proof -
  obtain K s M where L: "L = K @ (p - 8, s, False) # M" "n + 8 \<le> s" "8 \<le> p"
    using row_of_region [OF assms(2,3)] .
  have "b \<le> p - 8 \<and> p - 8 + s \<le> e" using tiled_bounds [OF heap_okD(2) [OF assms(1)], of "p - 8" s False] L by simp
  moreover have "8 dvd p - 8"
    using tiled_aligned [OF heap_okD(2) [OF assms(1), unfolded L(1)]] heap_okD(1) [OF assms(1)]
    by (simp add: heap_area_def)
  ultimately show ?thesis using L(2,3) by (auto elim!: dvdE) presburger
qed

lemma tiles_apart:
  assumes "tiled b L e" "(a, s, f) \<in> set L" "(c, t, g) \<in> set L" "a < c"
  shows "a + s \<le> c"
proof -
  obtain K M where L: "L = K @ (a, s, f) # M" using split_list [OF assms(2)] by blast
  have K: "tiled b K a" and M: "tiled (a + s) M e" using assms(1) by (auto simp: L tiled_append)
  have "(c, t, g) \<in> set M" using assms(3,4) tiled_bounds [OF K, of c t g] by (auto simp: L)
  then show ?thesis using tiled_bounds [OF M] by blast
qed

lemma regions_apart:
  assumes "heap_ok b e L h" "hands_out U L" "U p = Some n" "U q = Some m" "p < q"
  shows "p + n \<le> q"
proof -
  obtain K s M where p: "L = K @ (p - 8, s, False) # M" "n + 8 \<le> s" "8 \<le> p"
    using row_of_region [OF assms(2,3)] .
  obtain K' t M' where q: "L = K' @ (q - 8, t, False) # M'" "8 \<le> q"
    using row_of_region [OF assms(2,4)] by metis
  have "(p - 8, s, False) \<in> set L" by (simp add: p(1))
  moreover have "(q - 8, t, False) \<in> set L" by (subst q(1)) simp
  moreover have "p - 8 < q - 8" using p q assms(5) by linarith
  ultimately have "p - 8 + s \<le> q - 8" by (rule tiles_apart [OF heap_okD(2) [OF assms(1)]])
  then show ?thesis using p q by linarith
qed

text \<open>The regions of a state that calls lead to.\<close>

lemma heap_regions_inside:
  assumes "heap_calls u h U" "fits_memory u" "U p = Some n"
  shows "8 dvd p \<and> unat u + 8 \<le> p \<and> p + n \<le> unat u + 99992"
    "U q = Some m \<Longrightarrow> p < q \<Longrightarrow> p + n \<le> q"
proof -
  obtain L where L: "heap_ok (heap_first u) (heap_last u) L (ready u h)" "hands_out U L"
    using ready_ok [OF heap_calls_inv [OF assms(1,2)] assms(2)] .
  show "8 dvd p \<and> unat u + 8 \<le> p \<and> p + n \<le> unat u + 99992"
    using region_place [OF L assms(3)] heap_span(1,2) [of u] by linarith
  show "U q = Some m \<Longrightarrow> p < q \<Longrightarrow> p + n \<le> q" using regions_apart [OF L assms(3)] .
qed

lemma heap_calls_go_on:
  assumes "heap_calls u h U" "fits_memory u"
  shows "\<exists>p h'. malloc_critical u w h = ret (p, h')"
    and "U p = Some n \<Longrightarrow> \<exists>h1 h'. free_prepare (p - 8) h = Inr h1 \<and> free_critical (p - 8) h1 = ret h'"
proof -
  have inv: "heap_inv u h U" by (rule heap_calls_inv [OF assms])
  obtain L where L: "heap_ok (heap_first u) (heap_last u) L (ready u h)" "hands_out U L"
    using ready_ok [OF inv assms(2)] .
  show "\<exists>p h'. malloc_critical u w h = ret (p, h')"
    using malloc_carves [OF L(1), of u w] by (auto simp: malloc_ready [OF assms(2), of w h] runs_def)
  assume p: "U p = Some n"
  then have "U \<noteq> Map.empty" by auto
  then have "ready u h = h" using inv by (auto simp: heap_inv_def ready_def heap_ok_def end_marked_def)
  then show "\<exists>h1 h'. free_prepare (p - 8) h = Inr h1 \<and> free_critical (p - 8) h1 = ret h'"
    using free_runs [OF L p] by auto
qed

lemma malloc_new:
  assumes "heap_calls u h U" "fits_memory u" "malloc_critical u w h = ret (Some p, h')"
  shows "U p = None" "p mod 8 = 0"
proof -
  obtain L where L: "heap_ok (heap_first u) (heap_last u) L (ready u h)" "hands_out U L"
    using ready_ok [OF heap_calls_inv [OF assms(1,2)] assms(2)] .
  obtain a M where M: "carve (request (unat w)) L = Some (a, M)" "p = a + 8"
    using malloc_carves [OF L(1), of u w] assms(3)
    by (auto simp: malloc_ready [OF assms(2), of w h] runs_def carves_def split: if_splits option.splits)
  show "U p = None" using hands_out_take(2) [OF L(2) heap_okD(2) [OF L(1)] M(1)] M(2) by simp
  have "heap_calls u h' (U(p \<mapsto> unat w))" by (rule heap_calls.malloc_gives [OF assms(1,3)])
  then show "p mod 8 = 0" using heap_regions_inside(1) [OF _ assms(2)] by fastforce
qed

section \<open>The properties\<close>

text \<open>C8: The regions that \<open>pvPortMalloc\<close> has handed out and not got back are inside the array,
  aligned to eight bytes and apart from each other, whatever the sequence of calls; every further
  allocation returns, and so does giving back any region held.\<close>

theorem heap_regions_apart:
  assumes "heap_calls u h U" "fits_memory u"
  shows "(\<forall>p n. U p = Some n \<longrightarrow> 8 dvd p \<and> unat u + 8 \<le> p \<and> p + n \<le> unat u + 99992) \<and>
    (\<forall>p n q m. U p = Some n \<longrightarrow> U q = Some m \<longrightarrow> p < q \<longrightarrow> p + n \<le> q) \<and>
    (\<forall>w. \<exists>p h'. malloc_critical u w h = ret (p, h')) \<and>
    (\<forall>p n. U p = Some n \<longrightarrow> (\<exists>h1 h'. free_prepare (p - 8) h = Inr h1 \<and> free_critical (p - 8) h1 = ret h'))"
  using heap_regions_inside [OF assms] heap_calls_go_on [OF assms] by blast

lemma malloc_row:
  assumes "heap_ok b e L (ready u h)" "fits_memory u" "carve (request (unat w)) L = Some (a, M)"
    "0 < unat w" "unat w < 2147483648"
  shows "\<exists>h'. malloc_critical u w h = ret (Some (a + 8), h') \<and> heap_ok b e M h'"
  using malloc_carves [OF assms(1), of u w] assms(3-5)
  by (auto simp: malloc_ready [OF assms(2), of w h] runs_def carves_def)

lemma ready_same: "heap_ok b e L h \<Longrightarrow> ready u h = h"
  by (simp add: ready_def heap_ok_def end_marked_def)

text \<open>A sample run: two regions are handed out and the first one is given back.\<close>

definition sample_row :: "tile list" where
  "sample_row = [(0x100008, 112, True), (0x100078, 3008, False), (0x100C38, 96864, True)]"

lemma sample_calls:
  "\<exists>h. heap_calls 0x100004 h [1048704 \<mapsto> 3000] \<and>
    heap_ok 0x100008 0x118698 sample_row h"
proof -
  let ?u = "0x100004 :: u32" and ?b = "0x100008 :: nat" and ?e = "0x118698 :: nat"
  have f: "fits_memory ?u" and b: "heap_first ?u = ?b" "heap_last ?u = ?e"
    by (simp_all add: fits_memory_def heap_first_def heap_last_def)
  have r: "request 100 = 112" "request 3000 = 3008" by (simp_all add: request_def)
  let ?L1 = "[(0x100008, 112, False), (0x100078, 99872, True)]"
  let ?L2 = "[(0x100008, 112, False), (0x100078, 3008, False), (0x100C38, 96864, True)]"
  have init: "heap_ok ?b ?e [(0x100008, 99984, True)] (ready ?u no_heap)"
    using prvHeapInit_ok [OF f, of no_heap] by (simp add: ready_def no_heap_def b)
  have c1: "carve (request (unat (100 :: size_t))) [(0x100008, 99984, True)] = Some (0x100008, ?L1)"
    by (simp add: r)
  obtain h1 where h1: "malloc_critical ?u 100 no_heap = ret (Some (0x100008 + 8), h1)" "heap_ok ?b ?e ?L1 h1"
    using malloc_row [OF init f c1] by auto
  have c2: "carve (request (unat (3000 :: size_t))) ?L1 = Some (0x100078, ?L2)" by (simp add: r)
  obtain h2 where h2: "malloc_critical ?u 3000 h1 = ret (Some (0x100078 + 8), h2)" "heap_ok ?b ?e ?L2 h2"
    using malloc_row [OF _ f c2, of ?b ?e h1] h1(2) by (auto simp: ready_same [OF h1(2)])
  obtain h3 where h3: "free_prepare 0x100008 h2 = Inr h3"
    using free_prepare_ok [OF h2(2), of "0x100008" 112] by simp
  obtain h4 where h4: "free_critical 0x100008 h3 = ret h4"
      "heap_ok ?b ?e (row_left [] 0x100008 112 (tl ?L2)) h4"
    using free_gives_back [OF h2(2), of "[]" "0x100008" 112 "tl ?L2" h3] h3 by (auto simp: runs_def)
  have "heap_calls ?u h1 [1048592 \<mapsto> 100]"
    using heap_calls.malloc_gives [OF heap_calls.none_yet h1(1)] by simp
  then have "heap_calls ?u h2 [1048592 \<mapsto> 100, 1048704 \<mapsto> 3000]"
    using heap_calls.malloc_gives [OF _ h2(1), of "[1048592 \<mapsto> 100]"] by simp
  then have "heap_calls ?u h4 ([1048592 \<mapsto> 100, 1048704 \<mapsto> 3000](1048592 := None))"
    by (rule heap_calls.gives_back [where n = 100 and ?h1.0 = h3]) (use h3 h4 in simp_all)
  moreover have "[1048592 \<mapsto> 100, 1048704 \<mapsto> 3000](1048592 := None) = [1048704 :: nat \<mapsto> 3000 :: nat]"
    by (auto simp: fun_eq_iff)
  ultimately show ?thesis using h4(2) by (intro exI [of _ h4]) (simp add: sample_row_def)
qed

theorem heap_regions_apart_witness:
  "\<exists>h p h'. heap_calls 0x100004 h [1048704 \<mapsto> 3000] \<and> unat (0x100004 :: u32) + 8 \<le> 1048704 \<and>
    malloc_critical 0x100004 70000 h = ret (p, h')"
proof -
  obtain h where h: "heap_calls 0x100004 h [1048704 \<mapsto> 3000]" using sample_calls by blast
  have "fits_memory 0x100004" by (simp add: fits_memory_def)
  then show ?thesis using heap_regions_apart [OF h] h by auto
qed

text \<open>\<open>pvPortMalloc\<close> is first fit: it refuses a request only when every free block is smaller than
  the request with its header, rounded up to eight bytes; otherwise it takes the first block that is
  large enough, splits off what is left when that is more than 16 bytes, and keeps the heap in order.\<close>

theorem malloc_first_fit:
  assumes "heap_ok b e L h" "0 < unat w" "unat w < 2147483648"
  shows "\<exists>p h'. malloc_critical u w h = ret (p, h') \<and>
    (p = None \<longleftrightarrow> (\<forall>(a, s) \<in> set (free_blocks L). s < request (unat w))) \<and> (p = None \<longrightarrow> h' = h) \<and>
    (\<forall>q. p = Some q \<longrightarrow> (\<exists>K a s N. L = K @ (a, s, True) # N \<and> q = a + 8 \<and> request (unat w) \<le> s \<and>
      (\<forall>(c, t) \<in> set (free_blocks K). t < request (unat w)) \<and>
      heap_ok b e (take_row K a (request (unat w)) s N) h'))"
proof (cases "carve (request (unat w)) L")
  case None
  then have "malloc_critical u w h = ret (None, h)"
    using malloc_carves [OF assms(1), of u w] assms(2,3) by (auto simp: runs_def carves_def)
  then show ?thesis using None by (simp add: carve_None)
next
  case (Some c)
  obtain a M where c: "c = (a, M)" by fastforce
  obtain h' where h': "malloc_critical u w h = ret (Some (a + 8), h')" "heap_ok b e M h'"
    using malloc_carves [OF assms(1), of u w] assms(2,3) Some by (auto simp: runs_def carves_def c)
  obtain K s N where L: "L = K @ (a, s, True) # N" "request (unat w) \<le> s"
    "\<forall>(c, t) \<in> set (free_blocks K). t < request (unat w)" "M = take_row K a (request (unat w)) s N"
    using carve_Some [OF Some [unfolded c]] unfolding take_row_def by metis
  have "\<not> (\<forall>(a, s) \<in> set (free_blocks L). s < request (unat w))"
    using Some carve_None [of "request (unat w)" L] by simp
  then show ?thesis using h' L by blast
qed

text \<open>The sample heap has a free block of 112 bytes in front: 104 bytes fit in, 105 go behind.\<close>

theorem malloc_first_fit_witness:
  "\<exists>h p h'. heap_calls 0x100004 h [1048704 \<mapsto> 3000] \<and> malloc_critical 0x100004 104 h = ret (Some p, h') \<and>
    (\<exists>K s N. sample_row = K @ (p - 8, s, True) # N)"
proof -
  obtain h where h: "heap_calls 0x100004 h [1048704 \<mapsto> 3000]"
    "heap_ok 0x100008 0x118698 sample_row h"
    using sample_calls by blast
  have "request (unat (104 :: size_t)) = 112" by (simp add: request_def)
  then obtain p h' K s N where "malloc_critical 0x100004 104 h = ret (Some p, h')"
    "sample_row = K @ (p - 8, s, True) # N"
    using malloc_first_fit [OF h(2), of 104 "0x100004"] by (auto simp add: sample_row_def)
  then show ?thesis using h(1) by blast
qed

lemma give_back_take:
  assumes "coalesced (K @ (a, s, True) # N)" "r \<le> s"
  shows "\<exists>t M. take_row K a r s N = K @ (a, t, False) # M \<and> row_left K a t M = K @ (a, s, True) # N"
proof -
  have K: "K = [] \<or> \<not> snd (snd (last K))" and N: "\<not> starts_free N"
    using assms(1) by (auto simp: coalesced_append)
  have plain: "row_right a s N = (a, s, True) # N"
    using N by (cases "(a, s, N)" rule: row_right.cases) auto
  show ?thesis
  proof (cases "16 < s - r")
    case True
    then have "row_left K a r ((a + r, s - r, True) # N) = K @ (a, s, True) # N"
      by (simp add: row_left_used [OF K])
    then show ?thesis using True by (simp add: take_row_def)
  next
    case False
    then show ?thesis using plain by (simp add: take_row_def row_left_used [OF K])
  qed
qed

text \<open>C26: Giving a region back undoes its allocation: the heap has the same row of blocks and as many
  free bytes as before the two calls, for every request that was granted and every state.\<close>

theorem free_undoes_malloc:
  assumes "heap_ok b e L h" "malloc_critical u w h = ret (Some p, h')"
  shows "\<exists>h1 h2. free_prepare (p - 8) h' = Inr h1 \<and> free_critical (p - 8) h1 = ret h2 \<and>
    heap_ok b e L h2 \<and> xPortGetFreeHeapSize h2 = xPortGetFreeHeapSize h"
proof -
  obtain a M where M: "carve (request (unat w)) L = Some (a, M)" "p = a + 8" "heap_ok b e M h'"
    using malloc_carves [OF assms(1), of u w] assms(2)
    by (auto simp: runs_def carves_def split: if_splits option.splits)
  obtain K s N where L: "L = K @ (a, s, True) # N" "request (unat w) \<le> s"
    "M = take_row K a (request (unat w)) s N" using carve_parts [OF M(1)] .
  obtain t N' where t: "M = K @ (a, t, False) # N'" "row_left K a t N' = L"
    using give_back_take [of K a s N "request (unat w)"] heap_okD(3) [OF assms(1)] L by auto
  obtain h1 where h1: "free_prepare a h' = Inr h1" using free_prepare_ok [OF M(3), of a t] by (simp add: t(1))
  obtain h2 where h2: "free_critical a h1 = ret h2" "heap_ok b e L h2"
    using free_gives_back [OF M(3) t(1) h1] by (auto simp: runs_def t(2))
  have "xFreeBytesRemaining h2 = xFreeBytesRemaining h"
    using heap_okD(7) [OF h2(2)] heap_okD(7) [OF assms(1)] by (simp add: counted_def)
  then show ?thesis using h1 h2 M(2) by (simp add: xPortGetFreeHeapSize_def)
qed

theorem free_undoes_malloc_witness:
  "\<exists>h p h' h1 h2. malloc_critical 0x100004 104 h = ret (Some p, h') \<and> free_prepare (p - 8) h' = Inr h1 \<and>
    free_critical (p - 8) h1 = ret h2 \<and> xPortGetFreeHeapSize h2 = xPortGetFreeHeapSize h"
proof -
  obtain h where h: "heap_ok 0x100008 0x118698
      sample_row h"
    using sample_calls by blast
  have "request (unat (104 :: size_t)) = 112" by (simp add: request_def)
  then obtain p h' where "malloc_critical 0x100004 104 h = ret (Some p, h')"
    using malloc_carves [OF h, of "0x100004" 104] by (auto simp: runs_def carves_def sample_row_def)
  then show ?thesis using free_undoes_malloc [OF h] by blast
qed

lemma all_free:
  assumes "tiled b L e" "coalesced L" "used_blocks L = []" "b < e"
  shows "L = [(b, e - b, True)]"
proof (cases L rule: coalesced.cases)
  case (2 a s f M)
  then have f and M: "used_blocks M = []" using assms(3) by (simp_all split: if_splits)
  then have "\<not> starts_free M" using assms(2) 2 by simp
  then have "M = []" using M by (cases M rule: starts_free.cases) auto
  then show ?thesis using 2 \<open>f\<close> assms(1) by auto
qed (use assms in simp)

text \<open>When every region has been given back, whatever came before, the heap is one free block
  again: any request of up to 99,976 bytes is granted.\<close>

theorem all_returned_one_block:
  assumes "heap_calls u h Map.empty" "fits_memory u" "0 < unat w" "unat w \<le> 99976"
  shows "\<exists>h'. malloc_critical u w h = ret (Some (heap_first u + 8), h')"
proof -
  obtain L where L: "heap_ok (heap_first u) (heap_last u) L (ready u h)" "hands_out Map.empty L"
    using ready_ok [OF heap_calls_inv [OF assms(1,2)] assms(2)] .
  have "used_blocks L = []" using L(2) by (auto simp: hands_out_def pointers_def)
  then have row: "L = [(heap_first u, heap_last u - heap_first u, True)]"
    using all_free heap_okD(2,3) [OF L(1)] heap_span(3) [of u] by simp
  have "request (unat w) \<le> 99984" using assms(4) by (simp add: request_def)
  then have "request (unat w) \<le> heap_last u - heap_first u" using heap_span(3) [of u] by linarith
  then obtain M where "carve (request (unat w)) L = Some (heap_first u, M)" by (simp add: row)
  then show ?thesis using malloc_row [OF L(1) assms(2), of w] assms(3,4) by auto
qed

theorem all_returned_one_block_witness:
  "\<exists>h'. malloc_critical 0x100004 99976 no_heap = ret (Some 0x100010, h')"
  using all_returned_one_block [OF heap_calls.none_yet, of "0x100004" 99976]
  by (simp add: fits_memory_def heap_first_def)

end
