(* ===== verification/FreeRTOS_List.thy ===== *)
theory FreeRTOS_List
  imports Prelude
begin

text \<open>
  FreeRTOS lists (\<open>list.c\<close>, \<open>list.h\<close>) as the kernel uses them. A \<open>List_t\<close> is a ring of items
  through its end marker \<open>xListEnd\<close>; here it is the list of its items from the one after the marker
  to the one before it, and the position of \<open>pxIndex\<close>: 0 for the marker, \<open>i + 1\<close> for item \<open>i\<close>.
\<close>

definition portMAX_DELAY :: u32 where
  "portMAX_DELAY = 0xFFFFFFFF"

record 'a xlist =
  entries :: "'a list"
  pxIndex :: nat

definition vListInitialise :: "'a xlist" where
  "vListInitialise = \<lparr>entries = [], pxIndex = 0\<rparr>"

text \<open>\<open>vListInsertEnd\<close>: before the item at \<open>pxIndex\<close>, that is, last in the walk that starts there.\<close>

definition vListInsertEnd :: "'a \<Rightarrow> 'a xlist \<Rightarrow> 'a xlist" where
  "vListInsertEnd x l =
    (if pxIndex l = 0 then l\<lparr>entries := entries l @ [x]\<rparr>
     else l\<lparr>entries := take (pxIndex l - 1) (entries l) @ [x] @ drop (pxIndex l - 1) (entries l),
            pxIndex := pxIndex l + 1\<rparr>)"

text \<open>\<open>vListInsert\<close>: after all items whose value is not greater.\<close>

definition insert_position :: "('a \<Rightarrow> u32) \<Rightarrow> 'a \<Rightarrow> 'a list \<Rightarrow> nat" where
  "insert_position item_value x xs =
    (if item_value x = portMAX_DELAY then length xs
     else length (takeWhile (\<lambda>y. item_value y \<le> item_value x) xs))"

definition vListInsert :: "('a \<Rightarrow> u32) \<Rightarrow> 'a \<Rightarrow> 'a xlist \<Rightarrow> 'a xlist" where
  "vListInsert item_value x l =
    (let j = insert_position item_value x (entries l) in
     \<lparr>entries = take j (entries l) @ [x] @ drop j (entries l),
      pxIndex = if j < pxIndex l then pxIndex l + 1 else pxIndex l\<rparr>)"

text \<open>\<open>uxListRemove\<close> of an item of the list; \<open>pxIndex\<close> moves to the item before when it pointed to it.\<close>

definition item_position :: "'a \<Rightarrow> 'a list \<Rightarrow> nat" where
  "item_position x xs = length (takeWhile (\<lambda>y. y \<noteq> x) xs)"

definition uxListRemove :: "'a \<Rightarrow> 'a xlist \<Rightarrow> 'a xlist" where
  "uxListRemove x l =
    (let j = item_position x (entries l) in
     if j < length (entries l) then
       \<lparr>entries = take j (entries l) @ drop (Suc j) (entries l),
        pxIndex = if j < pxIndex l then pxIndex l - 1 else pxIndex l\<rparr>
     else l)"

text \<open>\<open>listGET_OWNER_OF_NEXT_ENTRY\<close> moves \<open>pxIndex\<close> on, over the end marker.\<close>

definition next_entry :: "'a xlist \<Rightarrow> ('a \<times> 'a xlist) result" where
  "next_entry l =
    (let i = pxIndex l + 1; i = (if length (entries l) < i then 1 else i) in
     bindr (rd (entries l) (i - 1)) (\<lambda>x. Inr (x, l\<lparr>pxIndex := i\<rparr>)))"

text \<open>
  In the lists that are only walked from the head \<open>pxIndex\<close> stays at the end marker, and a plain list
  is enough: \<open>vListInsertEnd\<close> appends, and \<open>vListInsert\<close> is an insertion in order.
\<close>

definition insert_by :: "('a \<Rightarrow> u32) \<Rightarrow> 'a \<Rightarrow> 'a list \<Rightarrow> 'a list" where
  "insert_by item_value x xs =
    (if item_value x = portMAX_DELAY then xs @ [x]
     else takeWhile (\<lambda>y. item_value y \<le> item_value x) xs @ x #
          dropWhile (\<lambda>y. item_value y \<le> item_value x) xs)"

lemma insert_by_plain:
  "vListInsert item_value x \<lparr>entries = xs, pxIndex = 0\<rparr> = \<lparr>entries = insert_by item_value x xs, pxIndex = 0\<rparr>"
proof -
  let ?P = "\<lambda>y. item_value y \<le> item_value x"
  have "take (length (takeWhile ?P xs)) xs = takeWhile ?P xs" by (metis takeWhile_eq_take)
  moreover have "drop (length (takeWhile ?P xs)) xs = dropWhile ?P xs" by (metis dropWhile_eq_drop)
  ultimately show ?thesis by (simp add: vListInsert_def insert_position_def insert_by_def Let_def)
qed

lemma set_insert_by [simp]: "set (insert_by f x xs) = insert x (set xs)"
proof -
  have "set xs = set (takeWhile (\<lambda>y. f y \<le> f x) xs @ dropWhile (\<lambda>y. f y \<le> f x) xs)" by simp
  then show ?thesis by (simp only: insert_by_def set_append list.set split: if_splits) auto
qed

lemma distinct_middle: "distinct (a @ x # b) \<longleftrightarrow> distinct (a @ b) \<and> x \<notin> set (a @ b)"
  by auto

lemma distinct_insert_by: "distinct (insert_by f x xs) \<longleftrightarrow> distinct xs \<and> x \<notin> set xs"
proof -
  let ?t = "takeWhile (\<lambda>y. f y \<le> f x) xs" and ?d = "dropWhile (\<lambda>y. f y \<le> f x) xs"
  have "distinct (?t @ x # ?d) \<longleftrightarrow> distinct (?t @ ?d) \<and> x \<notin> set (?t @ ?d)" by (rule distinct_middle)
  also have "?t @ ?d = xs" by (rule takeWhile_dropWhile_id)
  finally show ?thesis by (auto simp: insert_by_def)
qed

lemma sorted_insert_by:
  assumes "sorted_wrt (\<lambda>a b. f a \<le> f b) xs"
  shows "sorted_wrt (\<lambda>a b. f a \<le> f b) (insert_by f x xs)"
proof (cases "f x = portMAX_DELAY")
  case True
  have "f y \<le> portMAX_DELAY" for y
    using unat_u32_less [of "f y"] by (simp add: portMAX_DELAY_def word_le_nat_alt)
  then show ?thesis using True assms by (auto simp: insert_by_def sorted_wrt_append)
next
  case False
  let ?P = "\<lambda>y. f y \<le> f x"
  have s: "sorted_wrt (\<lambda>a b. f a \<le> f b) (takeWhile ?P xs @ dropWhile ?P xs)" using assms by simp
  have d: "\<forall>y \<in> set (dropWhile ?P xs). f x \<le> f y"
  proof (cases "dropWhile ?P xs")
    case (Cons y ys)
    then have "\<not> f y \<le> f x" using hd_dropWhile [of ?P xs] by simp
    then have y: "f x \<le> f y" by (rule order.strict_implies_order [OF not_le_imp_less])
    have ys: "f y \<le> f z" if "z \<in> set ys" for z
      using s that unfolding Cons sorted_wrt_append sorted_wrt.simps by simp
    show ?thesis unfolding Cons
    proof
      fix z assume "z \<in> set (y # ys)"
      then consider "z = y" | "z \<in> set ys" by auto
      then show "f x \<le> f z" by cases (use y order_trans [OF y ys] in simp_all)
    qed
  next
    case Nil
    show ?thesis unfolding Nil by simp
  qed
  have t: "\<forall>y \<in> set (takeWhile ?P xs). f y \<le> f x" by (meson set_takeWhileD)
  have "\<forall>y \<in> set (takeWhile ?P xs). \<forall>z \<in> set (x # dropWhile ?P xs). f y \<le> f z"
    using conjunct2 [OF conjunct2 [OF s [unfolded sorted_wrt_append]]] t by (metis set_ConsD)
  then have "sorted_wrt (\<lambda>a b. f a \<le> f b) (takeWhile ?P xs @ x # dropWhile ?P xs)"
    unfolding sorted_wrt_append sorted_wrt.simps
    using conjunct1 [OF s [unfolded sorted_wrt_append]]
      conjunct1 [OF conjunct2 [OF s [unfolded sorted_wrt_append]]] d
    by (intro conjI) assumption+
  then show ?thesis using False by (simp only: insert_by_def if_False)
qed

section \<open>Items of a list\<close>

lemma entries_insert_end: "set (entries (vListInsertEnd x l)) = insert x (set (entries l))"
proof -
  have "set (take n xs) \<union> set (drop n xs) = set xs" for n and xs :: "'a list"
    by (metis append_take_drop_id set_append)
  then show ?thesis by (auto simp: vListInsertEnd_def)
qed

lemma remove_at_position:
  "(if item_position x xs < length xs
    then take (item_position x xs) xs @ drop (Suc (item_position x xs)) xs else xs) = remove1 x xs"
  by (induction xs) (auto simp: item_position_def)

lemma entries_remove [simp]: "entries (uxListRemove x l) = remove1 x (entries l)"
  using remove_at_position [of x "entries l"] by (auto simp: uxListRemove_def Let_def split: if_splits)

text \<open>\<open>pxIndex\<close> always points to an item or the marker.\<close>

definition index_ok :: "'a xlist \<Rightarrow> bool" where
  "index_ok l \<longleftrightarrow> pxIndex l \<le> length (entries l)"

lemma index_insert_end [keeps]: "index_ok l \<Longrightarrow> index_ok (vListInsertEnd x l)"
  by (auto simp: index_ok_def vListInsertEnd_def)

lemma index_insert [keeps]: "index_ok l \<Longrightarrow> index_ok (vListInsert v x l)"
  by (auto simp: index_ok_def vListInsert_def Let_def)

lemma index_remove [keeps]: "index_ok l \<Longrightarrow> index_ok (uxListRemove x l)"
  by (auto simp: index_ok_def uxListRemove_def Let_def)

lemma next_entry_ok:
  assumes "index_ok l" and "entries l \<noteq> []"
  shows "\<exists>x l'. next_entry l = Inr (x, l') \<and> x \<in> set (entries l) \<and> entries l' = entries l \<and> index_ok l'"
proof -
  have "Suc 0 \<le> length (entries l)" and "entries l ! 0 \<in> set (entries l)"
    using assms(2) by (cases "entries l"; simp)+
  then show ?thesis
    using assms(1) unfolding next_entry_def Let_def index_ok_def
    by (cases "length (entries l) < pxIndex l + 1") auto
qed

lemma distinct_insert_end: "distinct (entries (vListInsertEnd x l)) \<longleftrightarrow> distinct (entries l) \<and> x \<notin> set (entries l)"
proof -
  have "distinct (take n xs @ x # drop n xs) \<longleftrightarrow> distinct (take n xs @ drop n xs) \<and> x \<notin> set (take n xs @ drop n xs)"
    for n and xs :: "'a list" by (rule distinct_middle)
  note this [of "pxIndex l - 1" "entries l"]
  moreover have "distinct (entries l @ [x]) \<longleftrightarrow> distinct (entries l) \<and> x \<notin> set (entries l)" by auto
  ultimately show ?thesis by (simp add: vListInsertEnd_def del: distinct_append)
qed

section \<open>Fair turns\<close>

text \<open>
  The walk of a ready list. Whatever task is current, \<open>length\<close> steps of \<open>next_entry\<close> visit every
  task exactly once.
\<close>

fun turns :: "nat \<Rightarrow> 'a xlist \<Rightarrow> ('a list \<times> 'a xlist) result" where
  "turns 0 l = Inr ([], l)"
| "turns (Suc n) l = bindr (next_entry l) (\<lambda>(x, l). bindr (turns n l) (\<lambda>(xs, l). Inr (x # xs, l)))"

lemma next_entry_inside:
  "pxIndex l < length (entries l) \<Longrightarrow> next_entry l = Inr (entries l ! pxIndex l, l\<lparr>pxIndex := pxIndex l + 1\<rparr>)"
  by (simp add: next_entry_def Let_def)

lemma turns_forward:
  "pxIndex l + n \<le> length (entries l) \<Longrightarrow>
    turns n l = Inr (take n (drop (pxIndex l) (entries l)), l\<lparr>pxIndex := pxIndex l + n\<rparr>)"
proof (induction n arbitrary: l)
  case (Suc n)
  then have i: "pxIndex l < length (entries l)" by simp
  have "turns n (l\<lparr>pxIndex := pxIndex l + 1\<rparr>) =
      Inr (take n (drop (Suc (pxIndex l)) (entries l)), l\<lparr>pxIndex := Suc (pxIndex l) + n\<rparr>)"
    using Suc.IH [of "l\<lparr>pxIndex := pxIndex l + 1\<rparr>"] Suc.prems by simp
  then show ?case using next_entry_inside [OF i] Cons_nth_drop_Suc [OF i, symmetric] by simp
qed simp

lemma turns_add:
  "turns (m + n) l = bindr (turns m l) (\<lambda>(xs, l). bindr (turns n l) (\<lambda>(ys, l). Inr (xs @ ys, l)))"
proof (induction m arbitrary: l)
  case 0
  show ?case by (cases "turns n l") auto
next
  case (Suc m)
  show ?case
  proof (cases "next_entry l")
    case (Inr p)
    obtain x l1 where p: "p = (x, l1)" by (cases p)
    show ?thesis
    proof (cases "turns m l1")
      case (Inr q)
      obtain xs l2 where q: "q = (xs, l2)" by (cases q)
      show ?thesis
        using Suc.IH [of l1] Inr \<open>next_entry l = Inr p\<close> p q by (cases "turns n l2") auto
    qed (use Suc.IH [of l1] Inr p in simp)
  qed simp
qed

lemma turns_round:
  assumes "index_ok l"
  shows "\<exists>l'. turns (length (entries l)) l = Inr (drop (pxIndex l) (entries l) @ take (pxIndex l) (entries l), l') \<and>
    entries l' = entries l"
proof -
  let ?n = "length (entries l)" and ?i = "pxIndex l"
  have i: "?i \<le> ?n" using assms by (simp add: index_ok_def)
  have first: "turns (?n - ?i) l = Inr (drop ?i (entries l), l\<lparr>pxIndex := ?n\<rparr>)"
    using turns_forward [of l "?n - ?i"] i by simp
  let ?l = "l\<lparr>pxIndex := ?n\<rparr>" and ?z = "l\<lparr>pxIndex := 0\<rparr>"
  have wrap: "next_entry ?l = next_entry ?z" by (simp add: next_entry_def Let_def)
  have "turns ?i ?l = Inr (take ?i (entries l), if ?i = 0 then ?l else l)"
  proof (cases ?i)
    case (Suc k)
    have "turns ?i ?l = turns ?i ?z" using wrap Suc by simp
    also have "\<dots> = Inr (take ?i (entries l), l)" using turns_forward [of ?z ?i] i by simp
    finally show ?thesis using Suc by simp
  qed simp
  then have "turns (?n - ?i + ?i) l =
      Inr (drop ?i (entries l) @ take ?i (entries l), if ?i = 0 then ?l else l)"
    using first by (simp add: turns_add)
  then show ?thesis using i by (cases "?i = 0") auto
qed

end
