(* ===== verification/FreeRTOS_Kernel.thy ===== *)
theory FreeRTOS_Kernel
  imports FreeRTOS_List
begin

text \<open>
  The scheduler of FreeRTOS (\<open>tasks.c\<close>), as configured: preemption with time slices, eight
  priorities, port-optimised task selection. The state item of a task is in exactly one of the
  ready, delayed and suspended lists; its event item may be in an event list or in the pending
  ready list. Event lists belong to queues, so operations get them as arguments, and a tick
  returns the tasks whose event items leave their lists.
\<close>

section \<open>State\<close>

record tcb =
  tcb_id :: nat
  uxPriority :: nat

text \<open>\<open>yields\<close> counts the calls of \<open>portYIELD_WITHIN_API\<close> and \<open>taskYIELD\<close>.\<close>

record kernel =
  pxCurrentTCB :: tcb
  pxReadyTasksLists :: "nat \<Rightarrow> tcb xlist"
  uxTopReadyPriority :: u32
  pxDelayedTaskList :: "(u32 \<times> tcb) list"
  pxOverflowDelayedTaskList :: "(u32 \<times> tcb) list"
  xSuspendedTaskList :: "tcb list"
  xPendingReadyList :: "tcb list"
  xTickCount :: u32
  xNextTaskUnblockTime :: u32
  xNumOfOverflows :: u32
  uxSchedulerSuspended :: u32
  uxPendedTicks :: u32
  xYieldPending :: bool
  yields :: nat

definition configMAX_PRIORITIES :: nat where
  "configMAX_PRIORITIES = 8"

definition yield_within_api :: "kernel \<Rightarrow> kernel" where
  "yield_within_api k = k\<lparr>yields := yields k + 1\<rparr>"

definition vTaskMissedYield :: "kernel \<Rightarrow> kernel" where
  "vTaskMissedYield k = k\<lparr>xYieldPending := True\<rparr>"

section \<open>Ready tasks\<close>

definition prvAddTaskToReadyList :: "tcb \<Rightarrow> kernel \<Rightarrow> kernel" where
  "prvAddTaskToReadyList t k =
    k\<lparr>uxTopReadyPriority := uxTopReadyPriority k OR push_bit (uxPriority t) 1,
      pxReadyTasksLists := (pxReadyTasksLists k)
        (uxPriority t := vListInsertEnd t (pxReadyTasksLists k (uxPriority t)))\<rparr>"

definition portRESET_READY_PRIORITY :: "nat \<Rightarrow> kernel \<Rightarrow> kernel" where
  "portRESET_READY_PRIORITY p k =
    k\<lparr>uxTopReadyPriority := uxTopReadyPriority k AND NOT (push_bit p 1)\<rparr>"

definition taskRESET_READY_PRIORITY :: "nat \<Rightarrow> kernel \<Rightarrow> kernel" where
  "taskRESET_READY_PRIORITY p k =
    (if entries (pxReadyTasksLists k p) = [] then portRESET_READY_PRIORITY p k else k)"

definition remove_ready :: "tcb \<Rightarrow> kernel \<Rightarrow> kernel" where
  "remove_ready t k =
    k\<lparr>pxReadyTasksLists := (pxReadyTasksLists k)
        (uxPriority t := uxListRemove t (pxReadyTasksLists k (uxPriority t)))\<rparr>"

text \<open>
  \<open>uxListRemove(&xStateListItem)\<close>: the item leaves the list that holds it, whichever it is.
\<close>

definition remove_state_item :: "tcb \<Rightarrow> kernel \<Rightarrow> kernel" where
  "remove_state_item t k = (remove_ready t k)
    \<lparr>pxDelayedTaskList := filter (\<lambda>(v, u). u \<noteq> t) (pxDelayedTaskList k),
     pxOverflowDelayedTaskList := filter (\<lambda>(v, u). u \<noteq> t) (pxOverflowDelayedTaskList k),
     xSuspendedTaskList := remove1 t (xSuspendedTaskList k)\<rparr>"

text \<open>\<open>31 - __builtin_clz(top)\<close>, which is undefined for 0.\<close>

definition count_leading_zeros :: "u32 \<Rightarrow> nat" where
  "count_leading_zeros w = length (takeWhile Not (map (bit w) (rev [0..<32])))"

definition portGET_HIGHEST_PRIORITY :: "u32 \<Rightarrow> nat result" where
  "portGET_HIGHEST_PRIORITY bits =
    (if bits = 0 then Inl Out_of_bounds else Inr (31 - count_leading_zeros bits))"

definition taskSELECT_HIGHEST_PRIORITY_TASK :: "kernel \<Rightarrow> kernel result" where
  "taskSELECT_HIGHEST_PRIORITY_TASK k =
    bindr (portGET_HIGHEST_PRIORITY (uxTopReadyPriority k)) (\<lambda>p.
    if entries (pxReadyTasksLists k p) = [] then Inl Assert_failed
    else bindr (next_entry (pxReadyTasksLists k p)) (\<lambda>(t, l).
      Inr (k\<lparr>pxCurrentTCB := t, pxReadyTasksLists := (pxReadyTasksLists k)(p := l)\<rparr>)))"

definition vTaskSwitchContext :: "kernel \<Rightarrow> kernel result" where
  "vTaskSwitchContext k =
    (if uxSchedulerSuspended k \<noteq> 0 then Inr (k\<lparr>xYieldPending := True\<rparr>)
     else taskSELECT_HIGHEST_PRIORITY_TASK (k\<lparr>xYieldPending := False\<rparr>))"

section \<open>Delayed tasks\<close>

definition prvResetNextTaskUnblockTime :: "kernel \<Rightarrow> kernel" where
  "prvResetNextTaskUnblockTime k =
    k\<lparr>xNextTaskUnblockTime := (case pxDelayedTaskList k of [] \<Rightarrow> portMAX_DELAY | (v, t) # _ \<Rightarrow> v)\<rparr>"

definition taskSWITCH_DELAYED_LISTS :: "kernel \<Rightarrow> kernel result" where
  "taskSWITCH_DELAYED_LISTS k =
    (if pxDelayedTaskList k \<noteq> [] then Inl Assert_failed
     else Inr (prvResetNextTaskUnblockTime
       (k\<lparr>pxDelayedTaskList := pxOverflowDelayedTaskList k,
          pxOverflowDelayedTaskList := pxDelayedTaskList k,
          xNumOfOverflows := xNumOfOverflows k + 1\<rparr>)))"

text \<open>The current task leaves its ready list; the port macro clears the priority when it was the last.\<close>

definition leave_ready :: "tcb \<Rightarrow> kernel \<Rightarrow> kernel" where
  "leave_ready t k =
    (let k = remove_ready t k in
     if entries (pxReadyTasksLists k (uxPriority t)) = [] then portRESET_READY_PRIORITY (uxPriority t) k else k)"

definition prvAddCurrentTaskToDelayedList :: "u32 \<Rightarrow> bool \<Rightarrow> kernel \<Rightarrow> kernel" where
  "prvAddCurrentTaskToDelayedList ticks indefinitely k =
    (let t = pxCurrentTCB k; now = xTickCount k; k = leave_ready t k in
     if ticks = portMAX_DELAY \<and> indefinitely then
       k\<lparr>xSuspendedTaskList := xSuspendedTaskList k @ [t]\<rparr>
     else
       let wake = now + ticks in
       if wake < now then
         k\<lparr>pxOverflowDelayedTaskList := insert_by fst (wake, t) (pxOverflowDelayedTaskList k)\<rparr>
       else
         k\<lparr>pxDelayedTaskList := insert_by fst (wake, t) (pxDelayedTaskList k),
           xNextTaskUnblockTime := if wake < xNextTaskUnblockTime k then wake else xNextTaskUnblockTime k\<rparr>)"

section \<open>The tick\<close>

text \<open>
  The loop over the delayed list: whether a switch is required, the tasks unblocked, the kernel.
\<close>

fun unblock_delayed :: "u32 \<Rightarrow> (u32 \<times> tcb) list \<Rightarrow> kernel \<Rightarrow> bool \<times> tcb list \<times> kernel" where
  "unblock_delayed now [] k =
    (False, [], k\<lparr>pxDelayedTaskList := [], xNextTaskUnblockTime := portMAX_DELAY\<rparr>)"
| "unblock_delayed now ((v, t) # ds) k =
    (if now < v then (False, [], k\<lparr>pxDelayedTaskList := (v, t) # ds, xNextTaskUnblockTime := v\<rparr>)
     else
       let (switch, ts, k') = unblock_delayed now ds
             (prvAddTaskToReadyList t (k\<lparr>pxDelayedTaskList := ds\<rparr>)) in
       (uxPriority (pxCurrentTCB k) \<le> uxPriority t \<or> switch, t # ts, k'))"

definition xTaskIncrementTick :: "kernel \<Rightarrow> (bool \<times> tcb list \<times> kernel) result" where
  "xTaskIncrementTick k =
    (if uxSchedulerSuspended k = 0 then
       let now = xTickCount k + 1; k = k\<lparr>xTickCount := now\<rparr> in
       bindr (if now = 0 then taskSWITCH_DELAYED_LISTS k else Inr k) (\<lambda>k.
       let (switch, ts, k) = (if xNextTaskUnblockTime k \<le> now
             then unblock_delayed now (pxDelayedTaskList k) k else (False, [], k));
           slice = 1 < length (entries (pxReadyTasksLists k (uxPriority (pxCurrentTCB k)))) in
       Inr (switch \<or> slice \<or> xYieldPending k, ts, k))
     else Inr (xYieldPending k, [], k\<lparr>uxPendedTicks := uxPendedTicks k + 1\<rparr>))"

section \<open>Suspending the scheduler\<close>

definition vTaskSuspendAll :: "kernel \<Rightarrow> kernel" where
  "vTaskSuspendAll k = k\<lparr>uxSchedulerSuspended := uxSchedulerSuspended k + 1\<rparr>"

fun ready_pending :: "tcb list \<Rightarrow> kernel \<Rightarrow> kernel" where
  "ready_pending [] k = k\<lparr>xPendingReadyList := []\<rparr>"
| "ready_pending (t # ts) k =
    (let k = prvAddTaskToReadyList t (remove_state_item t (k\<lparr>xPendingReadyList := ts\<rparr>)) in
     ready_pending ts
       (if uxPriority (pxCurrentTCB k) \<le> uxPriority t then k\<lparr>xYieldPending := True\<rparr> else k))"

definition ready_all_pending :: "kernel \<Rightarrow> kernel" where
  "ready_all_pending k =
    (if xPendingReadyList k \<noteq> [] then prvResetNextTaskUnblockTime (ready_pending (xPendingReadyList k) k)
     else k)"

text \<open>The ticks that came while the scheduler was suspended, one after the other.\<close>

fun pended_ticks :: "nat \<Rightarrow> kernel \<Rightarrow> (tcb list \<times> kernel) result" where
  "pended_ticks 0 k = Inr ([], k)"
| "pended_ticks (Suc n) k =
    bindr (xTaskIncrementTick k) (\<lambda>(switch, ts, k).
    bindr (pended_ticks n (if switch then k\<lparr>xYieldPending := True\<rparr> else k)) (\<lambda>(us, k).
      Inr (ts @ us, k)))"

text \<open>
  \<open>xTaskResumeAll\<close>, with tasks created: whether it yielded, and the tasks that a tick unblocked.
\<close>

definition xTaskResumeAll :: "kernel \<Rightarrow> (bool \<times> tcb list \<times> kernel) result" where
  "xTaskResumeAll k =
    (if uxSchedulerSuspended k = 0 then Inl Assert_failed
     else
       let k = k\<lparr>uxSchedulerSuspended := uxSchedulerSuspended k - 1\<rparr> in
       if uxSchedulerSuspended k \<noteq> 0 then Inr (False, [], k)
       else
         let k = ready_all_pending k in
         bindr (pended_ticks (unat (uxPendedTicks k)) k) (\<lambda>(ts, k).
         let k = k\<lparr>uxPendedTicks := 0\<rparr> in
         if xYieldPending k then Inr (True, ts, yield_within_api k) else Inr (False, ts, k)))"

definition vTaskDelay :: "u32 \<Rightarrow> kernel \<Rightarrow> (tcb list \<times> kernel) result" where
  "vTaskDelay ticks k =
    (if 0 < ticks then
       if uxSchedulerSuspended k \<noteq> 0 then Inl Assert_failed
       else bindr (xTaskResumeAll (prvAddCurrentTaskToDelayedList ticks False (vTaskSuspendAll k)))
         (\<lambda>(yielded, ts, k). Inr (ts, if yielded then k else yield_within_api k))
     else Inr ([], yield_within_api k))"

text \<open>\<open>vTaskDelayUntil\<close>; the second result is the updated \<open>*pxPreviousWakeTime\<close>.\<close>

definition should_delay_until :: "u32 \<Rightarrow> u32 \<Rightarrow> u32 \<Rightarrow> bool" where
  "should_delay_until now previous wake =
    (if now < previous then wake < previous \<and> now < wake else wake < previous \<or> now < wake)"

definition vTaskDelayUntil :: "u32 \<Rightarrow> u32 \<Rightarrow> kernel \<Rightarrow> (tcb list \<times> u32 \<times> kernel) result" where
  "vTaskDelayUntil previous increment k =
    (if \<not> 0 < increment \<or> uxSchedulerSuspended k \<noteq> 0 then Inl Assert_failed
     else
       let k = vTaskSuspendAll k; now = xTickCount k; wake = previous + increment;
           k = (if should_delay_until now previous wake
                then prvAddCurrentTaskToDelayedList (wake - now) False k else k) in
       bindr (xTaskResumeAll k) (\<lambda>(yielded, ts, k).
         Inr (ts, wake, if yielded then k else yield_within_api k)))"

section \<open>Event lists\<close>

text \<open>
  The event item of a task has the value \<open>configMAX_PRIORITIES - priority\<close>: an event list starts
  with the tasks of the highest priority, and equals are in the order of arrival.
\<close>

definition event_value :: "tcb \<Rightarrow> u32" where
  "event_value t = of_nat configMAX_PRIORITIES - of_nat (uxPriority t)"

definition vTaskPlaceOnEventList :: "u32 \<Rightarrow> tcb list \<Rightarrow> kernel \<Rightarrow> tcb list \<times> kernel" where
  "vTaskPlaceOnEventList ticks ws k =
    (insert_by event_value (pxCurrentTCB k) ws, prvAddCurrentTaskToDelayedList ticks True k)"

text \<open>The result tells whether the task removed has a higher priority than the current one.\<close>

fun xTaskRemoveFromEventList :: "tcb list \<Rightarrow> kernel \<Rightarrow> (bool \<times> tcb list \<times> kernel) result" where
  "xTaskRemoveFromEventList [] k = Inl Assert_failed"
| "xTaskRemoveFromEventList (t # ts) k =
    (let k = (if uxSchedulerSuspended k = 0 then prvAddTaskToReadyList t (remove_state_item t k)
              else k\<lparr>xPendingReadyList := xPendingReadyList k @ [t]\<rparr>) in
     if uxPriority (pxCurrentTCB k) < uxPriority t then Inr (True, ts, k\<lparr>xYieldPending := True\<rparr>)
     else Inr (False, ts, k))"

section \<open>Suspending and resuming a task\<close>

text \<open>The number of items left in the list that held the state item of a task before it was removed.\<close>

definition items_left :: "tcb \<Rightarrow> kernel \<Rightarrow> nat" where
  "items_left t k =
    (if t \<in> set (entries (pxReadyTasksLists k (uxPriority t)))
       then length (entries (pxReadyTasksLists k (uxPriority t))) - 1
     else if t \<in> snd ` set (pxDelayedTaskList k) then length (pxDelayedTaskList k) - 1
     else if t \<in> snd ` set (pxOverflowDelayedTaskList k) then length (pxOverflowDelayedTaskList k) - 1
     else length (xSuspendedTaskList k) - 1)"

text \<open>
  \<open>vTaskSuspend\<close> while the scheduler is running, \<open>None\<close> for the null handle. The event item leaves
  the pending ready list here; the first result is the task whose event item leaves the event
  list it is in, if any. Task notifications are not used.
\<close>

definition move_to_suspended :: "tcb \<Rightarrow> kernel \<Rightarrow> kernel" where
  "move_to_suspended t k =
    (let left = items_left t k; k = remove_state_item t k;
         k = (if left = 0 then taskRESET_READY_PRIORITY (uxPriority t) k else k);
         k = k\<lparr>xPendingReadyList := remove1 t (xPendingReadyList k)\<rparr>;
         k = k\<lparr>xSuspendedTaskList := xSuspendedTaskList k @ [t]\<rparr> in
     prvResetNextTaskUnblockTime k)"

definition vTaskSuspend :: "tcb option \<Rightarrow> kernel \<Rightarrow> (tcb \<times> kernel) result" where
  "vTaskSuspend handle k =
    (let t = (case handle of None \<Rightarrow> pxCurrentTCB k | Some t \<Rightarrow> t); k = move_to_suspended t k in
     if t = pxCurrentTCB k then
       (if uxSchedulerSuspended k \<noteq> 0 then Inl Assert_failed else Inr (t, yield_within_api k))
     else Inr (t, k))"

text \<open>\<open>waiting_event\<close>: the event item of the task is in an event list.\<close>

definition prvTaskIsTaskSuspended :: "tcb \<Rightarrow> bool \<Rightarrow> kernel \<Rightarrow> bool" where
  "prvTaskIsTaskSuspended t waiting_event k \<longleftrightarrow>
    t \<in> set (xSuspendedTaskList k) \<and> t \<notin> set (xPendingReadyList k) \<and> \<not> waiting_event"

datatype eTaskState = eRunning | eReady | eBlocked | eSuspended | eDeleted

text \<open>
  The event item of a task in the pending ready list has a container too: such a task, if its state
  item is in the suspended list, is not suspended.
\<close>

definition eTaskGetState :: "tcb \<Rightarrow> bool \<Rightarrow> kernel \<Rightarrow> eTaskState" where
  "eTaskGetState t waiting_event k =
    (if t = pxCurrentTCB k then eRunning
     else if t \<in> snd ` set (pxDelayedTaskList k) \<or> t \<in> snd ` set (pxOverflowDelayedTaskList k) then eBlocked
     else if t \<in> set (xSuspendedTaskList k) then
       (if \<not> waiting_event \<and> t \<notin> set (xPendingReadyList k) then eSuspended else eBlocked)
     else if t \<in> set (entries (pxReadyTasksLists k (uxPriority t))) then eReady
     else eDeleted)"

definition vTaskResume :: "tcb option \<Rightarrow> bool \<Rightarrow> kernel \<Rightarrow> kernel result" where
  "vTaskResume handle waiting_event k =
    (case handle of None \<Rightarrow> Inl Assert_failed
     | Some t \<Rightarrow>
         if t \<noteq> pxCurrentTCB k \<and> prvTaskIsTaskSuspended t waiting_event k then
           let k = prvAddTaskToReadyList t (remove_state_item t k) in
           Inr (if uxPriority (pxCurrentTCB k) \<le> uxPriority t then yield_within_api k else k)
         else Inr k)"

section \<open>Block times\<close>

record timeout =
  xOverflowCount :: u32
  xTimeOnEntering :: u32

definition vTaskInternalSetTimeOutState :: "kernel \<Rightarrow> timeout" where
  "vTaskInternalSetTimeOutState k =
    \<lparr>xOverflowCount = xNumOfOverflows k, xTimeOnEntering = xTickCount k\<rparr>"

definition xTaskCheckForTimeOut :: "kernel \<Rightarrow> timeout \<Rightarrow> u32 \<Rightarrow> bool \<times> timeout \<times> u32" where
  "xTaskCheckForTimeOut k t ticks =
    (let elapsed = xTickCount k - xTimeOnEntering t in
     if ticks = portMAX_DELAY then (False, t, ticks)
     else if xNumOfOverflows k \<noteq> xOverflowCount t \<and> xTimeOnEntering t \<le> xTickCount k
       then (True, t, ticks)
     else if elapsed < ticks then (False, vTaskInternalSetTimeOutState k, ticks - elapsed)
     else (True, t, 0))"

section \<open>A sample state\<close>

text \<open>One task of priority 2, running.\<close>

definition sample_kernel :: kernel where
  "sample_kernel = \<lparr>pxCurrentTCB = \<lparr>tcb_id = 3, uxPriority = 2\<rparr>,
     pxReadyTasksLists = (\<lambda>p. vListInitialise)(2 := \<lparr>entries = [\<lparr>tcb_id = 3, uxPriority = 2\<rparr>], pxIndex = 1\<rparr>),
     uxTopReadyPriority = 4, pxDelayedTaskList = [], pxOverflowDelayedTaskList = [],
     xSuspendedTaskList = [], xPendingReadyList = [], xTickCount = 0, xNextTaskUnblockTime = portMAX_DELAY,
     xNumOfOverflows = 0, uxSchedulerSuspended = 0, uxPendedTicks = 0, xYieldPending = False, yields = 0\<rparr>"

end
