(* ===== verification/FreeRTOS_Queue.thy ===== *)
theory FreeRTOS_Queue
  imports FreeRTOS_Kernel
begin

text \<open>
  FreeRTOS queues (\<open>queue.c\<close>). The storage of a queue is its list of bytes, and the pointers
  \<open>pcWriteTo\<close>, \<open>pcReadFrom\<close> and \<open>pcTail\<close> are integer offsets from \<open>pcHead\<close>. A queue lives at an
  address, since a queue can be a member of a queue set, which is a queue itself. The
  functions that never block are whole; a blocking function is its loop body, split where other
  tasks and interrupts can run. A failed \<open>configASSERT\<close> is \<open>Assert_failed\<close>. Mutexes (queues with a
  null \<open>pcHead\<close>) use the structure in another way and are not modelled.
\<close>

section \<open>State\<close>

type_synonym handle = nat

record queue =
  qstore :: "u8 list"
  pcWriteTo :: int
  pcTail :: int
  pcReadFrom :: int
  xTasksWaitingToSend :: "tcb list"
  xTasksWaitingToReceive :: "tcb list"
  uxMessagesWaiting :: u32
  uxLength :: u32
  uxItemSize :: u32
  cRxLock :: u8
  cTxLock :: u8
  pxQueueSetContainer :: "handle option"
  ucQueueType :: u8

record rtos =
  queues :: "handle \<rightharpoonup> queue"
  kern :: kernel

datatype copy_position = queueSEND_TO_BACK | queueSEND_TO_FRONT | queueOVERWRITE

definition queueUNLOCKED :: u8 where "queueUNLOCKED = - 1"

definition queueLOCKED_UNMODIFIED :: u8 where "queueLOCKED_UNMODIFIED = 0"

definition get_queue :: "handle option \<Rightarrow> rtos \<Rightarrow> queue result" where
  "get_queue h s = (case h of None \<Rightarrow> Inl Assert_failed
     | Some a \<Rightarrow> (case queues s a of None \<Rightarrow> Inl Use_after_free | Some q \<Rightarrow> Inr q))"

definition set_queue :: "handle \<Rightarrow> queue \<Rightarrow> rtos \<Rightarrow> rtos" where
  "set_queue a q s = s\<lparr>queues := (queues s)(a \<mapsto> q)\<rparr>"

section \<open>Creation and reset\<close>

text \<open>The part of \<open>xQueueGenericReset\<close> that does not touch the event lists.\<close>

definition reset_pointers :: "queue \<Rightarrow> queue" where
  "reset_pointers q = q\<lparr>pcTail := int (unat (uxLength q * uxItemSize q)), uxMessagesWaiting := 0,
     pcWriteTo := 0, pcReadFrom := int (unat ((uxLength q - 1) * uxItemSize q)),
     cRxLock := queueUNLOCKED, cTxLock := queueUNLOCKED\<rparr>"

definition xQueueGenericReset :: "handle \<Rightarrow> bool \<Rightarrow> rtos \<Rightarrow> (bool \<times> rtos) result" where
  "xQueueGenericReset a new_queue s =
    bindr (get_queue (Some a) s) (\<lambda>q.
    let q = reset_pointers q in
    if \<not> new_queue then
      (if xTasksWaitingToSend q \<noteq> [] then
         bindr (xTaskRemoveFromEventList (xTasksWaitingToSend q) (kern s)) (\<lambda>(higher, ws, k).
           Inr (True, (set_queue a (q\<lparr>xTasksWaitingToSend := ws\<rparr>) s)
             \<lparr>kern := if higher then yield_within_api k else k\<rparr>))
       else Inr (True, set_queue a q s))
    else Inr (True, set_queue a (q\<lparr>xTasksWaitingToSend := [], xTasksWaitingToReceive := []\<rparr>) s))"

text \<open>
  \<open>prvInitialiseNewQueue\<close>: the storage follows the structure; \<open>junk\<close> are the bytes found there and
  in the fields not yet written.
\<close>

definition prvInitialiseNewQueue :: "u32 \<Rightarrow> u32 \<Rightarrow> u8 list \<Rightarrow> u8 \<Rightarrow> handle \<Rightarrow> rtos \<Rightarrow> rtos result" where
  "prvInitialiseNewQueue qlen item_size junk qtype a s =
    (let q = \<lparr>qstore = junk, pcWriteTo = 0, pcTail = 0, pcReadFrom = 0, xTasksWaitingToSend = [],
              xTasksWaitingToReceive = [], uxMessagesWaiting = 0, uxLength = qlen,
              uxItemSize = item_size, cRxLock = 0, cTxLock = 0, pxQueueSetContainer = None,
              ucQueueType = 0\<rparr> in
     bindr (xQueueGenericReset a True (set_queue a q s)) (\<lambda>(_, s).
     bindr (get_queue (Some a) s) (\<lambda>q.
     Inr (set_queue a (q\<lparr>ucQueueType := qtype, pxQueueSetContainer := None\<rparr>) s))))"

text \<open>
  \<open>xQueueGenericCreate\<close>. \<open>pvPortMalloc\<close> of \<open>sizeof(Queue_t)\<close> plus the storage is an argument: the
  address, or \<open>None\<close> when the heap is exhausted; the product is a 32-bit one.
\<close>

definition queue_size_in_bytes :: "u32 \<Rightarrow> u32 \<Rightarrow> u32" where
  "queue_size_in_bytes qlen item_size = (if item_size = 0 then 0 else qlen * item_size)"

definition xQueueGenericCreate ::
    "(u32 \<Rightarrow> (handle \<times> u8 list) option) \<Rightarrow> u32 \<Rightarrow> u32 \<Rightarrow> u8 \<Rightarrow> rtos \<Rightarrow> (handle option \<times> rtos) result" where
  "xQueueGenericCreate malloc qlen item_size qtype s =
    (if qlen = 0 then Inl Assert_failed
     else case malloc (queue_size_in_bytes qlen item_size) of
       None \<Rightarrow> Inr (None, s)
     | Some (a, junk) \<Rightarrow>
         bindr (prvInitialiseNewQueue qlen item_size junk qtype a s) (\<lambda>s. Inr (Some a, s)))"

section \<open>Copying items\<close>

definition store_write :: "queue \<Rightarrow> int \<Rightarrow> u8 list \<Rightarrow> queue result" where
  "store_write q off bs =
    (if 0 \<le> off \<and> nat off + length bs \<le> length (qstore q)
     then Inr (q\<lparr>qstore := take (nat off) (qstore q) @ bs @ drop (nat off + length bs) (qstore q)\<rparr>)
     else Inl Out_of_bounds)"

definition store_read :: "queue \<Rightarrow> int \<Rightarrow> nat \<Rightarrow> u8 list result" where
  "store_read q off n =
    (if 0 \<le> off \<and> nat off + n \<le> length (qstore q) then Inr (take n (drop (nat off) (qstore q)))
     else Inl Out_of_bounds)"

text \<open>The item is the \<open>uxItemSize\<close> bytes behind \<open>pvItemToQueue\<close>.\<close>

definition prvCopyDataToQueue :: "queue \<Rightarrow> u8 list \<Rightarrow> copy_position \<Rightarrow> queue result" where
  "prvCopyDataToQueue q item pos =
    (let size = int (unat (uxItemSize q)); n = uxMessagesWaiting q in
     if uxItemSize q = 0 then Inr (q\<lparr>uxMessagesWaiting := n + 1\<rparr>)
     else if length item < nat size then Inl Out_of_bounds
     else if pos = queueSEND_TO_BACK then
       bindr (store_write q (pcWriteTo q) (take (nat size) item)) (\<lambda>q.
         let w = pcWriteTo q + size in
         Inr (q\<lparr>pcWriteTo := if pcTail q \<le> w then 0 else w, uxMessagesWaiting := n + 1\<rparr>))
     else
       bindr (store_write q (pcReadFrom q) (take (nat size) item)) (\<lambda>q.
         let r = pcReadFrom q - size;
             n = (if pos = queueOVERWRITE \<and> 0 < n then n - 1 else n) in
         Inr (q\<lparr>pcReadFrom := if r < 0 then pcTail q - size else r, uxMessagesWaiting := n + 1\<rparr>)))"

definition prvCopyDataFromQueue :: "queue \<Rightarrow> (u8 list \<times> queue) result" where
  "prvCopyDataFromQueue q =
    (let size = int (unat (uxItemSize q)) in
     if uxItemSize q \<noteq> 0 then
       let r = pcReadFrom q + size;
           q = q\<lparr>pcReadFrom := if pcTail q \<le> r then 0 else r\<rparr> in
       bindr (store_read q (pcReadFrom q) (nat size)) (\<lambda>item. Inr (item, q))
     else Inr ([], q))"

definition prvIsQueueEmpty :: "queue \<Rightarrow> bool" where
  "prvIsQueueEmpty q \<longleftrightarrow> uxMessagesWaiting q = 0"

definition prvIsQueueFull :: "queue \<Rightarrow> bool" where
  "prvIsQueueFull q \<longleftrightarrow> uxMessagesWaiting q = uxLength q"

definition xQueueIsQueueEmptyFromISR :: "handle option \<Rightarrow> rtos \<Rightarrow> bool result" where
  "xQueueIsQueueEmptyFromISR h s = bindr (get_queue h s) (\<lambda>q. Inr (uxMessagesWaiting q = 0))"

definition xQueueIsQueueFullFromISR :: "handle option \<Rightarrow> rtos \<Rightarrow> bool result" where
  "xQueueIsQueueFullFromISR h s = bindr (get_queue h s) (\<lambda>q. Inr (uxMessagesWaiting q = uxLength q))"

definition uxQueueMessagesWaiting :: "handle option \<Rightarrow> rtos \<Rightarrow> u32 result" where
  "uxQueueMessagesWaiting h s = bindr (get_queue h s) (\<lambda>q. Inr (uxMessagesWaiting q))"

definition uxQueueMessagesWaitingFromISR :: "handle option \<Rightarrow> rtos \<Rightarrow> u32 result" where
  "uxQueueMessagesWaitingFromISR h s = bindr (get_queue h s) (\<lambda>q. Inr (uxMessagesWaiting q))"

definition uxQueueSpacesAvailable :: "handle option \<Rightarrow> rtos \<Rightarrow> u32 result" where
  "uxQueueSpacesAvailable h s = bindr (get_queue h s) (\<lambda>q. Inr (uxLength q - uxMessagesWaiting q))"

section \<open>Waking tasks\<close>

text \<open>
  \<open>if(listLIST_IS_EMPTY(list) == pdFALSE) xTaskRemoveFromEventList(list)\<close> on one of the two event
  lists of a queue: whether a task of higher priority was woken, the queue and the kernel.
\<close>

definition wake_receiver :: "queue \<Rightarrow> kernel \<Rightarrow> (bool \<times> queue \<times> kernel) result" where
  "wake_receiver q k =
    (if xTasksWaitingToReceive q \<noteq> [] then
       bindr (xTaskRemoveFromEventList (xTasksWaitingToReceive q) k) (\<lambda>(higher, ws, k).
         Inr (higher, q\<lparr>xTasksWaitingToReceive := ws\<rparr>, k))
     else Inr (False, q, k))"

definition wake_sender :: "queue \<Rightarrow> kernel \<Rightarrow> (bool \<times> queue \<times> kernel) result" where
  "wake_sender q k =
    (if xTasksWaitingToSend q \<noteq> [] then
       bindr (xTaskRemoveFromEventList (xTasksWaitingToSend q) k) (\<lambda>(higher, ws, k).
         Inr (higher, q\<lparr>xTasksWaitingToSend := ws\<rparr>, k))
     else Inr (False, q, k))"

text \<open>The four bytes of a queue handle as they are stored in the queue of a set.\<close>

definition handle_bytes :: "handle \<Rightarrow> u8 list" where
  "handle_bytes a = rev (bytes32 (of_nat a))"

definition prvNotifyQueueSetContainer :: "handle \<Rightarrow> copy_position \<Rightarrow> rtos \<Rightarrow> (bool \<times> rtos) result" where
  "prvNotifyQueueSetContainer a pos s =
    bindr (get_queue (Some a) s) (\<lambda>q.
    bindr (get_queue (pxQueueSetContainer q) s) (\<lambda>c.
    let ca = the (pxQueueSetContainer q) in
    if \<not> uxMessagesWaiting c < uxLength c then Inl Assert_failed
    else
      let tx_lock = cTxLock c in
      bindr (prvCopyDataToQueue c (handle_bytes a) pos) (\<lambda>c.
      if tx_lock = queueUNLOCKED then
        bindr (wake_receiver c (kern s)) (\<lambda>(higher, c, k).
          Inr (higher, (set_queue ca c s)\<lparr>kern := k\<rparr>))
      else Inr (False, set_queue ca (c\<lparr>cTxLock := tx_lock + 1\<rparr>) s))))"

section \<open>Sending\<close>

text \<open>The two assertions on the arguments: an item, and overwriting only in queues of length 1.\<close>

definition send_args_ok :: "queue \<Rightarrow> u8 list option \<Rightarrow> copy_position \<Rightarrow> bool" where
  "send_args_ok q item pos \<longleftrightarrow>
    \<not> (item = None \<and> uxItemSize q \<noteq> 0) \<and> \<not> (pos = queueOVERWRITE \<and> uxLength q \<noteq> 1)"

abbreviation item_bytes :: "u8 list option \<Rightarrow> u8 list" where
  "item_bytes item \<equiv> (case item of None \<Rightarrow> [] | Some bs \<Rightarrow> bs)"

text \<open>
  The critical section of \<open>xQueueGenericSend\<close>: \<open>True\<close> when the item was posted.
\<close>

definition send_critical ::
    "handle \<Rightarrow> u8 list option \<Rightarrow> copy_position \<Rightarrow> rtos \<Rightarrow> (bool \<times> rtos) result" where
  "send_critical a item pos s =
    bindr (get_queue (Some a) s) (\<lambda>q.
    if uxMessagesWaiting q < uxLength q \<or> pos = queueOVERWRITE then
      let previous = uxMessagesWaiting q in
      bindr (prvCopyDataToQueue q (item_bytes item) pos) (\<lambda>q.
      let s = set_queue a q s in
      if pxQueueSetContainer q \<noteq> None then
        if pos = queueOVERWRITE \<and> previous \<noteq> 0 then Inr (True, s)
        else bindr (prvNotifyQueueSetContainer a pos s) (\<lambda>(higher, s).
          Inr (True, if higher then s\<lparr>kern := yield_within_api (kern s)\<rparr> else s))
      else
        bindr (wake_receiver q (kern s)) (\<lambda>(higher, q, k).
          Inr (True, (set_queue a q s)\<lparr>kern := if higher then yield_within_api k else k\<rparr>)))
    else Inr (False, s))"

text \<open>
  A call that does not block (\<open>xTicksToWait = 0\<close>): the loop body runs once. The result is
  \<open>pdPASS\<close> or \<open>errQUEUE_FULL\<close>.
\<close>

definition xQueueGenericSend0 ::
    "handle option \<Rightarrow> u8 list option \<Rightarrow> copy_position \<Rightarrow> rtos \<Rightarrow> (bool \<times> rtos) result" where
  "xQueueGenericSend0 h item pos s =
    bindr (get_queue h s) (\<lambda>q.
    if \<not> send_args_ok q item pos then Inl Assert_failed
    else send_critical (the h) item pos s)"

definition xQueueGenericSendFromISR ::
    "handle option \<Rightarrow> u8 list option \<Rightarrow> copy_position \<Rightarrow> bool \<Rightarrow> rtos \<Rightarrow> (bool \<times> bool \<times> rtos) result" where
  "xQueueGenericSendFromISR h item pos woken s =
    bindr (get_queue h s) (\<lambda>q.
    if \<not> send_args_ok q item pos then Inl Assert_failed
    else if uxMessagesWaiting q < uxLength q \<or> pos = queueOVERWRITE then
      let a = the h; tx_lock = cTxLock q in
      bindr (prvCopyDataToQueue q (item_bytes item) pos) (\<lambda>q.
      if tx_lock = queueUNLOCKED then
        if pxQueueSetContainer q \<noteq> None then
          bindr (prvNotifyQueueSetContainer a pos (set_queue a q s)) (\<lambda>(higher, s).
            Inr (True, woken \<or> higher, s))
        else
          bindr (wake_receiver q (kern s)) (\<lambda>(higher, q, k).
            Inr (True, woken \<or> higher, (set_queue a q s)\<lparr>kern := k\<rparr>))
      else Inr (True, woken, set_queue a (q\<lparr>cTxLock := tx_lock + 1\<rparr>) s))
    else Inr (False, woken, s))"

definition xQueueGiveFromISR :: "handle option \<Rightarrow> bool \<Rightarrow> rtos \<Rightarrow> (bool \<times> bool \<times> rtos) result" where
  "xQueueGiveFromISR h woken s =
    bindr (get_queue h s) (\<lambda>q.
    if uxItemSize q \<noteq> 0 then Inl Assert_failed
    else if uxMessagesWaiting q < uxLength q then
      let a = the h; tx_lock = cTxLock q; q = q\<lparr>uxMessagesWaiting := uxMessagesWaiting q + 1\<rparr> in
      if tx_lock = queueUNLOCKED then
        if pxQueueSetContainer q \<noteq> None then
          bindr (prvNotifyQueueSetContainer a queueSEND_TO_BACK (set_queue a q s)) (\<lambda>(higher, s).
            Inr (True, woken \<or> higher, s))
        else
          bindr (wake_receiver q (kern s)) (\<lambda>(higher, q, k).
            Inr (True, woken \<or> higher, (set_queue a q s)\<lparr>kern := k\<rparr>))
      else Inr (True, woken, set_queue a (q\<lparr>cTxLock := tx_lock + 1\<rparr>) s)
    else Inr (False, woken, s))"

section \<open>Receiving\<close>

text \<open>The critical section of \<open>xQueueReceive\<close>: the item, when there was one.\<close>

definition receive_critical :: "handle \<Rightarrow> rtos \<Rightarrow> (u8 list option \<times> rtos) result" where
  "receive_critical a s =
    bindr (get_queue (Some a) s) (\<lambda>q.
    let n = uxMessagesWaiting q in
    if 0 < n then
      bindr (prvCopyDataFromQueue q) (\<lambda>(item, q).
      bindr (wake_sender (q\<lparr>uxMessagesWaiting := n - 1\<rparr>) (kern s)) (\<lambda>(higher, q, k).
        Inr (Some item, (set_queue a q s)\<lparr>kern := if higher then yield_within_api k else k\<rparr>)))
    else Inr (None, s))"

definition peek_critical :: "handle \<Rightarrow> rtos \<Rightarrow> (u8 list option \<times> rtos) result" where
  "peek_critical a s =
    bindr (get_queue (Some a) s) (\<lambda>q.
    if 0 < uxMessagesWaiting q then
      bindr (prvCopyDataFromQueue q) (\<lambda>(item, q').
      bindr (wake_receiver (q'\<lparr>pcReadFrom := pcReadFrom q\<rparr>) (kern s)) (\<lambda>(higher, q, k).
        Inr (Some item, (set_queue a q s)\<lparr>kern := if higher then yield_within_api k else k\<rparr>)))
    else Inr (None, s))"

text \<open>
  Calls that do not block; \<open>buffer\<close> tells whether \<open>pvBuffer\<close> is not null.
\<close>

definition xQueueReceive0 :: "handle option \<Rightarrow> bool \<Rightarrow> rtos \<Rightarrow> (u8 list option \<times> rtos) result" where
  "xQueueReceive0 h buffer s =
    bindr (get_queue h s) (\<lambda>q.
    if \<not> buffer \<and> uxItemSize q \<noteq> 0 then Inl Assert_failed else receive_critical (the h) s)"

definition xQueuePeek0 :: "handle option \<Rightarrow> bool \<Rightarrow> rtos \<Rightarrow> (u8 list option \<times> rtos) result" where
  "xQueuePeek0 h buffer s =
    bindr (get_queue h s) (\<lambda>q.
    if \<not> buffer \<and> uxItemSize q \<noteq> 0 then Inl Assert_failed else peek_critical (the h) s)"

definition xQueueReceiveFromISR ::
    "handle option \<Rightarrow> bool \<Rightarrow> bool \<Rightarrow> rtos \<Rightarrow> (u8 list option \<times> bool \<times> rtos) result" where
  "xQueueReceiveFromISR h buffer woken s =
    bindr (get_queue h s) (\<lambda>q.
    if \<not> buffer \<and> uxItemSize q \<noteq> 0 then Inl Assert_failed
    else if 0 < uxMessagesWaiting q then
      let a = the h; n = uxMessagesWaiting q; rx_lock = cRxLock q in
      bindr (prvCopyDataFromQueue q) (\<lambda>(item, q).
      let q = q\<lparr>uxMessagesWaiting := n - 1\<rparr> in
      if rx_lock = queueUNLOCKED then
        bindr (wake_sender q (kern s)) (\<lambda>(higher, q, k).
          Inr (Some item, woken \<or> higher, (set_queue a q s)\<lparr>kern := k\<rparr>))
      else Inr (Some item, woken, set_queue a (q\<lparr>cRxLock := rx_lock + 1\<rparr>) s))
    else Inr (None, woken, s))"

definition xQueuePeekFromISR :: "handle option \<Rightarrow> bool \<Rightarrow> rtos \<Rightarrow> (u8 list option \<times> rtos) result" where
  "xQueuePeekFromISR h buffer s =
    bindr (get_queue h s) (\<lambda>q.
    if \<not> buffer \<and> uxItemSize q \<noteq> 0 then Inl Assert_failed
    else if uxItemSize q = 0 then Inl Assert_failed
    else if 0 < uxMessagesWaiting q then
      bindr (prvCopyDataFromQueue q) (\<lambda>(item, q').
        Inr (Some item, set_queue (the h) (q'\<lparr>pcReadFrom := pcReadFrom q\<rparr>) s))
    else Inr (None, s))"

section \<open>Locking\<close>

definition prvLockQueue :: "queue \<Rightarrow> queue" where
  "prvLockQueue q =
    (let q = (if cRxLock q = queueUNLOCKED then q\<lparr>cRxLock := queueLOCKED_UNMODIFIED\<rparr> else q) in
     if cTxLock q = queueUNLOCKED then q\<lparr>cTxLock := queueLOCKED_UNMODIFIED\<rparr> else q)"

text \<open>
  The two loops of \<open>prvUnlockQueue\<close>, on the signed value of the lock counter.
\<close>

function unlock_tx_loop :: "handle \<Rightarrow> u8 \<Rightarrow> rtos \<Rightarrow> rtos result" where
  "unlock_tx_loop a tx_lock s =
    (if \<not> sint queueLOCKED_UNMODIFIED < sint tx_lock then Inr s
     else bindr (get_queue (Some a) s) (\<lambda>q.
       if pxQueueSetContainer q \<noteq> None then
         bindr (prvNotifyQueueSetContainer a queueSEND_TO_BACK s) (\<lambda>(higher, s).
           unlock_tx_loop a (tx_lock - 1) (if higher then s\<lparr>kern := vTaskMissedYield (kern s)\<rparr> else s))
       else if xTasksWaitingToReceive q \<noteq> [] then
         bindr (wake_receiver q (kern s)) (\<lambda>(higher, q, k).
           unlock_tx_loop a (tx_lock - 1)
             ((set_queue a q s)\<lparr>kern := if higher then vTaskMissedYield k else k\<rparr>))
       else Inr s))"
  by pat_completeness auto

function unlock_rx_loop :: "handle \<Rightarrow> u8 \<Rightarrow> rtos \<Rightarrow> rtos result" where
  "unlock_rx_loop a rx_lock s =
    (if \<not> sint queueLOCKED_UNMODIFIED < sint rx_lock then Inr s
     else bindr (get_queue (Some a) s) (\<lambda>q.
       if xTasksWaitingToSend q \<noteq> [] then
         bindr (wake_sender q (kern s)) (\<lambda>(higher, q, k).
           unlock_rx_loop a (rx_lock - 1)
             ((set_queue a q s)\<lparr>kern := if higher then vTaskMissedYield k else k\<rparr>))
       else Inr s))"
  by pat_completeness auto

lemma sint_pred: "0 < sint (c :: u8) \<Longrightarrow> unat (c - 1) < unat c"
proof -
  assume "0 < sint c"
  then have "c \<noteq> 0" by auto
  then show ?thesis by unat_arith
qed

termination unlock_tx_loop
  by (relation "measure (\<lambda>(a, c, s). unat c)") (auto simp: queueLOCKED_UNMODIFIED_def sint_pred)

termination unlock_rx_loop
  by (relation "measure (\<lambda>(a, c, s). unat c)") (auto simp: queueLOCKED_UNMODIFIED_def sint_pred)

declare unlock_tx_loop.simps [simp del] unlock_rx_loop.simps [simp del]

definition unlock_tx :: "handle \<Rightarrow> rtos \<Rightarrow> rtos result" where
  "unlock_tx a s =
    bindr (get_queue (Some a) s) (\<lambda>q. bindr (unlock_tx_loop a (cTxLock q) s) (\<lambda>s.
    bindr (get_queue (Some a) s) (\<lambda>q. Inr (set_queue a (q\<lparr>cTxLock := queueUNLOCKED\<rparr>) s))))"

definition unlock_rx :: "handle \<Rightarrow> rtos \<Rightarrow> rtos result" where
  "unlock_rx a s =
    bindr (get_queue (Some a) s) (\<lambda>q. bindr (unlock_rx_loop a (cRxLock q) s) (\<lambda>s.
    bindr (get_queue (Some a) s) (\<lambda>q. Inr (set_queue a (q\<lparr>cRxLock := queueUNLOCKED\<rparr>) s))))"

definition prvUnlockQueue :: "handle \<Rightarrow> rtos \<Rightarrow> rtos result" where
  "prvUnlockQueue a s = bindr (unlock_tx a s) (unlock_rx a)"

end
