(* ===== verification/FreeRTOS_Fifo.thy ===== *)
theory FreeRTOS_Fifo
  imports FreeRTOS_Queue
begin

text \<open>
  A FreeRTOS queue is a bounded first-in first-out list of items: the ring of slots in its byte
  storage represents a list, and posting and taking an item are the list operations. The
  contract of such a list is the locale \<open>bounded_fifo\<close>; both the functions for tasks and the
  functions for interrupts provide it.
\<close>

section \<open>The ring of slots\<close>

text \<open>\<open>ring q z L r w\<close>: items of \<open>z\<close> bytes, \<open>L\<close> slots, last slot read \<open>r\<close>, next slot to write \<open>w\<close>.\<close>

definition ring :: "queue \<Rightarrow> nat \<Rightarrow> nat \<Rightarrow> nat \<Rightarrow> nat \<Rightarrow> bool" where
  "ring q z L r w \<longleftrightarrow> 0 < z \<and> r < L \<and> w < L \<and>
    unat (uxItemSize q) = z \<and> unat (uxLength q) = L \<and> length (qstore q) = L * z \<and>
    pcTail q = int (L * z) \<and> pcReadFrom q = int (r * z) \<and> pcWriteTo q = int (w * z) \<and>
    unat (uxMessagesWaiting q) \<le> L \<and> w = (r + 1 + unat (uxMessagesWaiting q)) mod L"

definition slot :: "queue \<Rightarrow> nat \<Rightarrow> nat \<Rightarrow> u8 list" where
  "slot q z i = take z (drop (i * z) (qstore q))"

definition slots :: "queue \<Rightarrow> nat \<Rightarrow> nat \<Rightarrow> nat \<Rightarrow> nat \<Rightarrow> u8 list list" where
  "slots q z L r n = map (\<lambda>k. slot q z ((r + 1 + k) mod L)) [0..<n]"

definition wf_queue :: "queue \<Rightarrow> bool" where
  "wf_queue q \<longleftrightarrow> (\<exists>r w. ring q (unat (uxItemSize q)) (unat (uxLength q)) r w)"

definition items :: "queue \<Rightarrow> u8 list list" where
  "items q = slots q (unat (uxItemSize q)) (unat (uxLength q))
     (nat (pcReadFrom q) div unat (uxItemSize q)) (unat (uxMessagesWaiting q))"

lemma items_ring: "ring q z L r w \<Longrightarrow> items q = slots q z L r (unat (uxMessagesWaiting q))"
proof -
  assume q: "ring q z L r w"
  then have "nat (pcReadFrom q) = r * z" by (simp only: ring_def nat_int)
  then show ?thesis using q by (simp add: items_def ring_def)
qed

lemma ring_wf: "ring q z L r w \<Longrightarrow> wf_queue q"
  by (auto simp: wf_queue_def ring_def)

lemma wf_ring: "wf_queue q \<Longrightarrow> \<exists>z L r w. ring q z L r w"
  by (auto simp: wf_queue_def)

lemma length_items [simp]: "length (items q) = unat (uxMessagesWaiting q)"
  by (simp add: items_def slots_def)

lemma slot_end: "i < L \<Longrightarrow> i * z + z \<le> L * (z :: nat)"
  by (metis Suc_leI add.commute mult_Suc mult_le_mono1)

lemma slot_disjoint: "i < j \<Longrightarrow> i * z + z \<le> j * (z :: nat)"
  by (rule slot_end)

lemma take_drop_before:
  "a + z \<le> n \<Longrightarrow> n \<le> length xs \<Longrightarrow> take z (drop a (take n xs @ ys)) = take z (drop a xs)"
  by (auto simp: drop_take min_def)

lemma drop_after:
  "n + length x \<le> a \<Longrightarrow> n \<le> length xs \<Longrightarrow> drop a (take n xs @ x @ drop (n + length x) xs) = drop a xs"
  by (simp add: drop_append)

lemma slot_write:
  assumes "length xs = L * z" and "i < L" and "j < L" and "length x = z"
  shows "take z (drop (j * z) (take (i * z) xs @ x @ drop (i * z + z) xs)) =
    (if j = i then x else take z (drop (j * z) xs))"
proof -
  have ie: "i * z + z \<le> length xs" using assms(1,2) slot_end by simp
  consider "j = i" | "j < i" | "i < j" by linarith
  then show ?thesis
  proof cases
    case 1
    then show ?thesis using ie assms(4) by simp
  next
    case 2
    then have "j * z + z \<le> i * z" by (rule slot_disjoint)
    then show ?thesis using 2 ie take_drop_before [of "j * z" z "i * z" xs] by simp
  next
    case 3
    then have "i * z + z \<le> j * z" by (rule slot_disjoint)
    then show ?thesis using 3 ie drop_after [of "i * z" x "j * z" xs] assms(4) by simp
  qed
qed

lemma mod_next: "i < L \<Longrightarrow> (if L \<le> i + 1 then 0 else i + 1) = (i + 1) mod (L :: nat)"
  by (cases "i + 1 = L") auto

lemma ring_next:
  assumes "i < L" and "0 < z"
  shows "(if int (L * z) \<le> int (i * z) + int z then 0 else int (i * z) + int z) = int ((i + 1) mod L * z)"
proof (cases "i + 1 = L")
  case True
  then have "L * z = i * z + z" by (metis add.commute mult_Suc Suc_eq_plus1)
  then show ?thesis using True by simp
next
  case False
  then have l: "i + 1 < L" using assms(1) by simp
  then have "(i + 1) * z < L * z" using assms(2) by (simp only: mult_less_cancel2)
  then have "int (i * z) + int z < int (L * z)" unfolding distrib_right by linarith
  then show ?thesis using l by (simp add: distrib_right)
qed

lemma slots_shift:
  "0 < L \<Longrightarrow> slots q z L r (Suc n) = slot q z ((r + 1) mod L) # slots q z L ((r + 1) mod L) n"
proof -
  have "(r + 1 + Suc k) mod L = ((r + 1) mod L + 1 + k) mod L" for k
    using mod_add_left_eq [of "r + 1" L "1 + k"] by (simp add: add.assoc)
  then show ?thesis unfolding slots_def map_upt_Suc by simp
qed

section \<open>Posting and taking an item\<close>

lemma store_write_ok:
  assumes "length (qstore q) = L * z" and "i < L" and "length x = z"
  shows "store_write q (int (i * z)) x =
    Inr (q\<lparr>qstore := take (i * z) (qstore q) @ x @ drop (i * z + z) (qstore q)\<rparr>)"
  using assms slot_end [OF assms(2), of z] unfolding store_write_def nat_int by simp

lemma slot_after_write:
  assumes "length (qstore q) = L * z" and "i < L" and "j < L" and "length x = z"
    and "qstore q' = take (i * z) (qstore q) @ x @ drop (i * z + z) (qstore q)"
  shows "slot q' z j = (if j = i then x else slot q z j)"
  using slot_write [OF assms(1-4)] by (simp add: slot_def assms(5))

lemma unat_inc: "unat (n :: u32) < unat (m :: u32) \<Longrightarrow> unat (n + 1) = unat n + 1"
  using unat_u32_less [of m] by (simp add: unat_word_ariths)

lemma unat_dec: "0 < (n :: u32) \<Longrightarrow> unat (n - 1) = unat n - 1"
  by unat_arith

lemma other_slot:
  assumes "k < n" and "n < (L :: nat)"
  shows "(r + 1 + k) mod L \<noteq> (r + 1 + n) mod L"
proof
  assume "(r + 1 + k) mod L = (r + 1 + n) mod L"
  then have "L dvd (r + 1 + n) - (r + 1 + k)"
    using mod_eq_dvd_iff_nat [of "r + 1 + k" "r + 1 + n" L] assms by simp
  then have "L dvd n - k" by simp
  then show False using assms by (meson dvd_imp_le le_less_trans diff_le_self linorder_not_le zero_less_diff)
qed

lemma copy_to_back:
  assumes "ring q z L r w" and "unat (uxMessagesWaiting q) < L" and "length x = z"
  shows "\<exists>q'. prvCopyDataToQueue q x queueSEND_TO_BACK = Inr q' \<and> ring q' z L r ((w + 1) mod L) \<and>
    items q' = items q @ [x] \<and> unat (uxMessagesWaiting q') = unat (uxMessagesWaiting q) + 1 \<and>
    q' = q\<lparr>qstore := qstore q', pcWriteTo := pcWriteTo q', uxMessagesWaiting := uxMessagesWaiting q + 1\<rparr>"
proof -
  define n where "n = unat (uxMessagesWaiting q)"
  have q: "0 < z" "r < L" "w < L" "unat (uxItemSize q) = z" "unat (uxLength q) = L"
    "length (qstore q) = L * z" "pcTail q = int (L * z)" "pcReadFrom q = int (r * z)"
    "pcWriteTo q = int (w * z)" "n \<le> L" "w = (r + 1 + n) mod L"
    using assms(1) by (simp_all add: ring_def n_def)
  have nz: "uxItemSize q \<noteq> 0" using q(1,4) by auto
  let ?st = "take (w * z) (qstore q) @ x @ drop (w * z + z) (qstore q)"
  let ?q = "q\<lparr>qstore := ?st, pcWriteTo := int ((w + 1) mod L * z), uxMessagesWaiting := uxMessagesWaiting q + 1\<rparr>"
  have un: "unat (uxMessagesWaiting q + 1) = n + 1"
    using assms(2) unfolding n_def q(5) [symmetric] by (rule unat_inc)
  have run: "prvCopyDataToQueue q x queueSEND_TO_BACK = Inr ?q"
  proof -
    have w: "(if pcTail q \<le> pcWriteTo q + int z then 0 else pcWriteTo q + int z) = int ((w + 1) mod L * z)"
      unfolding q(7,9) by (rule ring_next [OF q(3,1)])
    have sw: "store_write q (pcWriteTo q) x = Inr (q\<lparr>qstore := ?st\<rparr>)"
      unfolding q(9) by (rule store_write_ok [OF q(6,3) assms(3)])
    show ?thesis
      using nz assms(3) w unfolding prvCopyDataToQueue_def Let_def q(4) nat_int
      by (cases "pcTail q \<le> pcWriteTo q + int z") (simp_all add: sw del: of_nat_mult)
  qed
  have "length ?st = L * z" using slot_end [OF q(3), of z] assms(3) q(6) by simp
  moreover have "(w + 1) mod L = (r + 1 + (n + 1)) mod L"
    using q(11) by (simp add: mod_Suc_eq)
  ultimately have ring: "ring ?q z L r ((w + 1) mod L)"
    using q assms(2) un by (simp add: ring_def n_def)
  have "slot ?q z ((r + 1 + k) mod L) = (if k = n then x else slot q z ((r + 1 + k) mod L))" if "k \<le> n" for k
    using slot_after_write [OF q(6,3) _ assms(3), of "(r + 1 + k) mod L" ?q] that q(2,11)
      other_slot [of k n L r] assms(2) by (auto simp: n_def)
  then have "slots ?q z L r (n + 1) = slots q z L r n @ [x]"
    by (simp add: slots_def del: of_nat_mult)
  then have it: "items ?q = items q @ [x]"
    using items_ring [OF ring] items_ring [OF assms(1)] un by (simp add: n_def)
  show ?thesis
    using run ring it un by (intro exI [of _ ?q]) (simp add: n_def)
qed

lemma copy_to_front:
  assumes "ring q z L r w" and "unat (uxMessagesWaiting q) < L" and "length x = z"
    and "pos \<noteq> queueSEND_TO_BACK" and "pos = queueOVERWRITE \<longrightarrow> uxMessagesWaiting q = 0"
  shows "\<exists>q'. prvCopyDataToQueue q x pos = Inr q' \<and> wf_queue q' \<and> items q' = x # items q \<and>
    q' = q\<lparr>qstore := qstore q', pcReadFrom := pcReadFrom q', uxMessagesWaiting := uxMessagesWaiting q + 1\<rparr>"
proof -
  define n where "n = unat (uxMessagesWaiting q)"
  have q: "0 < z" "r < L" "w < L" "unat (uxItemSize q) = z" "unat (uxLength q) = L"
    "length (qstore q) = L * z" "pcTail q = int (L * z)" "pcReadFrom q = int (r * z)"
    "pcWriteTo q = int (w * z)" "n \<le> L" "w = (r + 1 + n) mod L"
    using assms(1) by (simp_all add: ring_def n_def)
  have nz: "uxItemSize q \<noteq> 0" using q(1,4) by auto
  define r' where "r' = (if r = 0 then L - 1 else r - 1)"
  have r': "r' < L" "(r' + 1) mod L = r" using q(2) by (auto simp: r'_def)
  have rz: "(if int (r * z) - int z < 0 then int (L * z) - int z else int (r * z) - int z) = int (r' * z)"
  proof (cases r)
    case 0
    then show ?thesis using q(1,2) by (cases L) (auto simp: r'_def)
  next
    case (Suc k)
    then have "int (r * z) - int z = int (r' * z)" by (simp add: r'_def distrib_right)
    then show ?thesis by (simp only: of_nat_less_0_iff if_False)
  qed
  let ?st = "take (r * z) (qstore q) @ x @ drop (r * z + z) (qstore q)"
  let ?q = "q\<lparr>qstore := ?st, pcReadFrom := int (r' * z), uxMessagesWaiting := uxMessagesWaiting q + 1\<rparr>"
  have un: "unat (uxMessagesWaiting q + 1) = n + 1"
    using assms(2) unfolding n_def q(5) [symmetric] by (rule unat_inc)
  have cnt: "(if pos = queueOVERWRITE \<and> 0 < uxMessagesWaiting q then uxMessagesWaiting q - 1
      else uxMessagesWaiting q) = uxMessagesWaiting q"
    using assms(5) by auto
  have run: "prvCopyDataToQueue q x pos = Inr ?q"
  proof -
    have w: "(if pcReadFrom q - int z < 0 then pcTail q - int z else pcReadFrom q - int z) = int (r' * z)"
      unfolding q(7,8) by (rule rz)
    have sw: "store_write q (pcReadFrom q) x = Inr (q\<lparr>qstore := ?st\<rparr>)"
      unfolding q(8) by (rule store_write_ok [OF q(6,2) assms(3)])
    show ?thesis
      using nz assms(3,4) w unfolding prvCopyDataToQueue_def Let_def q(4) nat_int
      by (cases "pcReadFrom q - int z < 0") (simp_all add: sw cnt del: of_nat_mult)
  qed
  have "length ?st = L * z" using slot_end [OF q(2), of z] assms(3) q(6) by simp
  moreover have "(r + 1 + n) mod L = (r' + 1 + (n + 1)) mod L"
    using r'(2) mod_add_left_eq [of "r' + 1" L "n + 1"] by (simp add: add.commute add.left_commute)
  ultimately have ring: "ring ?q z L r' w"
    using q assms(2) un r'(1) by (simp add: ring_def n_def)
  have first: "slot ?q z r = x"
    using slot_after_write [OF q(6,2,2) assms(3), of ?q] by simp
  have others: "slot ?q z ((r + 1 + k) mod L) = slot q z ((r + 1 + k) mod L)" if "k < n" for k
  proof -
    have "(r + 1 + k) mod L \<noteq> r"
    proof
      assume "(r + 1 + k) mod L = r"
      then have "(r + 1 + k) mod L = (r + 1 + (L - 1)) mod L" using q(2) by simp
      moreover have "k < L - 1" using that assms(2) unfolding n_def by linarith
      ultimately show False using other_slot [of k "L - 1" L r] q(2) by simp
    qed
    then show ?thesis
      using slot_after_write [OF q(6,2) _ assms(3), of "(r + 1 + k) mod L" ?q] q(2) by simp
  qed
  have "slots ?q z L r' (Suc n) = slot ?q z r # slots ?q z L r n"
    using slots_shift [of L ?q z r' n] q(2) r'(2) by simp
  moreover have "slots ?q z L r n = slots q z L r n"
    using others by (simp add: slots_def del: of_nat_mult)
  ultimately have it: "items ?q = x # items q"
    using items_ring [OF ring] items_ring [OF assms(1)] un first by (simp add: n_def)
  show ?thesis
    using run ring_wf [OF ring] it by (intro exI [of _ ?q]) simp
qed

lemma copy_overwrite:
  assumes "ring q z 1 r w" and "length x = z"
  shows "\<exists>q'. prvCopyDataToQueue q x queueOVERWRITE = Inr q' \<and> wf_queue q' \<and> items q' = [x] \<and>
    pxQueueSetContainer q' = pxQueueSetContainer q"
proof (cases "uxMessagesWaiting q = 0")
  case True
  then have "unat (uxMessagesWaiting q) < 1" by simp
  then obtain q' where q': "prvCopyDataToQueue q x queueOVERWRITE = Inr q'" "wf_queue q'"
    "items q' = x # items q"
    "q' = q\<lparr>qstore := qstore q', pcReadFrom := pcReadFrom q', uxMessagesWaiting := uxMessagesWaiting q + 1\<rparr>"
    using copy_to_front [OF assms(1) _ assms(2), of queueOVERWRITE] True by auto
  moreover have "items q = []" using True length_items [of q] by (metis length_0_conv unsigned_0)
  moreover have "pxQueueSetContainer q' = pxQueueSetContainer q"
    using arg_cong [OF q'(4), of pxQueueSetContainer] by simp
  ultimately show ?thesis by simp
next
  case False
  have n: "unat (uxMessagesWaiting q) = 1"
    using assms(1) False unat_gt_0 [of "uxMessagesWaiting q"] by (simp add: ring_def)
  have n1: "uxMessagesWaiting q = 1" using n by (simp add: word_unat_eq_iff)
  have nz: "uxItemSize q \<noteq> 0" using assms(1) by (auto simp: ring_def)
  let ?p = "q\<lparr>uxMessagesWaiting := 0\<rparr>"
  have ring0: "ring ?p z 1 r w" using assms(1) by (simp add: ring_def)
  have "prvCopyDataToQueue q x queueOVERWRITE = prvCopyDataToQueue ?p x queueOVERWRITE"
    using n1 nz by (simp add: prvCopyDataToQueue_def Let_def store_write_def)
  moreover obtain q' where q': "prvCopyDataToQueue ?p x queueOVERWRITE = Inr q'" "wf_queue q'"
    "items q' = x # items ?p"
    "q' = ?p\<lparr>qstore := qstore q', pcReadFrom := pcReadFrom q', uxMessagesWaiting := uxMessagesWaiting ?p + 1\<rparr>"
    using copy_to_front [OF ring0 _ assms(2), of queueOVERWRITE] by auto
  moreover have "pxQueueSetContainer q' = pxQueueSetContainer q"
    using arg_cong [OF q'(4), of pxQueueSetContainer] by simp
  moreover have "items ?p = []" using length_items [of ?p]
    by (metis length_0_conv unsigned_0 queue.select_convs(7) queue.update_convs(7) queue.surjective)
  ultimately show ?thesis by simp
qed

lemma copy_from:
  assumes "ring q z L r w" and "0 < uxMessagesWaiting q"
  shows "\<exists>q'. prvCopyDataFromQueue q = Inr (hd (items q), q') \<and>
    q' = q\<lparr>pcReadFrom := int ((r + 1) mod L * z)\<rparr> \<and>
    ring (q'\<lparr>uxMessagesWaiting := uxMessagesWaiting q - 1\<rparr>) z L ((r + 1) mod L) w \<and>
    items (q'\<lparr>uxMessagesWaiting := uxMessagesWaiting q - 1\<rparr>) = tl (items q)"
proof -
  define n where "n = unat (uxMessagesWaiting q) - 1"
  have n: "unat (uxMessagesWaiting q) = Suc n"
    using assms(2) by (simp add: n_def word_less_nat_alt)
  have q: "0 < z" "r < L" "w < L" "unat (uxItemSize q) = z" "unat (uxLength q) = L"
    "length (qstore q) = L * z" "pcTail q = int (L * z)" "pcReadFrom q = int (r * z)"
    "pcWriteTo q = int (w * z)" "Suc n \<le> L" "w = (r + 1 + Suc n) mod L"
    using assms(1) n by (simp_all add: ring_def)
  have nz: "uxItemSize q \<noteq> 0" using q(1,4) by auto
  let ?r = "(r + 1) mod L"
  let ?q = "q\<lparr>pcReadFrom := int (?r * z)\<rparr>"
  let ?p = "?q\<lparr>uxMessagesWaiting := uxMessagesWaiting q - 1\<rparr>"
  have rl: "?r < L" using q(2) by simp
  have rd: "store_read ?q (int (?r * z)) z = Inr (slot q z ?r)"
    using slot_end [OF rl, of z] q(6) unfolding store_read_def nat_int by (simp add: slot_def)
  have run: "prvCopyDataFromQueue q = Inr (slot q z ?r, ?q)"
  proof -
    have w: "(if pcTail q \<le> pcReadFrom q + int z then 0 else pcReadFrom q + int z) = int (?r * z)"
      unfolding q(7,8) by (rule ring_next [OF q(2,1)])
    show ?thesis
      using nz unfolding prvCopyDataFromQueue_def Let_def q(4) nat_int
      by (simp add: rd [simplified] w [simplified])
  qed
  have un: "unat (uxMessagesWaiting q - 1) = n" using n unat_dec [OF assms(2)] by simp
  have "(r + 1 + Suc n) mod L = (?r + 1 + n) mod L"
    using mod_add_left_eq [of "r + 1" L "1 + n"] by (simp add: add.assoc)
  then have ring: "ring ?p z L ?r w"
    using q un rl by (simp add: ring_def)
  have it: "items q = slot q z ?r # slots q z L ?r n"
    using items_ring [OF assms(1)] slots_shift [of L q z r n] q(2) n by simp
  have "items ?p = slots ?p z L ?r n" using items_ring [OF ring] un by simp
  also have "\<dots> = slots q z L ?r n" by (simp add: slots_def slot_def)
  finally show ?thesis using run ring it by (intro exI [of _ ?q]) simp
qed

section \<open>The contract of a bounded list\<close>

text \<open>
  \<open>post\<close> appends an item unless the list is full and tells which; \<open>fetch\<close> takes the first one.
\<close>

locale bounded_fifo =
  fixes good :: "'s \<Rightarrow> bool"
    and content :: "'s \<Rightarrow> 'i list"
    and capacity :: "'s \<Rightarrow> nat"
    and valid :: "'s \<Rightarrow> 'i \<Rightarrow> bool"
    and post :: "'i \<Rightarrow> 's \<Rightarrow> (bool \<times> 's) result"
    and fetch :: "'s \<Rightarrow> ('i option \<times> 's) result"
  assumes post_room: "good s \<Longrightarrow> valid s x \<Longrightarrow> length (content s) < capacity s \<Longrightarrow>
      \<exists>s'. post x s = Inr (True, s') \<and> good s' \<and> content s' = content s @ [x] \<and>
        capacity s' = capacity s \<and> valid s' = valid s"
    and post_full: "good s \<Longrightarrow> valid s x \<Longrightarrow> \<not> length (content s) < capacity s \<Longrightarrow>
      post x s = Inr (False, s)"
    and fetch_item: "good s \<Longrightarrow> content s \<noteq> [] \<Longrightarrow>
      \<exists>s'. fetch s = Inr (Some (hd (content s)), s') \<and> good s' \<and> content s' = tl (content s) \<and>
        capacity s' = capacity s \<and> valid s' = valid s"
    and fetch_empty: "good s \<Longrightarrow> content s = [] \<Longrightarrow> fetch s = Inr (None, s)"

text \<open>
  Several parties post and fetch: tasks and interrupts. Each call of a run is made by a party, \<open>Some x\<close>
  for posting \<open>x\<close> and \<open>None\<close> for fetching. The result of a run: the items accepted and the
  items fetched, in order, and the state at the end.
\<close>

fun calls :: "('w \<Rightarrow> 'i \<Rightarrow> 's \<Rightarrow> (bool \<times> 's) result) \<Rightarrow> ('w \<Rightarrow> 's \<Rightarrow> ('i option \<times> 's) result) \<Rightarrow>
    ('w \<times> 'i option) list \<Rightarrow> 's \<Rightarrow> ('i list \<times> 'i list \<times> 's) result" where
  "calls post fetch [] s = Inr ([], [], s)"
| "calls post fetch ((w, Some x) # cs) s = bindr (post w x s) (\<lambda>(ok, s).
     bindr (calls post fetch cs s) (\<lambda>(acc, got, s). Inr (if ok then x # acc else acc, got, s)))"
| "calls post fetch ((w, None) # cs) s = bindr (fetch w s) (\<lambda>(item, s).
     bindr (calls post fetch cs s) (\<lambda>(acc, got, s).
       Inr (acc, case item of None \<Rightarrow> got | Some y \<Rightarrow> y # got, s)))"

locale shared_fifo =
  fixes good :: "'s \<Rightarrow> bool"
    and content :: "'s \<Rightarrow> 'i list"
    and capacity :: "'s \<Rightarrow> nat"
    and valid :: "'s \<Rightarrow> 'i \<Rightarrow> bool"
    and post :: "'w \<Rightarrow> 'i \<Rightarrow> 's \<Rightarrow> (bool \<times> 's) result"
    and fetch :: "'w \<Rightarrow> 's \<Rightarrow> ('i option \<times> 's) result"
  assumes each: "bounded_fifo good content capacity valid (post w) (fetch w)"
begin

lemmas post_room = bounded_fifo.post_room [OF each]
  and post_full = bounded_fifo.post_full [OF each]
  and fetch_item = bounded_fifo.fetch_item [OF each]
  and fetch_empty = bounded_fifo.fetch_empty [OF each]

lemma calls_fifo:
  "good s \<Longrightarrow> \<forall>w x. (w, Some x) \<in> set cs \<longrightarrow> valid s x \<Longrightarrow>
    \<exists>acc got s'. calls post fetch cs s = Inr (acc, got, s') \<and> good s' \<and> capacity s' = capacity s \<and>
      content s @ acc = got @ content s' \<and> (length (content s) \<le> capacity s \<longrightarrow> length (content s') \<le> capacity s')"
proof (induction cs arbitrary: s)
  case (Cons c cs)
  obtain w i where c: "c = (w, i)" by (cases c)
  have later: "\<exists>acc got s'. calls post fetch cs t = Inr (acc, got, s') \<and> good s' \<and> capacity s' = capacity s \<and>
      content t @ acc = got @ content s' \<and> (length (content t) \<le> capacity s \<longrightarrow> length (content s') \<le> capacity s)"
    if "good t" "valid t = valid s" "capacity t = capacity s" for t
  proof -
    have v: "\<forall>w x. (w, Some x) \<in> set cs \<longrightarrow> valid t x" using Cons.prems(2) that(2) by simp
    show ?thesis using Cons.IH [OF that(1) v] that(3) by auto
  qed
  show ?case
  proof (cases i)
    case (Some x)
    then have v: "valid s x" using Cons.prems(2) c by simp
    show ?thesis
    proof (cases "length (content s) < capacity s")
      case True
      obtain s1 where s1: "post w x s = Inr (True, s1)" "good s1" "content s1 = content s @ [x]"
        "capacity s1 = capacity s" "valid s1 = valid s"
        using post_room [OF Cons.prems(1) v True] by blast
      show ?thesis using later [OF s1(2,5,4)] s1(1,3) Some c True by auto
    next
      case False
      show ?thesis using later [OF Cons.prems(1)] post_full [OF Cons.prems(1) v False] Some c by auto
    qed
  next
    case None
    show ?thesis
    proof (cases "content s = []")
      case False
      obtain s1 where s1: "fetch w s = Inr (Some (hd (content s)), s1)" "good s1" "content s1 = tl (content s)"
        "capacity s1 = capacity s" "valid s1 = valid s"
        using fetch_item [OF Cons.prems(1) False] by blast
      obtain acc got s2 where r: "calls post fetch cs s1 = Inr (acc, got, s2)" "good s2" "capacity s2 = capacity s"
        "content s1 @ acc = got @ content s2" "length (content s1) \<le> capacity s \<longrightarrow> length (content s2) \<le> capacity s"
        using later [OF s1(2,5,4)] by blast
      have "content s @ acc = hd (content s) # got @ content s2"
        using r(4) s1(3) False by (metis append_Cons list.collapse)
      then show ?thesis using s1 r None c by auto
    next
      case True
      show ?thesis using later [OF Cons.prems(1)] fetch_empty [OF Cons.prems(1) True] None c by auto
    qed
  qed
qed auto

end

section \<open>Queues provide it\<close>

definition good_queue :: "handle \<Rightarrow> rtos \<Rightarrow> bool" where
  "good_queue a s \<longleftrightarrow> (\<exists>q. queues s a = Some q \<and> wf_queue q \<and> pxQueueSetContainer q = None)"

definition queue_items :: "handle \<Rightarrow> rtos \<Rightarrow> u8 list list" where
  "queue_items a s = items (the (queues s a))"

definition queue_capacity :: "handle \<Rightarrow> rtos \<Rightarrow> nat" where
  "queue_capacity a s = unat (uxLength (the (queues s a)))"

definition fits_queue :: "handle \<Rightarrow> rtos \<Rightarrow> u8 list \<Rightarrow> bool" where
  "fits_queue a s x \<longleftrightarrow> length x = unat (uxItemSize (the (queues s a)))"

lemma queues_set [simp]: "queues (set_queue a q s) = (queues s)(a \<mapsto> q)"
  by (simp add: set_queue_def)

lemma kern_set [simp]: "kern (set_queue a q s) = kern s"
  by (simp add: set_queue_def)

lemma remove_from_event_list:
  "ws \<noteq> [] \<Longrightarrow> \<exists>h k'. xTaskRemoveFromEventList ws k = Inr (h, tl ws, k')"
  by (cases "(ws, k)" rule: xTaskRemoveFromEventList.cases) (auto simp: Let_def)

text \<open>Waking a task changes only the event lists of the queue.\<close>

definition same_ring :: "queue \<Rightarrow> queue \<Rightarrow> bool" where
  "same_ring q q' \<longleftrightarrow> (\<exists>ts tr c d. q' = q\<lparr>xTasksWaitingToSend := ts, xTasksWaitingToReceive := tr,
     cTxLock := c, cRxLock := d\<rparr>)"

lemma same_ring_facts:
  "same_ring q q' \<Longrightarrow> wf_queue q' = wf_queue q \<and> items q' = items q \<and> uxLength q' = uxLength q \<and>
    uxItemSize q' = uxItemSize q \<and> pxQueueSetContainer q' = pxQueueSetContainer q \<and>
    uxMessagesWaiting q' = uxMessagesWaiting q"
  by (auto simp: same_ring_def wf_queue_def ring_def items_def slots_def slot_def)

lemma same_ring_refl: "same_ring q q"
  unfolding same_ring_def
  by (rule exI [of _ "xTasksWaitingToSend q"], rule exI [of _ "xTasksWaitingToReceive q"],
      rule exI [of _ "cTxLock q"], rule exI [of _ "cRxLock q"]) simp

lemma same_ring_receive: "same_ring q (q\<lparr>xTasksWaitingToReceive := ws\<rparr>)"
  unfolding same_ring_def
  by (rule exI [of _ "xTasksWaitingToSend q"], rule exI [of _ ws],
      rule exI [of _ "cTxLock q"], rule exI [of _ "cRxLock q"]) simp

lemma same_ring_send: "same_ring q (q\<lparr>xTasksWaitingToSend := ws\<rparr>)"
  unfolding same_ring_def
  by (rule exI [of _ ws], rule exI [of _ "xTasksWaitingToReceive q"],
      rule exI [of _ "cTxLock q"], rule exI [of _ "cRxLock q"]) simp

lemma same_ring_tx: "same_ring q (q\<lparr>cTxLock := c\<rparr>)"
  unfolding same_ring_def
  by (rule exI [of _ "xTasksWaitingToSend q"], rule exI [of _ "xTasksWaitingToReceive q"],
      rule exI [of _ c], rule exI [of _ "cRxLock q"]) simp

lemma same_ring_rx: "same_ring q (q\<lparr>cRxLock := c\<rparr>)"
  unfolding same_ring_def
  by (rule exI [of _ "xTasksWaitingToSend q"], rule exI [of _ "xTasksWaitingToReceive q"],
      rule exI [of _ "cTxLock q"], rule exI [of _ c]) simp

lemma wake_receiver_ok:
  "\<exists>h q' k'. wake_receiver q k = Inr (h, q', k') \<and> same_ring q q' \<and> cTxLock q' = cTxLock q \<and> cRxLock q' = cRxLock q"
proof (cases "xTasksWaitingToReceive q = []")
  case True
  then show ?thesis by (auto simp: wake_receiver_def same_ring_refl)
next
  case False
  then obtain h k' where "xTaskRemoveFromEventList (xTasksWaitingToReceive q) k =
      Inr (h, tl (xTasksWaitingToReceive q), k')"
    using remove_from_event_list by blast
  then show ?thesis using False by (simp add: wake_receiver_def same_ring_receive)
qed

lemma wake_sender_ok:
  "\<exists>h q' k'. wake_sender q k = Inr (h, q', k') \<and> same_ring q q' \<and> cTxLock q' = cTxLock q \<and> cRxLock q' = cRxLock q"
proof (cases "xTasksWaitingToSend q = []")
  case True
  then show ?thesis by (auto simp: wake_sender_def same_ring_refl)
next
  case False
  then obtain h k' where "xTaskRemoveFromEventList (xTasksWaitingToSend q) k =
      Inr (h, tl (xTasksWaitingToSend q), k')"
    using remove_from_event_list by blast
  then show ?thesis using False by (simp add: wake_sender_def same_ring_send)
qed

text \<open>The two copy operations on a well-formed queue.\<close>

lemma post_copy:
  assumes "wf_queue q" and "length x = unat (uxItemSize q)" and "uxMessagesWaiting q < uxLength q"
  shows "\<exists>q'. prvCopyDataToQueue q x queueSEND_TO_BACK = Inr q' \<and> wf_queue q' \<and>
    items q' = items q @ [x] \<and> uxLength q' = uxLength q \<and> uxItemSize q' = uxItemSize q \<and>
    pxQueueSetContainer q' = pxQueueSetContainer q \<and> cTxLock q' = cTxLock q \<and>
    uxMessagesWaiting q' = uxMessagesWaiting q + 1 \<and> xTasksWaitingToReceive q' = xTasksWaitingToReceive q \<and>
    xTasksWaitingToSend q' = xTasksWaitingToSend q"
proof -
  obtain z L r w where r: "ring q z L r w" using wf_ring [OF assms(1)] by blast
  then have "unat (uxMessagesWaiting q) < L" "length x = z"
    using assms(2,3) by (simp_all add: ring_def word_less_nat_alt)
  then obtain q' where q': "prvCopyDataToQueue q x queueSEND_TO_BACK = Inr q'"
    "ring q' z L r ((w + 1) mod L)" "items q' = items q @ [x]"
    "q' = q\<lparr>qstore := qstore q', pcWriteTo := pcWriteTo q', uxMessagesWaiting := uxMessagesWaiting q + 1\<rparr>"
    using copy_to_back [OF r] by blast
  have "uxLength q' = uxLength q \<and> uxItemSize q' = uxItemSize q \<and>
    pxQueueSetContainer q' = pxQueueSetContainer q \<and> cTxLock q' = cTxLock q \<and>
    uxMessagesWaiting q' = uxMessagesWaiting q + 1 \<and> xTasksWaitingToReceive q' = xTasksWaitingToReceive q \<and>
    xTasksWaitingToSend q' = xTasksWaitingToSend q"
    using arg_cong [OF q'(4), of xTasksWaitingToSend] arg_cong [OF q'(4), of uxMessagesWaiting] arg_cong [OF q'(4), of xTasksWaitingToReceive] arg_cong [OF q'(4), of uxLength] arg_cong [OF q'(4), of uxItemSize]
      arg_cong [OF q'(4), of pxQueueSetContainer] arg_cong [OF q'(4), of cTxLock] by simp
  then show ?thesis using q'(1,3) ring_wf [OF q'(2)] by blast
qed

lemma fetch_copy:
  assumes "wf_queue q" and "0 < uxMessagesWaiting q"
  shows "\<exists>q'. prvCopyDataFromQueue q = Inr (hd (items q), q') \<and>
    (let p = q'\<lparr>uxMessagesWaiting := uxMessagesWaiting q - 1\<rparr> in wf_queue p \<and> items p = tl (items q) \<and>
      uxLength p = uxLength q \<and> uxItemSize p = uxItemSize q \<and>
      pxQueueSetContainer p = pxQueueSetContainer q) \<and> (\<exists>r. q' = q\<lparr>pcReadFrom := r\<rparr>)"
proof -
  obtain z L r w where r: "ring q z L r w" using wf_ring [OF assms(1)] by blast
  show ?thesis
    using copy_from [OF r assms(2)] ring_wf by (fastforce simp: Let_def)
qed

lemma items_nonempty: "items q \<noteq> [] \<longleftrightarrow> 0 < uxMessagesWaiting q"
  by (metis length_greater_0_conv length_items unsigned_0 word_less_nat_alt)

definition post_task :: "handle \<Rightarrow> u8 list \<Rightarrow> rtos \<Rightarrow> (bool \<times> rtos) result" where
  "post_task a x s = xQueueGenericSend0 (Some a) (Some x) queueSEND_TO_BACK s"

definition fetch_task :: "handle \<Rightarrow> rtos \<Rightarrow> (u8 list option \<times> rtos) result" where
  "fetch_task a s = xQueueReceive0 (Some a) True s"

definition post_isr :: "handle \<Rightarrow> u8 list \<Rightarrow> rtos \<Rightarrow> (bool \<times> rtos) result" where
  "post_isr a x s = bindr (xQueueGenericSendFromISR (Some a) (Some x) queueSEND_TO_BACK False s)
     (\<lambda>(ok, _, s). Inr (ok, s))"

definition fetch_isr :: "handle \<Rightarrow> rtos \<Rightarrow> (u8 list option \<times> rtos) result" where
  "fetch_isr a s = bindr (xQueueReceiveFromISR (Some a) True False s) (\<lambda>(item, _, s). Inr (item, s))"

lemmas queue_views = good_queue_def queue_items_def queue_capacity_def fits_queue_def

interpretation task_fifo: bounded_fifo "good_queue a" "queue_items a" "queue_capacity a" "fits_queue a"
  "post_task a" "fetch_task a" for a :: handle
proof unfold_locales
  fix s x assume g: "good_queue a s" and v: "fits_queue a s x"
  then obtain q where q: "queues s a = Some q" "wf_queue q" "pxQueueSetContainer q = None"
    by (auto simp: good_queue_def)
  have lx: "length x = unat (uxItemSize q)" using v q by (simp add: fits_queue_def)
  { assume "length (queue_items a s) < queue_capacity a s"
    then have room: "uxMessagesWaiting q < uxLength q" using q by (simp add: queue_views word_less_nat_alt)
    obtain q1 where q1: "prvCopyDataToQueue q x queueSEND_TO_BACK = Inr q1" "wf_queue q1"
      "items q1 = items q @ [x]" "uxLength q1 = uxLength q" "uxItemSize q1 = uxItemSize q"
      "pxQueueSetContainer q1 = None"
      using post_copy [OF q(2) lx room] q(3) by auto
    obtain h q2 k where q2: "wake_receiver q1 (kern s) = Inr (h, q2, k)" "same_ring q1 q2"
      using wake_receiver_ok by blast
    have "post_task a x s = Inr (True, (set_queue a q2 (set_queue a q1 s))\<lparr>kern := if h then yield_within_api k else k\<rparr>)"
      using q q1 q2(1) room
      by (simp add: post_task_def xQueueGenericSend0_def send_critical_def get_queue_def send_args_ok_def)
    then show "\<exists>s'. post_task a x s = Inr (True, s') \<and> good_queue a s' \<and>
        queue_items a s' = queue_items a s @ [x] \<and> queue_capacity a s' = queue_capacity a s \<and>
        fits_queue a s' = fits_queue a s"
      using same_ring_facts [OF q2(2)] q q1 by (simp add: queue_views fun_eq_iff) }
  { assume "\<not> length (queue_items a s) < queue_capacity a s"
    then have "\<not> uxMessagesWaiting q < uxLength q" using q by (simp add: queue_views word_less_nat_alt)
    then show "post_task a x s = Inr (False, s)"
      using q by (simp add: post_task_def xQueueGenericSend0_def send_critical_def get_queue_def send_args_ok_def) }
next
  fix s assume g: "good_queue a s"
  then obtain q where q: "queues s a = Some q" "wf_queue q" "pxQueueSetContainer q = None"
    by (auto simp: good_queue_def)
  { assume "queue_items a s \<noteq> []"
    then have ne: "0 < uxMessagesWaiting q" using q by (simp add: queue_views items_nonempty)
    obtain q1 where q1: "prvCopyDataFromQueue q = Inr (hd (items q), q1)"
      "let p = q1\<lparr>uxMessagesWaiting := uxMessagesWaiting q - 1\<rparr> in wf_queue p \<and> items p = tl (items q) \<and>
        uxLength p = uxLength q \<and> uxItemSize p = uxItemSize q \<and> pxQueueSetContainer p = None"
      using fetch_copy [OF q(2) ne] q(3) by auto
    obtain h q2 k where q2: "wake_sender (q1\<lparr>uxMessagesWaiting := uxMessagesWaiting q - 1\<rparr>) (kern s) = Inr (h, q2, k)"
      "same_ring (q1\<lparr>uxMessagesWaiting := uxMessagesWaiting q - 1\<rparr>) q2"
      using wake_sender_ok by blast
    have "fetch_task a s = Inr (Some (hd (items q)), (set_queue a q2 s)\<lparr>kern := if h then yield_within_api k else k\<rparr>)"
      using q q1(1) q2(1) ne
      by (simp add: fetch_task_def xQueueReceive0_def receive_critical_def get_queue_def Let_def)
    then show "\<exists>s'. fetch_task a s = Inr (Some (hd (queue_items a s)), s') \<and> good_queue a s' \<and>
        queue_items a s' = tl (queue_items a s) \<and> queue_capacity a s' = queue_capacity a s \<and>
        fits_queue a s' = fits_queue a s"
      using same_ring_facts [OF q2(2)] q q1(2) by (simp add: queue_views fun_eq_iff Let_def) }
  { assume "queue_items a s = []"
    then have "\<not> 0 < uxMessagesWaiting q" using q items_nonempty [of q] by (simp add: queue_views)
    then show "fetch_task a s = Inr (None, s)"
      using q by (simp add: fetch_task_def xQueueReceive0_def receive_critical_def get_queue_def) }
qed

text \<open>
  The functions for interrupts provide it too, also while a task holds the queue locked: the
  hand-over to a waiting task is then left to \<open>prvUnlockQueue\<close>.
\<close>

interpretation isr_fifo: bounded_fifo "good_queue a" "queue_items a" "queue_capacity a" "fits_queue a"
  "post_isr a" "fetch_isr a" for a :: handle
proof unfold_locales
  fix s x assume g: "good_queue a s" and v: "fits_queue a s x"
  then obtain q where q: "queues s a = Some q" "wf_queue q" "pxQueueSetContainer q = None"
    by (auto simp: good_queue_def)
  have lx: "length x = unat (uxItemSize q)" using v q by (simp add: fits_queue_def)
  { assume "length (queue_items a s) < queue_capacity a s"
    then have room: "uxMessagesWaiting q < uxLength q" using q by (simp add: queue_views word_less_nat_alt)
    obtain q1 where q1: "prvCopyDataToQueue q x queueSEND_TO_BACK = Inr q1" "wf_queue q1"
      "items q1 = items q @ [x]" "uxLength q1 = uxLength q" "uxItemSize q1 = uxItemSize q"
      "pxQueueSetContainer q1 = None" "cTxLock q1 = cTxLock q"
      using post_copy [OF q(2) lx room] q(3) by auto
    have "\<exists>q2 k. post_isr a x s = Inr (True, (set_queue a q2 s)\<lparr>kern := k\<rparr>) \<and> same_ring q1 q2"
    proof (cases "cTxLock q = queueUNLOCKED")
      case True
      obtain h q2 k where q2: "wake_receiver q1 (kern s) = Inr (h, q2, k)" "same_ring q1 q2"
        using wake_receiver_ok by blast
      have "post_isr a x s = Inr (True, (set_queue a q2 s)\<lparr>kern := k\<rparr>)"
        using q q1 q2(1) room True
        by (simp add: post_isr_def xQueueGenericSendFromISR_def get_queue_def send_args_ok_def Let_def)
      then show ?thesis using q2(2) by blast
    next
      case False
      have "post_isr a x s = Inr (True, (set_queue a (q1\<lparr>cTxLock := cTxLock q + 1\<rparr>) s)\<lparr>kern := kern s\<rparr>)"
        using q q1 room False
        by (simp add: post_isr_def xQueueGenericSendFromISR_def get_queue_def send_args_ok_def Let_def
            set_queue_def)
      then show ?thesis using same_ring_tx by blast
    qed
    then obtain q2 k where r: "post_isr a x s = Inr (True, (set_queue a q2 s)\<lparr>kern := k\<rparr>)" "same_ring q1 q2"
      by blast
    then show "\<exists>s'. post_isr a x s = Inr (True, s') \<and> good_queue a s' \<and>
        queue_items a s' = queue_items a s @ [x] \<and> queue_capacity a s' = queue_capacity a s \<and>
        fits_queue a s' = fits_queue a s"
      using same_ring_facts [OF r(2)] q q1 by (simp add: queue_views fun_eq_iff) }
  { assume "\<not> length (queue_items a s) < queue_capacity a s"
    then have "\<not> uxMessagesWaiting q < uxLength q" using q by (simp add: queue_views word_less_nat_alt)
    then show "post_isr a x s = Inr (False, s)"
      using q by (simp add: post_isr_def xQueueGenericSendFromISR_def get_queue_def send_args_ok_def) }
next
  fix s assume g: "good_queue a s"
  then obtain q where q: "queues s a = Some q" "wf_queue q" "pxQueueSetContainer q = None"
    by (auto simp: good_queue_def)
  { assume "queue_items a s \<noteq> []"
    then have ne: "0 < uxMessagesWaiting q" using q by (simp add: queue_views items_nonempty)
    obtain q1 r where q1: "prvCopyDataFromQueue q = Inr (hd (items q), q1)" "q1 = q\<lparr>pcReadFrom := r\<rparr>"
      "let p = q1\<lparr>uxMessagesWaiting := uxMessagesWaiting q - 1\<rparr> in wf_queue p \<and> items p = tl (items q) \<and>
        uxLength p = uxLength q \<and> uxItemSize p = uxItemSize q \<and> pxQueueSetContainer p = None"
      using fetch_copy [OF q(2) ne] q(3) by auto
    let ?p = "q1\<lparr>uxMessagesWaiting := uxMessagesWaiting q - 1\<rparr>"
    have "\<exists>q2 k. fetch_isr a s = Inr (Some (hd (items q)), (set_queue a q2 s)\<lparr>kern := k\<rparr>) \<and> same_ring ?p q2"
    proof (cases "cRxLock q = queueUNLOCKED")
      case True
      obtain h q2 k where q2: "wake_sender ?p (kern s) = Inr (h, q2, k)" "same_ring ?p q2"
        using wake_sender_ok by blast
      have "fetch_isr a s = Inr (Some (hd (items q)), (set_queue a q2 s)\<lparr>kern := k\<rparr>)"
        using q q1(1) q2(1) ne True
        by (simp add: fetch_isr_def xQueueReceiveFromISR_def get_queue_def Let_def)
      then show ?thesis using q2(2) by blast
    next
      case False
      have "fetch_isr a s = Inr (Some (hd (items q)), (set_queue a (?p\<lparr>cRxLock := cRxLock q + 1\<rparr>) s)\<lparr>kern := kern s\<rparr>)"
        using q q1(1) ne False
        by (simp add: fetch_isr_def xQueueReceiveFromISR_def get_queue_def Let_def set_queue_def)
      then show ?thesis using same_ring_rx by blast
    qed
    then obtain q2 k where f: "fetch_isr a s = Inr (Some (hd (items q)), (set_queue a q2 s)\<lparr>kern := k\<rparr>)"
      "same_ring ?p q2" by blast
    then show "\<exists>s'. fetch_isr a s = Inr (Some (hd (queue_items a s)), s') \<and> good_queue a s' \<and>
        queue_items a s' = tl (queue_items a s) \<and> queue_capacity a s' = queue_capacity a s \<and>
        fits_queue a s' = fits_queue a s"
      using same_ring_facts [OF f(2)] q q1(3) by (simp add: queue_views fun_eq_iff Let_def) }
  { assume "queue_items a s = []"
    then have "\<not> 0 < uxMessagesWaiting q" using q items_nonempty [of q] by (simp add: queue_views)
    then show "fetch_isr a s = Inr (None, s)"
      using q by (simp add: fetch_isr_def xQueueReceiveFromISR_def get_queue_def) }
qed

text \<open>Together: a queue shared by tasks and interrupts.\<close>

datatype caller = Task | Interrupt

definition post_by :: "handle \<Rightarrow> caller \<Rightarrow> u8 list \<Rightarrow> rtos \<Rightarrow> (bool \<times> rtos) result" where
  "post_by a w = (case w of Task \<Rightarrow> post_task a | Interrupt \<Rightarrow> post_isr a)"

definition fetch_by :: "handle \<Rightarrow> caller \<Rightarrow> rtos \<Rightarrow> (u8 list option \<times> rtos) result" where
  "fetch_by a w = (case w of Task \<Rightarrow> fetch_task a | Interrupt \<Rightarrow> fetch_isr a)"

interpretation queue_fifo: shared_fifo "good_queue a" "queue_items a" "queue_capacity a" "fits_queue a"
  "post_by a" "fetch_by a" for a :: handle
proof (rule shared_fifo.intro)
  show "bounded_fifo (good_queue a) (queue_items a) (queue_capacity a) (fits_queue a) (post_by a w) (fetch_by a w)"
    for w
    by (cases w) (simp_all add: post_by_def fetch_by_def task_fifo.bounded_fifo_axioms isr_fifo.bounded_fifo_axioms)
qed

section \<open>A new queue\<close>

lemma create_ring:
  assumes "0 < qlen" and "0 < item_size" and "unat qlen * unat item_size < 4294967296"
    and "malloc (qlen * item_size) = Some (a, junk)" and "length junk = unat qlen * unat item_size"
  shows "\<exists>s'. xQueueGenericCreate malloc qlen item_size qtype s = Inr (Some a, s') \<and> good_queue a s' \<and>
    queue_items a s' = [] \<and> queue_capacity a s' = unat qlen \<and> fits_queue a s' = (\<lambda>x. length x = unat item_size)"
proof -
  let ?q = "\<lparr>qstore = junk, pcWriteTo = 0, pcTail = int (unat (qlen * item_size)),
    pcReadFrom = int (unat ((qlen - 1) * item_size)), xTasksWaitingToSend = [],
    xTasksWaitingToReceive = [], uxMessagesWaiting = 0, uxLength = qlen, uxItemSize = item_size,
    cRxLock = queueUNLOCKED, cTxLock = queueUNLOCKED, pxQueueSetContainer = None, ucQueueType = qtype\<rparr>"
  have nz: "qlen \<noteq> 0" "item_size \<noteq> 0" using assms(1,2) by auto
  have pos: "0 < unat qlen" "0 < unat item_size" using nz unat_gt_0 by blast+
  have m: "unat (qlen * item_size) = unat qlen * unat item_size"
    using assms(3) by (simp add: unat_word_ariths)
  have l: "unat (qlen - 1) = unat qlen - 1" by (rule unat_dec [OF assms(1)])
  have le: "(unat qlen - 1) * unat item_size \<le> unat qlen * unat item_size" by (rule mult_le_mono1) simp
  have r: "unat ((qlen - 1) * item_size) = (unat qlen - 1) * unat item_size"
    using le_less_trans [OF le assms(3)] unfolding unat_word_ariths(2) l by simp
  have "ring ?q (unat item_size) (unat qlen) (unat qlen - 1) 0"
    unfolding ring_def using pos assms(5) m r by (simp del: of_nat_mult)
  then have wf: "wf_queue ?q" by (rule ring_wf)
  have it: "items ?q = []" by (simp add: items_def slots_def)
  have sz: "queue_size_in_bytes qlen item_size = qlen * item_size"
    using nz by (simp add: queue_size_in_bytes_def)
  have "xQueueGenericCreate malloc qlen item_size qtype s = Inr (Some a, s\<lparr>queues := (queues s)(a \<mapsto> ?q)\<rparr>)"
    using nz assms(4)
    by (simp add: xQueueGenericCreate_def sz prvInitialiseNewQueue_def xQueueGenericReset_def get_queue_def
        set_queue_def reset_pointers_def Let_def)
  then show ?thesis using wf it by (simp add: queue_views fun_eq_iff)
qed

section \<open>Properties\<close>

text \<open>
  C2: a queue made by \<open>xQueueGenericCreate\<close> for \<open>qlen\<close> items of \<open>item_size\<close> bytes, of a size that
  fits 32 bits, is first-in first-out however tasks and interrupts send and receive: no call
  faults, the items accepted are, in their order, the items received followed by those still in
  the queue, and there are never more of those than \<open>qlen\<close>.
\<close>

theorem queue_fifo_order:
  assumes "0 < qlen" and "0 < item_size" and "unat qlen * unat item_size < 4294967296"
    and "malloc (qlen * item_size) = Some (a, junk)" and "length junk = unat qlen * unat item_size"
    and "\<forall>w x. (w, Some x) \<in> set cs \<longrightarrow> length x = unat item_size"
  shows "\<exists>s1 acc got s2. xQueueGenericCreate malloc qlen item_size qtype s = Inr (Some a, s1) \<and>
    calls (post_by a) (fetch_by a) cs s1 = Inr (acc, got, s2) \<and>
    acc = got @ queue_items a s2 \<and> length (queue_items a s2) \<le> unat qlen"
proof -
  obtain s1 where s1: "xQueueGenericCreate malloc qlen item_size qtype s = Inr (Some a, s1)" "good_queue a s1"
    "queue_items a s1 = []" "queue_capacity a s1 = unat qlen" "fits_queue a s1 = (\<lambda>x. length x = unat item_size)"
    using create_ring [where malloc = malloc and s = s and qtype = qtype, OF assms(1-5)] by blast
  have "\<forall>w x. (w, Some x) \<in> set cs \<longrightarrow> fits_queue a s1 x" using assms(6) s1(5) by simp
  from queue_fifo.calls_fifo [OF s1(2) this] s1(3,4)
  obtain acc got s2 where "calls (post_by a) (fetch_by a) cs s1 = Inr (acc, got, s2)"
    "acc = got @ queue_items a s2" "length (queue_items a s2) \<le> unat qlen" by auto
  then show ?thesis using s1(1) by blast
qed

definition sample_rtos :: rtos where
  "sample_rtos = \<lparr>queues = Map.empty, kern = sample_kernel\<rparr>"

theorem queue_fifo_order_witness:
  "\<exists>s1 acc got s2. xQueueGenericCreate (\<lambda>n. Some (7, replicate 8 0)) 2 4 0 sample_rtos = Inr (Some 7, s1) \<and>
    calls (post_by 7) (fetch_by 7) [(Interrupt, Some [1, 2, 3, 4]), (Task, Some [5, 6, 7, 8]),
      (Interrupt, Some [9, 9, 9, 9]), (Task, None)] s1 = Inr (acc, got, s2) \<and>
    acc = got @ queue_items 7 s2 \<and> length (queue_items 7 s2) \<le> unat (2 :: u32)"
  by (rule queue_fifo_order [where item_size = 4 and junk = "replicate 8 0"]) auto

lemma send_front:
  assumes "good_queue a s" and "fits_queue a s x" and "length (queue_items a s) < queue_capacity a s"
  shows "\<exists>s'. xQueueGenericSend0 (Some a) (Some x) queueSEND_TO_FRONT s = Inr (True, s') \<and>
    good_queue a s' \<and> queue_items a s' = x # queue_items a s"
proof -
  obtain q where q: "queues s a = Some q" "wf_queue q" "pxQueueSetContainer q = None"
    using assms(1) by (auto simp: good_queue_def)
  obtain z L r w where ring: "ring q z L r w" using wf_ring [OF q(2)] by blast
  have lx: "length x = z" using assms(2) q(1) ring by (simp add: fits_queue_def ring_def)
  have L: "queue_capacity a s = L" using q(1) ring by (simp add: queue_capacity_def ring_def)
  have n: "unat (uxMessagesWaiting q) < L" using assms(3) q(1) ring by (simp add: queue_views ring_def)
  then have room: "uxMessagesWaiting q < uxLength q" using ring by (simp add: ring_def word_less_nat_alt)
  obtain q1 where q1: "prvCopyDataToQueue q x queueSEND_TO_FRONT = Inr q1" "wf_queue q1"
    "items q1 = x # items q" "q1 = q\<lparr>qstore := qstore q1, pcReadFrom := pcReadFrom q1, uxMessagesWaiting := uxMessagesWaiting q + 1\<rparr>"
    using copy_to_front [OF ring n lx, of queueSEND_TO_FRONT] by auto
  have c: "pxQueueSetContainer q1 = None" using arg_cong [OF q1(4), of pxQueueSetContainer] q(3) by simp
  obtain h q2 k where q2: "wake_receiver q1 (kern s) = Inr (h, q2, k)" "same_ring q1 q2"
    using wake_receiver_ok by blast
  have "xQueueGenericSend0 (Some a) (Some x) queueSEND_TO_FRONT s =
      Inr (True, (set_queue a q2 (set_queue a q1 s))\<lparr>kern := if h then yield_within_api k else k\<rparr>)"
    using q q1(1) c q2(1) room
    by (simp add: xQueueGenericSend0_def send_critical_def get_queue_def send_args_ok_def)
  then show ?thesis using same_ring_facts [OF q2(2)] q q1 c by (simp add: queue_views)
qed

lemma send_overwrite:
  assumes "good_queue a s" and "fits_queue a s x" and "queue_capacity a s = 1"
  shows "\<exists>s'. xQueueGenericSend0 (Some a) (Some x) queueOVERWRITE s = Inr (True, s') \<and>
    good_queue a s' \<and> queue_items a s' = [x]"
proof -
  obtain q where q: "queues s a = Some q" "wf_queue q" "pxQueueSetContainer q = None"
    using assms(1) by (auto simp: good_queue_def)
  obtain z L r w where ring: "ring q z L r w" using wf_ring [OF q(2)] by blast
  have lx: "length x = z" using assms(2) q(1) ring by (simp add: fits_queue_def ring_def)
  have L: "queue_capacity a s = L" using q(1) ring by (simp add: queue_capacity_def ring_def)
  have one: "L = 1" "uxLength q = 1" using assms(3) L ring by (simp_all add: ring_def word_unat_eq_iff)
  obtain q1 where q1: "prvCopyDataToQueue q x queueOVERWRITE = Inr q1" "wf_queue q1" "items q1 = [x]"
      "pxQueueSetContainer q1 = pxQueueSetContainer q"
    using copy_overwrite [OF ring [unfolded one(1)] lx] by blast
  obtain h q2 k where q2: "wake_receiver q1 (kern s) = Inr (h, q2, k)" "same_ring q1 q2"
    using wake_receiver_ok by blast
  have "xQueueGenericSend0 (Some a) (Some x) queueOVERWRITE s =
      Inr (True, (set_queue a q2 (set_queue a q1 s))\<lparr>kern := if h then yield_within_api k else k\<rparr>)"
    using q q1(1,4) q2(1) one
    by (simp add: xQueueGenericSend0_def send_critical_def get_queue_def send_args_ok_def)
  then show ?thesis using same_ring_facts [OF q2(2)] q q1 by (simp add: queue_views)
qed

lemma peek_keeps:
  assumes "good_queue a s" and "queue_items a s \<noteq> []"
  shows "\<exists>s'. xQueuePeek0 (Some a) True s = Inr (Some (hd (queue_items a s)), s') \<and>
    good_queue a s' \<and> queue_items a s' = queue_items a s"
proof -
  obtain q where q: "queues s a = Some q" "wf_queue q" "pxQueueSetContainer q = None"
    using assms(1) by (auto simp: good_queue_def)
  have ne: "0 < uxMessagesWaiting q" using assms(2) q(1) by (simp add: queue_views items_nonempty)
  obtain q1 r where q1: "prvCopyDataFromQueue q = Inr (hd (items q), q1)" "q1 = q\<lparr>pcReadFrom := r\<rparr>"
    using fetch_copy [OF q(2) ne] by blast
  have restored: "q1\<lparr>pcReadFrom := pcReadFrom q\<rparr> = q" using q1(2) by simp
  obtain h q2 k where q2: "wake_receiver q (kern s) = Inr (h, q2, k)" "same_ring q q2"
    using wake_receiver_ok by blast
  have "xQueuePeek0 (Some a) True s =
      Inr (Some (hd (items q)), (set_queue a q2 s)\<lparr>kern := if h then yield_within_api k else k\<rparr>)"
    using q q1(1) restored q2(1) ne by (simp add: xQueuePeek0_def peek_critical_def get_queue_def)
  then show ?thesis using same_ring_facts [OF q2(2)] q by (simp add: queue_views)
qed

text \<open>
  \<open>xQueueSendToFront\<close> puts the item before all others, \<open>xQueueOverwrite\<close> leaves a queue of length
  one with exactly the new item, full or not, and \<open>xQueuePeek\<close> returns the first item and
  leaves the contents as they were.
\<close>

theorem queue_positions:
  assumes "good_queue a s" and "fits_queue a s x"
  shows "(length (queue_items a s) < queue_capacity a s \<longrightarrow>
      (\<exists>s'. xQueueGenericSend0 (Some a) (Some x) queueSEND_TO_FRONT s = Inr (True, s') \<and>
        good_queue a s' \<and> queue_items a s' = x # queue_items a s)) \<and>
    (queue_capacity a s = 1 \<longrightarrow>
      (\<exists>s'. xQueueGenericSend0 (Some a) (Some x) queueOVERWRITE s = Inr (True, s') \<and>
        good_queue a s' \<and> queue_items a s' = [x])) \<and>
    (queue_items a s \<noteq> [] \<longrightarrow>
      (\<exists>s'. xQueuePeek0 (Some a) True s = Inr (Some (hd (queue_items a s)), s') \<and>
        good_queue a s' \<and> queue_items a s' = queue_items a s))"
  using send_front [OF assms] send_overwrite [OF assms] peek_keeps [OF assms(1)] by blast

text \<open>A queue of length 1 that holds one item.\<close>

definition sample_mailbox :: rtos where
  "sample_mailbox = sample_rtos\<lparr>queues := [7 \<mapsto> \<lparr>qstore = [1, 2], pcWriteTo = 0, pcTail = 2, pcReadFrom = 0,
     xTasksWaitingToSend = [], xTasksWaitingToReceive = [], uxMessagesWaiting = 1, uxLength = 1, uxItemSize = 2,
     cRxLock = queueUNLOCKED, cTxLock = queueUNLOCKED, pxQueueSetContainer = None, ucQueueType = 0\<rparr>]\<rparr>"

lemma sample_mailbox_good:
  "good_queue 7 sample_mailbox" "fits_queue 7 sample_mailbox [8, 9]" "queue_capacity 7 sample_mailbox = 1"
  by (auto simp: good_queue_def fits_queue_def queue_capacity_def sample_mailbox_def wf_queue_def ring_def)

theorem queue_positions_witness:
  "\<exists>s'. xQueueGenericSend0 (Some 7) (Some [8, 9]) queueOVERWRITE sample_mailbox = Inr (True, s') \<and>
    good_queue 7 s' \<and> queue_items 7 s' = [[8, 9]]"
  using queue_positions [OF sample_mailbox_good(1,2)] sample_mailbox_good(3) by blast

end
