(* ===== verification/FreeRTOS_Time.thy ===== *)
theory FreeRTOS_Time
  imports FreeRTOS_Kernel
begin

text \<open>
  Time in the scheduler: the delayed lists, which are swapped when the tick count wraps, implement
  one list of tasks with the number of ticks each still has to wait. A tick takes one from each
  number and releases the tasks that reach zero.
\<close>

section \<open>The list of waiting times\<close>

text \<open>\<open>waits k\<close>: the delayed tasks and the ticks left, in the order in which they will wake.\<close>

definition ticks_left :: "kernel \<Rightarrow> u32 \<times> tcb \<Rightarrow> nat \<times> tcb" where
  "ticks_left k = (\<lambda>(v, t). (unat (v - xTickCount k), t))"

definition waits :: "kernel \<Rightarrow> (nat \<times> tcb) list" where
  "waits k = map (ticks_left k) (pxDelayedTaskList k @ pxOverflowDelayedTaskList k)"

definition due :: "nat \<times> tcb \<Rightarrow> bool" where
  "due = (\<lambda>(d, t). d = 1)"

definition one_less :: "nat \<times> tcb \<Rightarrow> nat \<times> tcb" where
  "one_less = (\<lambda>(d, t). (d - 1, t))"

text \<open>
  The invariant of the delayed lists: in wake order, the first list after now, the second one
  after the next wrap, and no task of the first before \<open>xNextTaskUnblockTime\<close>.
\<close>

definition timing_ok :: "kernel \<Rightarrow> bool" where
  "timing_ok k \<longleftrightarrow>
    sorted_wrt (\<lambda>a b. fst a \<le> fst b) (pxDelayedTaskList k) \<and>
    sorted_wrt (\<lambda>a b. fst a \<le> fst b) (pxOverflowDelayedTaskList k) \<and>
    (\<forall>a \<in> set (pxDelayedTaskList k). xTickCount k < fst a \<and> xNextTaskUnblockTime k \<le> fst a) \<and>
    (\<forall>a \<in> set (pxOverflowDelayedTaskList k). fst a < xTickCount k)"

lemma unat_step: "v \<noteq> n \<Longrightarrow> unat (v - (n + 1)) = unat (v - n) - 1" for v n :: u32
proof -
  assume "v \<noteq> n"
  then have "v - n \<noteq> 0" by simp
  then have "unat (v - n - 1) = unat (v - n) - 1" by unat_arith
  then show ?thesis by (simp add: algebra_simps)
qed

lemma next_after: "n < v \<Longrightarrow> v \<le> n + 1 \<longleftrightarrow> v = n + 1" for v n :: u32
  by unat_arith

lemma due_iff: "unat (v - n) = 1 \<longleftrightarrow> v = n + 1" for v n :: u32
proof -
  have "unat (v - n) = 1 \<longleftrightarrow> v - n = 1" by (simp add: word_unat_eq_iff)
  also have "\<dots> \<longleftrightarrow> v = n + 1" by (auto simp: algebra_simps)
  finally show ?thesis .
qed

lemma ticks_left_step:
  assumes "fst a \<noteq> xTickCount k" and "xTickCount k' = xTickCount k + 1"
  shows "ticks_left k' a = one_less (ticks_left k a)"
  using assms unat_step [of "fst a" "xTickCount k"] by (cases a) (simp add: ticks_left_def one_less_def)

lemma due_ticks_left: "due (ticks_left k a) \<longleftrightarrow> fst a = xTickCount k + 1"
  using due_iff [of "fst a" "xTickCount k"] by (cases a) (simp add: ticks_left_def due_def)

section \<open>The loop over the delayed list\<close>

text \<open>What the loop does not touch.\<close>

lemma add_ready_fields [fields]:
  "pxDelayedTaskList (prvAddTaskToReadyList t k) = pxDelayedTaskList k"
  "pxOverflowDelayedTaskList (prvAddTaskToReadyList t k) = pxOverflowDelayedTaskList k"
  "xTickCount (prvAddTaskToReadyList t k) = xTickCount k"
  "xNextTaskUnblockTime (prvAddTaskToReadyList t k) = xNextTaskUnblockTime k"
  "pxCurrentTCB (prvAddTaskToReadyList t k) = pxCurrentTCB k"
  "xSuspendedTaskList (prvAddTaskToReadyList t k) = xSuspendedTaskList k"
  "xPendingReadyList (prvAddTaskToReadyList t k) = xPendingReadyList k"
  "uxSchedulerSuspended (prvAddTaskToReadyList t k) = uxSchedulerSuspended k"
  "uxPendedTicks (prvAddTaskToReadyList t k) = uxPendedTicks k"
  "xYieldPending (prvAddTaskToReadyList t k) = xYieldPending k"
  "xNumOfOverflows (prvAddTaskToReadyList t k) = xNumOfOverflows k"
  by (simp_all add: prvAddTaskToReadyList_def)

lemma unblock_delayed_eq:
  "unblock_delayed now ds k =
    (let woken = map snd (takeWhile (\<lambda>a. fst a \<le> now) ds); rest = dropWhile (\<lambda>a. fst a \<le> now) ds in
     (\<exists>t \<in> set woken. uxPriority (pxCurrentTCB k) \<le> uxPriority t, woken,
      (fold prvAddTaskToReadyList woken k)
        \<lparr>pxDelayedTaskList := rest,
         xNextTaskUnblockTime := (case rest of [] \<Rightarrow> portMAX_DELAY | a # _ \<Rightarrow> fst a)\<rparr>))"
proof (induction now ds k rule: unblock_delayed.induct)
  case (2 now v t ds k)
  show ?case
  proof (cases "now < v")
    case False
    have one: "prvAddTaskToReadyList u (k\<lparr>pxDelayedTaskList := xs\<rparr>) =
        (prvAddTaskToReadyList u k)\<lparr>pxDelayedTaskList := xs\<rparr>" for u xs k
      by (simp add: prvAddTaskToReadyList_def)
    have comm: "fold prvAddTaskToReadyList us (k\<lparr>pxDelayedTaskList := xs\<rparr>) =
        (fold prvAddTaskToReadyList us k)\<lparr>pxDelayedTaskList := xs\<rparr>" for us xs k
      by (induction us arbitrary: k) (simp_all add: one)
    show ?thesis using False 2 [OF False] by (simp add: Let_def one comm fields not_less)
  qed simp
qed simp

section \<open>One tick\<close>

lemma takeWhile_none: "\<forall>a \<in> set ys. \<not> P a \<Longrightarrow> takeWhile P (xs @ ys) = takeWhile P xs"
  by (induction xs) (auto simp: takeWhile_eq_Nil_iff)

lemma dropWhile_none: "\<forall>a \<in> set ys. \<not> P a \<Longrightarrow> dropWhile P (xs @ ys) = dropWhile P xs @ ys"
  by (induction xs) (auto simp: dropWhile_eq_self_iff)

lemma while_cong:
  "\<forall>a \<in> set xs. P a = Q a \<Longrightarrow> takeWhile P xs = takeWhile Q xs \<and> dropWhile P xs = dropWhile Q xs"
  by (induction xs) auto

text \<open>The two lists after a tick that makes the count \<open>now\<close>, before tasks are released.\<close>

definition current_delayed :: "kernel \<Rightarrow> (u32 \<times> tcb) list" where
  "current_delayed k = (if xTickCount k + 1 = 0 then pxOverflowDelayedTaskList k else pxDelayedTaskList k)"

definition later_delayed :: "kernel \<Rightarrow> (u32 \<times> tcb) list" where
  "later_delayed k = (if xTickCount k + 1 = 0 then [] else pxOverflowDelayedTaskList k)"

lemma no_wrap_less: "n + 1 \<noteq> 0 \<Longrightarrow> n < n + 1" for n :: u32
  by unat_arith

lemma wrap_max: "n + 1 = 0 \<Longrightarrow> \<not> n < v" for n v :: u32
  by unat_arith

lemma timing_lists:
  assumes "timing_ok k"
  shows "pxDelayedTaskList k @ pxOverflowDelayedTaskList k = current_delayed k @ later_delayed k"
    and "\<forall>a \<in> set (current_delayed k). fst a \<noteq> xTickCount k \<and>
      (fst a \<le> xTickCount k + 1 \<longleftrightarrow> fst a = xTickCount k + 1)"
    and "\<forall>a \<in> set (later_delayed k). fst a < xTickCount k \<and> fst a \<noteq> xTickCount k + 1"
    and "sorted_wrt (\<lambda>a b. fst a \<le> fst b) (current_delayed k)"
    and "sorted_wrt (\<lambda>a b. fst a \<le> fst b) (later_delayed k)"
proof -
  have d: "\<forall>a \<in> set (pxDelayedTaskList k). xTickCount k < fst a"
    and o: "\<forall>a \<in> set (pxOverflowDelayedTaskList k). fst a < xTickCount k"
    using assms by (auto simp: timing_ok_def)
  have empty: "pxDelayedTaskList k = []" if "xTickCount k + 1 = 0"
    using d wrap_max [OF that] by (cases "pxDelayedTaskList k") auto
  show "pxDelayedTaskList k @ pxOverflowDelayedTaskList k = current_delayed k @ later_delayed k"
    using empty by (simp add: current_delayed_def later_delayed_def)
  show "\<forall>a \<in> set (current_delayed k). fst a \<noteq> xTickCount k \<and>
      (fst a \<le> xTickCount k + 1 \<longleftrightarrow> fst a = xTickCount k + 1)"
  proof (cases "xTickCount k + 1 = 0")
    case True
    then show ?thesis using o by (auto simp: current_delayed_def)
  next
    case False
    then show ?thesis using d next_after by (fastforce simp: current_delayed_def)
  qed
  show "\<forall>a \<in> set (later_delayed k). fst a < xTickCount k \<and> fst a \<noteq> xTickCount k + 1"
  proof (cases "xTickCount k + 1 = 0")
    case False
    then show ?thesis using o no_wrap_less [OF False] by (auto simp: later_delayed_def)
  qed (simp add: later_delayed_def)
  show "sorted_wrt (\<lambda>a b. fst a \<le> fst b) (current_delayed k)"
    and "sorted_wrt (\<lambda>a b. fst a \<le> fst b) (later_delayed k)"
    using assms by (simp_all add: timing_ok_def current_delayed_def later_delayed_def)
qed

text \<open>The effect of a tick on the kernel.\<close>

definition released :: "kernel \<Rightarrow> tcb list" where
  "released k = map snd (takeWhile (\<lambda>a. fst a = xTickCount k + 1) (current_delayed k))"

lemma head_least:
  "sorted_wrt (\<lambda>a b. fst a \<le> fst b) xs \<Longrightarrow> b \<in> set xs \<Longrightarrow>
    (case xs of [] \<Rightarrow> m | a # _ \<Rightarrow> fst a) \<le> (fst b :: u32)"
  by (cases xs) auto

lemma switch_delayed_lists:
  assumes "timing_ok k"
  shows "\<exists>n u. (if xTickCount k + 1 = 0 then taskSWITCH_DELAYED_LISTS (k\<lparr>xTickCount := xTickCount k + 1\<rparr>)
      else Inr (k\<lparr>xTickCount := xTickCount k + 1\<rparr>)) =
    Inr (k\<lparr>xTickCount := xTickCount k + 1, pxDelayedTaskList := current_delayed k,
           pxOverflowDelayedTaskList := later_delayed k, xNumOfOverflows := n, xNextTaskUnblockTime := u\<rparr>) \<and>
    (\<forall>a \<in> set (current_delayed k). u \<le> fst a)"
proof (cases "xTickCount k + 1 = 0")
  case True
  let ?u = "case current_delayed k of [] \<Rightarrow> portMAX_DELAY | a # _ \<Rightarrow> fst a"
  have "\<not> xTickCount k < fst a" for a :: "u32 \<times> tcb" by (rule wrap_max [OF True])
  then have empty: "pxDelayedTaskList k = []"
    using assms by (cases "pxDelayedTaskList k") (auto simp: timing_ok_def)
  have le: "\<forall>a \<in> set (current_delayed k). ?u \<le> fst a"
    using head_least [OF timing_lists(4) [OF assms]] by blast
  have "taskSWITCH_DELAYED_LISTS (k\<lparr>xTickCount := xTickCount k + 1\<rparr>) =
    Inr (k\<lparr>xTickCount := xTickCount k + 1, pxDelayedTaskList := current_delayed k,
           pxOverflowDelayedTaskList := later_delayed k, xNumOfOverflows := xNumOfOverflows k + 1,
           xNextTaskUnblockTime := ?u\<rparr>)"
    using empty True by (simp add: taskSWITCH_DELAYED_LISTS_def prvResetNextTaskUnblockTime_def
        current_delayed_def later_delayed_def split: list.split)
  then show ?thesis using le True by auto
next
  case False
  have "k\<lparr>xTickCount := xTickCount k + 1\<rparr> =
    k\<lparr>xTickCount := xTickCount k + 1, pxDelayedTaskList := current_delayed k,
      pxOverflowDelayedTaskList := later_delayed k, xNumOfOverflows := xNumOfOverflows k,
      xNextTaskUnblockTime := xNextTaskUnblockTime k\<rparr>"
    using False by (simp add: current_delayed_def later_delayed_def)
  moreover have "\<forall>a \<in> set (current_delayed k). xNextTaskUnblockTime k \<le> fst a"
    using assms False by (simp add: timing_ok_def current_delayed_def)
  ultimately show ?thesis using False by metis
qed

lemma fold_ready_update:
  "fold prvAddTaskToReadyList ts (k\<lparr>xTickCount := n, pxDelayedTaskList := ds, pxOverflowDelayedTaskList := os,
      xNumOfOverflows := m, xNextTaskUnblockTime := u\<rparr>) =
    (fold prvAddTaskToReadyList ts k)\<lparr>xTickCount := n, pxDelayedTaskList := ds, pxOverflowDelayedTaskList := os,
      xNumOfOverflows := m, xNextTaskUnblockTime := u\<rparr>"
proof (induction ts arbitrary: k)
  case (Cons t ts)
  have "prvAddTaskToReadyList t (k\<lparr>xTickCount := n, pxDelayedTaskList := ds, pxOverflowDelayedTaskList := os,
      xNumOfOverflows := m, xNextTaskUnblockTime := u\<rparr>) =
    (prvAddTaskToReadyList t k)\<lparr>xTickCount := n, pxDelayedTaskList := ds, pxOverflowDelayedTaskList := os,
      xNumOfOverflows := m, xNextTaskUnblockTime := u\<rparr>"
    by (simp add: prvAddTaskToReadyList_def)
  then show ?case using Cons.IH [of "prvAddTaskToReadyList t k"] by simp
qed simp

lemma tick_effect:
  assumes "timing_ok k" and "uxSchedulerSuspended k = 0"
  shows "\<exists>switch n u. xTaskIncrementTick k = Inr (switch, released k,
      (fold prvAddTaskToReadyList (released k) k)
        \<lparr>xTickCount := xTickCount k + 1,
         pxDelayedTaskList := dropWhile (\<lambda>a. fst a = xTickCount k + 1) (current_delayed k),
         pxOverflowDelayedTaskList := later_delayed k, xNumOfOverflows := n,
         xNextTaskUnblockTime := u\<rparr>) \<and>
    (\<forall>a \<in> set (dropWhile (\<lambda>a. fst a = xTickCount k + 1) (current_delayed k)). u \<le> fst a)"
proof -
  let ?now = "xTickCount k + 1" and ?D = "current_delayed k"
  let ?rest = "dropWhile (\<lambda>a. fst a = ?now) ?D"
  obtain n u where k1: "(if ?now = 0 then taskSWITCH_DELAYED_LISTS (k\<lparr>xTickCount := ?now\<rparr>)
      else Inr (k\<lparr>xTickCount := ?now\<rparr>)) =
    Inr (k\<lparr>xTickCount := ?now, pxDelayedTaskList := ?D, pxOverflowDelayedTaskList := later_delayed k,
           xNumOfOverflows := n, xNextTaskUnblockTime := u\<rparr>)" (is "_ = Inr ?k1")
    and u: "\<forall>a \<in> set ?D. u \<le> fst a"
    using switch_delayed_lists [OF assms(1)] by blast
  have eq: "takeWhile (\<lambda>a. fst a \<le> ?now) ?D = takeWhile (\<lambda>a. fst a = ?now) ?D"
      "dropWhile (\<lambda>a. fst a \<le> ?now) ?D = ?rest"
    using while_cong [of ?D "\<lambda>a. fst a \<le> ?now" "\<lambda>a. fst a = ?now"] timing_lists(2) [OF assms(1)]
    by blast+
  define u' where "u' = (if u \<le> ?now then case ?rest of [] \<Rightarrow> portMAX_DELAY | a # _ \<Rightarrow> fst a else u)"
  have loop: "\<exists>switch. (if xNextTaskUnblockTime ?k1 \<le> ?now then unblock_delayed ?now (pxDelayedTaskList ?k1) ?k1
      else (False, [], ?k1)) = (switch, released k,
        (fold prvAddTaskToReadyList (released k) ?k1)\<lparr>pxDelayedTaskList := ?rest, xNextTaskUnblockTime := u'\<rparr>)"
  proof (cases "u \<le> ?now")
    case True
    then show ?thesis using eq by (simp add: unblock_delayed_eq Let_def released_def u'_def)
  next
    case False
    then have "\<forall>a \<in> set ?D. fst a \<noteq> ?now" using u by auto
    then have "takeWhile (\<lambda>a. fst a = ?now) ?D = []" "?rest = ?D"
      by (cases ?D; simp add: takeWhile_eq_Nil_iff)+
    then show ?thesis using False by (auto simp: released_def u'_def)
  qed
  then obtain switch where sw: "(if xNextTaskUnblockTime ?k1 \<le> ?now
      then unblock_delayed ?now (pxDelayedTaskList ?k1) ?k1 else (False, [], ?k1)) = (switch, released k,
        (fold prvAddTaskToReadyList (released k) ?k1)\<lparr>pxDelayedTaskList := ?rest, xNextTaskUnblockTime := u'\<rparr>)"
    by blast
  have le: "\<forall>a \<in> set ?rest. u' \<le> fst a"
  proof (cases "u \<le> ?now")
    case True
    have "sorted_wrt (\<lambda>a b. fst a \<le> fst b) ?rest"
      using timing_lists(4) [OF assms(1)] by (rule sorted_wrt_dropWhile)
    then show ?thesis using True head_least [of ?rest] by (simp add: u'_def)
  next
    case False
    then show ?thesis using u by (auto simp: u'_def dest: set_dropWhileD)
  qed
  have same: "(fold prvAddTaskToReadyList (released k) ?k1)\<lparr>pxDelayedTaskList := ?rest, xNextTaskUnblockTime := u'\<rparr> =
      (fold prvAddTaskToReadyList (released k) k)\<lparr>xTickCount := ?now, pxDelayedTaskList := ?rest,
        pxOverflowDelayedTaskList := later_delayed k, xNumOfOverflows := n, xNextTaskUnblockTime := u'\<rparr>"
    by (rule kernel.equality) (simp_all add: fold_ready_update)
  have "\<exists>switch. xTaskIncrementTick k = Inr (switch, released k, (fold prvAddTaskToReadyList (released k) k)
        \<lparr>xTickCount := ?now, pxDelayedTaskList := ?rest, pxOverflowDelayedTaskList := later_delayed k,
         xNumOfOverflows := n, xNextTaskUnblockTime := u'\<rparr>)"
    using k1 sw assms(2) unfolding xTaskIncrementTick_def Let_def same by auto
  then show ?thesis using le by blast
qed

text \<open>The tick as an operation on the list of waiting times.\<close>

definition tick_waits :: "(nat \<times> tcb) list \<Rightarrow> tcb list \<times> (nat \<times> tcb) list" where
  "tick_waits ws = (map snd (takeWhile due ws), map one_less (dropWhile due ws))"

lemma waits_split:
  "timing_ok k \<Longrightarrow> waits k = map (ticks_left k) (current_delayed k) @ map (ticks_left k) (later_delayed k)"
  by (simp add: waits_def timing_lists(1))

lemma later_not_due: "timing_ok k \<Longrightarrow> \<forall>a \<in> set (map (ticks_left k) (later_delayed k)). \<not> due a"
  using timing_lists(3) [of k] by (auto simp: due_ticks_left)

lemma due_ticks_left_o: "due \<circ> ticks_left k = (\<lambda>a. fst a = xTickCount k + 1)"
  by (simp add: fun_eq_iff due_ticks_left)

lemma released_waits: "timing_ok k \<Longrightarrow> released k = map snd (takeWhile due (waits k))"
proof -
  assume ok: "timing_ok k"
  have "takeWhile due (waits k) = map (ticks_left k)
      (takeWhile (\<lambda>a. fst a = xTickCount k + 1) (current_delayed k))"
    using later_not_due [OF ok]
    by (simp only: waits_split [OF ok] takeWhile_none takeWhile_map due_ticks_left_o)
  moreover have "snd \<circ> ticks_left k = snd" by (auto simp: ticks_left_def)
  ultimately show ?thesis by (simp add: released_def)
qed

lemma waits_after:
  assumes "timing_ok k" and "xTickCount k' = xTickCount k + 1"
    and "pxDelayedTaskList k' = dropWhile (\<lambda>a. fst a = xTickCount k + 1) (current_delayed k)"
    and "pxOverflowDelayedTaskList k' = later_delayed k"
  shows "waits k' = map one_less (dropWhile due (waits k))"
proof -
  have step: "map (ticks_left k') xs = map one_less (map (ticks_left k) xs)"
    if "\<forall>a \<in> set xs. fst a \<noteq> xTickCount k" for xs
    using that ticks_left_step [OF _ assms(2)] by simp
  have ne: "\<forall>a \<in> set (dropWhile (\<lambda>a. fst a = xTickCount k + 1) (current_delayed k) @ later_delayed k).
      fst a \<noteq> xTickCount k"
    using timing_lists(2,3) [OF assms(1)] by (auto dest!: set_dropWhileD)
  have "dropWhile due (waits k) = map (ticks_left k)
      (dropWhile (\<lambda>a. fst a = xTickCount k + 1) (current_delayed k) @ later_delayed k)"
    using later_not_due [OF assms(1)]
    by (simp add: waits_split [OF assms(1)] dropWhile_none dropWhile_map due_ticks_left_o)
  then show ?thesis
    unfolding waits_def assms(3,4) by (simp only: step [OF ne])
qed

lemma rest_later:
  assumes "timing_ok k" and "a \<in> set (dropWhile (\<lambda>a. fst a = xTickCount k + 1) (current_delayed k))"
  shows "xTickCount k + 1 < fst a"
proof -
  let ?now = "xTickCount k + 1" and ?D = "current_delayed k"
  have s: "sorted_wrt (\<lambda>a b. fst a \<le> fst b) (dropWhile (\<lambda>a. fst a = ?now) ?D)"
    using timing_lists(4) [OF assms(1)] by (rule sorted_wrt_dropWhile)
  obtain b ds where b: "dropWhile (\<lambda>a. fst a = ?now) ?D = b # ds"
    using assms(2) by (cases "dropWhile (\<lambda>a. fst a = ?now) ?D") auto
  have "fst b \<noteq> ?now" using hd_dropWhile [of "\<lambda>a. fst a = ?now" ?D] b by simp
  moreover have "b \<in> set ?D" using b set_dropWhileD [of b "\<lambda>a. fst a = ?now" ?D] by simp
  ultimately have "\<not> fst b \<le> ?now" using timing_lists(2) [OF assms(1)] by blast
  moreover have "fst b \<le> fst a" using s assms(2) unfolding b by auto
  ultimately show ?thesis by simp
qed

lemma tick_refines:
  assumes "timing_ok k" and "uxSchedulerSuspended k = 0"
  shows "\<exists>switch ts k'. xTaskIncrementTick k = Inr (switch, ts, k') \<and> timing_ok k' \<and>
    (ts, waits k') = tick_waits (waits k) \<and> xTickCount k' = xTickCount k + 1 \<and>
    uxSchedulerSuspended k' = 0 \<and>
    uxTopReadyPriority k' = uxTopReadyPriority (fold prvAddTaskToReadyList ts k) \<and>
    pxReadyTasksLists k' = pxReadyTasksLists (fold prvAddTaskToReadyList ts k)"
proof -
  let ?now = "xTickCount k + 1"
  have susp: "uxSchedulerSuspended (fold prvAddTaskToReadyList ts k) = uxSchedulerSuspended k" for ts
    by (induction ts arbitrary: k) (simp_all add: fields)
  obtain switch n u where r: "xTaskIncrementTick k = Inr (switch, released k,
      (fold prvAddTaskToReadyList (released k) k)\<lparr>xTickCount := ?now,
         pxDelayedTaskList := dropWhile (\<lambda>a. fst a = ?now) (current_delayed k),
         pxOverflowDelayedTaskList := later_delayed k, xNumOfOverflows := n, xNextTaskUnblockTime := u\<rparr>)"
      (is "_ = Inr (_, _, ?k')")
    and u: "\<forall>a \<in> set (dropWhile (\<lambda>a. fst a = ?now) (current_delayed k)). u \<le> fst a"
    using tick_effect [OF assms] by blast
  have w: "waits ?k' = map one_less (dropWhile due (waits k))"
    by (rule waits_after [OF assms(1)]) simp_all
  have "\<forall>a \<in> set (later_delayed k). fst a < ?now"
  proof (cases "?now = 0")
    case False
    then show ?thesis using timing_lists(3) [OF assms(1)] no_wrap_less [OF False] by auto
  qed (simp add: later_delayed_def)
  then have ok: "timing_ok ?k'"
    using u rest_later [OF assms(1)] timing_lists(4,5) [OF assms(1)] sorted_wrt_dropWhile
    by (simp add: timing_ok_def)
  show ?thesis using r w ok released_waits [OF assms(1)] susp assms(2)
    by (intro exI [of _ switch] exI [of _ "released k"] exI [of _ ?k']) (simp add: tick_waits_def)
qed

section \<open>The order of the waiting times\<close>

definition by_wait :: "(nat \<times> tcb) list \<Rightarrow> bool" where
  "by_wait ws \<longleftrightarrow> sorted_wrt (\<lambda>a b. fst a \<le> fst b) ws \<and> (\<forall>a \<in> set ws. 0 < fst a)"

lemma left_order:
  fixes a b n :: u32
  shows "n < a \<Longrightarrow> a \<le> b \<Longrightarrow> unat (a - n) \<le> unat (b - n)"
    and "a \<le> b \<Longrightarrow> b < n \<Longrightarrow> unat (a - n) \<le> unat (b - n)"
    and "n < a \<Longrightarrow> b < n \<Longrightarrow> unat (a - n) \<le> unat (b - n)"
  by unat_arith+

lemma waits_by_wait:
  assumes "timing_ok k"
  shows "by_wait (waits k)"
proof -
  let ?n = "xTickCount k" and ?D = "pxDelayedTaskList k" and ?O = "pxOverflowDelayedTaskList k"
  have D: "sorted_wrt (\<lambda>a b. fst a \<le> fst b) ?D" "\<forall>a \<in> set ?D. ?n < fst a"
    and O: "sorted_wrt (\<lambda>a b. fst a \<le> fst b) ?O" "\<forall>a \<in> set ?O. fst a < ?n"
    using assms by (simp_all add: timing_ok_def)
  let ?R = "\<lambda>a b. fst (ticks_left k a) \<le> fst (ticks_left k b)"
  have fl: "fst (ticks_left k a) = unat (fst a - ?n)" for a by (cases a) (simp add: ticks_left_def)
  have "sorted_wrt ?R ?D"
    by (rule sorted_wrt_mono_rel [OF _ D(1)]) (use D(2) left_order(1) in \<open>auto simp: fl\<close>)
  moreover have "sorted_wrt ?R ?O"
    by (rule sorted_wrt_mono_rel [OF _ O(1)]) (use O(2) left_order(2) in \<open>auto simp: fl\<close>)
  moreover have "\<forall>a \<in> set ?D. \<forall>b \<in> set ?O. ?R a b"
    using D(2) O(2) left_order(3) by (auto simp: fl)
  ultimately have "sorted_wrt ?R (?D @ ?O)" by (simp add: sorted_wrt_append)
  moreover have "\<forall>a \<in> set (?D @ ?O). 0 < fst (ticks_left k a)"
    using D(2) O(2) by (auto simp: fl unat_gt_0)
  ultimately show ?thesis unfolding by_wait_def waits_def sorted_wrt_map set_map ball_simps by blast
qed

lemma by_wait_due:
  "by_wait ws \<Longrightarrow> takeWhile due ws = filter due ws \<and> dropWhile due ws = filter (\<lambda>a. \<not> due a) ws"
proof (induction ws)
  case (Cons a ws)
  have ws: "by_wait ws" using Cons.prems by (simp add: by_wait_def)
  show ?case
  proof (cases "due a")
    case True
    then show ?thesis using Cons.IH [OF ws] by simp
  next
    case False
    then have "1 < fst a" using Cons.prems by (cases a) (auto simp: by_wait_def due_def)
    then have "\<forall>b \<in> set (a # ws). \<not> due b" using Cons.prems by (auto simp: by_wait_def due_def)
    then show ?thesis by (simp add: filter_empty_conv)
  qed
qed simp

text \<open>So a tick releases all tasks that are due and brings the others one tick closer.\<close>

lemma tick_waits_filter:
  "by_wait ws \<Longrightarrow> tick_waits ws = (map snd (filter due ws), map one_less (filter (\<lambda>a. \<not> due a) ws))"
  by (simp add: tick_waits_def by_wait_due)

section \<open>Starting a delay\<close>

lemma timing_ok_cong:
  "pxDelayedTaskList k' = pxDelayedTaskList k \<Longrightarrow> pxOverflowDelayedTaskList k' = pxOverflowDelayedTaskList k \<Longrightarrow>
    xTickCount k' = xTickCount k \<Longrightarrow> xNextTaskUnblockTime k' = xNextTaskUnblockTime k \<Longrightarrow>
    timing_ok k' = timing_ok k"
  by (simp add: timing_ok_def)

lemma waits_cong:
  "pxDelayedTaskList k' = pxDelayedTaskList k \<Longrightarrow> pxOverflowDelayedTaskList k' = pxOverflowDelayedTaskList k \<Longrightarrow>
    xTickCount k' = xTickCount k \<Longrightarrow> waits k' = waits k"
  by (simp add: waits_def ticks_left_def)

lemma later_wake: "0 < ticks \<Longrightarrow> \<not> n + ticks < n \<Longrightarrow> n < n + ticks" for n ticks :: u32
  by unat_arith

lemma leave_ready_fields [fields]:
  "pxDelayedTaskList (leave_ready t k) = pxDelayedTaskList k"
  "pxOverflowDelayedTaskList (leave_ready t k) = pxOverflowDelayedTaskList k"
  "xTickCount (leave_ready t k) = xTickCount k"
  "xNextTaskUnblockTime (leave_ready t k) = xNextTaskUnblockTime k"
  "pxCurrentTCB (leave_ready t k) = pxCurrentTCB k"
  "xSuspendedTaskList (leave_ready t k) = xSuspendedTaskList k"
  "xPendingReadyList (leave_ready t k) = xPendingReadyList k"
  "uxSchedulerSuspended (leave_ready t k) = uxSchedulerSuspended k"
  "uxPendedTicks (leave_ready t k) = uxPendedTicks k"
  "xYieldPending (leave_ready t k) = xYieldPending k"
  "pxReadyTasksLists (leave_ready t k) = (pxReadyTasksLists k)
     (uxPriority t := uxListRemove t (pxReadyTasksLists k (uxPriority t)))"
  by (simp_all add: leave_ready_def Let_def remove_ready_def portRESET_READY_PRIORITY_def)

lemma delay_cases:
  assumes "\<not> (ticks = portMAX_DELAY \<and> indefinitely)"
  shows "prvAddCurrentTaskToDelayedList ticks indefinitely k =
    (let t = pxCurrentTCB k; w = xTickCount k + ticks; k1 = leave_ready t k in
     if w < xTickCount k then k1\<lparr>pxOverflowDelayedTaskList := insert_by fst (w, t) (pxOverflowDelayedTaskList k)\<rparr>
     else k1\<lparr>pxDelayedTaskList := insert_by fst (w, t) (pxDelayedTaskList k),
       xNextTaskUnblockTime := if w < xNextTaskUnblockTime k then w else xNextTaskUnblockTime k\<rparr>)"
  unfolding prvAddCurrentTaskToDelayedList_def Let_def if_not_P [OF assms] by (simp add: fields)

lemma delay_waits:
  assumes "timing_ok k" and "0 < ticks" and "\<not> (ticks = portMAX_DELAY \<and> indefinitely)"
  defines "k' \<equiv> prvAddCurrentTaskToDelayedList ticks indefinitely k"
  shows "timing_ok k'" and "set (waits k') = insert (unat ticks, pxCurrentTCB k) (set (waits k))"
proof -
  let ?t = "pxCurrentTCB k" and ?n = "xTickCount k" and ?w = "xTickCount k + ticks"
  note k' = delay_cases [OF assms(3), of k, folded k'_def, unfolded Let_def]
  have later: "?n < ?w" if "\<not> ?w < ?n" by (rule later_wake [OF assms(2) that])
  show "timing_ok k'"
    using assms(1) later sorted_insert_by [of fst] unfolding k' timing_ok_def
    by (cases "?w < ?n") (auto simp: fields)
  have "xTickCount k' = ?n" by (simp add: k' fields)
  then have "ticks_left k' = ticks_left k" by (simp add: ticks_left_def)
  moreover have "ticks_left k (?w, ?t) = (unat ticks, ?t)" by (simp add: ticks_left_def)
  ultimately show "set (waits k') = insert (unat ticks, ?t) (set (waits k))"
    unfolding waits_def set_map set_append by (cases "?w < ?n") (auto simp: k' fields)
qed

section \<open>How long a delay takes\<close>

fun tick_run :: "nat \<Rightarrow> kernel \<Rightarrow> kernel result" where
  "tick_run 0 k = Inr k"
| "tick_run (Suc n) k = bindr (xTaskIncrementTick k) (\<lambda>(switch, ts, k). tick_run n k)"

definition is_ready :: "kernel \<Rightarrow> tcb \<Rightarrow> bool" where
  "is_ready k t \<longleftrightarrow> t \<in> set (entries (pxReadyTasksLists k (uxPriority t)))"

lemma is_ready_add: "is_ready (prvAddTaskToReadyList u k) t \<longleftrightarrow> t = u \<or> is_ready k t"
  by (auto simp: is_ready_def prvAddTaskToReadyList_def entries_insert_end)

lemma is_ready_fold: "is_ready (fold prvAddTaskToReadyList ts k) t \<longleftrightarrow> t \<in> set ts \<or> is_ready k t"
  by (induction ts arbitrary: k) (auto simp: is_ready_add)

text \<open>The task \<open>t\<close> waits for \<open>n\<close> more ticks, and is not waiting twice.\<close>

definition waiting :: "kernel \<Rightarrow> nat \<Rightarrow> tcb \<Rightarrow> bool" where
  "waiting k n t \<longleftrightarrow> (n, t) \<in> set (waits k) \<and> (\<forall>d. (d, t) \<in> set (waits k) \<longrightarrow> d = n)"

lemma waiting_tick:
  assumes "timing_ok k" and "uxSchedulerSuspended k = 0" and "waiting k n t"
  shows "\<exists>switch ts k'. xTaskIncrementTick k = Inr (switch, ts, k') \<and> timing_ok k' \<and> uxSchedulerSuspended k' = 0 \<and>
    (is_ready k' t \<longleftrightarrow> is_ready k t \<or> n = 1) \<and> (n \<noteq> 1 \<longrightarrow> waiting k' (n - 1) t)"
proof -
  obtain switch ts k' where k': "xTaskIncrementTick k = Inr (switch, ts, k')" "timing_ok k'"
    "(ts, waits k') = tick_waits (waits k)" "uxSchedulerSuspended k' = 0"
    "pxReadyTasksLists k' = pxReadyTasksLists (fold prvAddTaskToReadyList ts k)"
    using tick_refines [OF assms(1,2)] by blast
  have w: "ts = map snd (filter due (waits k))" "waits k' = map one_less (filter (\<lambda>a. \<not> due a) (waits k))"
    using k'(3) tick_waits_filter [OF waits_by_wait [OF assms(1)]] by simp_all
  have n: "(n, t) \<in> set (waits k)" "\<And>d. (d, t) \<in> set (waits k) \<Longrightarrow> d = n"
    using assms(3) by (auto simp: waiting_def)
  have "t \<in> set ts \<longleftrightarrow> (1, t) \<in> set (waits k)"
    by (auto simp: w(1) due_def image_iff)
  then have ts: "t \<in> set ts \<longleftrightarrow> n = 1" using n by blast
  have r: "is_ready k' t \<longleftrightarrow> is_ready k t \<or> n = 1"
    using is_ready_fold [of ts k t] k'(5) ts by (auto simp: is_ready_def)
  have "waiting k' (n - 1) t" if "n \<noteq> 1"
  proof -
    have "(n - 1, t) = one_less (n, t)" by (simp add: one_less_def)
    moreover have "(n, t) \<in> set (filter (\<lambda>a. \<not> due a) (waits k))"
      using assms(3) that by (simp add: waiting_def due_def)
    ultimately have in': "(n - 1, t) \<in> set (waits k')" unfolding w(2) set_map by blast
    have "d = n - 1" if m: "(d, t) \<in> set (waits k')" for d
    proof -
      obtain a where a: "a \<in> set (waits k)" "(d, t) = one_less a"
        using m unfolding w(2) set_map set_filter by blast
      obtain c u where au: "a = (c, u)" by (rule prod.exhaust)
      have "d = c - 1" "u = t" using a(2) unfolding au one_less_def by simp_all
      then show ?thesis using n(2) a(1) unfolding au by blast
    qed
    then show ?thesis using in' unfolding waiting_def by blast
  qed
  then show ?thesis using k' r by blast
qed

lemma waiting_run:
  assumes "timing_ok k" and "uxSchedulerSuspended k = 0" and "waiting k n t" and "\<not> is_ready k t"
    and "m \<le> n"
  shows "\<exists>k'. tick_run m k = Inr k' \<and> (is_ready k' t \<longleftrightarrow> m = n)"
  using assms
proof (induction m arbitrary: k n)
  case 0
  have "(n, t) \<in> set (waits k)" using 0(3) by (simp add: waiting_def)
  moreover have "\<forall>a \<in> set (waits k). 0 < fst a" using waits_by_wait [OF 0(1)] by (simp add: by_wait_def)
  ultimately have "0 < n" by force
  then show ?case using 0(4) by simp
next
  case (Suc m)
  obtain switch ts k1 where k1: "xTaskIncrementTick k = Inr (switch, ts, k1)" "timing_ok k1"
    "uxSchedulerSuspended k1 = 0" "is_ready k1 t \<longleftrightarrow> is_ready k t \<or> n = 1" "n \<noteq> 1 \<longrightarrow> waiting k1 (n - 1) t"
    using waiting_tick [OF Suc.prems(1-3)] by blast
  show ?case
  proof (cases "n = 1")
    case True
    then show ?thesis using k1 Suc.prems(5) by auto
  next
    case False
    then have "waiting k1 (n - 1) t" "\<not> is_ready k1 t" "m \<le> n - 1"
      using k1 Suc.prems(4,5) by auto
    then obtain k2 where "tick_run m k1 = Inr k2" "is_ready k2 t \<longleftrightarrow> m = n - 1"
      using Suc.IH [OF k1(2,3)] by blast
    moreover have "m = n - 1 \<longleftrightarrow> Suc m = n" using Suc.prems(5) by auto
    ultimately show ?thesis using k1(1) by auto
  qed
qed

section \<open>Properties\<close>

lemma resume_quiet:
  assumes "uxSchedulerSuspended k = 1" and "xPendingReadyList k = []" and "uxPendedTicks k = 0"
  shows "\<exists>y k'. xTaskResumeAll k = Inr (y, [], k') \<and> uxSchedulerSuspended k' = 0 \<and>
    pxDelayedTaskList k' = pxDelayedTaskList k \<and> pxOverflowDelayedTaskList k' = pxOverflowDelayedTaskList k \<and>
    xTickCount k' = xTickCount k \<and> xNextTaskUnblockTime k' = xNextTaskUnblockTime k \<and>
    pxReadyTasksLists k' = pxReadyTasksLists k"
  using assms by (cases "xYieldPending k") (auto simp: xTaskResumeAll_def ready_all_pending_def Let_def yield_within_api_def)

text \<open>
  C18: a tick takes one from the waiting time of every delayed task and readies exactly those that
  reach zero, in order, whatever the tick count and also when it wraps from 2^32 - 1 to 0: the
  assertion of \<open>taskSWITCH_DELAYED_LISTS\<close> never fails, and the two delayed lists keep their
  invariant.
\<close>

theorem tick_counts_down:
  assumes "timing_ok k" and "uxSchedulerSuspended k = 0"
  shows "\<exists>switch ts k'. xTaskIncrementTick k = Inr (switch, ts, k') \<and> timing_ok k' \<and>
    ts = map snd (filter (\<lambda>(d, t). d = 1) (waits k)) \<and>
    waits k' = map (\<lambda>(d, t). (d - 1, t)) (filter (\<lambda>(d, t). d \<noteq> 1) (waits k)) \<and>
    (\<forall>t. is_ready k' t \<longleftrightarrow> is_ready k t \<or> t \<in> set ts)"
proof -
  obtain switch ts k' where k': "xTaskIncrementTick k = Inr (switch, ts, k')" "timing_ok k'"
    "(ts, waits k') = tick_waits (waits k)"
    "pxReadyTasksLists k' = pxReadyTasksLists (fold prvAddTaskToReadyList ts k)"
    using tick_refines [OF assms] by blast
  have r: "is_ready k' t \<longleftrightarrow> is_ready k t \<or> t \<in> set ts" for t
    using is_ready_fold [of ts k t] k'(4) by (auto simp: is_ready_def)
  have "due = (\<lambda>(d, t). d = 1)" "(\<lambda>a. \<not> due a) = (\<lambda>(d, t). d \<noteq> 1)" "one_less = (\<lambda>(d, t). (d - 1, t))"
    by (auto simp: due_def one_less_def fun_eq_iff)
  then have "(ts, waits k') = (map snd (filter (\<lambda>(d, t). d = 1) (waits k)),
      map (\<lambda>(d, t). (d - 1, t)) (filter (\<lambda>(d, t). d \<noteq> 1) (waits k)))"
    using k'(3) tick_waits_filter [OF waits_by_wait [OF assms(1)]] by simp
  then show ?thesis using k'(1,2) r by blast
qed

text \<open>
  A moment at which a task can start a delay: the scheduler runs, nothing is pending, and the task
  is in its ready list only.
\<close>

definition may_delay :: "kernel \<Rightarrow> bool" where
  "may_delay k \<longleftrightarrow> timing_ok k \<and> uxSchedulerSuspended k = 0 \<and> xPendingReadyList k = [] \<and>
    uxPendedTicks k = 0 \<and> pxCurrentTCB k \<notin> snd ` set (waits k) \<and> is_ready k (pxCurrentTCB k) \<and>
    distinct (entries (pxReadyTasksLists k (uxPriority (pxCurrentTCB k))))"

lemma delay_start:
  assumes "may_delay k" and "0 < n"
  shows "\<exists>y k1. xTaskResumeAll (prvAddCurrentTaskToDelayedList n False (vTaskSuspendAll k)) = Inr (y, [], k1) \<and>
    timing_ok k1 \<and> uxSchedulerSuspended k1 = 0 \<and> waiting k1 (unat n) (pxCurrentTCB k) \<and>
    \<not> is_ready k1 (pxCurrentTCB k)"
proof -
  let ?t = "pxCurrentTCB k"
  define k0 where "k0 = prvAddCurrentTaskToDelayedList n False (vTaskSuspendAll k)"
  have k: "timing_ok k" "uxSchedulerSuspended k = 0" "xPendingReadyList k = []" "uxPendedTicks k = 0"
    "?t \<notin> snd ` set (waits k)" "distinct (entries (pxReadyTasksLists k (uxPriority ?t)))"
    using assms(1) by (simp_all add: may_delay_def)
  have s: "timing_ok (vTaskSuspendAll k)" "waits (vTaskSuspendAll k) = waits k"
    "pxCurrentTCB (vTaskSuspendAll k) = ?t"
    using k(1) by (simp_all add: vTaskSuspendAll_def timing_ok_def waits_def ticks_left_def)
  have k0: "timing_ok k0" "set (waits k0) = insert (unat n, ?t) (set (waits k))"
    using delay_waits [OF s(1) assms(2), of False] s unfolding k0_def by simp_all
  have f: "uxSchedulerSuspended k0 = 1" "xPendingReadyList k0 = []" "uxPendedTicks k0 = 0"
    "pxReadyTasksLists k0 = (pxReadyTasksLists k)(uxPriority ?t := uxListRemove ?t (pxReadyTasksLists k (uxPriority ?t)))"
    using k(2-4) by (simp_all add: k0_def delay_cases Let_def fields vTaskSuspendAll_def)
  obtain y k1 where k1: "xTaskResumeAll k0 = Inr (y, [], k1)" "uxSchedulerSuspended k1 = 0"
    "pxDelayedTaskList k1 = pxDelayedTaskList k0" "pxOverflowDelayedTaskList k1 = pxOverflowDelayedTaskList k0"
    "xTickCount k1 = xTickCount k0" "xNextTaskUnblockTime k1 = xNextTaskUnblockTime k0"
    "pxReadyTasksLists k1 = pxReadyTasksLists k0"
    using resume_quiet [OF f(1-3)] by blast
  have "timing_ok k1" using timing_ok_cong [of k1 k0] k0(1) k1(3-6) by simp
  moreover have "waits k1 = waits k0" using waits_cong [of k1 k0] k1(3-5) by simp
  then have "waiting k1 (unat n) ?t" using k0(2) k(5) by (force simp: waiting_def)
  moreover have "\<not> is_ready k1 ?t" using k1(7) f(4) k(6) by (simp add: is_ready_def)
  ultimately show ?thesis using k1(1,2) unfolding k0_def by blast
qed

lemma yield_keeps [keeps]:
  "timing_ok (yield_within_api k) = timing_ok k" "waits (yield_within_api k) = waits k"
  "uxSchedulerSuspended (yield_within_api k) = uxSchedulerSuspended k"
  "waiting (yield_within_api k) n t = waiting k n t" "is_ready (yield_within_api k) t = is_ready k t"
  by (simp_all add: yield_within_api_def timing_ok_def waits_def ticks_left_def waiting_def is_ready_def)

lemma after_yield:
  assumes "timing_ok k" and "uxSchedulerSuspended k = 0" and "waiting k n t" and "\<not> is_ready k t" and "m \<le> n"
  shows "\<exists>k'. tick_run m (if y then k else yield_within_api k) = Inr k' \<and> (is_ready k' t \<longleftrightarrow> m = n)"
  by (rule waiting_run) (use assms in \<open>simp_all add: keeps\<close>)

text \<open>
  C19: \<open>vTaskDelay(n)\<close> takes exactly \<open>n\<close> ticks: after \<open>m\<close> ticks, up to \<open>n\<close>, the task is in its ready list
  if and only if \<open>m = n\<close>. This holds also when the tick count wraps in between.
\<close>

theorem delay_exact:
  assumes "may_delay k" and "0 < n" and "m \<le> unat n"
  shows "\<exists>k1 k2. vTaskDelay n k = Inr ([], k1) \<and> tick_run m k1 = Inr k2 \<and>
    (is_ready k2 (pxCurrentTCB k) \<longleftrightarrow> m = unat n)"
proof -
  obtain y k1 where k1: "xTaskResumeAll (prvAddCurrentTaskToDelayedList n False (vTaskSuspendAll k)) = Inr (y, [], k1)"
    "timing_ok k1" "uxSchedulerSuspended k1 = 0" "waiting k1 (unat n) (pxCurrentTCB k)"
    "\<not> is_ready k1 (pxCurrentTCB k)"
    using delay_start [OF assms(1,2)] by blast
  have "uxSchedulerSuspended k = 0" using assms(1) by (simp add: may_delay_def)
  then have "vTaskDelay n k = Inr ([], if y then k1 else yield_within_api k1)"
    using assms(2) k1(1) by (simp add: vTaskDelay_def)
  moreover obtain k2 where "tick_run m (if y then k1 else yield_within_api k1) = Inr k2"
      "is_ready k2 (pxCurrentTCB k) \<longleftrightarrow> m = unat n"
    using after_yield [OF k1(2-5) assms(3)] by blast
  ultimately show ?thesis by blast
qed

lemma should_delay_iff:
  "should_delay_until now previous (previous + increment) \<longleftrightarrow> now - previous < increment"
  unfolding should_delay_until_def by unat_arith

lemma rest_of_period:
  "now - previous < increment \<Longrightarrow> unat (previous + increment - now) = unat increment - unat (now - previous) \<and>
    0 < previous + increment - now" for now previous increment :: u32
proof -
  assume l: "now - previous < increment"
  have e: "previous + increment - now = increment - (now - previous)" by (simp add: algebra_simps)
  have "unat (increment - (now - previous)) = unat increment - unat (now - previous)"
    using l by (simp add: unat_sub order_less_imp_le)
  moreover have "0 < increment - (now - previous)" using l by unat_arith
  ultimately show ?thesis by (simp only: e)
qed

text \<open>
  The four comparisons of wrapped tick counts in \<open>vTaskDelayUntil\<close> decide right: the call updates
  the wake time by the increment; when less than the increment has passed since the previous
  wake time, the task becomes ready exactly at the rest of the increment, so that a periodic task
  does not drift; otherwise it stays ready.
\<close>

theorem delay_until_period:
  assumes "may_delay k" and "0 < increment" and "passed = xTickCount k - previous"
    and "m \<le> unat increment - unat passed"
  shows "\<exists>k1 k2. vTaskDelayUntil previous increment k = Inr ([], previous + increment, k1) \<and>
    tick_run m k1 = Inr k2 \<and>
    (is_ready k2 (pxCurrentTCB k) \<longleftrightarrow> m = unat increment - unat passed)"
proof (cases "passed < increment")
  case True
  let ?n = "previous + increment - xTickCount k"
  have n: "unat ?n = unat increment - unat passed" "0 < ?n"
    using rest_of_period [of "xTickCount k" previous increment] True assms(3) by simp_all
  obtain y k1 where k1: "xTaskResumeAll (prvAddCurrentTaskToDelayedList ?n False (vTaskSuspendAll k)) = Inr (y, [], k1)"
    "timing_ok k1" "uxSchedulerSuspended k1 = 0" "waiting k1 (unat ?n) (pxCurrentTCB k)"
    "\<not> is_ready k1 (pxCurrentTCB k)"
    using delay_start [OF assms(1) n(2)] by blast
  have "uxSchedulerSuspended k = 0" using assms(1) by (simp add: may_delay_def)
  then have "vTaskDelayUntil previous increment k = Inr ([], previous + increment, if y then k1 else yield_within_api k1)"
    using assms(2,3) k1(1) True should_delay_iff [of "xTickCount k" previous increment]
    by (simp add: vTaskDelayUntil_def Let_def vTaskSuspendAll_def)
  moreover have "m \<le> unat ?n" using assms(4) n(1) by simp
  then obtain k2 where "tick_run m (if y then k1 else yield_within_api k1) = Inr k2"
      "is_ready k2 (pxCurrentTCB k) \<longleftrightarrow> m = unat ?n"
    using after_yield [OF k1(2-5)] by blast
  ultimately show ?thesis using n(1) by auto
next
  case False
  have q: "uxSchedulerSuspended k = 0" "xPendingReadyList k = []" "uxPendedTicks k = 0" "is_ready k (pxCurrentTCB k)"
    using assms(1) by (simp_all add: may_delay_def)
  let ?k0 = "vTaskSuspendAll k"
  obtain y k1 where k1: "xTaskResumeAll ?k0 = Inr (y, [], k1)" "pxReadyTasksLists k1 = pxReadyTasksLists ?k0"
    using resume_quiet [of ?k0] q by (auto simp: vTaskSuspendAll_def)
  have "vTaskDelayUntil previous increment k = Inr ([], previous + increment, if y then k1 else yield_within_api k1)"
    using assms(2,3) k1(1) q(1) False should_delay_iff [of "xTickCount k" previous increment]
    by (simp add: vTaskDelayUntil_def Let_def vTaskSuspendAll_def)
  moreover have "unat increment - unat passed = 0" using False by (simp add: word_le_nat_alt not_less)
  moreover have "is_ready (if y then k1 else yield_within_api k1) (pxCurrentTCB k)"
    using k1(2) q(4) by (simp add: is_ready_def vTaskSuspendAll_def yield_within_api_def)
  ultimately show ?thesis using assms(4) by simp
qed

text \<open>Two ticks before the wrap: one task to wake at the last count, one after the wrap.\<close>

definition sample_delays :: kernel where
  "sample_delays = sample_kernel\<lparr>xTickCount := 0xFFFFFFFE, xNextTaskUnblockTime := 0xFFFFFFFF,
     pxDelayedTaskList := [(0xFFFFFFFF, \<lparr>tcb_id = 5, uxPriority = 1\<rparr>)],
     pxOverflowDelayedTaskList := [(0, \<lparr>tcb_id = 6, uxPriority = 3\<rparr>)]\<rparr>"

lemma sample_delays_ok: "timing_ok sample_delays" "uxSchedulerSuspended sample_delays = 0"
  by (simp_all add: timing_ok_def sample_delays_def sample_kernel_def)

lemma sample_delays_waits:
  "waits sample_delays = [(1, \<lparr>tcb_id = 5, uxPriority = 1\<rparr>), (2, \<lparr>tcb_id = 6, uxPriority = 3\<rparr>)]"
  by (simp add: waits_def ticks_left_def sample_delays_def)

theorem tick_counts_down_witness:
  "\<exists>switch k'. xTaskIncrementTick sample_delays = Inr (switch, [\<lparr>tcb_id = 5, uxPriority = 1\<rparr>], k') \<and>
    waits k' = [(1, \<lparr>tcb_id = 6, uxPriority = 3\<rparr>)]"
  using tick_counts_down [OF sample_delays_ok] by (auto simp: sample_delays_waits)

lemma sample_may_delay: "may_delay sample_delays"
  using sample_delays_ok
  by (simp add: may_delay_def sample_delays_waits) (simp add: is_ready_def sample_delays_def sample_kernel_def)

theorem delay_exact_witness:
  "\<exists>k1 k2. vTaskDelay 5 sample_delays = Inr ([], k1) \<and> tick_run 5 k1 = Inr k2 \<and>
    is_ready k2 (pxCurrentTCB sample_delays)"
  using delay_exact [OF sample_may_delay, of 5 5] by simp

theorem delay_until_period_witness:
  "\<exists>k1 k2. vTaskDelayUntil 0xFFFFFFFB 10 sample_delays = Inr ([], 0xFFFFFFFB + 10, k1) \<and> tick_run 7 k1 = Inr k2 \<and>
    is_ready k2 (pxCurrentTCB sample_delays)"
proof -
  have "xTickCount sample_delays = 0xFFFFFFFE" by (simp add: sample_delays_def)
  then show ?thesis
    using delay_until_period [OF sample_may_delay, of 10 3 "0xFFFFFFFB" 7] by simp
qed

section \<open>Block times\<close>

text \<open>The kernel at time \<open>T\<close>, counted in ticks since the start without wrapping.\<close>

definition at_time :: "kernel \<Rightarrow> nat \<Rightarrow> bool" where
  "at_time k T \<longleftrightarrow> xTickCount k = of_nat T \<and> xNumOfOverflows k = of_nat (T div 4294967296)"

lemma elapsed_ticks: "T0 \<le> T1 \<Longrightarrow> unat (of_nat T1 - of_nat T0 :: u32) = (T1 - T0) mod 4294967296"
proof -
  assume "T0 \<le> T1"
  then have "of_nat T1 - of_nat T0 = (of_nat (T1 - T0) :: u32)" by (simp add: of_nat_diff)
  then show ?thesis by (simp add: unat_of_nat)
qed

text \<open>
  A task that began to wait at time \<open>T0\<close>, with a finite block time, has timed out at \<open>T1\<close> if and
  only if at least the block time has passed, and otherwise the rest of the block time is kept,
  for any wrap of the tick count in between (the overflow count may differ by one).
\<close>

theorem timeout_exact:
  assumes "at_time k0 T0" and "at_time k T1" and "T0 \<le> T1"
    and "T1 div 4294967296 \<le> T0 div 4294967296 + 1" and "ticks \<noteq> portMAX_DELAY"
  shows "xTaskCheckForTimeOut k (vTaskInternalSetTimeOutState k0) ticks =
    (if unat ticks \<le> T1 - T0
     then (True, vTaskInternalSetTimeOutState k0,
       if T1 - T0 < 4294967296 then 0 else ticks)
     else (False, vTaskInternalSetTimeOutState k, ticks - of_nat (T1 - T0)))"
proof -
  let ?M = "4294967296 :: nat"
  have f: "xTickCount k = of_nat T1" "xNumOfOverflows k = of_nat (T1 div ?M)"
    "xTickCount k0 = of_nat T0" "xNumOfOverflows k0 = of_nat (T0 div ?M)"
    using assms(1,2) by (simp_all add: at_time_def)
  have d: "T0 div ?M \<le> T1 div ?M" using assms(3) by (rule div_le_mono)
  have T: "T0 = T0 div ?M * ?M + T0 mod ?M" "T1 = T1 div ?M * ?M + T1 mod ?M" by simp_all
  have m: "T0 mod ?M < ?M" "T1 mod ?M < ?M" by simp_all
  have less: "of_nat T0 \<le> (of_nat T1 :: u32) \<longleftrightarrow> T0 mod ?M \<le> T1 mod ?M"
    by (simp add: word_le_nat_alt unat_of_nat)
  have e: "of_nat T1 - of_nat T0 < ticks \<longleftrightarrow> (T1 - T0) mod ?M < unat ticks"
    using elapsed_ticks [OF assms(3)] by (simp add: word_less_nat_alt)
  have r: "of_nat T1 - of_nat T0 = (of_nat (T1 - T0) :: u32)" using assms(3) by (simp add: of_nat_diff)
  consider (same) "T1 div ?M = T0 div ?M" | (wrap) "T1 div ?M = Suc (T0 div ?M)" using d assms(4) by linarith
  then show ?thesis
  proof cases
    case same
    then have "T1 - T0 < ?M" using T m by linarith
    then show ?thesis using assms(5) same e r f
      by (simp add: xTaskCheckForTimeOut_def vTaskInternalSetTimeOutState_def Let_def)
  next
    case wrap
    then have ne: "(of_nat (T1 div ?M) :: u32) \<noteq> of_nat (T0 div ?M)" by simp
    show ?thesis
    proof (cases "T0 mod ?M \<le> T1 mod ?M")
      case True
      then have "?M \<le> T1 - T0" using T wrap by linarith
      moreover have "unat ticks < ?M" by (rule unat_u32_less)
      ultimately show ?thesis using assms(5) ne True less f
        by (simp add: xTaskCheckForTimeOut_def vTaskInternalSetTimeOutState_def Let_def)
    next
      case False
      then have "T1 - T0 < ?M" using T m wrap by linarith
      then show ?thesis using assms(5) ne False less e r f
        by (simp add: xTaskCheckForTimeOut_def vTaskInternalSetTimeOutState_def Let_def)
    qed
  qed
qed

theorem timeout_exact_witness:
  "xTaskCheckForTimeOut (sample_kernel\<lparr>xTickCount := 5, xNumOfOverflows := 1\<rparr>)
     (vTaskInternalSetTimeOutState (sample_kernel\<lparr>xTickCount := 0xFFFFFFF0\<rparr>)) 20 =
   (True, vTaskInternalSetTimeOutState (sample_kernel\<lparr>xTickCount := 0xFFFFFFF0\<rparr>), 0)"
proof -
  have "at_time (sample_kernel\<lparr>xTickCount := 0xFFFFFFF0\<rparr>) 0xFFFFFFF0"
    "at_time (sample_kernel\<lparr>xTickCount := 5, xNumOfOverflows := 1\<rparr>) (4294967296 + 5)"
    by (simp_all add: at_time_def sample_kernel_def)
  from timeout_exact [OF this, of 20] show ?thesis by (simp add: portMAX_DELAY_def)
qed

end
