(* ===== verification/FreeRTOS_Sched.thy ===== *)
theory FreeRTOS_Sched
  imports FreeRTOS_Time "HOL-Library.Multiset"
begin

text \<open>
  The invariant of the scheduler: every task is in exactly one of the ready, delayed and suspended
  lists, the bit mask of ready priorities is exact, and the delayed lists are in order. Every
  operation keeps it and loses no task, and a context switch selects a ready task of the highest
  priority.
\<close>

section \<open>The invariant\<close>

definition state_items :: "kernel \<Rightarrow> tcb multiset" where
  "state_items k = (\<Sum>p<configMAX_PRIORITIES. mset (entries (pxReadyTasksLists k p))) +
    mset (map snd (pxDelayedTaskList k)) + mset (map snd (pxOverflowDelayedTaskList k)) +
    mset (xSuspendedTaskList k)"

definition ready_ok :: "kernel \<Rightarrow> bool" where
  "ready_ok k \<longleftrightarrow> (\<forall>p. index_ok (pxReadyTasksLists k p) \<and>
    (\<forall>t \<in> set (entries (pxReadyTasksLists k p)). uxPriority t = p \<and> p < configMAX_PRIORITIES) \<and>
    (p < 32 \<longrightarrow> (bit (uxTopReadyPriority k) p \<longleftrightarrow> entries (pxReadyTasksLists k p) \<noteq> [])))"

definition once :: "tcb multiset \<Rightarrow> bool" where
  "once ts \<longleftrightarrow> (\<forall>t. count ts t \<le> 1) \<and> (\<forall>t \<in># ts. uxPriority t < configMAX_PRIORITIES)"

definition kernel_ok :: "kernel \<Rightarrow> bool" where
  "kernel_ok k \<longleftrightarrow> timing_ok k \<and> ready_ok k \<and> once (state_items k)"

lemma state_items_cong:
  "pxReadyTasksLists k' = pxReadyTasksLists k \<Longrightarrow> pxDelayedTaskList k' = pxDelayedTaskList k \<Longrightarrow>
    pxOverflowDelayedTaskList k' = pxOverflowDelayedTaskList k \<Longrightarrow>
    xSuspendedTaskList k' = xSuspendedTaskList k \<Longrightarrow> state_items k' = state_items k"
  by (simp add: state_items_def)

lemma ready_ok_cong:
  "pxReadyTasksLists k' = pxReadyTasksLists k \<Longrightarrow> uxTopReadyPriority k' = uxTopReadyPriority k \<Longrightarrow>
    ready_ok k' = ready_ok k"
  by (simp add: ready_ok_def)

section \<open>Moving tasks between lists\<close>

lemma mset_insert_middle: "mset (take n xs @ x # drop n xs) = add_mset x (mset xs)"
  by (metis append_take_drop_id mset.simps(2) mset_append union_mset_add_mset_right)

lemma mset_insert_end: "mset (entries (vListInsertEnd t l)) = add_mset t (mset (entries l))"
  using mset_insert_middle [of "pxIndex l - 1" "entries l" t] by (simp add: vListInsertEnd_def)

lemma mset_insert_by: "mset (insert_by f x xs) = add_mset x (mset xs)"
proof -
  have "mset (takeWhile P xs) + mset (dropWhile P xs) = mset xs" for P
    by (metis mset_append takeWhile_dropWhile_id)
  then show ?thesis by (simp add: insert_by_def)
qed

lemma sum_upd:
  assumes "p < (n :: nat)"
  shows "(\<Sum>i<n. f (if i = p then y else g i)) + f (g p) = (\<Sum>i<n. f (g i)) + (f y :: 'a :: comm_monoid_add)"
proof -
  have p: "p \<in> {..<n}" using assms by simp
  have "(\<Sum>i\<in>{..<n} - {p}. f (if i = p then y else g i)) = (\<Sum>i\<in>{..<n} - {p}. f (g i))"
    by (rule sum.cong) auto
  then show ?thesis
    using sum.remove [OF finite_lessThan p, of "\<lambda>i. f (if i = p then y else g i)"]
      sum.remove [OF finite_lessThan p, of "\<lambda>i. f (g i)"]
    by (simp add: add.commute add.left_commute)
qed

lemma items_ready_upd:
  assumes "p < configMAX_PRIORITIES" and "pxReadyTasksLists k' = (pxReadyTasksLists k)(p := l)"
    and "pxDelayedTaskList k' = pxDelayedTaskList k"
    and "pxOverflowDelayedTaskList k' = pxOverflowDelayedTaskList k"
    and "xSuspendedTaskList k' = xSuspendedTaskList k"
  shows "state_items k' + mset (entries (pxReadyTasksLists k p)) = state_items k + mset (entries l)"
proof -
  have "(\<Sum>q<configMAX_PRIORITIES. mset (entries (pxReadyTasksLists k' q))) + mset (entries (pxReadyTasksLists k p)) =
    (\<Sum>q<configMAX_PRIORITIES. mset (entries (pxReadyTasksLists k q))) + mset (entries l)"
    using sum_upd [OF assms(1), of "\<lambda>l. mset (entries l)" l "pxReadyTasksLists k"] assms(2)
    by (simp add: fun_upd_def)
  then show ?thesis by (simp add: state_items_def assms(3-5) ac_simps)
qed

lemma ready_lists_add [fields]:
  "pxReadyTasksLists (prvAddTaskToReadyList t k) = (pxReadyTasksLists k)
     (uxPriority t := vListInsertEnd t (pxReadyTasksLists k (uxPriority t)))"
  by (simp add: prvAddTaskToReadyList_def)

lemma add_ready_items:
  assumes "uxPriority t < configMAX_PRIORITIES"
  shows "state_items (prvAddTaskToReadyList t k) = add_mset t (state_items k)"
  using items_ready_upd [OF assms, of "prvAddTaskToReadyList t k" k
      "vListInsertEnd t (pxReadyTasksLists k (uxPriority t))"]
  by (simp add: fields mset_insert_end)

lemma bit_or_priority:
  "p < 32 \<Longrightarrow> bit (w OR push_bit q (1 :: u32)) p \<longleftrightarrow> bit w p \<or> p = q"
  by (auto simp: bit_simps)

lemma bit_clear_priority:
  "p < 32 \<Longrightarrow> bit (w AND NOT (push_bit q (1 :: u32))) p \<longleftrightarrow> bit w p \<and> p \<noteq> q"
  by (auto simp: bit_simps)

text \<open>\<open>ready_ok\<close> but for the bit of one priority, which may be set for an empty list.\<close>

definition ready_but :: "nat \<Rightarrow> kernel \<Rightarrow> bool" where
  "ready_but q k \<longleftrightarrow> (\<forall>p. index_ok (pxReadyTasksLists k p) \<and>
    (\<forall>t \<in> set (entries (pxReadyTasksLists k p)). uxPriority t = p \<and> p < configMAX_PRIORITIES) \<and>
    (p < 32 \<longrightarrow> p \<noteq> q \<longrightarrow> (bit (uxTopReadyPriority k) p \<longleftrightarrow> entries (pxReadyTasksLists k p) \<noteq> [])))"

lemma ready_but: "ready_ok k \<Longrightarrow> ready_but q k"
  by (simp add: ready_ok_def ready_but_def)

lemma add_ready_ok [keeps]:
  assumes "ready_but (uxPriority t) k" and "uxPriority t < configMAX_PRIORITIES"
  shows "ready_ok (prvAddTaskToReadyList t k)"
proof -
  have "entries (vListInsertEnd t l) \<noteq> []" for l :: "tcb xlist"
    using entries_insert_end [of t l] by auto
  then show ?thesis
    using assms unfolding ready_ok_def ready_but_def prvAddTaskToReadyList_def
    by (auto simp: bit_or_priority entries_insert_end simp del: push_bit_of_1 intro!: index_insert_end)
qed

text \<open>Removing a task.\<close>

definition ready_items :: "kernel \<Rightarrow> tcb multiset" where
  "ready_items k = (\<Sum>p<configMAX_PRIORITIES. mset (entries (pxReadyTasksLists k p)))"

lemma ready_but_priority:
  "ready_but q k \<Longrightarrow> t \<in> set (entries (pxReadyTasksLists k p)) \<Longrightarrow>
    uxPriority t = p \<and> p < configMAX_PRIORITIES"
  unfolding ready_but_def by blast

lemma in_ready_items:
  assumes "ready_but q k"
  shows "t \<in># ready_items k \<longleftrightarrow> is_ready k t"
  using ready_but_priority [OF assms, of t]
  by (fastforce simp: ready_items_def is_ready_def set_mset_sum)

lemma ready_items_remove:
  assumes "ready_but q k"
  shows "ready_items (remove_ready t k) = ready_items k - {#t#}"
proof (cases "is_ready k t")
  case True
  let ?l = "pxReadyTasksLists k (uxPriority t)"
  have p: "uxPriority t < configMAX_PRIORITIES"
    using True ready_but_priority [OF assms] unfolding is_ready_def by blast
  have "ready_items (remove_ready t k) + mset (entries ?l) = ready_items k + (mset (entries ?l) - {#t#})"
    using sum_upd [OF p, of "\<lambda>l. mset (entries l)" "uxListRemove t ?l" "pxReadyTasksLists k"]
    by (simp add: ready_items_def remove_ready_def fun_upd_def)
  moreover obtain M where M: "mset (entries ?l) = add_mset t M"
    using True mset_add [of t "mset (entries ?l)"] by (auto simp: is_ready_def)
  ultimately have "add_mset t (ready_items (remove_ready t k)) + M = ready_items k + M" by simp
  then have "add_mset t (ready_items (remove_ready t k)) = ready_items k" by (rule add_right_imp_eq)
  then show ?thesis by (metis add_mset_remove_trivial)
next
  case False
  then have "remove1 t (entries (pxReadyTasksLists k (uxPriority t))) = entries (pxReadyTasksLists k (uxPriority t))"
    by (simp add: is_ready_def remove1_idem)
  then have "ready_items (remove_ready t k) = ready_items k"
    by (auto simp: ready_items_def remove_ready_def intro: sum.cong)
  then show ?thesis using False in_ready_items [OF assms] by (simp add: diff_single_trivial)
qed

lemma items_parts: "state_items k = ready_items k + mset (map snd (pxDelayedTaskList k)) +
    mset (map snd (pxOverflowDelayedTaskList k)) + mset (xSuspendedTaskList k)"
  by (simp add: state_items_def ready_items_def)

lemma delayed_remove:
  "count (mset (map snd xs)) t \<le> 1 \<Longrightarrow>
    mset (map snd (filter (\<lambda>(v, u). u \<noteq> t) xs)) = mset (map snd xs) - {#t#}"
proof -
  assume c: "count (mset (map snd xs)) t \<le> 1"
  have "mset (map snd (filter (\<lambda>(v, u). u \<noteq> t) xs)) = filter_mset (\<lambda>u. u \<noteq> t) (mset (map snd xs))"
    by (induction xs) auto
  also have "\<dots> = mset (map snd xs) - {#t#}"
    by (rule multiset_eqI) (use c in \<open>auto simp del: mset_map\<close>)
  finally show ?thesis .
qed

lemma remove_parts:
  assumes "count (a + b + c + d) t \<le> 1"
  shows "a + b + c + d - {#t#} = (a - {#t#}) + (b - {#t#}) + (c - {#t#}) + (d - {#t#})"
proof (rule multiset_eqI)
  fix x
  show "count (a + b + c + d - {#t#}) x = count ((a - {#t#}) + (b - {#t#}) + (c - {#t#}) + (d - {#t#})) x"
    using assms by (cases "x = t") auto
qed

lemma remove_items:
  assumes "ready_but q k" and "once (state_items k)"
  shows "state_items (remove_state_item t k) = state_items k - {#t#}"
proof -
  have c: "count (ready_items k + mset (map snd (pxDelayedTaskList k)) +
      mset (map snd (pxOverflowDelayedTaskList k)) + mset (xSuspendedTaskList k)) t \<le> 1"
    using assms(2) unfolding once_def items_parts by blast
  then have d: "count (mset (map snd (pxDelayedTaskList k))) t \<le> 1"
    "count (mset (map snd (pxOverflowDelayedTaskList k))) t \<le> 1"
    unfolding count_union by linarith+
  have "ready_items (remove_state_item t k) = ready_items k - {#t#}"
    using ready_items_remove [OF assms(1), of t] by (simp add: ready_items_def remove_state_item_def)
  then show ?thesis
    unfolding items_parts remove_parts [OF c] delayed_remove [OF d(1), symmetric] delayed_remove [OF d(2), symmetric]
    by (simp add: remove_state_item_def)
qed

lemma remove_ready_but [keeps]:
  "ready_but q k \<Longrightarrow> q = uxPriority t \<Longrightarrow> ready_but q (remove_state_item t k)"
  by (auto simp: ready_but_def remove_state_item_def remove_ready_def index_remove dest: notin_set_remove1)

lemma remove_timing [keeps]: "timing_ok k \<Longrightarrow> timing_ok (remove_state_item t k)"
  by (auto simp: timing_ok_def remove_state_item_def remove_ready_def sorted_wrt_filter)

lemma add_ready_timing [keeps]: "timing_ok (prvAddTaskToReadyList t k) = timing_ok k"
  by (rule timing_ok_cong) (simp_all add: fields)

text \<open>A task that moves to its ready list, from whichever list it was in.\<close>

lemma make_ready [keeps]:
  assumes "kernel_ok k" and "t \<in># state_items k"
  shows "kernel_ok (prvAddTaskToReadyList t (remove_state_item t k)) \<and>
    state_items (prvAddTaskToReadyList t (remove_state_item t k)) = state_items k"
proof -
  have k: "timing_ok k" "ready_but (uxPriority t) k" "once (state_items k)"
    using assms(1) ready_but by (simp_all add: kernel_ok_def)
  have p: "uxPriority t < configMAX_PRIORITIES" using k(3) assms(2) by (simp add: once_def)
  have i: "state_items (prvAddTaskToReadyList t (remove_state_item t k)) = state_items k"
    using assms(2) by (simp add: add_ready_items [OF p] remove_items [OF k(2,3)])
  then show ?thesis
    using k p unfolding kernel_ok_def by (simp add: keeps)
qed

section \<open>The operations keep the invariant\<close>

text \<open>Fields outside the lists do not matter.\<close>

lemma kernel_ok_cong:
  assumes "pxReadyTasksLists k' = pxReadyTasksLists k" and "uxTopReadyPriority k' = uxTopReadyPriority k"
    and "pxDelayedTaskList k' = pxDelayedTaskList k"
    and "pxOverflowDelayedTaskList k' = pxOverflowDelayedTaskList k"
    and "xSuspendedTaskList k' = xSuspendedTaskList k" and "xTickCount k' = xTickCount k"
    and "xNextTaskUnblockTime k' = xNextTaskUnblockTime k"
  shows "kernel_ok k' = kernel_ok k \<and> state_items k' = state_items k"
  using timing_ok_cong [of k' k] ready_ok_cong [of k' k] state_items_cong [of k' k] assms
  by (simp add: kernel_ok_def)

definition keeps_kernel :: "kernel \<Rightarrow> kernel \<Rightarrow> bool" where
  "keeps_kernel k k' \<longleftrightarrow> kernel_ok k' \<and> state_items k' = state_items k"

lemma keeps_trans: "keeps_kernel k k1 \<Longrightarrow> keeps_kernel k1 k2 \<Longrightarrow> keeps_kernel k k2"
  by (simp add: keeps_kernel_def)

lemma keeps_cong:
  assumes "kernel_ok k"
    and "pxReadyTasksLists k' = pxReadyTasksLists k" and "uxTopReadyPriority k' = uxTopReadyPriority k"
    and "pxDelayedTaskList k' = pxDelayedTaskList k"
    and "pxOverflowDelayedTaskList k' = pxOverflowDelayedTaskList k"
    and "xSuspendedTaskList k' = xSuspendedTaskList k" and "xTickCount k' = xTickCount k"
    and "xNextTaskUnblockTime k' = xNextTaskUnblockTime k"
  shows "keeps_kernel k k'"
  using kernel_ok_cong [OF assms(2-)] assms(1) by (simp add: keeps_kernel_def)

lemma keeps_flags:
  assumes "kernel_ok k"
  shows "keeps_kernel k (k\<lparr>xYieldPending := y\<rparr>)" and "keeps_kernel k (k\<lparr>xPendingReadyList := ts\<rparr>)"
    and "keeps_kernel k (k\<lparr>uxSchedulerSuspended := u\<rparr>)" and "keeps_kernel k (k\<lparr>uxPendedTicks := u\<rparr>)"
    and "keeps_kernel k (yield_within_api k)" and "keeps_kernel k (k\<lparr>pxCurrentTCB := t\<rparr>)"
    and "keeps_kernel k (vTaskSuspendAll k)"
  by (rule keeps_cong [OF assms]; simp add: yield_within_api_def vTaskSuspendAll_def)+

lemma leave_ready_ok:
  assumes "ready_ok k"
  shows "ready_ok (leave_ready t k)"
proof -
  let ?l = "uxListRemove t (pxReadyTasksLists k (uxPriority t))"
  have top: "uxTopReadyPriority (leave_ready t k) =
    (if entries ?l = [] then uxTopReadyPriority k AND NOT (push_bit (uxPriority t) 1) else uxTopReadyPriority k)"
    by (simp add: leave_ready_def Let_def remove_ready_def portRESET_READY_PRIORITY_def)
  have ne: "entries ?l \<noteq> [] \<Longrightarrow> entries (pxReadyTasksLists k (uxPriority t)) \<noteq> []" by auto
  show ?thesis unfolding ready_ok_def
  proof (intro allI conjI impI)
    fix p
    have k: "index_ok (pxReadyTasksLists k p)"
      "\<forall>u \<in> set (entries (pxReadyTasksLists k p)). uxPriority u = p \<and> p < configMAX_PRIORITIES"
      "p < 32 \<Longrightarrow> bit (uxTopReadyPriority k) p \<longleftrightarrow> entries (pxReadyTasksLists k p) \<noteq> []"
      using assms unfolding ready_ok_def by blast+
    show "index_ok (pxReadyTasksLists (leave_ready t k) p)"
      using k(1) index_remove [of "pxReadyTasksLists k p" t] by (auto simp: fields)
    show "\<forall>u \<in> set (entries (pxReadyTasksLists (leave_ready t k) p)). uxPriority u = p \<and> p < configMAX_PRIORITIES"
      using k(2) by (auto simp: fields dest: subsetD [OF set_remove1_subset])
    show "bit (uxTopReadyPriority (leave_ready t k)) p \<longleftrightarrow> entries (pxReadyTasksLists (leave_ready t k) p) \<noteq> []"
      if "p < 32"
    proof (cases "p = uxPriority t")
      case True
      then show ?thesis using k(3) [OF that] ne that
        by (simp add: top fields bit_clear_priority del: push_bit_of_1)
    next
      case False
      then show ?thesis using k(3) [OF that] that
        by (simp add: top fields bit_clear_priority del: push_bit_of_1)
    qed
  qed
qed

lemma leave_ready_items:
  assumes "ready_ok k" and "is_ready k t"
  shows "add_mset t (state_items (leave_ready t k)) = state_items k"
proof -
  have i: "t \<in># ready_items k" using in_ready_items [OF ready_but [OF assms(1)]] assms(2) by blast
  have "ready_items (leave_ready t k) = ready_items (remove_ready t k)"
    by (simp add: ready_items_def fields remove_ready_def)
  then have "ready_items (leave_ready t k) = ready_items k - {#t#}"
    using ready_items_remove [OF ready_but [OF assms(1)]] by simp
  then show ?thesis using i unfolding items_parts by (simp add: fields)
qed

lemma delay_keeps [keeps]:
  assumes "kernel_ok k" and "is_ready k (pxCurrentTCB k)" and "0 < ticks"
  shows "keeps_kernel k (prvAddCurrentTaskToDelayedList ticks indefinitely k)"
proof -
  let ?t = "pxCurrentTCB k" and ?k' = "prvAddCurrentTaskToDelayedList ticks indefinitely k"
  have k: "timing_ok k" "ready_ok k" "once (state_items k)" using assms(1) by (simp_all add: kernel_ok_def)
  note i = leave_ready_items [OF k(2) assms(2)]
  have k1: "timing_ok (leave_ready ?t k)" using timing_ok_cong [of "leave_ready ?t k" k] k(1) by (simp add: fields)
  show ?thesis
  proof (cases "ticks = portMAX_DELAY \<and> indefinitely")
    case True
    then have e: "?k' = (leave_ready ?t k)\<lparr>xSuspendedTaskList := xSuspendedTaskList k @ [?t]\<rparr>"
      unfolding prvAddCurrentTaskToDelayedList_def Let_def by (simp add: fields)
    have "state_items ?k' = state_items k" using i unfolding e items_parts by (simp add: ready_items_def fields)
    moreover have "timing_ok ?k'" "ready_ok ?k'"
      using k1 leave_ready_ok [OF k(2)] timing_ok_cong [of ?k' "leave_ready ?t k"] ready_ok_cong [of ?k' "leave_ready ?t k"]
      unfolding e by simp_all
    ultimately show ?thesis using k(3) by (simp add: keeps_kernel_def kernel_ok_def)
  next
    case False
    note e = delay_cases [OF False, of k, unfolded Let_def]
    have "state_items ?k' = state_items k"
      using i unfolding e items_parts by (simp add: ready_items_def fields mset_insert_by)
    moreover have "ready_ok ?k'"
      using leave_ready_ok [OF k(2), of ?t] ready_ok_cong [of ?k' "leave_ready ?t k"] unfolding e by simp
    ultimately show ?thesis using k(3) delay_waits(1) [OF k(1) assms(3) False] by (simp add: keeps_kernel_def kernel_ok_def)
  qed
qed

lemma fold_ready_ok:
  "ready_ok k \<Longrightarrow> \<forall>t \<in> set ts. uxPriority t < configMAX_PRIORITIES \<Longrightarrow>
    ready_ok (fold prvAddTaskToReadyList ts k) \<and>
    ready_items (fold prvAddTaskToReadyList ts k) = ready_items k + mset ts"
proof (induction ts arbitrary: k)
  case (Cons t ts)
  have r: "ready_ok (prvAddTaskToReadyList t k)" using Cons.prems ready_but by (simp add: keeps)
  have "ready_items (prvAddTaskToReadyList t k) = add_mset t (ready_items k)"
    using add_ready_items [of t k] Cons.prems(2) by (simp add: items_parts fields)
  then show ?case using Cons.IH [OF r] Cons.prems(2) by simp
qed simp

lemma fold_ready_fields [fields]:
  "xSuspendedTaskList (fold prvAddTaskToReadyList ts k) = xSuspendedTaskList k"
  "xPendingReadyList (fold prvAddTaskToReadyList ts k) = xPendingReadyList k"
  "uxSchedulerSuspended (fold prvAddTaskToReadyList ts k) = uxSchedulerSuspended k"
  "pxCurrentTCB (fold prvAddTaskToReadyList ts k) = pxCurrentTCB k"
  by (induction ts arbitrary: k) (simp_all add: fields)

lemma tick_keeps [keeps]:
  assumes "kernel_ok k"
  shows "\<exists>switch ts k'. xTaskIncrementTick k = Inr (switch, ts, k') \<and> keeps_kernel k k' \<and>
    uxSchedulerSuspended k' = uxSchedulerSuspended k \<and> xPendingReadyList k' = xPendingReadyList k \<and>
    pxCurrentTCB k' = pxCurrentTCB k"
proof (cases "uxSchedulerSuspended k = 0")
  case False
  then show ?thesis using keeps_flags(4) [OF assms] by (simp add: xTaskIncrementTick_def)
next
  case True
  have k: "timing_ok k" "ready_ok k" "once (state_items k)" using assms by (simp_all add: kernel_ok_def)
  let ?now = "xTickCount k + 1"
  obtain switch n u where r: "xTaskIncrementTick k = Inr (switch, released k,
      (fold prvAddTaskToReadyList (released k) k)\<lparr>xTickCount := ?now,
         pxDelayedTaskList := dropWhile (\<lambda>a. fst a = ?now) (current_delayed k),
         pxOverflowDelayedTaskList := later_delayed k, xNumOfOverflows := n, xNextTaskUnblockTime := u\<rparr>)"
      (is "_ = Inr (_, _, ?k')")
    using tick_effect [OF k(1) True] by blast
  have "timing_ok ?k'" using tick_refines [OF k(1) True] r by auto
  have "mset (map snd (current_delayed k)) =
      mset (released k) + mset (map snd (dropWhile (\<lambda>a. fst a = ?now) (current_delayed k)))"
    unfolding released_def mset_append [symmetric] map_append [symmetric] takeWhile_dropWhile_id ..
  then have m: "mset (map snd (pxDelayedTaskList k)) + mset (map snd (pxOverflowDelayedTaskList k)) =
      mset (released k) + mset (map snd (dropWhile (\<lambda>a. fst a = ?now) (current_delayed k))) +
      mset (map snd (later_delayed k))"
    using timing_lists(1) [OF k(1)] by (metis map_append mset_append)
  then have "set_mset (mset (released k)) \<subseteq> set_mset (state_items k)"
    unfolding items_parts by (metis (no_types, lifting) add.assoc mset_subset_eq_add_left mset_subset_eq_add_right set_mset_mono subset_mset.order_trans)
  then have p: "\<forall>t \<in> set (released k). uxPriority t < configMAX_PRIORITIES"
    using k(3) by (auto simp: once_def)
  note f = fold_ready_ok [OF k(2) p]
  have "ready_ok ?k'" using f ready_ok_cong [of ?k' "fold prvAddTaskToReadyList (released k) k"] by simp
  moreover have "state_items ?k' = state_items k"
    using f m unfolding items_parts by (simp add: ready_items_def fields ac_simps)
  ultimately have "keeps_kernel k ?k'" using \<open>timing_ok ?k'\<close> k(3) by (simp add: keeps_kernel_def kernel_ok_def)
  then show ?thesis using r by (simp add: fields)
qed

lemma reset_unblock_keeps [keeps]:
  assumes "kernel_ok k"
  shows "keeps_kernel k (prvResetNextTaskUnblockTime k)"
proof -
  let ?k' = "prvResetNextTaskUnblockTime k"
  have s: "sorted_wrt (\<lambda>a b. fst a \<le> fst b) (pxDelayedTaskList k)"
    using assms by (simp add: kernel_ok_def timing_ok_def)
  have "xNextTaskUnblockTime ?k' = (case pxDelayedTaskList k of [] \<Rightarrow> portMAX_DELAY | a # _ \<Rightarrow> fst a)"
    by (simp add: prvResetNextTaskUnblockTime_def split: list.split)
  then have "\<forall>a \<in> set (pxDelayedTaskList k). xNextTaskUnblockTime ?k' \<le> fst a"
    using head_least [OF s] by simp
  then have "timing_ok ?k'" using assms
    by (simp add: kernel_ok_def timing_ok_def prvResetNextTaskUnblockTime_def)
  moreover have "ready_ok ?k' = ready_ok k" "state_items ?k' = state_items k"
    by (rule ready_ok_cong; simp add: prvResetNextTaskUnblockTime_def)
      (rule state_items_cong; simp add: prvResetNextTaskUnblockTime_def)
  ultimately show ?thesis using assms by (simp add: keeps_kernel_def kernel_ok_def)
qed

lemma ready_pending_keeps [keeps]:
  "kernel_ok k \<Longrightarrow> set ts \<subseteq> set_mset (state_items k) \<Longrightarrow>
    keeps_kernel k (ready_pending ts k) \<and> uxSchedulerSuspended (ready_pending ts k) = uxSchedulerSuspended k \<and>
    xPendingReadyList (ready_pending ts k) = [] \<and> pxCurrentTCB (ready_pending ts k) = pxCurrentTCB k"
proof (induction ts arbitrary: k)
  case Nil
  then show ?case using keeps_flags(2) by simp
next
  case (Cons t ts)
  let ?k1 = "k\<lparr>xPendingReadyList := ts\<rparr>"
  let ?k2 = "prvAddTaskToReadyList t (remove_state_item t ?k1)"
  let ?k3 = "if uxPriority (pxCurrentTCB ?k2) \<le> uxPriority t then ?k2\<lparr>xYieldPending := True\<rparr> else ?k2"
  have k1: "keeps_kernel k ?k1" by (rule keeps_flags(2) [OF Cons.prems(1)])
  have t: "t \<in># state_items ?k1" using k1 Cons.prems(2) by (simp add: keeps_kernel_def)
  have "kernel_ok ?k1" using k1 by (simp add: keeps_kernel_def)
  then have k2: "keeps_kernel k ?k2" using make_ready [OF _ t] k1 by (simp add: keeps_kernel_def)
  then have ok2: "kernel_ok ?k2" by (simp add: keeps_kernel_def)
  have k3: "keeps_kernel k ?k3" using keeps_trans [OF k2 keeps_flags(1) [OF ok2]] k2 by simp
  then have "kernel_ok ?k3" "set ts \<subseteq> set_mset (state_items ?k3)"
    using Cons.prems(2) by (simp_all add: keeps_kernel_def)
  note ih = Cons.IH [OF this]
  have f: "uxSchedulerSuspended ?k3 = uxSchedulerSuspended k" "pxCurrentTCB ?k3 = pxCurrentTCB k"
    by (simp_all add: fields remove_state_item_def remove_ready_def)
  have "ready_pending (t # ts) k = ready_pending ts ?k3" by (simp add: Let_def)
  then show ?case using ih f keeps_trans [OF k3] by simp
qed

lemma pended_ticks_keeps [keeps]:
  "kernel_ok k \<Longrightarrow> \<exists>ts k'. pended_ticks n k = Inr (ts, k') \<and> keeps_kernel k k' \<and>
    uxSchedulerSuspended k' = uxSchedulerSuspended k \<and> xPendingReadyList k' = xPendingReadyList k \<and>
    pxCurrentTCB k' = pxCurrentTCB k"
proof (induction n arbitrary: k)
  case 0
  then show ?case by (simp add: keeps_kernel_def)
next
  case (Suc n)
  obtain switch ts k1 where k1: "xTaskIncrementTick k = Inr (switch, ts, k1)" "keeps_kernel k k1"
    "uxSchedulerSuspended k1 = uxSchedulerSuspended k" "xPendingReadyList k1 = xPendingReadyList k"
    "pxCurrentTCB k1 = pxCurrentTCB k"
    using tick_keeps [OF Suc.prems] by blast
  let ?k2 = "if switch then k1\<lparr>xYieldPending := True\<rparr> else k1"
  have ok1: "kernel_ok k1" using k1(2) by (simp add: keeps_kernel_def)
  have k2: "keeps_kernel k ?k2" using keeps_trans [OF k1(2) keeps_flags(1) [OF ok1]] k1(2) by simp
  then have "kernel_ok ?k2" by (simp add: keeps_kernel_def)
  then obtain us k3 where k3: "pended_ticks n ?k2 = Inr (us, k3)" "keeps_kernel ?k2 k3"
    "uxSchedulerSuspended k3 = uxSchedulerSuspended ?k2" "xPendingReadyList k3 = xPendingReadyList ?k2"
    "pxCurrentTCB k3 = pxCurrentTCB ?k2"
    using Suc.IH by blast
  show ?case
    using k1 k3 keeps_trans [OF k2 k3(2)] by (intro exI [of _ "ts @ us"] exI [of _ k3]) simp
qed

lemma ready_all_pending_keeps [keeps]:
  assumes "kernel_ok k" and "set (xPendingReadyList k) \<subseteq> set_mset (state_items k)"
  shows "keeps_kernel k (ready_all_pending k)"
    and "uxSchedulerSuspended (ready_all_pending k) = uxSchedulerSuspended k"
    and "xPendingReadyList (ready_all_pending k) = []" and "pxCurrentTCB (ready_all_pending k) = pxCurrentTCB k"
proof -
  let ?k2 = "ready_pending (xPendingReadyList k) k"
  note k2 = ready_pending_keeps [OF assms]
  then have "kernel_ok ?k2" by (simp add: keeps_kernel_def)
  then have "keeps_kernel k (prvResetNextTaskUnblockTime ?k2)"
    using keeps_trans [OF conjunct1 [OF k2] reset_unblock_keeps] by blast
  then show "keeps_kernel k (ready_all_pending k)"
    using assms(1) by (simp add: ready_all_pending_def keeps_kernel_def)
  show "uxSchedulerSuspended (ready_all_pending k) = uxSchedulerSuspended k"
    "xPendingReadyList (ready_all_pending k) = []" "pxCurrentTCB (ready_all_pending k) = pxCurrentTCB k"
    using k2 by (simp_all add: ready_all_pending_def prvResetNextTaskUnblockTime_def)
qed

lemma resume_keeps [keeps]:
  assumes "kernel_ok k" and "uxSchedulerSuspended k \<noteq> 0" and "set (xPendingReadyList k) \<subseteq> set_mset (state_items k)"
  shows "\<exists>y ts k'. xTaskResumeAll k = Inr (y, ts, k') \<and> keeps_kernel k k' \<and>
    uxSchedulerSuspended k' = uxSchedulerSuspended k - 1 \<and> pxCurrentTCB k' = pxCurrentTCB k \<and>
    (uxSchedulerSuspended k = 1 \<longrightarrow> xPendingReadyList k' = [] \<and> uxPendedTicks k' = 0)"
proof (cases "uxSchedulerSuspended k = 1")
  case False
  have k1: "keeps_kernel k (k\<lparr>uxSchedulerSuspended := uxSchedulerSuspended k - 1\<rparr>)"
    by (rule keeps_flags(3) [OF assms(1)])
  have "uxSchedulerSuspended k - 1 \<noteq> 0" using False by simp
  then show ?thesis using k1 assms(2) False by (auto simp: xTaskResumeAll_def)
next
  case True
  define k1 where "k1 = k\<lparr>uxSchedulerSuspended := 0\<rparr>"
  have k1: "keeps_kernel k k1" unfolding k1_def by (rule keeps_flags(3) [OF assms(1)])
  have f1: "uxSchedulerSuspended k1 = 0" "xPendingReadyList k1 = xPendingReadyList k" "pxCurrentTCB k1 = pxCurrentTCB k"
    by (simp_all add: k1_def)
  define k3 where "k3 = ready_all_pending k1"
  have "kernel_ok k1" "set (xPendingReadyList k1) \<subseteq> set_mset (state_items k1)"
    using k1 assms(3) f1 by (simp_all add: keeps_kernel_def)
  note r = ready_all_pending_keeps [OF this, folded k3_def]
  have k3: "keeps_kernel k k3" by (rule keeps_trans [OF k1 r(1)])
  then have ok3: "kernel_ok k3" by (simp add: keeps_kernel_def)
  obtain ts k4 where k4: "pended_ticks (unat (uxPendedTicks k3)) k3 = Inr (ts, k4)" "keeps_kernel k3 k4"
    "uxSchedulerSuspended k4 = 0" "xPendingReadyList k4 = []" "pxCurrentTCB k4 = pxCurrentTCB k"
    using pended_ticks_keeps [OF ok3, of "unat (uxPendedTicks k3)"] r(2-4) f1 by auto
  define k5 where "k5 = k4\<lparr>uxPendedTicks := 0\<rparr>"
  have k5: "keeps_kernel k k5"
    using keeps_trans [OF keeps_trans [OF k3 k4(2)] keeps_flags(4)] k4(2) by (simp add: k5_def keeps_kernel_def)
  then have k6: "keeps_kernel k (if xYieldPending k5 then yield_within_api k5 else k5)"
    using keeps_trans [OF k5 keeps_flags(5)] by (simp add: keeps_kernel_def)
  have "xTaskResumeAll k = Inr (xYieldPending k5, ts, if xYieldPending k5 then yield_within_api k5 else k5)"
    using True k4(1) unfolding xTaskResumeAll_def Let_def by (simp add: k1_def [symmetric] f1(1) k3_def [symmetric] k5_def)
  then show ?thesis using k6 k4(3-5) True by (auto simp: k5_def yield_within_api_def)
qed

lemma event_removal_keeps [keeps]:
  assumes "kernel_ok k" and "ws \<noteq> []" and "hd ws \<in># state_items k"
  shows "\<exists>h k'. xTaskRemoveFromEventList ws k = Inr (h, tl ws, k') \<and> keeps_kernel k k' \<and>
    (uxSchedulerSuspended k = 0 \<longrightarrow> is_ready k' (hd ws)) \<and>
    (uxSchedulerSuspended k \<noteq> 0 \<longrightarrow> hd ws \<in> set (xPendingReadyList k'))"
proof -
  obtain t ts where ws: "ws = t # ts" using assms(2) by (cases ws) auto
  let ?k1 = "if uxSchedulerSuspended k = 0 then prvAddTaskToReadyList t (remove_state_item t k)
    else k\<lparr>xPendingReadyList := xPendingReadyList k @ [t]\<rparr>"
  have k1: "keeps_kernel k ?k1"
    using make_ready [OF assms(1), of t] assms(3) keeps_flags(2) [OF assms(1)] ws by (simp add: keeps_kernel_def)
  then have "kernel_ok ?k1" by (simp add: keeps_kernel_def)
  then have "keeps_kernel k (?k1\<lparr>xYieldPending := True\<rparr>)" using keeps_trans [OF k1 keeps_flags(1)] by blast
  moreover have "uxSchedulerSuspended k = 0 \<Longrightarrow> is_ready ?k1 t" by (simp add: is_ready_add)
  ultimately show ?thesis using k1 ws
    by (cases "uxPriority (pxCurrentTCB ?k1) < uxPriority t") (auto simp: Let_def is_ready_def)
qed

text \<open>A suspended task is in the suspended list, whatever list it was in, and can be resumed.\<close>

lemma reset_priority_ok:
  assumes "ready_but q k"
  shows "ready_ok (taskRESET_READY_PRIORITY q k) \<or> entries (pxReadyTasksLists k q) \<noteq> []"
proof (cases "entries (pxReadyTasksLists k q) = []")
  case True
  then have "ready_ok (portRESET_READY_PRIORITY q k)"
    using assms unfolding ready_ok_def ready_but_def portRESET_READY_PRIORITY_def
    by (auto simp: bit_clear_priority simp del: push_bit_of_1)
  then show ?thesis using True by (simp add: taskRESET_READY_PRIORITY_def)
qed simp

lemma removed_ready_ok:
  assumes "kernel_ok k" and "t \<in># state_items k"
  shows "ready_ok (if items_left t k = 0 then taskRESET_READY_PRIORITY (uxPriority t) (remove_state_item t k)
    else remove_state_item t k)"
proof -
  let ?p = "uxPriority t" and ?k1 = "remove_state_item t k"
  have k: "ready_ok k" "ready_but ?p k" using assms(1) ready_but by (simp_all add: kernel_ok_def)
  have b: "ready_but ?p ?k1" by (rule remove_ready_but [OF k(2) refl])
  have e: "entries (pxReadyTasksLists ?k1 ?p) = remove1 t (entries (pxReadyTasksLists k ?p))"
    by (simp add: remove_state_item_def remove_ready_def)
  have p: "?p < 32" using assms by (auto simp: kernel_ok_def once_def configMAX_PRIORITIES_def)
  have same: "uxTopReadyPriority ?k1 = uxTopReadyPriority k" by (simp add: remove_state_item_def remove_ready_def)
  have "ready_ok ?k1" if "entries (pxReadyTasksLists ?k1 ?p) \<noteq> [] \<or> \<not> is_ready k t"
  proof -
    have "bit (uxTopReadyPriority ?k1) ?p \<longleftrightarrow> entries (pxReadyTasksLists ?k1 ?p) \<noteq> []"
    proof -
      have "bit (uxTopReadyPriority k) ?p \<longleftrightarrow> entries (pxReadyTasksLists k ?p) \<noteq> []"
        using k(1) p unfolding ready_ok_def by blast
      then show ?thesis using that same e by (auto simp: is_ready_def remove1_idem)
    qed
    then show ?thesis using b unfolding ready_ok_def ready_but_def by blast
  qed
  moreover have "items_left t k \<noteq> 0 \<Longrightarrow> is_ready k t \<Longrightarrow> entries (pxReadyTasksLists ?k1 ?p) \<noteq> []"
    using e by (auto simp: items_left_def is_ready_def length_remove1 simp flip: length_greater_0_conv)
  ultimately show ?thesis using reset_priority_ok [OF b] by (auto simp: taskRESET_READY_PRIORITY_def)
qed

lemma move_to_suspended_keeps [keeps]:
  assumes "kernel_ok k" and "t \<in># state_items k"
  shows "keeps_kernel k (move_to_suspended t k)" and "t \<in> set (xSuspendedTaskList (move_to_suspended t k))"
    and "\<not> is_ready (move_to_suspended t k) t" and "t \<notin> snd ` set (waits (move_to_suspended t k))"
    and "uxSchedulerSuspended (move_to_suspended t k) = uxSchedulerSuspended k"
    and "pxCurrentTCB (move_to_suspended t k) = pxCurrentTCB k"
proof -
  let ?k1 = "remove_state_item t k"
  let ?k2 = "if items_left t k = 0 then taskRESET_READY_PRIORITY (uxPriority t) ?k1 else ?k1"
  let ?k3 = "?k2\<lparr>xPendingReadyList := remove1 t (xPendingReadyList ?k2),
    xSuspendedTaskList := xSuspendedTaskList ?k2 @ [t]\<rparr>"
  let ?k4 = "prvResetNextTaskUnblockTime ?k3"
  have k: "timing_ok k" "ready_but (uxPriority t) k" "once (state_items k)"
    using assms(1) ready_but by (simp_all add: kernel_ok_def)
  have f: "pxReadyTasksLists ?k3 = pxReadyTasksLists ?k1" "pxDelayedTaskList ?k3 = pxDelayedTaskList ?k1"
    "pxOverflowDelayedTaskList ?k3 = pxOverflowDelayedTaskList ?k1" "xTickCount ?k3 = xTickCount ?k1"
    "xNextTaskUnblockTime ?k3 = xNextTaskUnblockTime ?k1" "xSuspendedTaskList ?k3 = xSuspendedTaskList ?k1 @ [t]"
    "uxTopReadyPriority ?k3 = uxTopReadyPriority ?k2" "pxReadyTasksLists ?k2 = pxReadyTasksLists ?k1"
    "uxSchedulerSuspended ?k3 = uxSchedulerSuspended ?k1" "pxCurrentTCB ?k3 = pxCurrentTCB ?k1"
    by (simp_all add: taskRESET_READY_PRIORITY_def portRESET_READY_PRIORITY_def)
  have "ready_items ?k3 = ready_items ?k1" using f(1) by (simp add: ready_items_def)
  then have "state_items ?k3 = add_mset t (state_items ?k1)" unfolding items_parts f by simp
  then have i3: "state_items ?k3 = state_items k" using assms(2) remove_items [OF k(2,3)] by simp
  have "timing_ok ?k3" using timing_ok_cong [OF f(2,3,4,5)] remove_timing [OF k(1)] by simp
  moreover have "ready_ok ?k3" using ready_ok_cong [of ?k3 ?k2] f(1,7,8) removed_ready_ok [OF assms(1,2)] by simp
  ultimately have ok3: "kernel_ok ?k3" using i3 k(3) by (simp add: kernel_ok_def)
  have k4: "keeps_kernel k ?k4" using reset_unblock_keeps [OF ok3] i3 by (simp add: keeps_kernel_def)
  have g: "pxReadyTasksLists ?k4 = pxReadyTasksLists ?k1" "pxDelayedTaskList ?k4 = pxDelayedTaskList ?k1"
    "pxOverflowDelayedTaskList ?k4 = pxOverflowDelayedTaskList ?k1" "xSuspendedTaskList ?k4 = xSuspendedTaskList ?k1 @ [t]"
    "uxSchedulerSuspended ?k4 = uxSchedulerSuspended k" "pxCurrentTCB ?k4 = pxCurrentTCB k"
    using f by (simp_all add: prvResetNextTaskUnblockTime_def remove_state_item_def remove_ready_def)
  have "count (ready_items k) t \<le> 1"
    using k(3) unfolding once_def items_parts count_union by (metis add_leD1)
  then have "t \<notin># ready_items k - {#t#}" by (simp add: not_in_iff)
  moreover have "ready_items ?k4 = ready_items k - {#t#}"
    using ready_items_remove [OF k(2), of t] g(1) by (simp add: ready_items_def remove_state_item_def)
  moreover have "ready_but (uxPriority t) ?k4" using k4 ready_but by (simp add: keeps_kernel_def kernel_ok_def)
  ultimately have nr: "\<not> is_ready ?k4 t" using in_ready_items by metis
  have nw: "t \<notin> snd ` set (waits ?k4)"
    unfolding waits_def g(2,3) set_map set_append by (auto simp: ticks_left_def remove_state_item_def)
  have m: "move_to_suspended t k = ?k4" unfolding move_to_suspended_def Let_def by simp
  show "keeps_kernel k (move_to_suspended t k)" unfolding m by (rule k4)
  show "t \<in> set (xSuspendedTaskList (move_to_suspended t k))" unfolding m g(4) by simp
  show "\<not> is_ready (move_to_suspended t k) t" unfolding m by (rule nr)
  show "t \<notin> snd ` set (waits (move_to_suspended t k))" unfolding m by (rule nw)
  show "uxSchedulerSuspended (move_to_suspended t k) = uxSchedulerSuspended k" unfolding m by (rule g(5))
  show "pxCurrentTCB (move_to_suspended t k) = pxCurrentTCB k" unfolding m by (rule g(6))
qed

lemma suspend_keeps [keeps]:
  assumes "kernel_ok k" and "t = (case handle of None \<Rightarrow> pxCurrentTCB k | Some t \<Rightarrow> t)"
    and "t \<in># state_items k" and "uxSchedulerSuspended k = 0"
  shows "\<exists>k'. vTaskSuspend handle k = Inr (t, k') \<and> keeps_kernel k k' \<and> t \<in> set (xSuspendedTaskList k') \<and>
    \<not> is_ready k' t \<and> t \<notin> snd ` set (waits k')"
proof -
  note m = move_to_suspended_keeps [OF assms(1,3)]
  have "kernel_ok (move_to_suspended t k)" using m(1) by (simp add: keeps_kernel_def)
  then have y: "keeps_kernel k (yield_within_api (move_to_suspended t k))"
    using keeps_trans [OF m(1) keeps_flags(5)] by blast
  have s: "xSuspendedTaskList (yield_within_api (move_to_suspended t k)) = xSuspendedTaskList (move_to_suspended t k)"
    by (simp add: yield_within_api_def)
  have r: "vTaskSuspend handle k =
      Inr (t, if t = pxCurrentTCB k then yield_within_api (move_to_suspended t k) else move_to_suspended t k)"
    unfolding vTaskSuspend_def Let_def assms(2) [symmetric] m(5,6) using assms(4) by simp
  show ?thesis unfolding r using m y s by (cases "t = pxCurrentTCB k") (simp_all add: yield_keeps)
qed

section \<open>Selecting a task\<close>

lemma leading_zeros:
  fixes w :: u32
  assumes "p < 32" and "bit w p" and "\<forall>q. p < q \<and> q < 32 \<longrightarrow> \<not> bit w q"
  shows "count_leading_zeros w = 31 - p"
proof -
  have up: "[0..<32] = [0..<p] @ p # [Suc p..<32]"
    using assms(1) by (metis upt_add_eq_append upt_conv_Cons add_0 le_add_diff_inverse less_imp_le_nat zero_le)
  have "map (bit w) (rev [0..<32]) = map (bit w) (rev [Suc p..<32]) @ True # map (bit w) (rev [0..<p])"
    unfolding up using assms(2) by simp
  moreover have "\<forall>b \<in> set (map (bit w) (rev [Suc p..<32])). \<not> b" using assms(3) by auto
  ultimately have "takeWhile Not (map (bit w) (rev [0..<32])) = map (bit w) (rev [Suc p..<32])"
    by (simp only: takeWhile_tail not_True_eq_False simp_thms takeWhile_eq_all_conv)
  then show ?thesis using assms(1) by (simp add: count_leading_zeros_def)
qed

lemma ready_bit:
  "ready_ok k \<Longrightarrow> p < 32 \<Longrightarrow> bit (uxTopReadyPriority k) p \<longleftrightarrow> entries (pxReadyTasksLists k p) \<noteq> []"
  unfolding ready_ok_def by blast

lemma switch_selects:
  assumes "kernel_ok k" and "is_ready k u" and "uxSchedulerSuspended k = 0"
  shows "\<exists>k'. vTaskSwitchContext k = Inr k' \<and> keeps_kernel k k' \<and> is_ready k' (pxCurrentTCB k') \<and>
    (\<forall>t. is_ready k t \<longrightarrow> uxPriority t \<le> uxPriority (pxCurrentTCB k')) \<and> \<not> xYieldPending k' \<and>
    next_entry (pxReadyTasksLists k (uxPriority (pxCurrentTCB k'))) =
       Inr (pxCurrentTCB k', pxReadyTasksLists k' (uxPriority (pxCurrentTCB k')))"
proof -
  have r: "ready_ok k" "timing_ok k" "once (state_items k)" using assms(1) by (simp_all add: kernel_ok_def)
  let ?P = "\<lambda>p. p < 32 \<and> bit (uxTopReadyPriority k) p"
  have prio: "?P (uxPriority t)" if "is_ready k t" for t
  proof -
    have "uxPriority t < configMAX_PRIORITIES"
      using that ready_but_priority [OF ready_but [OF r(1)]] unfolding is_ready_def by blast
    then have "uxPriority t < 32" by (simp add: configMAX_PRIORITIES_def)
    moreover have "entries (pxReadyTasksLists k (uxPriority t)) \<noteq> []" using that by (auto simp: is_ready_def)
    ultimately show ?thesis using ready_bit [OF r(1)] by blast
  qed
  define p where "p = (GREATEST p. ?P p)"
  have p: "?P p" unfolding p_def by (rule GreatestI_nat [where P = ?P and b = 31, OF prio [OF assms(2)]]) simp
  have top: "q \<le> p" if "?P q" for q unfolding p_def by (rule Greatest_le_nat [where P = ?P and b = 31, OF that]) simp
  have "\<forall>q. p < q \<and> q < 32 \<longrightarrow> \<not> bit (uxTopReadyPriority k) q"
  proof (intro allI impI notI)
    fix q assume "p < q \<and> q < 32" "bit (uxTopReadyPriority k) q"
    then show False using top [of q] by simp
  qed
  then have "count_leading_zeros (uxTopReadyPriority k) = 31 - p" using leading_zeros p by blast
  moreover have "uxTopReadyPriority k \<noteq> 0" using p by auto
  ultimately have high: "portGET_HIGHEST_PRIORITY (uxTopReadyPriority k) = Inr p"
    using p by (simp add: portGET_HIGHEST_PRIORITY_def)
  have ne: "entries (pxReadyTasksLists k p) \<noteq> []" and ix: "index_ok (pxReadyTasksLists k p)"
    using r(1) p unfolding ready_ok_def by blast+
  obtain x l where x: "next_entry (pxReadyTasksLists k p) = Inr (x, l)" "x \<in> set (entries (pxReadyTasksLists k p))"
    "entries l = entries (pxReadyTasksLists k p)" "index_ok l"
    using next_entry_ok [OF ix ne] by blast
  have xp: "uxPriority x = p" using ready_but_priority [OF ready_but [OF r(1)] x(2)] by blast
  let ?k' = "k\<lparr>xYieldPending := False, pxCurrentTCB := x, pxReadyTasksLists := (pxReadyTasksLists k)(p := l)\<rparr>"
  have run: "vTaskSwitchContext k = Inr ?k'"
    using assms(3) high ne x(1) by (simp add: vTaskSwitchContext_def taskSELECT_HIGHEST_PRIORITY_TASK_def)
  have e: "entries (pxReadyTasksLists ?k' q) = entries (pxReadyTasksLists k q)" for q using x(3) by simp
  have "index_ok (pxReadyTasksLists ?k' q)" for q using x(4) r(1) by (simp add: ready_ok_def)
  then have "ready_ok ?k'" using r(1) unfolding ready_ok_def e by simp
  moreover have "timing_ok ?k'" using timing_ok_cong [of ?k' k] r(2) by simp
  moreover have "state_items ?k' = state_items k" unfolding state_items_def e by simp
  ultimately have "keeps_kernel k ?k'" using r(3) by (simp add: keeps_kernel_def kernel_ok_def)
  then show ?thesis using run x xp top prio by (auto simp: is_ready_def)
qed

section \<open>Properties\<close>

text \<open>
  C20: no operation of the scheduler loses or duplicates a task: from a state in which every task is
  in exactly one of the ready, delayed and suspended lists, the ready bit mask is exact and the
  delayed lists are in order, each of them ends without a failed assertion in such a state with
  the same tasks. (Preconditions: the current task is ready and the time is not zero for a
  delay, the scheduler is suspended for resuming it, tasks in event and pending lists exist.)
\<close>

theorem scheduler_keeps_tasks:
  assumes "kernel_ok k"
  shows "(0 < ticks \<and> is_ready k (pxCurrentTCB k) \<longrightarrow>
      keeps_kernel k (prvAddCurrentTaskToDelayedList ticks indefinitely k)) \<and>
    (\<exists>switch ts k'. xTaskIncrementTick k = Inr (switch, ts, k') \<and> keeps_kernel k k') \<and>
    (ws \<noteq> [] \<and> set ws \<subseteq> set_mset (state_items k) \<longrightarrow>
      (\<exists>higher k'. xTaskRemoveFromEventList ws k = Inr (higher, tl ws, k') \<and> keeps_kernel k k')) \<and>
    (uxSchedulerSuspended k \<noteq> 0 \<and> set (xPendingReadyList k) \<subseteq> set_mset (state_items k) \<longrightarrow>
      (\<exists>y ts k'. xTaskResumeAll k = Inr (y, ts, k') \<and> keeps_kernel k k')) \<and>
    (uxSchedulerSuspended k = 0 \<and> t \<in># state_items k \<longrightarrow>
      (\<exists>k'. vTaskSuspend (Some t) k = Inr (t, k') \<and> keeps_kernel k k'))"
proof (intro conjI impI)
  show "keeps_kernel k (prvAddCurrentTaskToDelayedList ticks indefinitely k)"
    if "0 < ticks \<and> is_ready k (pxCurrentTCB k)" using delay_keeps [OF assms] that by blast
  show "\<exists>switch ts k'. xTaskIncrementTick k = Inr (switch, ts, k') \<and> keeps_kernel k k'"
    using tick_keeps [OF assms] by blast
  show "\<exists>higher k'. xTaskRemoveFromEventList ws k = Inr (higher, tl ws, k') \<and> keeps_kernel k k'"
    if "ws \<noteq> [] \<and> set ws \<subseteq> set_mset (state_items k)"
    using event_removal_keeps [OF assms, of ws] that hd_in_set [of ws] by blast
  show "\<exists>y ts k'. xTaskResumeAll k = Inr (y, ts, k') \<and> keeps_kernel k k'"
    if "uxSchedulerSuspended k \<noteq> 0 \<and> set (xPendingReadyList k) \<subseteq> set_mset (state_items k)"
    using resume_keeps [OF assms] that by blast
  show "\<exists>k'. vTaskSuspend (Some t) k = Inr (t, k') \<and> keeps_kernel k k'"
    if "uxSchedulerSuspended k = 0 \<and> t \<in># state_items k"
    using suspend_keeps [OF assms, of t "Some t"] that by auto
qed

lemma turns_hd: "turns (Suc n) l = Inr (xs, l') \<Longrightarrow> next_entry l = Inr (x, l1) \<Longrightarrow> hd xs = x"
  by auto

lemma sum_less_8: "(\<Sum>p<8. f p) = f 0 + f 1 + f 2 + f 3 + f 4 + f 5 + f 6 + f (7 :: nat)"
  by (simp add: eval_nat_numeral add.assoc)

lemma all_less_32: "p < 32 \<Longrightarrow> bit (4 :: u32) p \<longleftrightarrow> p = 2"
proof -
  have e: "(4 :: u32) = 2 ^ 2" by simp
  show "p < 32 \<Longrightarrow> bit (4 :: u32) p \<longleftrightarrow> p = 2" unfolding e bit_exp_iff by auto
qed

lemma sample_items: "state_items sample_delays =
    {#\<lparr>tcb_id = 3, uxPriority = 2\<rparr>, \<lparr>tcb_id = 5, uxPriority = 1\<rparr>, \<lparr>tcb_id = 6, uxPriority = 3\<rparr>#}"
  by (simp add: state_items_def configMAX_PRIORITIES_def sum_less_8 sample_delays_def sample_kernel_def
      vListInitialise_def)

lemma sample_kernel_ok: "kernel_ok sample_delays"
proof -
  have top: "uxTopReadyPriority sample_delays = 4" by (simp add: sample_delays_def sample_kernel_def)
  have l: "pxReadyTasksLists sample_delays p =
      (if p = 2 then \<lparr>entries = [\<lparr>tcb_id = 3, uxPriority = 2\<rparr>], pxIndex = 1\<rparr> else \<lparr>entries = [], pxIndex = 0\<rparr>)" for p
    by (simp add: sample_delays_def sample_kernel_def vListInitialise_def)
  have "ready_ok sample_delays"
    unfolding ready_ok_def top l using all_less_32 by (simp add: index_ok_def configMAX_PRIORITIES_def)
  moreover have "once (state_items sample_delays)"
    by (auto simp: once_def sample_items configMAX_PRIORITIES_def)
  ultimately show ?thesis using sample_delays_ok by (simp add: kernel_ok_def)
qed

theorem scheduler_keeps_tasks_witness:
  "keeps_kernel sample_delays (prvAddCurrentTaskToDelayedList 9 True sample_delays) \<and>
    (\<exists>k'. vTaskSuspend (Some \<lparr>tcb_id = 5, uxPriority = 1\<rparr>) sample_delays =
      Inr (\<lparr>tcb_id = 5, uxPriority = 1\<rparr>, k') \<and> keeps_kernel sample_delays k')"
  using scheduler_keeps_tasks [OF sample_kernel_ok, of 9 True] sample_may_delay sample_delays_ok(2)
  by (simp add: may_delay_def sample_items)

text \<open>
  C21: a context switch selects a ready task, and no ready task has a higher priority; among the
  tasks of that priority it is the next one after the one that ran last, so that in as many
  switches as there are such tasks each of them gets exactly one turn.
\<close>

theorem switch_highest_in_turn:
  assumes "kernel_ok k" and "is_ready k u" and "uxSchedulerSuspended k = 0"
  shows "\<exists>k' round l'. vTaskSwitchContext k = Inr k' \<and> keeps_kernel k k' \<and>
    is_ready k' (pxCurrentTCB k') \<and>
    (\<forall>t. is_ready k t \<longrightarrow> uxPriority t \<le> uxPriority (pxCurrentTCB k')) \<and>
    turns (length (entries (pxReadyTasksLists k (uxPriority (pxCurrentTCB k')))))
      (pxReadyTasksLists k (uxPriority (pxCurrentTCB k'))) = Inr (round, l') \<and>
    hd round = pxCurrentTCB k' \<and>
    mset round = mset (entries (pxReadyTasksLists k (uxPriority (pxCurrentTCB k'))))"
proof -
  obtain k' where k': "vTaskSwitchContext k = Inr k'" "keeps_kernel k k'" "is_ready k' (pxCurrentTCB k')"
    "\<forall>t. is_ready k t \<longrightarrow> uxPriority t \<le> uxPriority (pxCurrentTCB k')"
    "next_entry (pxReadyTasksLists k (uxPriority (pxCurrentTCB k'))) =
       Inr (pxCurrentTCB k', pxReadyTasksLists k' (uxPriority (pxCurrentTCB k')))"
    using switch_selects [OF assms] by blast
  let ?l = "pxReadyTasksLists k (uxPriority (pxCurrentTCB k'))"
  have ix: "index_ok ?l" using assms(1) by (simp add: kernel_ok_def ready_ok_def)
  obtain l' where r: "turns (length (entries ?l)) ?l =
      Inr (drop (pxIndex ?l) (entries ?l) @ take (pxIndex ?l) (entries ?l), l')" (is "_ = Inr (?round, _)")
    using turns_round [OF ix] by blast
  have "entries ?l \<noteq> []"
  proof
    assume "entries ?l = []"
    then show False using k'(5) by (simp add: next_entry_def rd_def Let_def)
  qed
  then obtain n where n: "length (entries ?l) = Suc n" by (cases "entries ?l") auto
  have "hd ?round = pxCurrentTCB k'" by (rule turns_hd [OF r [unfolded n] k'(5)])
  moreover have "mset ?round = mset (entries ?l)"
    by (metis append_take_drop_id mset_append add.commute)
  ultimately show ?thesis using k' r by blast
qed

theorem switch_highest_in_turn_witness:
  "\<exists>k'. vTaskSwitchContext sample_delays = Inr k' \<and> is_ready k' (pxCurrentTCB k') \<and>
    uxPriority (pxCurrentTCB k') \<ge> 2"
proof -
  let ?t = "\<lparr>tcb_id = 3, uxPriority = 2\<rparr>"
  have r: "is_ready sample_delays ?t" by (simp add: is_ready_def sample_delays_def sample_kernel_def)
  from switch_highest_in_turn [OF sample_kernel_ok r sample_delays_ok(2)] r show ?thesis
    by (metis tcb.select_convs(2))
qed

end
