(* ===== verification/FreeRTOS_Blocking.thy ===== *)
theory FreeRTOS_Blocking
  imports FreeRTOS_Fifo FreeRTOS_Sched
begin

text \<open>
  A task that blocks on an empty queue (\<open>xQueueReceive\<close> with a block time), interleaved with
  interrupts and other tasks. The function is a program with a program counter: one step is one
  critical section or one access to shared data, and between any two steps interrupts may send
  to the queue or tick, and other tasks may run while the scheduler is not suspended. No wake-up
  is lost as long as the queue holds at most 127 items; with longer queues the eight-bit lock
  counter can wrap and a receiver sleep on a full queue.
\<close>

section \<open>Operations on the whole system\<close>

text \<open>The event items of the tasks \<open>ts\<close> leave the event lists they are in.\<close>

definition leave_event_lists :: "tcb list \<Rightarrow> rtos \<Rightarrow> rtos" where
  "leave_event_lists ts s = s\<lparr>queues := (\<lambda>h. map_option (\<lambda>q.
     q\<lparr>xTasksWaitingToSend := filter (\<lambda>t. t \<notin> set ts) (xTasksWaitingToSend q),
       xTasksWaitingToReceive := filter (\<lambda>t. t \<notin> set ts) (xTasksWaitingToReceive q)\<rparr>) (queues s h))\<rparr>"

definition rtos_tick :: "rtos \<Rightarrow> rtos result" where
  "rtos_tick s = bindr (xTaskIncrementTick (kern s)) (\<lambda>(switch, ts, k).
     Inr (leave_event_lists ts (s\<lparr>kern := k\<rparr>)))"

definition rtos_resume_all :: "rtos \<Rightarrow> (bool \<times> rtos) result" where
  "rtos_resume_all s = bindr (xTaskResumeAll (kern s)) (\<lambda>(yielded, ts, k).
     Inr (yielded, leave_event_lists ts (s\<lparr>kern := k\<rparr>)))"

text \<open>\<open>vTaskSuspend\<close>: the event item of the task leaves the list it is in.\<close>

definition suspend_task :: "tcb option \<Rightarrow> rtos \<Rightarrow> rtos result" where
  "suspend_task h s =
    bindr (vTaskSuspend h (kern s)) (\<lambda>(t, k). Inr (leave_event_lists [t] (s\<lparr>kern := k\<rparr>)))"

definition rtos_switch :: "rtos \<Rightarrow> rtos result" where
  "rtos_switch s = bindr (vTaskSwitchContext (kern s)) (\<lambda>k. Inr (s\<lparr>kern := k\<rparr>))"

section \<open>The receiving task\<close>

text \<open>
  What \<open>xQueueReceive\<close> is about to do. The tag of the last three steps of the loop body tells the
  branch that unlocks: the task is on the event list, there is data again, or time is up.
\<close>

datatype branch = On_list | Data_again | Time_out

datatype receive_pc =
    Try
  | Suspend_all
  | Lock_queue
  | Check_time
  | Check_empty
  | Place_on_list
  | Unlock_tx branch
  | Unlock_rx branch
  | Resume_all branch
  | Asleep
  | Last_look
  | Returned "u8 list option"

record receiver =
  sys :: rtos
  pc :: receive_pc
  xEntryTimeSet :: bool
  xTimeOut :: timeout
  xTicksToWait :: u32

text \<open>
  One step of the receiver. A yield is a context switch on the spot; \<open>Asleep\<close> is the point after
  it, where the task goes on once it is selected again.
\<close>

definition receive_step :: "handle \<Rightarrow> receiver \<Rightarrow> receiver result" where
  "receive_step a r =
    (case pc r of
      Try \<Rightarrow> bindr (receive_critical a (sys r)) (\<lambda>(item, s).
        case item of Some x \<Rightarrow> Inr (r\<lparr>sys := s, pc := Returned (Some x)\<rparr>)
        | None \<Rightarrow>
            if xTicksToWait r = 0 then Inr (r\<lparr>pc := Returned None\<rparr>)
            else if \<not> xEntryTimeSet r then
              Inr (r\<lparr>xTimeOut := vTaskInternalSetTimeOutState (kern s), xEntryTimeSet := True, pc := Suspend_all\<rparr>)
            else Inr (r\<lparr>pc := Suspend_all\<rparr>))
    | Suspend_all \<Rightarrow> Inr (r\<lparr>sys := (sys r)\<lparr>kern := vTaskSuspendAll (kern (sys r))\<rparr>, pc := Lock_queue\<rparr>)
    | Lock_queue \<Rightarrow> bindr (get_queue (Some a) (sys r)) (\<lambda>q.
        Inr (r\<lparr>sys := set_queue a (prvLockQueue q) (sys r), pc := Check_time\<rparr>))
    | Check_time \<Rightarrow>
        let (expired, t, ticks) = xTaskCheckForTimeOut (kern (sys r)) (xTimeOut r) (xTicksToWait r) in
        Inr (r\<lparr>xTimeOut := t, xTicksToWait := ticks, pc := if expired then Unlock_tx Time_out else Check_empty\<rparr>)
    | Check_empty \<Rightarrow> bindr (get_queue (Some a) (sys r)) (\<lambda>q.
        Inr (r\<lparr>pc := if prvIsQueueEmpty q then Place_on_list else Unlock_tx Data_again\<rparr>))
    | Place_on_list \<Rightarrow> bindr (get_queue (Some a) (sys r)) (\<lambda>q.
        let (ws, k) = vTaskPlaceOnEventList (xTicksToWait r) (xTasksWaitingToReceive q) (kern (sys r)) in
        Inr (r\<lparr>sys := (set_queue a (q\<lparr>xTasksWaitingToReceive := ws\<rparr>) (sys r))\<lparr>kern := k\<rparr>, pc := Unlock_tx On_list\<rparr>))
    | Unlock_tx b \<Rightarrow> bindr (unlock_tx a (sys r)) (\<lambda>s. Inr (r\<lparr>sys := s, pc := Unlock_rx b\<rparr>))
    | Unlock_rx b \<Rightarrow> bindr (unlock_rx a (sys r)) (\<lambda>s. Inr (r\<lparr>sys := s, pc := Resume_all b\<rparr>))
    | Resume_all b \<Rightarrow> bindr (rtos_resume_all (sys r)) (\<lambda>(yielded, s).
        bindr (if yielded \<or> b = On_list then rtos_switch s else Inr s) (\<lambda>s.
        Inr (r\<lparr>sys := s, pc := (case b of On_list \<Rightarrow> Asleep | Data_again \<Rightarrow> Try | Time_out \<Rightarrow> Last_look)\<rparr>)))
    | Asleep \<Rightarrow> Inr (r\<lparr>pc := Try\<rparr>)
    | Last_look \<Rightarrow> bindr (get_queue (Some a) (sys r)) (\<lambda>q.
        Inr (r\<lparr>pc := if prvIsQueueEmpty q then Returned None else Try\<rparr>))
    | Returned x \<Rightarrow> Inr r)"

text \<open>
  The steps of the system: the receiver \<open>t\<close>, when it is the running task; an interrupt that sends,
  or a tick; and, while the scheduler is not suspended, a context switch, and what another running
  task does: send without blocking, suspend a task of the set \<open>S\<close> other than itself, the receiver
  if it is in \<open>S\<close>, and resume any task. (\<open>w\<close> tells whether that task waits for an event; the
  receiver waits at this queue only.) Other tasks do not receive from this queue.
\<close>

inductive step :: "handle \<Rightarrow> tcb set \<Rightarrow> tcb \<Rightarrow> receiver \<Rightarrow> receiver \<Rightarrow> bool" for a S t where
  own: "pxCurrentTCB (kern (sys r)) = t \<Longrightarrow> receive_step a r = Inr r' \<Longrightarrow> step a S t r r'"
| interrupt_send: "fits_queue a (sys r) x \<Longrightarrow>
    xQueueGenericSendFromISR (Some a) (Some x) queueSEND_TO_BACK w (sys r) = Inr (ok, w', s) \<Longrightarrow>
    step a S t r (r\<lparr>sys := s\<rparr>)"
| tick: "rtos_tick (sys r) = Inr s \<Longrightarrow> step a S t r (r\<lparr>sys := s\<rparr>)"
| task_send: "fits_queue a (sys r) x \<Longrightarrow> uxSchedulerSuspended (kern (sys r)) = 0 \<Longrightarrow> pxCurrentTCB (kern (sys r)) \<noteq> t \<Longrightarrow>
    xQueueGenericSend0 (Some a) (Some x) queueSEND_TO_BACK (sys r) = Inr (ok, s) \<Longrightarrow>
    step a S t r (r\<lparr>sys := s\<rparr>)"
| task_suspend: "uxSchedulerSuspended (kern (sys r)) = 0 \<Longrightarrow> pxCurrentTCB (kern (sys r)) \<noteq> t \<Longrightarrow>
    u \<in> S \<Longrightarrow> u \<noteq> pxCurrentTCB (kern (sys r)) \<Longrightarrow> u \<in># state_items (kern (sys r)) \<Longrightarrow>
    suspend_task (Some u) (sys r) = Inr s \<Longrightarrow> step a S t r (r\<lparr>sys := s\<rparr>)"
| task_resume: "uxSchedulerSuspended (kern (sys r)) = 0 \<Longrightarrow> pxCurrentTCB (kern (sys r)) \<noteq> t \<Longrightarrow>
    u \<noteq> t \<or> w = (t \<in> set (xTasksWaitingToReceive (the (queues (sys r) a)))) \<Longrightarrow>
    vTaskResume (Some u) w (kern (sys r)) = Inr k \<Longrightarrow> step a S t r (r\<lparr>sys := (sys r)\<lparr>kern := k\<rparr>\<rparr>)"
| switch: "uxSchedulerSuspended (kern (sys r)) = 0 \<Longrightarrow> rtos_switch (sys r) = Inr s \<Longrightarrow>
    step a S t r (r\<lparr>sys := s\<rparr>)"

inductive reaches :: "handle \<Rightarrow> tcb set \<Rightarrow> tcb \<Rightarrow> receiver \<Rightarrow> receiver \<Rightarrow> bool" for a S t r where
  here: "reaches a S t r r"
| there: "reaches a S t r r1 \<Longrightarrow> step a S t r1 r2 \<Longrightarrow> reaches a S t r r2"

text \<open>
  The call starts: the scheduler is in order, the caller is one of at least two ready tasks, the
  queue is not locked and no task waits at it.
\<close>

definition starts :: "handle \<Rightarrow> tcb \<Rightarrow> receiver \<Rightarrow> bool" where
  "starts a t r \<longleftrightarrow> pc r = Try \<and> good_queue a (sys r) \<and>
    (let k = kern (sys r) in kernel_ok k \<and> uxSchedulerSuspended k = 0 \<and> xPendingReadyList k = [] \<and>
      pxCurrentTCB k = t \<and> is_ready k t \<and> (\<exists>u. u \<noteq> t \<and> is_ready k u)) \<and>
    (let q = the (queues (sys r) a) in xTasksWaitingToReceive q = [] \<and> xTasksWaitingToSend q = [] \<and>
      cTxLock q = queueUNLOCKED)"

section \<open>What the kernel operations leave alone\<close>

definition same_run :: "kernel \<Rightarrow> kernel \<Rightarrow> bool" where
  "same_run k k' \<longleftrightarrow> uxSchedulerSuspended k' = uxSchedulerSuspended k \<and> pxCurrentTCB k' = pxCurrentTCB k"

lemma same_run_refl: "same_run k k"
  by (simp add: same_run_def)

lemma same_run_trans: "same_run k k1 \<Longrightarrow> same_run k1 k2 \<Longrightarrow> same_run k k2"
  by (simp add: same_run_def)

lemma same_run_fold: "same_run k (fold prvAddTaskToReadyList ts k)"
  by (induction ts arbitrary: k) (simp_all add: same_run_def fields)

lemma same_run_switch_lists: "taskSWITCH_DELAYED_LISTS k = Inr k' \<Longrightarrow> same_run k k'"
  by (auto simp: taskSWITCH_DELAYED_LISTS_def prvResetNextTaskUnblockTime_def same_run_def split: if_splits)

lemma same_run_unblock: "unblock_delayed now ds k = (sw, ts, k') \<Longrightarrow> same_run k k'"
  using same_run_fold [of k] by (auto simp: unblock_delayed_eq Let_def same_run_def)

lemma same_run_tick:
  assumes "xTaskIncrementTick k = Inr (sw, ts, k')"
  shows "same_run k k'" and "uxSchedulerSuspended k \<noteq> 0 \<Longrightarrow> ts = []"
proof -
  show "uxSchedulerSuspended k \<noteq> 0 \<Longrightarrow> ts = []" using assms by (simp add: xTaskIncrementTick_def)
  show "same_run k k'"
  proof (cases "uxSchedulerSuspended k = 0")
    case True
    let ?k1 = "k\<lparr>xTickCount := xTickCount k + 1\<rparr>"
    obtain k2 where k2: "(if xTickCount k + 1 = 0 then taskSWITCH_DELAYED_LISTS ?k1 else Inr ?k1) = Inr k2"
      and r: "(let (switch, ts, k) = (if xNextTaskUnblockTime k2 \<le> xTickCount k + 1
             then unblock_delayed (xTickCount k + 1) (pxDelayedTaskList k2) k2 else (False, [], k2));
           slice = 1 < length (entries (pxReadyTasksLists k (uxPriority (pxCurrentTCB k)))) in
       Inr (switch \<or> slice \<or> xYieldPending k, ts, k)) = (Inr (sw, ts, k') :: (bool \<times> tcb list \<times> kernel) result)"
      using assms True unfolding xTaskIncrementTick_def Let_def by auto
    obtain sw2 where u: "(if xNextTaskUnblockTime k2 \<le> xTickCount k + 1
        then unblock_delayed (xTickCount k + 1) (pxDelayedTaskList k2) k2 else (False, [], k2)) = (sw2, ts, k')"
      using r by (cases "if xNextTaskUnblockTime k2 \<le> xTickCount k + 1
        then unblock_delayed (xTickCount k + 1) (pxDelayedTaskList k2) k2 else (False, [], k2)") (auto simp: Let_def)
    have "same_run k ?k1" by (simp add: same_run_def)
    moreover have "same_run ?k1 k2"
      using k2 same_run_switch_lists [of ?k1 k2] by (auto simp: same_run_refl split: if_splits)
    moreover have "same_run k2 k'"
      using u same_run_unblock by (auto simp: same_run_refl split: if_splits)
    ultimately show ?thesis using same_run_trans by blast
  next
    case False
    then show ?thesis using assms by (auto simp: xTaskIncrementTick_def same_run_def)
  qed
qed

lemma same_run_remove: "same_run k (remove_state_item t k)"
  by (simp add: same_run_def remove_state_item_def remove_ready_def)

lemma same_run_pending: "same_run k (ready_pending ts k)"
proof (induction ts arbitrary: k)
  case (Cons t ts)
  let ?k1 = "prvAddTaskToReadyList t (remove_state_item t (k\<lparr>xPendingReadyList := ts\<rparr>))"
  have "same_run k (if uxPriority (pxCurrentTCB ?k1) \<le> uxPriority t then ?k1\<lparr>xYieldPending := True\<rparr> else ?k1)"
    by (simp add: same_run_def fields remove_state_item_def remove_ready_def)
  from same_run_trans [OF this Cons.IH] show ?case by (simp add: Let_def)
qed (simp add: same_run_def)

lemma same_run_ticks: "pended_ticks n k = Inr (ts, k') \<Longrightarrow> same_run k k'"
proof (induction n arbitrary: k ts k')
  case (Suc n)
  then obtain sw us k1 vs where k1: "xTaskIncrementTick k = Inr (sw, us, k1)"
    "pended_ticks n (if sw then k1\<lparr>xYieldPending := True\<rparr> else k1) = Inr (vs, k')"
    by auto
  have "same_run k1 (if sw then k1\<lparr>xYieldPending := True\<rparr> else k1)" by (simp add: same_run_def)
  then show ?case using same_run_tick(1) [OF k1(1)] Suc.IH [OF k1(2)] same_run_trans by blast
qed (simp add: same_run_refl)

lemma resume_all_run:
  assumes "xTaskResumeAll k = Inr (y, ts, k')"
  shows "uxSchedulerSuspended k' = uxSchedulerSuspended k - 1" and "pxCurrentTCB k' = pxCurrentTCB k"
proof -
  let ?k1 = "k\<lparr>uxSchedulerSuspended := uxSchedulerSuspended k - 1\<rparr>"
  have "same_run ?k1 k'"
  proof (cases "uxSchedulerSuspended ?k1 = 0")
    case True
    then obtain k2 where "pended_ticks (unat (uxPendedTicks (ready_all_pending ?k1))) (ready_all_pending ?k1) = Inr (ts, k2)"
      "same_run k2 k'"
      using assms by (auto simp: xTaskResumeAll_def Let_def yield_within_api_def same_run_def split: if_splits)
    moreover have "same_run ?k1 (ready_all_pending ?k1)"
      using same_run_pending [of ?k1 "xPendingReadyList ?k1"]
      by (auto simp: ready_all_pending_def prvResetNextTaskUnblockTime_def same_run_def)
    ultimately show ?thesis using same_run_ticks same_run_trans by blast
  next
    case False
    then show ?thesis using assms by (auto simp: xTaskResumeAll_def same_run_def split: if_splits)
  qed
  then show "uxSchedulerSuspended k' = uxSchedulerSuspended k - 1" "pxCurrentTCB k' = pxCurrentTCB k"
    by (simp_all add: same_run_def)
qed

lemma switch_run: "vTaskSwitchContext k = Inr k' \<Longrightarrow> uxSchedulerSuspended k' = uxSchedulerSuspended k"
  by (auto simp: vTaskSwitchContext_def taskSELECT_HIGHEST_PRIORITY_TASK_def split: if_splits)

lemma event_removal_run:
  "xTaskRemoveFromEventList ws k = Inr (h, ws', k') \<Longrightarrow> ws' = tl ws \<and> same_run k k'"
  by (cases "(ws, k)" rule: xTaskRemoveFromEventList.cases)
    (auto simp: Let_def same_run_def fields remove_state_item_def remove_ready_def split: if_splits)

section \<open>What the queue operations do to the receiver's view\<close>

lemma wake_receiver_view:
  assumes "wake_receiver q k = Inr (h, q', k')"
  shows "xTasksWaitingToReceive q' = tl (xTasksWaitingToReceive q)" and "same_ring q q'"
    and "cTxLock q' = cTxLock q" and "same_run k k'" and "xTasksWaitingToSend q' = xTasksWaitingToSend q"
proof -
  have "q' = q\<lparr>xTasksWaitingToReceive := tl (xTasksWaitingToReceive q)\<rparr> \<and> same_run k k'"
  proof (cases "xTasksWaitingToReceive q = []")
    case True
    then have "q' = q" "k' = k" using assms by (simp_all add: wake_receiver_def)
    then show ?thesis using True same_run_refl by (cases q) simp
  next
    case False
    then show ?thesis using assms event_removal_run by (auto simp: wake_receiver_def)
  qed
  then show "xTasksWaitingToReceive q' = tl (xTasksWaitingToReceive q)" "same_ring q q'"
    "cTxLock q' = cTxLock q" "same_run k k'" "xTasksWaitingToSend q' = xTasksWaitingToSend q"
    using same_ring_receive by auto
qed

text \<open>A post to a queue that is not in a set, as the receiver sees it.\<close>

definition posted :: "queue \<Rightarrow> queue \<Rightarrow> bool" where
  "posted q q' \<longleftrightarrow> wf_queue q' \<and> pxQueueSetContainer q' = None \<and> uxLength q' = uxLength q \<and>
    uxItemSize q' = uxItemSize q \<and> xTasksWaitingToSend q' = xTasksWaitingToSend q \<and>
    (if uxMessagesWaiting q < uxLength q
     then uxMessagesWaiting q' = uxMessagesWaiting q + 1 \<and>
       (if cTxLock q = queueUNLOCKED
        then cTxLock q' = queueUNLOCKED \<and> xTasksWaitingToReceive q' = tl (xTasksWaitingToReceive q)
        else cTxLock q' = cTxLock q + 1 \<and> xTasksWaitingToReceive q' = xTasksWaitingToReceive q)
     else q' = q)"

text \<open>
  The hand-over of an item to the first of the waiting tasks, or none: the tasks that still wait and
  the kernel after it.
\<close>

definition handed :: "tcb list \<Rightarrow> tcb list \<Rightarrow> kernel \<Rightarrow> kernel \<Rightarrow> bool" where
  "handed ws ws' k k' \<longleftrightarrow> ws' = ws \<and> k' = k \<or>
    (\<exists>h k1. ws \<noteq> [] \<and> ws' = tl ws \<and> xTaskRemoveFromEventList ws k = Inr (h, ws', k1) \<and>
      k' \<in> {k1, yield_within_api k1, vTaskMissedYield k1})"

lemma wake_receiver_handed:
  assumes "wake_receiver q k = Inr (h, q', k1)" and "k' \<in> {k1, yield_within_api k1, vTaskMissedYield k1}"
    and "\<not> h \<longrightarrow> k' = k1"
  shows "handed (xTasksWaitingToReceive q) (xTasksWaitingToReceive q') k k'"
  using assms event_removal_run by (fastforce simp: wake_receiver_def handed_def split: if_splits)

lemma isr_send_view:
  assumes "queues s a = Some q" and "wf_queue q" and "pxQueueSetContainer q = None" and "fits_queue a s x"
    and "xQueueGenericSendFromISR (Some a) (Some x) queueSEND_TO_BACK w s = Inr (ok, w', s')"
  shows "\<exists>q'. queues s' a = Some q' \<and> posted q q' \<and> same_run (kern s) (kern s') \<and>
    handed (xTasksWaitingToReceive q) (xTasksWaitingToReceive q') (kern s) (kern s') \<and> (ok \<longleftrightarrow> uxMessagesWaiting q < uxLength q)"
proof (cases "uxMessagesWaiting q < uxLength q")
  case False
  then show ?thesis using assms same_run_refl
    by (simp add: xQueueGenericSendFromISR_def get_queue_def send_args_ok_def posted_def handed_def)
next
  case True
  have lx: "length x = unat (uxItemSize q)" using assms(1,4) by (simp add: fits_queue_def)
  obtain q1 where q1: "prvCopyDataToQueue q x queueSEND_TO_BACK = Inr q1" "wf_queue q1"
    "uxLength q1 = uxLength q" "uxItemSize q1 = uxItemSize q" "pxQueueSetContainer q1 = None"
    "cTxLock q1 = cTxLock q" "uxMessagesWaiting q1 = uxMessagesWaiting q + 1"
    "xTasksWaitingToReceive q1 = xTasksWaitingToReceive q" "xTasksWaitingToSend q1 = xTasksWaitingToSend q"
    using post_copy [OF assms(2) lx True] assms(3) by auto
  show ?thesis
  proof (cases "cTxLock q = queueUNLOCKED")
    case False
    then have "s' = set_queue a (q1\<lparr>cTxLock := cTxLock q + 1\<rparr>) s" "ok"
      using assms(1,5) q1 True
      by (simp_all add: xQueueGenericSendFromISR_def get_queue_def send_args_ok_def Let_def)
    moreover have "posted q (q1\<lparr>cTxLock := cTxLock q + 1\<rparr>)"
      using q1 True False same_ring_facts [OF same_ring_tx [of q1 "cTxLock q + 1"]] by (simp add: posted_def)
    ultimately show ?thesis using True q1(8) same_run_refl by (simp add: handed_def)
  next
    case unl: True
    obtain h q2 k where q2: "wake_receiver q1 (kern s) = Inr (h, q2, k)" "s' = (set_queue a q2 s)\<lparr>kern := k\<rparr>" "ok"
      using assms(1,5) q1 True unl
      by (auto simp: xQueueGenericSendFromISR_def get_queue_def send_args_ok_def Let_def)
    note v = wake_receiver_view [OF q2(1)]
    have "posted q q2"
      using q1 True unl v same_ring_facts [OF v(2)] by (simp add: posted_def)
    moreover have "handed (xTasksWaitingToReceive q) (xTasksWaitingToReceive q2) (kern s) k"
      using wake_receiver_handed [OF q2(1), of k] q1(8) by simp
    ultimately show ?thesis using q2 v(4) True by simp
  qed
qed

lemma task_send_view:
  assumes "queues s a = Some q" and "wf_queue q" and "pxQueueSetContainer q = None" and "fits_queue a s x"
    and "cTxLock q = queueUNLOCKED"
    and "xQueueGenericSend0 (Some a) (Some x) queueSEND_TO_BACK s = Inr (ok, s')"
  shows "\<exists>q'. queues s' a = Some q' \<and> posted q q' \<and> same_run (kern s) (kern s') \<and>
    handed (xTasksWaitingToReceive q) (xTasksWaitingToReceive q') (kern s) (kern s')"
proof (cases "uxMessagesWaiting q < uxLength q")
  case False
  then show ?thesis using assms same_run_refl
    by (simp add: xQueueGenericSend0_def send_critical_def get_queue_def send_args_ok_def posted_def handed_def)
next
  case True
  have lx: "length x = unat (uxItemSize q)" using assms(1,4) by (simp add: fits_queue_def)
  obtain q1 where q1: "prvCopyDataToQueue q x queueSEND_TO_BACK = Inr q1" "wf_queue q1"
    "uxLength q1 = uxLength q" "uxItemSize q1 = uxItemSize q" "pxQueueSetContainer q1 = None"
    "cTxLock q1 = cTxLock q" "uxMessagesWaiting q1 = uxMessagesWaiting q + 1"
    "xTasksWaitingToReceive q1 = xTasksWaitingToReceive q" "xTasksWaitingToSend q1 = xTasksWaitingToSend q"
    using post_copy [OF assms(2) lx True] assms(3) by auto
  obtain h q2 k where q2: "wake_receiver q1 (kern s) = Inr (h, q2, k)"
    "s' = (set_queue a q2 (set_queue a q1 s))\<lparr>kern := if h then yield_within_api k else k\<rparr>"
    using assms(1,6) q1 True
    by (auto simp: xQueueGenericSend0_def send_critical_def get_queue_def send_args_ok_def Let_def)
  note v = wake_receiver_view [OF q2(1)]
  have "posted q q2" using q1 True assms(5) v same_ring_facts [OF v(2)] by (simp add: posted_def)
  moreover have "same_run (kern s) (kern s')" using v(4) q2(2) by (simp add: same_run_def yield_within_api_def)
  moreover have "handed (xTasksWaitingToReceive q) (xTasksWaitingToReceive q2) (kern s) (kern s')"
    using wake_receiver_handed [OF q2(1), of "kern s'"] q1(8) q2(2) by simp
  ultimately show ?thesis using q2(2) by simp
qed

lemma unlock_tx_loop_view:
  assumes "queues s a = Some q" and "pxQueueSetContainer q = None" and "length (xTasksWaitingToReceive q) \<le> 1"
    and "unlock_tx_loop a c s = Inr s'"
  shows "\<exists>q'. queues s' a = Some q' \<and> same_ring q q' \<and> same_run (kern s) (kern s') \<and>
    handed (xTasksWaitingToReceive q) (xTasksWaitingToReceive q') (kern s) (kern s') \<and> xTasksWaitingToSend q' = xTasksWaitingToSend q \<and>
    xTasksWaitingToReceive q' = (if 0 < sint c then [] else xTasksWaitingToReceive q)"
proof (cases "0 < sint c \<and> xTasksWaitingToReceive q \<noteq> []")
  case False
  then have "s' = s" using assms
    by (subst (asm) unlock_tx_loop.simps) (auto simp: queueLOCKED_UNMODIFIED_def get_queue_def split: if_splits)
  then show ?thesis using assms(1) False same_ring_refl same_run_refl by (auto simp: handed_def)
next
  case True
  then have l: "\<not> \<not> sint queueLOCKED_UNMODIFIED < sint c" by (simp add: queueLOCKED_UNMODIFIED_def)
  obtain h q1 k where w: "wake_receiver q (kern s) = Inr (h, q1, k)"
    and rest: "unlock_tx_loop a (c - 1) ((set_queue a q1 s)\<lparr>kern := if h then vTaskMissedYield k else k\<rparr>) = Inr s'"
    using assms l True by (subst (asm) unlock_tx_loop.simps) (auto simp: get_queue_def)
  note v = wake_receiver_view [OF w]
  have e: "xTasksWaitingToReceive q1 = []" using v(1) assms(3) True by (cases "xTasksWaitingToReceive q") auto
  have "pxQueueSetContainer q1 = None" using same_ring_facts [OF v(2)] assms(2) by simp
  then have "s' = (set_queue a q1 s)\<lparr>kern := if h then vTaskMissedYield k else k\<rparr>"
    using rest e by (subst (asm) unlock_tx_loop.simps) (auto simp: get_queue_def split: if_splits)
  moreover have "handed (xTasksWaitingToReceive q) (xTasksWaitingToReceive q1) (kern s) (if h then vTaskMissedYield k else k)"
    by (rule wake_receiver_handed [OF w]) auto
  ultimately show ?thesis using v e True by (auto simp: same_run_def vTaskMissedYield_def)
qed

lemma same_ring_trans: "same_ring q q1 \<Longrightarrow> same_ring q1 q2 \<Longrightarrow> same_ring q q2"
  by (auto simp: same_ring_def) (metis queue.surjective queue.update_convs)

lemma unlock_tx_view:
  assumes "queues s a = Some q" and "pxQueueSetContainer q = None" and "length (xTasksWaitingToReceive q) \<le> 1"
    and "unlock_tx a s = Inr s'"
  shows "\<exists>q'. queues s' a = Some q' \<and> same_ring q q' \<and> same_run (kern s) (kern s') \<and>
    handed (xTasksWaitingToReceive q) (xTasksWaitingToReceive q') (kern s) (kern s') \<and> xTasksWaitingToSend q' = xTasksWaitingToSend q \<and>
    cTxLock q' = queueUNLOCKED \<and>
    xTasksWaitingToReceive q' = (if 0 < sint (cTxLock q) then [] else xTasksWaitingToReceive q)"
proof -
  obtain s1 where s1: "unlock_tx_loop a (cTxLock q) s = Inr s1"
    "bindr (get_queue (Some a) s1) (\<lambda>q. Inr (set_queue a (q\<lparr>cTxLock := queueUNLOCKED\<rparr>) s1)) = Inr s'"
    using assms(1,4) by (auto simp: unlock_tx_def get_queue_def)
  obtain q1 where q1: "queues s1 a = Some q1" "same_ring q q1" "same_run (kern s) (kern s1)"
    "handed (xTasksWaitingToReceive q) (xTasksWaitingToReceive q1) (kern s) (kern s1)" "xTasksWaitingToSend q1 = xTasksWaitingToSend q"
    "xTasksWaitingToReceive q1 = (if 0 < sint (cTxLock q) then [] else xTasksWaitingToReceive q)"
    using unlock_tx_loop_view [OF assms(1-3) s1(1)] by blast
  have "s' = set_queue a (q1\<lparr>cTxLock := queueUNLOCKED\<rparr>) s1" using s1(2) q1(1) by (simp add: get_queue_def)
  then show ?thesis using q1 same_ring_trans [OF q1(2) same_ring_tx] by simp
qed

text \<open>The senders' side leaves the receivers alone.\<close>

definition senders_only :: "queue \<Rightarrow> queue \<Rightarrow> bool" where
  "senders_only q q' \<longleftrightarrow> (\<exists>ts c. q' = q\<lparr>xTasksWaitingToSend := ts, cRxLock := c\<rparr>)"

lemma senders_only_facts:
  "senders_only q q' \<Longrightarrow> same_ring q q' \<and> cTxLock q' = cTxLock q \<and>
    xTasksWaitingToReceive q' = xTasksWaitingToReceive q"
proof -
  assume "senders_only q q'"
  then obtain ts c where q': "q' = q\<lparr>xTasksWaitingToSend := ts\<rparr>\<lparr>cRxLock := c\<rparr>" by (auto simp: senders_only_def)
  show ?thesis unfolding q' using same_ring_trans [OF same_ring_send same_ring_rx] by simp
qed

lemma senders_only_refl: "senders_only q q"
  unfolding senders_only_def by (rule exI [of _ "xTasksWaitingToSend q"], rule exI [of _ "cRxLock q"]) simp

lemma senders_only_trans: "senders_only q q1 \<Longrightarrow> senders_only q1 q2 \<Longrightarrow> senders_only q q2"
  by (auto simp: senders_only_def) blast

lemma senders_only_send: "senders_only q (q\<lparr>xTasksWaitingToSend := ts\<rparr>)"
  unfolding senders_only_def by (rule exI [of _ ts], rule exI [of _ "cRxLock q"]) simp

lemma senders_only_rx: "senders_only q (q\<lparr>cRxLock := c\<rparr>)"
  unfolding senders_only_def by (rule exI [of _ "xTasksWaitingToSend q"], rule exI [of _ c]) simp

lemma wake_sender_view:
  assumes "wake_sender q k = Inr (h, q', k')"
  shows "senders_only q q' \<and> same_run k k'"
proof (cases "xTasksWaitingToSend q = []")
  case True
  then show ?thesis using assms senders_only_refl same_run_refl by (simp add: wake_sender_def)
next
  case False
  then obtain ws where "q' = q\<lparr>xTasksWaitingToSend := ws\<rparr>" "same_run k k'"
    using assms event_removal_run by (auto simp: wake_sender_def)
  then show ?thesis using senders_only_send by simp
qed

lemma unlock_rx_loop_view:
  "queues s a = Some q \<Longrightarrow> unlock_rx_loop a c s = Inr s' \<Longrightarrow>
    \<exists>q'. queues s' a = Some q' \<and> senders_only q q' \<and> same_run (kern s) (kern s')"
proof (induction a c s arbitrary: q rule: unlock_rx_loop.induct)
  case (1 a c s)
  show ?case
  proof (cases "sint queueLOCKED_UNMODIFIED < sint c \<and> xTasksWaitingToSend q \<noteq> []")
    case False
    then have "s' = s" using 1(2,3)
      by (subst (asm) unlock_rx_loop.simps) (auto simp: get_queue_def split: if_splits)
    then show ?thesis using 1(2) senders_only_refl same_run_refl by blast
  next
    case True
    obtain h q1 k where w: "wake_sender q (kern s) = Inr (h, q1, k)"
      and rest: "unlock_rx_loop a (c - 1) ((set_queue a q1 s)\<lparr>kern := if h then vTaskMissedYield k else k\<rparr>) = Inr s'"
        (is "unlock_rx_loop _ _ ?s1 = _")
      using 1(2,3) True by (subst (asm) unlock_rx_loop.simps) (auto simp: get_queue_def)
    have "queues ?s1 a = Some q1" by simp
    then obtain q' where q': "queues s' a = Some q'" "senders_only q1 q'" "same_run (kern ?s1) (kern s')"
      using 1(1) True rest by blast
    have "same_run (kern s) (kern ?s1)" using wake_sender_view [OF w] by (simp add: same_run_def vTaskMissedYield_def)
    then show ?thesis using q' wake_sender_view [OF w] senders_only_trans same_run_trans by blast
  qed
qed

lemma unlock_rx_view:
  assumes "queues s a = Some q" and "unlock_rx a s = Inr s'"
  shows "\<exists>q'. queues s' a = Some q' \<and> senders_only q q' \<and> same_run (kern s) (kern s')"
proof -
  obtain s1 where s1: "unlock_rx_loop a (cRxLock q) s = Inr s1"
    "bindr (get_queue (Some a) s1) (\<lambda>q. Inr (set_queue a (q\<lparr>cRxLock := queueUNLOCKED\<rparr>) s1)) = Inr s'"
    using assms by (auto simp: unlock_rx_def get_queue_def)
  obtain q1 where q1: "queues s1 a = Some q1" "senders_only q q1" "same_run (kern s) (kern s1)"
    using unlock_rx_loop_view [OF assms(1) s1(1)] by blast
  have "s' = set_queue a (q1\<lparr>cRxLock := queueUNLOCKED\<rparr>) s1" using s1(2) q1(1) by (simp add: get_queue_def)
  then show ?thesis using q1 senders_only_trans [OF q1(2) senders_only_rx] by simp
qed

lemma receive_view:
  assumes "queues s a = Some q" and "wf_queue q" and "receive_critical a s = Inr (item, s')"
  shows "if uxMessagesWaiting q = 0 then item = None \<and> s' = s
    else \<exists>x q1 q'. item = Some x \<and> queues s' a = Some q' \<and> senders_only q1 q' \<and> same_run (kern s) (kern s') \<and>
      wf_queue q1 \<and> uxLength q1 = uxLength q \<and> pxQueueSetContainer q1 = pxQueueSetContainer q \<and>
      cTxLock q1 = cTxLock q \<and> xTasksWaitingToReceive q1 = xTasksWaitingToReceive q"
proof (cases "uxMessagesWaiting q = 0")
  case True
  then show ?thesis using assms by (simp add: receive_critical_def get_queue_def)
next
  case False
  then have ne: "0 < uxMessagesWaiting q" by (simp add: word_greater_zero_iff)
  obtain q0 r where q0: "prvCopyDataFromQueue q = Inr (hd (items q), q0)" "q0 = q\<lparr>pcReadFrom := r\<rparr>"
    "let p = q0\<lparr>uxMessagesWaiting := uxMessagesWaiting q - 1\<rparr> in wf_queue p \<and> uxLength p = uxLength q"
    using fetch_copy [OF assms(2) ne] by (auto simp: Let_def)
  let ?q1 = "q0\<lparr>uxMessagesWaiting := uxMessagesWaiting q - 1\<rparr>"
  obtain h q' k where w: "wake_sender ?q1 (kern s) = Inr (h, q', k)" "item = Some (hd (items q))"
    "s' = (set_queue a q' s)\<lparr>kern := if h then yield_within_api k else k\<rparr>"
    using assms(1,3) ne q0(1) by (auto simp: receive_critical_def get_queue_def Let_def)
  have "same_run (kern s) (kern s')"
    using wake_sender_view [OF w(1)] w(3) by (simp add: same_run_def yield_within_api_def)
  moreover have "wf_queue ?q1" "uxLength ?q1 = uxLength q" "pxQueueSetContainer ?q1 = pxQueueSetContainer q"
    "cTxLock ?q1 = cTxLock q" "xTasksWaitingToReceive ?q1 = xTasksWaitingToReceive q"
    using q0(2,3) by (simp_all add: Let_def)
  moreover have "queues s' a = Some q'" using w(3) by simp
  ultimately show ?thesis using False w(2) wake_sender_view [OF w(1)] by auto
qed

end
