(* ===== verification/Heap_4_Api.thy ===== *)
theory Heap_4_Api
  imports Heap_4_Calls FreeRTOS_Blocking
begin

text \<open>
  \<open>pvPortMalloc\<close> and \<open>vPortFree\<close> with the scheduler suspended and resumed around their work, the
  contract they keep, and the memory of a task: \<open>xTaskCreate\<close> allocates its stack and its control
  block, \<open>prvDeleteTCB\<close> gives them back.
\<close>

section \<open>The two functions\<close>

text \<open>
  \<open>configUSE_MALLOC_FAILED_HOOK\<close> is set, and \<open>vApplicationMallocFailedHook\<close> (\<open>src/src/diag.c\<close>) loops
  forever: a request that cannot be granted never returns, and the pointer returned is not null.
\<close>

definition suspended_section :: "rtos \<Rightarrow> rtos result" where
  "suspended_section s =
    bindr (rtos_resume_all (s\<lparr>kern := vTaskSuspendAll (kern s)\<rparr>)) (\<lambda>(yielded, s). Inr s)"

definition vApplicationMallocFailedHook :: "'a run" where
  "vApplicationMallocFailedHook = None"

definition pvPortMalloc :: "u32 \<Rightarrow> size_t \<Rightarrow> heap4 \<times> rtos \<Rightarrow> (nat \<times> heap4 \<times> rtos) run" where
  "pvPortMalloc ucHeap w = (\<lambda>(h, s).
    bindl (malloc_critical ucHeap w h) (\<lambda>(p, h).
    bindl (Some (suspended_section s)) (\<lambda>s.
    case p of None \<Rightarrow> vApplicationMallocFailedHook
    | Some a \<Rightarrow> bindl (Some (guard (a mod 8 = 0) Assert_failed)) (\<lambda>_. ret (a, h, s)))))"

definition vPortFree :: "nat option \<Rightarrow> heap4 \<times> rtos \<Rightarrow> (heap4 \<times> rtos) run" where
  "vPortFree pv = (\<lambda>(h, s).
    case pv of None \<Rightarrow> ret (h, s)
    | Some p \<Rightarrow>
        bindl (Some (guard (8 \<le> p) Out_of_bounds)) (\<lambda>_.
        bindl (Some (free_prepare (p - 8) h)) (\<lambda>h.
        bindl (free_critical (p - 8) h) (\<lambda>h.
        bindl (Some (suspended_section s)) (\<lambda>s. ret (h, s))))))"

section \<open>The contract\<close>

text \<open>
  An allocator of memory regions, and who owns what: the bytes asked for, by pointer. An
  allocation may never return, but it does not fault.
\<close>

locale region_allocator =
  fixes owns :: "'s \<Rightarrow> (nat \<rightharpoonup> nat) \<Rightarrow> bool"
    and alloc :: "size_t \<Rightarrow> 's \<Rightarrow> (nat \<times> 's) run"
    and release :: "nat option \<Rightarrow> 's \<Rightarrow> 's run"
  assumes alloc_ends: "owns s U \<Longrightarrow> alloc w s = None \<or> (\<exists>p s'. alloc w s = ret (p, s'))"
    and alloc_owns: "owns s U \<Longrightarrow> alloc w s = ret (p, s') \<Longrightarrow> U p = None \<and> owns s' (U(p \<mapsto> unat w))"
    and release_owns: "owns s U \<Longrightarrow> U p = Some n \<Longrightarrow> runs (release (Some p) s) (\<lambda>s'. owns s' (U(p := None)))"
    and owned_apart: "owns s U \<Longrightarrow> U p = Some n \<Longrightarrow> U q = Some m \<Longrightarrow> p < q \<Longrightarrow> p + n \<le> q"

text \<open>Two regions, allocated one after the other and released in the same order.\<close>

definition two_regions ::
    "(size_t \<Rightarrow> 's \<Rightarrow> (nat \<times> 's) run) \<Rightarrow> size_t \<Rightarrow> size_t \<Rightarrow> 's \<Rightarrow> (nat \<times> nat \<times> 's) run" where
  "two_regions alloc v w s =
    bindl (alloc v s) (\<lambda>(p, s). bindl (alloc w s) (\<lambda>(q, s). ret (p, q, s)))"

definition release_two :: "(nat option \<Rightarrow> 's \<Rightarrow> 's run) \<Rightarrow> nat \<Rightarrow> nat \<Rightarrow> 's \<Rightarrow> 's run" where
  "release_two release p q s = bindl (release (Some p) s) (release (Some q))"

context region_allocator
begin

lemma two_regions_owned:
  assumes "owns s U" "two_regions alloc v w s = ret (p, q, s')"
  shows "U p = None \<and> U q = None \<and> p \<noteq> q \<and> owns s' (U(p \<mapsto> unat v, q \<mapsto> unat w)) \<and>
    (p + unat v \<le> q \<or> q + unat w \<le> p)"
proof -
  obtain s1 where s1: "alloc v s = ret (p, s1)" "alloc w s1 = ret (q, s')"
    using assms(2) by (auto simp: two_regions_def)
  have p: "U p = None" "owns s1 (U(p \<mapsto> unat v))" using alloc_owns [OF assms(1) s1(1)] by auto
  have q: "(U(p \<mapsto> unat v)) q = None" "owns s' (U(p \<mapsto> unat v, q \<mapsto> unat w))"
    using alloc_owns [OF p(2) s1(2)] by auto
  have pq: "p \<noteq> q" using q(1) by auto
  then have "p + unat v \<le> q \<or> q + unat w \<le> p"
    using owned_apart [OF q(2), of p "unat v" q "unat w"] owned_apart [OF q(2), of q "unat w" p "unat v"]
    by (cases "p < q") auto
  then show ?thesis using p q pq by auto
qed

lemma two_regions_end:
  assumes "owns s U"
  shows "two_regions alloc v w s = None \<or> (\<exists>r. two_regions alloc v w s = ret r)"
proof (cases "alloc v s = None")
  case False
  then obtain p s1 where s1: "alloc v s = ret (p, s1)" using alloc_ends [OF assms, of v] by auto
  then have "owns s1 (U(p \<mapsto> unat v))" using alloc_owns [OF assms] by blast
  then show ?thesis using alloc_ends [of s1 _ w] s1 by (force simp: two_regions_def)
qed (simp add: two_regions_def)

lemma release_two_owned:
  assumes "owns s U" "U p = Some n" "U q = Some m" "p \<noteq> q"
  shows "runs (release_two release p q s) (\<lambda>s'. owns s' (U(p := None, q := None)))"
proof -
  have "runs (release (Some p) s) (\<lambda>s'. owns s' (U(p := None)))" by (rule release_owns [OF assms(1,2)])
  then show ?thesis unfolding release_two_def
  proof (rule runs_bindl)
    fix s1 assume "owns s1 (U(p := None))"
    then show "runs (release (Some q) s1) (\<lambda>s'. owns s' (U(p := None, q := None)))"
      by (rule release_owns) (use assms(3,4) in simp)
  qed
qed

text \<open>Allocating two regions and releasing them leaves the owned regions as they were.\<close>

lemma two_regions_back:
  assumes "owns s U" "two_regions alloc v w s = ret (p, q, s')"
  shows "runs (release_two release p q s') (\<lambda>s''. owns s'' U)"
proof -
  note t = two_regions_owned [OF assms]
  have "runs (release_two release p q s') (\<lambda>s''. owns s'' (U(p \<mapsto> unat v, q \<mapsto> unat w, p := None, q := None)))"
    by (rule release_two_owned) (use t in auto)
  moreover have "U(p \<mapsto> unat v, q \<mapsto> unat w, p := None, q := None) = U" using t by (auto simp: fun_eq_iff)
  ultimately show ?thesis by simp
qed

end

section \<open>The memory manager keeps the contract\<close>

text \<open>A state of the kernel in which the scheduler can be suspended and resumed.\<close>

definition calm :: "rtos \<Rightarrow> bool" where
  "calm s \<longleftrightarrow> kernel_ok (kern s) \<and> uxSchedulerSuspended (kern s) = 0 \<and>
    set (xPendingReadyList (kern s)) \<subseteq> set_mset (state_items (kern s))"

lemma suspended_section_calm:
  assumes "calm s"
  shows "\<exists>s'. suspended_section s = Inr s' \<and> calm s'"
proof -
  let ?k = "vTaskSuspendAll (kern s)"
  have k: "keeps_kernel (kern s) ?k" "uxSchedulerSuspended ?k = 1" "xPendingReadyList ?k = xPendingReadyList (kern s)"
    using assms keeps_flags by (auto simp: calm_def vTaskSuspendAll_def)
  then have "kernel_ok ?k" "set (xPendingReadyList ?k) \<subseteq> set_mset (state_items ?k)"
    using assms by (simp_all add: calm_def keeps_kernel_def)
  then obtain y ts k' where k': "xTaskResumeAll ?k = Inr (y, ts, k')" "keeps_kernel ?k k'"
    "uxSchedulerSuspended k' = 0" "xPendingReadyList k' = []"
    using resume_keeps [of ?k] k(2) by auto
  then have "calm (leave_event_lists ts (s\<lparr>kern := k'\<rparr>))"
    by (simp add: calm_def keeps_kernel_def leave_event_lists_def)
  then show ?thesis using k'(1) by (simp add: suspended_section_def rtos_resume_all_def)
qed

definition memory_owned :: "u32 \<Rightarrow> heap4 \<times> rtos \<Rightarrow> (nat \<rightharpoonup> nat) \<Rightarrow> bool" where
  "memory_owned u = (\<lambda>(h, s) U. fits_memory u \<and> heap_calls u h U \<and> calm s)"

lemma memory_apart:
  assumes "memory_owned u st U" "U p = Some n"
  shows "8 dvd p" "8 \<le> p" "U q = Some m \<Longrightarrow> p < q \<Longrightarrow> p + n \<le> q"
  using heap_regions_inside assms by (force simp: memory_owned_def)+

lemma pvPortMalloc_ends:
  assumes "memory_owned u st U"
  shows "pvPortMalloc u w st = None \<or> (\<exists>p st'. pvPortMalloc u w st = ret (p, st') \<and> U p = None \<and>
    memory_owned u st' (U(p \<mapsto> unat w)))"
proof -
  obtain h s where st: "st = (h, s)" by fastforce
  have own: "fits_memory u" "heap_calls u h U" "calm s" using assms by (simp_all add: st memory_owned_def)
  obtain q h' where crit: "malloc_critical u w h = ret (q, h')" using heap_calls_go_on(1) [OF own(2,1)] by blast
  obtain s' where s': "suspended_section s = Inr s'" "calm s'" using suspended_section_calm [OF own(3)] by blast
  show ?thesis
  proof (cases q)
    case None
    then show ?thesis by (simp add: st pvPortMalloc_def crit s' vApplicationMallocFailedHook_def)
  next
    case (Some p)
    note new = malloc_new [OF own(2,1) crit [unfolded Some]]
    have "heap_calls u h' (U(p \<mapsto> unat w))" by (rule heap_calls.malloc_gives [OF own(2) crit [unfolded Some]])
    then show ?thesis using new own(1) s' by (simp add: st pvPortMalloc_def crit Some memory_owned_def)
  qed
qed

lemma vPortFree_owns:
  assumes "memory_owned u st U" "U p = Some n"
  shows "runs (vPortFree (Some p) st) (\<lambda>st'. memory_owned u st' (U(p := None)))"
proof -
  obtain h s where st: "st = (h, s)" by fastforce
  have own: "fits_memory u" "heap_calls u h U" "calm s" using assms(1) by (simp_all add: st memory_owned_def)
  obtain h1 h' where h: "free_prepare (p - 8) h = Inr h1" "free_critical (p - 8) h1 = ret h'"
    using heap_calls_go_on(2) [OF own(2,1) assms(2)] by blast
  obtain s' where s': "suspended_section s = Inr s'" "calm s'" using suspended_section_calm [OF own(3)] by blast
  have "heap_calls u h' (U(p := None))" by (rule heap_calls.gives_back [OF own(2) assms(2) h])
  then show ?thesis using own(1) s' h memory_apart(2) [OF assms] by (simp add: st vPortFree_def memory_owned_def)
qed

interpretation kernel_heap: region_allocator "memory_owned u" "pvPortMalloc u" vPortFree
proof unfold_locales
  fix st U w p st' n q m assume own: "memory_owned u st U"
  show "pvPortMalloc u w st = None \<or> (\<exists>p s'. pvPortMalloc u w st = ret (p, s'))"
    using pvPortMalloc_ends [OF own, of w] by auto
  show "U p = None \<and> memory_owned u st' (U(p \<mapsto> unat w))" if "pvPortMalloc u w st = ret (p, st')"
    using pvPortMalloc_ends [OF own, of w] that by auto
  show "runs (vPortFree (Some p) st) (\<lambda>s'. memory_owned u s' (U(p := None)))" if "U p = Some n"
    by (rule vPortFree_owns [OF own that])
  show "p + n \<le> q" if "U p = Some n" "U q = Some m" "p < q"
    using memory_apart(3) [OF own that(1)] that by blast
qed

end
