(* ===== verification/Boot_Memory.thy ===== *)
theory Boot_Memory
  imports Heap_4_Api FreeRTOS_Queue
begin

text \<open>
  The memory of the kernel objects that the program creates while it starts: in \<open>main\<close>, in
  \<open>vTaskStartScheduler\<close> and in \<open>network_init_task\<close> (\<open>src/src/main.c\<close>). The sizes of the
  structures are those of the target, where pointers, \<open>UBaseType_t\<close> and \<open>TickType_t\<close> take four
  bytes and structures are padded to a multiple of four.
\<close>

section \<open>Sizes\<close>

text \<open>Padding of \<open>n\<close> bytes to the next multiple of four.\<close>

definition padded :: "size_t \<Rightarrow> size_t" where
  "padded n = (n + 3) div 4 * 4"

text \<open>Value, next, previous, owner and container; the end marker has the first three only.\<close>

definition sizeof_ListItem_t :: size_t where "sizeof_ListItem_t = 5 * 4"

definition sizeof_MiniListItem_t :: size_t where "sizeof_MiniListItem_t = 3 * 4"

definition sizeof_List_t :: size_t where "sizeof_List_t = 4 + 4 + sizeof_MiniListItem_t"

text \<open>
  Top of stack, two list items, priority, stack, name of \<open>configMAX_TASK_NAME_LEN\<close> bytes, two
  trace numbers, base priority and mutexes held, the notified value and state.
\<close>

definition sizeof_TCB_t :: size_t where
  "sizeof_TCB_t = 4 + 2 * sizeof_ListItem_t + 4 + 4 + padded 10 + 2 * 4 + 2 * 4 + 4 + padded 1"

text \<open>
  Head and write pointer, the union of two pointers, two event lists, three counters, the two lock
  bytes, the queue set, the trace number and type.
\<close>

definition sizeof_Queue_t :: size_t where
  "sizeof_Queue_t = 2 * 4 + 2 * 4 + 2 * sizeof_List_t + 3 * 4 + padded 2 + 4 + 4 + padded 1"

text \<open>Tail, head, length, trigger level, two task handles, the buffer, the flags and a trace number.\<close>

definition sizeof_StreamBuffer_t :: size_t where
  "sizeof_StreamBuffer_t = 4 * 4 + 2 * 4 + 4 + padded 1 + 4"

text \<open>A message identifier and the larger member of the union, with three words.\<close>

definition sizeof_DaemonTaskMessage_t :: size_t where "sizeof_DaemonTaskMessage_t = 4 + 3 * 4"

section \<open>Objects\<close>

type_synonym ram = "heap4 \<times> rtos"

text \<open>
  The memory of a task with a stack of \<open>depth\<close> words. Since \<open>pvPortMalloc\<close> never returns null here,
  the branches of \<open>xTaskCreate\<close> for a failure are dead.
\<close>

definition task_memory :: "u32 \<Rightarrow> u32 \<Rightarrow> ram \<Rightarrow> (nat \<times> nat \<times> ram) run" where
  "task_memory ucHeap depth = two_regions (pvPortMalloc ucHeap) (depth * 4) sizeof_TCB_t"

definition prvDeleteTCB :: "nat \<Rightarrow> nat \<Rightarrow> ram \<Rightarrow> ram run" where
  "prvDeleteTCB pxStack pxTCB = release_two vPortFree pxStack pxTCB"

definition queue_memory :: "u32 \<Rightarrow> u32 \<Rightarrow> u32 \<Rightarrow> ram \<Rightarrow> (nat \<times> ram) run" where
  "queue_memory ucHeap n item_size =
    pvPortMalloc ucHeap (sizeof_Queue_t + queue_size_in_bytes n item_size)"

definition message_buffer_memory :: "u32 \<Rightarrow> size_t \<Rightarrow> ram \<Rightarrow> (nat \<times> ram) run" where
  "message_buffer_memory ucHeap n = pvPortMalloc ucHeap (n + 1 + sizeof_StreamBuffer_t)"

section \<open>Starting\<close>

definition make_task :: "u32 \<Rightarrow> u32 \<Rightarrow> ram \<Rightarrow> ram run" where
  "make_task ucHeap depth s = bindl (task_memory ucHeap depth s) (\<lambda>(stack, tcb, s). ret s)"

definition make_queue :: "u32 \<Rightarrow> u32 \<Rightarrow> u32 \<Rightarrow> ram \<Rightarrow> ram run" where
  "make_queue ucHeap n item_size s = bindl (queue_memory ucHeap n item_size s) (\<lambda>(q, s). ret s)"

definition THREAD_STACKSIZE :: u32 where "THREAD_STACKSIZE = 1024"

definition configMINIMAL_STACK_SIZE :: u32 where "configMINIMAL_STACK_SIZE = 200"

definition configTIMER_TASK_STACK_DEPTH :: u32 where
  "configTIMER_TASK_STACK_DEPTH = configMINIMAL_STACK_SIZE * 2"

text \<open>The idle task, the queue and the task of the software timers.\<close>

definition scheduler_memory :: "u32 \<Rightarrow> ram \<Rightarrow> ram run" where
  "scheduler_memory ucHeap s =
    bindl (make_task ucHeap configMINIMAL_STACK_SIZE s) (\<lambda>s.
    bindl (make_queue ucHeap 10 sizeof_DaemonTaskMessage_t s) (\<lambda>s.
    make_task ucHeap configTIMER_TASK_STACK_DEPTH s))"

text \<open>
  In order: \<open>xemacif_input\<close>, the UDP queue and its task, the queue of the gain control and its task,
  the message buffer, the TCP queue and its task.
\<close>

definition network_memory :: "u32 \<Rightarrow> ram \<Rightarrow> ram run" where
  "network_memory ucHeap s =
    bindl (make_task ucHeap THREAD_STACKSIZE s) (\<lambda>s.
    bindl (make_queue ucHeap 200 4 s) (\<lambda>s.
    bindl (make_task ucHeap 10000 s) (\<lambda>s.
    bindl (make_queue ucHeap 200 4 s) (\<lambda>s.
    bindl (make_task ucHeap 10000 s) (\<lambda>s.
    bindl (message_buffer_memory ucHeap 1024 s) (\<lambda>(buffer, s).
    bindl (make_queue ucHeap 200 4 s) (\<lambda>s.
    make_task ucHeap THREAD_STACKSIZE s)))))))"

definition start_memory :: "u32 \<Rightarrow> ram \<Rightarrow> ram run" where
  "start_memory ucHeap s =
    bindl (make_task ucHeap THREAD_STACKSIZE s) (\<lambda>s.
    bindl (scheduler_memory ucHeap s) (\<lambda>s.
    network_memory ucHeap s))"

section \<open>Handing out blocks one after the other\<close>

text \<open>All of the heap before the offset \<open>t\<close> is in use, the rest is one free block.\<close>

definition used_up :: "u32 \<Rightarrow> nat \<Rightarrow> ram \<Rightarrow> bool" where
  "used_up u t = (\<lambda>(h, s). fits_memory u \<and> calm s \<and> (0 < t \<longrightarrow> pxEnd h \<noteq> None) \<and> (\<exists>K. free_blocks K = [] \<and>
    heap_ok (heap_first u) (heap_last u)
      (K @ [(heap_first u + t, heap_last u - heap_first u - t, True)]) (ready u h)))"

lemma carve_used:
  assumes "free_blocks K = []" "r + 16 < s"
  shows "carve r (K @ [(a, s, True)]) = Some (a, K @ [(a, r, False), (a + r, s - r, True)])"
  using assms by (induction K) (auto split: if_splits)

lemma used_up_malloc:
  assumes "used_up u t st" "t + request (unat w) + 16 < 99984" "0 < unat w"
  shows "runs (pvPortMalloc u w st) (\<lambda>(p, st'). used_up u (t + request (unat w)) st')"
proof -
  obtain h s where st: "st = (h, s)" by fastforce
  let ?a = "heap_first u + t" and ?s = "heap_last u - heap_first u - t" and ?r = "request (unat w)"
  obtain K where K: "free_blocks K = []" "heap_ok (heap_first u) (heap_last u) (K @ [(?a, ?s, True)]) (ready u h)"
    and u: "fits_memory u" "calm s" using assms(1) by (auto simp: st used_up_def)
  have large: "?r + 16 < ?s" using assms(2) heap_span(3) [of u] by linarith
  let ?M = "(K @ [(?a, ?r, False)]) @ [(?a + ?r, ?s - ?r, True)]"
  have carve: "carve ?r (K @ [(?a, ?s, True)]) = Some (?a, ?M)"
    using carve_used [OF K(1) large] by simp
  have "unat w < 2147483648" using assms(2) request_bounds(1) [of "unat w"] by linarith
  then obtain h' where h': "malloc_critical u w h = ret (Some (?a + 8), h')" "heap_ok (heap_first u) (heap_last u) ?M h'"
    using malloc_row [OF K(2) u(1) carve assms(3)] by blast
  obtain s' where s': "suspended_section s = Inr s'" "calm s'" using suspended_section_calm [OF u(2)] by blast
  have "8 dvd ?a + 8"
    using tiled_aligned [of "heap_first u" K ?a ?s True "[]"] heap_okD(2) [OF K(2)] heap_span(5) [of u] by simp
  then have aligned: "guard ((?a + 8) mod 8 = 0) Assert_failed = Inr ()" by (simp add: dvd_eq_mod_eq_0)
  have run: "pvPortMalloc u w st = ret (?a + 8, h', s')"
    by (simp only: st pvPortMalloc_def split_conv h' bindl.simps s'(1) option.case aligned)
  have "used_up u (t + ?r) (h', s')" unfolding used_up_def split_conv
    using K(1) u(1) s'(2) h'(2) ready_same [OF h'(2)] heap_okD(6) [OF h'(2)]
    by (intro conjI exI [of _ "K @ [(?a, ?r, False)]"]) (simp_all add: add.assoc end_marked_def)
  then show ?thesis by (simp add: run)
qed

lemma sizes: "sizeof_TCB_t = 88" "sizeof_Queue_t = 84" "sizeof_StreamBuffer_t = 36" "sizeof_DaemonTaskMessage_t = 16"
  by (code_simp, code_simp, code_simp, code_simp)

lemma used_up_task:
  assumes "used_up u t st" "t + request (unat (depth * 4)) + 112 < 99984" "0 < unat (depth * 4)"
  shows "runs (make_task u depth st) (used_up u (t + request (unat (depth * 4)) + 96))"
proof -
  have tcb: "request (unat sizeof_TCB_t) = 96" by (simp add: sizes request_def)
  have "runs (pvPortMalloc u (depth * 4) st) (\<lambda>(p, st'). used_up u (t + request (unat (depth * 4))) st')"
    by (rule used_up_malloc) (use assms in simp_all)
  moreover have "runs (pvPortMalloc u sizeof_TCB_t st1) (\<lambda>(p, st'). used_up u (t + request (unat (depth * 4)) + 96) st')"
    if "used_up u (t + request (unat (depth * 4))) st1" for st1
    using used_up_malloc [OF that, of sizeof_TCB_t] assms(2) unfolding tcb by (simp add: sizes)
  ultimately have "runs (bindl (pvPortMalloc u (depth * 4) st) (\<lambda>(p, s). bindl (pvPortMalloc u sizeof_TCB_t s) (\<lambda>(q, s). ret s)))
      (used_up u (t + request (unat (depth * 4)) + 96))"
  proof (elim runs_bindl, clarify, goal_cases)
    case (1 p h s)
    show ?case by (rule runs_bindl [OF 1(1) [OF 1(2)]]) (simp add: split_def)
  qed
  moreover have "make_task u depth st =
      bindl (pvPortMalloc u (depth * 4) st) (\<lambda>(p, s). bindl (pvPortMalloc u sizeof_TCB_t s) (\<lambda>(q, s). ret s))"
    by (simp add: make_task_def task_memory_def two_regions_def bindl_assoc split_def)
  ultimately show ?thesis by simp
qed

lemma used_up_queue:
  assumes "used_up u t st" "unat (sizeof_Queue_t + queue_size_in_bytes n item_size) = w" "0 < w"
    "t + request w + 16 < 99984"
  shows "runs (make_queue u n item_size st) (used_up u (t + request w))"
proof -
  have "runs (queue_memory u n item_size st) (\<lambda>(p, st'). used_up u (t + request w) st')"
    unfolding queue_memory_def
    by (rule used_up_malloc [OF assms(1), of "sizeof_Queue_t + queue_size_in_bytes n item_size", unfolded assms(2), OF assms(4,3)])
  then show ?thesis unfolding make_queue_def by (rule runs_bindl) (simp add: split_def)
qed

lemma used_up_buffer:
  assumes "used_up u t st" "t + 1072 + 16 < 99984"
  shows "runs (message_buffer_memory u 1024 st) (\<lambda>(p, st'). used_up u (t + 1072) st')"
proof -
  have "request (unat (1024 + 1 + sizeof_StreamBuffer_t)) = 1072" by (simp add: sizes request_def)
  then show ?thesis
    unfolding message_buffer_memory_def using used_up_malloc [OF assms(1), of "1024 + 1 + sizeof_StreamBuffer_t"] assms(2)
    by (simp add: sizes)
qed

lemma request_values:
  "request 4096 = 4104" "request 800 = 808" "request 1600 = 1608" "request 40000 = 40008"
  "request 884 = 896" "request 244 = 256"
  by (simp_all add: request_def)

lemma queue_sizes:
  "unat (sizeof_Queue_t + queue_size_in_bytes 200 4) = 884"
  "unat (sizeof_Queue_t + queue_size_in_bytes 10 sizeof_DaemonTaskMessage_t) = 244"
  by (simp_all add: sizes queue_size_in_bytes_def)

lemma used_up_scheduler:
  assumes "used_up u 4200 st"
  shows "runs (scheduler_memory u st) (used_up u 7064)"
proof -
  have idle: "runs (make_task u configMINIMAL_STACK_SIZE st) (used_up u 5104)"
    using used_up_task [OF assms, of configMINIMAL_STACK_SIZE] by (simp add: configMINIMAL_STACK_SIZE_def request_values)
  have queue: "runs (make_queue u 10 sizeof_DaemonTaskMessage_t s) (used_up u 5360)" if "used_up u 5104 s" for s
    using used_up_queue [OF that queue_sizes(2)] by (simp add: request_values)
  have timer: "runs (make_task u configTIMER_TASK_STACK_DEPTH s) (used_up u 7064)" if "used_up u 5360 s" for s
    using used_up_task [OF that, of configTIMER_TASK_STACK_DEPTH]
    by (simp add: configTIMER_TASK_STACK_DEPTH_def configMINIMAL_STACK_SIZE_def request_values)
  show ?thesis unfolding scheduler_memory_def by (intro runs_bindl [OF idle] runs_bindl [OF queue] timer)
qed

lemma used_up_thread:
  "used_up u t s \<Longrightarrow> t + 4216 < 99984 \<Longrightarrow> runs (make_task u THREAD_STACKSIZE s) (used_up u (t + 4104 + 96))"
  using used_up_task [of u t s THREAD_STACKSIZE] by (simp add: THREAD_STACKSIZE_def request_values)

lemma used_up_packet_queue:
  "used_up u t s \<Longrightarrow> t + 912 < 99984 \<Longrightarrow> runs (make_queue u 200 4 s) (used_up u (t + 896))"
  using used_up_queue [OF _ queue_sizes(1), of u t s] by (simp add: request_values)

lemma used_up_packet_task:
  "used_up u t s \<Longrightarrow> t + 40120 < 99984 \<Longrightarrow> runs (make_task u 10000 s) (used_up u (t + 40008 + 96))"
  using used_up_task [of u t s 10000] by (simp add: request_values)

lemma used_up_network:
  assumes "used_up u 7064 st"
  shows "runs (network_memory u st) (used_up u 99432)"
proof -
  note 1 = used_up_thread [OF assms, simplified]
  note 2 = used_up_packet_queue [of u 11264, simplified]
  note 3 = used_up_packet_task [of u 12160, simplified]
  note 4 = used_up_packet_queue [of u 52264, simplified]
  note 5 = used_up_packet_task [of u 53160, simplified]
  note 6 = used_up_buffer [of u 93264, simplified]
  note 7 = used_up_packet_queue [of u 94336, simplified]
  note 8 = used_up_thread [of u 95232, simplified]
  have tail: "runs (bindl (make_queue u 200 4 s) (make_task u THREAD_STACKSIZE)) (used_up u 99432)"
    if "used_up u 94336 s" for s
    by (rule runs_bindl [OF 7 [OF that] 8])
  have buffer: "runs (bindl (message_buffer_memory u 1024 s) (\<lambda>(buffer, s).
      bindl (make_queue u 200 4 s) (make_task u THREAD_STACKSIZE))) (used_up u 99432)"
    if "used_up u 93264 s" for s
    by (rule runs_bindl [OF 6 [OF that]]) (use tail in \<open>simp add: split_def\<close>)
  show ?thesis unfolding network_memory_def
    by (rule runs_bindl [OF 1 runs_bindl [OF 2 runs_bindl [OF 3 runs_bindl [OF 4 runs_bindl [OF 5 buffer]]]]])
qed

lemma heap_size: "heap_last u - heap_first u = (if 8 dvd unat u then 99992 else 99984)"
proof -
  define q r where "q = unat u div 8" and "r = unat u mod 8"
  have u: "unat u = 8 * q + r" "r < 8" by (simp_all add: q_def r_def)
  have "(unat u + 99992) div 8 = q + 12499" using u by (intro div_nat_eqI) simp_all
  moreover have "(unat u + 7) div 8 = (if r = 0 then q else q + 1)" using u by (auto intro!: div_nat_eqI)
  moreover have "8 dvd unat u \<longleftrightarrow> r = 0" by (simp add: r_def dvd_eq_mod_eq_0)
  ultimately show ?thesis by (simp add: heap_first_def heap_last_def)
qed

lemma start_memory_used:
  assumes "fits_memory u" "calm s"
  shows "runs (start_memory u (no_heap, s)) (used_up u 99432)"
proof -
  have "used_up u 0 (no_heap, s)" using prvHeapInit_ok [OF assms(1), of no_heap] assms
    by (auto simp: used_up_def ready_def no_heap_def intro!: exI [of _ "[]"])
  then have "runs (make_task u THREAD_STACKSIZE (no_heap, s)) (used_up u 4200)"
    using used_up_task [of u 0 _ THREAD_STACKSIZE] by (simp add: THREAD_STACKSIZE_def request_values)
  then show ?thesis
    unfolding start_memory_def by (intro runs_bindl [OF _ runs_bindl [OF used_up_scheduler used_up_network]])
qed

lemma start_memory_runs:
  "fits_memory u \<Longrightarrow> calm s \<Longrightarrow> \<exists>h' s'. start_memory u (no_heap, s) = ret (h', s')"
  using start_memory_used by (fastforce simp: runs_def)

text \<open>C27: All kernel objects the program creates while starting fit into the heap of 100,000 bytes,
  wherever the linker puts it, and 560 or 552 bytes are left: a request of more than 552 bytes never
  returns until the first task is deleted.\<close>

theorem start_memory_fits:
  assumes "fits_memory u" "calm s"
  shows "\<exists>h' s'. start_memory u (no_heap, s) = ret (h', s') \<and>
    unat (xPortGetFreeHeapSize h') = (if 8 dvd unat u then 560 else 552) \<and>
    (\<forall>w. 552 < unat w \<and> unat w < 2147483648 \<longrightarrow> pvPortMalloc u w (h', s') = None)"
proof -
  obtain h' s' where run: "start_memory u (no_heap, s) = ret (h', s')" "used_up u 99432 (h', s')"
    using start_memory_used [OF assms] by (auto simp: runs_def)
  let ?s = "heap_last u - heap_first u - 99432"
  have "ready u h' = h'" using run(2) by (auto simp: used_up_def ready_def)
  then obtain K where K: "free_blocks K = []" "calm s'"
      "heap_ok (heap_first u) (heap_last u) (K @ [(heap_first u + 99432, ?s, True)]) h'"
    using run(2) by (auto simp: used_up_def)
  have "xFreeBytesRemaining h' = of_nat ?s" using heap_okD(7) [OF K(3)] K(1) by (simp add: counted_def)
  then have free: "unat (xPortGetFreeHeapSize h') = (if 8 dvd unat u then 560 else 552)"
    by (simp add: xPortGetFreeHeapSize_def heap_size)
  have "pvPortMalloc u w (h', s') = None" if w: "552 < unat w" "unat w < 2147483648" for w
  proof -
    have "?s < request (unat w)" using request_bounds(1) [of "unat w"] w by (auto simp: heap_size)
    then have "carve (request (unat w)) (K @ [(heap_first u + 99432, ?s, True)]) = None"
      using K(1) by (simp add: carve_None)
    then have "malloc_critical u w h' = ret (None, h')"
      using malloc_carves [OF K(3), of u w] w by (auto simp: runs_def carves_def)
    moreover obtain s2 where "suspended_section s' = Inr s2" using suspended_section_calm [OF K(2)] by blast
    ultimately show ?thesis by (simp add: pvPortMalloc_def vApplicationMallocFailedHook_def)
  qed
  then show ?thesis using run(1) free by blast
qed

text \<open>A kernel in which some tasks are delayed.\<close>

definition sample_system :: rtos where
  "sample_system = \<lparr>queues = Map.empty, kern = sample_delays\<rparr>"

lemma sample_system_calm: "calm sample_system"
  using sample_kernel_ok by (simp add: calm_def sample_system_def sample_delays_def sample_kernel_def)

theorem start_memory_fits_witness:
  "\<exists>h' s'. start_memory 0x100004 (no_heap, sample_system) = ret (h', s') \<and>
    unat (xPortGetFreeHeapSize h') = 552 \<and> pvPortMalloc 0x100004 553 (h', s') = None"
proof -
  have "fits_memory 0x100004" by (simp add: fits_memory_def)
  moreover have "\<not> 8 dvd unat (0x100004 :: u32)" by simp
  ultimately obtain h' s' where "start_memory 0x100004 (no_heap, sample_system) = ret (h', s')"
    "unat (xPortGetFreeHeapSize h') = 552"
    "\<forall>w. 552 < unat w \<and> unat w < 2147483648 \<longrightarrow> pvPortMalloc 0x100004 w (h', s') = None"
    using start_memory_fits [OF _ sample_system_calm, of "0x100004"] by auto
  then show ?thesis by auto
qed

text \<open>The stack and the control block of a new task are separate regions that nobody had, and
  deleting the task returns exactly these two: its memory is not leaked.\<close>

theorem delete_returns_task:
  assumes "memory_owned u st U" "task_memory u depth st = ret (pxStack, pxTCB, st')"
  shows "U pxStack = None \<and> U pxTCB = None \<and>
    (pxStack + unat (depth * 4) \<le> pxTCB \<or> pxTCB + 88 \<le> pxStack) \<and>
    (\<exists>st''. prvDeleteTCB pxStack pxTCB st' = ret st'' \<and> memory_owned u st'' U)"
  using kernel_heap.two_regions_owned [OF assms(1), of "depth * 4" sizeof_TCB_t pxStack pxTCB st']
    kernel_heap.two_regions_back [OF assms(1), of "depth * 4" sizeof_TCB_t pxStack pxTCB st'] assms(2)
  by (simp add: task_memory_def prvDeleteTCB_def runs_def sizes)

theorem delete_returns_task_witness:
  "\<exists>stack tcb st st'. task_memory 0x100004 1024 (no_heap, sample_system) = ret (stack, tcb, st) \<and>
    prvDeleteTCB stack tcb st = ret st' \<and> memory_owned 0x100004 st' Map.empty"
proof -
  have f: "fits_memory 0x100004" by (simp add: fits_memory_def)
  then have own: "memory_owned 0x100004 (no_heap, sample_system) Map.empty"
    using heap_calls.none_yet sample_system_calm by (simp add: memory_owned_def)
  obtain h' s' where "start_memory 0x100004 (no_heap, sample_system) = ret (h', s')"
    using start_memory_runs [OF f sample_system_calm] by blast
  then obtain stack tcb st where t: "task_memory 0x100004 1024 (no_heap, sample_system) = ret (stack, tcb, st)"
    by (auto simp: start_memory_def make_task_def THREAD_STACKSIZE_def)
  then show ?thesis using delete_returns_task [OF own t] by blast
qed

end
