(* ===== verification/FreeRTOS_Wakeup.thy ===== *)
theory FreeRTOS_Wakeup
  imports FreeRTOS_Blocking
begin

text \<open>
  No wake-up is lost: an inductive invariant of \<open>FreeRTOS_Blocking.step\<close> that says, at each program
  point of \<open>xQueueReceive\<close>, what the receiver knows of the queue and how its state and event items
  are linked, and the property that follows from it.
\<close>

section \<open>No wake-up is lost\<close>

text \<open>The steps that the receiver makes with the scheduler suspended.\<close>

fun suspended_pc :: "receive_pc \<Rightarrow> bool" where
  "suspended_pc Lock_queue = True"
| "suspended_pc Check_time = True"
| "suspended_pc Check_empty = True"
| "suspended_pc Place_on_list = True"
| "suspended_pc (Unlock_tx b) = True"
| "suspended_pc (Unlock_rx b) = True"
| "suspended_pc (Resume_all b) = True"
| "suspended_pc p = False"

text \<open>What the receiver knows of the queue \<open>q\<close> at each step.\<close>

definition off_list :: "queue \<Rightarrow> bool" where
  "off_list q \<longleftrightarrow> xTasksWaitingToReceive q = [] \<and> cTxLock q = queueUNLOCKED"

definition locked_off_list :: "queue \<Rightarrow> bool" where
  "locked_off_list q \<longleftrightarrow> xTasksWaitingToReceive q = [] \<and>
    (\<exists>n \<le> unat (uxMessagesWaiting q). cTxLock q = of_nat n)"

definition all_counted :: "queue \<Rightarrow> bool" where
  "all_counted q \<longleftrightarrow> cTxLock q = of_nat (unat (uxMessagesWaiting q))"

definition waits_rightly :: "tcb \<Rightarrow> queue \<Rightarrow> bool" where
  "waits_rightly t q \<longleftrightarrow> cTxLock q = queueUNLOCKED \<and>
    (xTasksWaitingToReceive q = [] \<or> xTasksWaitingToReceive q = [t] \<and> uxMessagesWaiting q = 0)"

fun knows :: "tcb \<Rightarrow> receive_pc \<Rightarrow> queue \<Rightarrow> bool" where
  "knows t Check_time q = locked_off_list q"
| "knows t Check_empty q = locked_off_list q"
| "knows t Place_on_list q = (xTasksWaitingToReceive q = [] \<and> all_counted q)"
| "knows t (Unlock_tx b) q =
    (if b = On_list then xTasksWaitingToReceive q = [t] \<and> all_counted q else locked_off_list q)"
| "knows t (Unlock_rx b) q = (if b = On_list then waits_rightly t q else off_list q)"
| "knows t (Resume_all b) q = (if b = On_list then waits_rightly t q else off_list q)"
| "knows t Asleep q = waits_rightly t q"
| "knows t p q = off_list q"

definition receiver_ok :: "handle \<Rightarrow> tcb \<Rightarrow> receiver \<Rightarrow> bool" where
  "receiver_ok a t r \<longleftrightarrow> (\<exists>q. queues (sys r) a = Some q \<and> wf_queue q \<and> pxQueueSetContainer q = None \<and>
    unat (uxLength q) \<le> 127 \<and> knows t (pc r) q) \<and>
    uxSchedulerSuspended (kern (sys r)) = (if suspended_pc (pc r) then 1 else 0) \<and>
    (suspended_pc (pc r) \<longrightarrow> pxCurrentTCB (kern (sys r)) = t)"

lemma wf_messages: "wf_queue q \<Longrightarrow> unat (uxMessagesWaiting q) \<le> unat (uxLength q)"
  by (auto simp: wf_queue_def ring_def)

lemma lock_below_255: "n < 255 \<Longrightarrow> (of_nat n :: u8) \<noteq> queueUNLOCKED"
proof
  assume n: "n < 255" and "(of_nat n :: u8) = queueUNLOCKED"
  then have "unat (of_nat n :: u8) = unat (- 1 :: u8)" by (simp add: queueUNLOCKED_def)
  moreover have "unat (- 1 :: u8) = 255" by (simp add: unsigned_minus_1_eq_mask mask_eq_exp_minus_1)
  ultimately show False using n by (simp add: unat_of_nat)
qed

lemma sint_small: "n \<le> 127 \<Longrightarrow> sint (of_nat n :: u8) = int n"
  by (simp add: signed_of_nat signed_take_bit_int_eq_self)

lemma sint_big: "128 \<le> n \<Longrightarrow> n \<le> 255 \<Longrightarrow> sint (of_nat n :: u8) = int n - 256"
proof -
  assume "128 \<le> n" "n \<le> 255"
  then have "n \<in> set [128..<256]" unfolding set_upt atLeastLessThan_iff by simp
  moreover have "\<forall>n \<in> set [128..<256]. sint (of_nat n :: u8) = int n - 256" by code_simp
  ultimately show ?thesis by (rule bspec [rotated])
qed

text \<open>A post keeps the knowledge of a suspended or sleeping receiver.\<close>

lemma posted_messages:
  "posted q q' \<Longrightarrow> uxMessagesWaiting q < uxLength q \<Longrightarrow>
    unat (uxMessagesWaiting q') = unat (uxMessagesWaiting q) + 1"
  using unat_inc [of "uxMessagesWaiting q" "uxLength q"] by (simp add: posted_def word_less_nat_alt)

lemma posted_knows:
  assumes "posted q q'" and "wf_queue q" and "unat (uxLength q) \<le> 127" and "knows t p q"
  shows "knows t p q'"
proof (cases "uxMessagesWaiting q < uxLength q")
  case False
  then have "q' = q" using assms(1) by (simp add: posted_def)
  then show ?thesis using assms(4) by simp
next
  case True
  have m: "unat (uxMessagesWaiting q') = unat (uxMessagesWaiting q) + 1" by (rule posted_messages [OF assms(1) True])
  have le: "unat (uxMessagesWaiting q) \<le> 127" using wf_messages [OF assms(2)] assms(3) by simp
  have unl: "off_list q'" if "off_list q" using that assms(1) True by (simp add: off_list_def posted_def)
  have lck: "xTasksWaitingToReceive q' = xTasksWaitingToReceive q \<and> cTxLock q' = cTxLock q + 1"
    if "cTxLock q = of_nat n" "n \<le> unat (uxMessagesWaiting q)" for n
    using assms(1) True that lock_below_255 [of n] le by (simp add: posted_def)
  have loc: "locked_off_list q'" if l: "locked_off_list q"
  proof -
    obtain n where n: "n \<le> unat (uxMessagesWaiting q)" "cTxLock q = of_nat n" "xTasksWaitingToReceive q = []"
      using l by (auto simp: locked_off_list_def)
    have "cTxLock q' = of_nat (Suc n)" "xTasksWaitingToReceive q' = []" using lck [OF n(2,1)] n by simp_all
    then show ?thesis using n(1) m unfolding locked_off_list_def by (intro conjI exI [of _ "Suc n"]) simp_all
  qed
  have cnt: "all_counted q' \<and> xTasksWaitingToReceive q' = xTasksWaitingToReceive q" if "all_counted q"
    using that lck [of "unat (uxMessagesWaiting q)"] by (simp add: all_counted_def m)
  have wai: "waits_rightly t q'" if "waits_rightly t q"
    using that assms(1) True by (auto simp: waits_rightly_def posted_def)
  show ?thesis using assms(4) unl loc cnt wai by (cases p) (auto split: if_splits)
qed

lemma leave_lists_view:
  assumes "queues s a = Some q"
  shows "\<exists>q'. queues (leave_event_lists ts s) a = Some q' \<and> same_ring q q' \<and> cTxLock q' = cTxLock q \<and>
    xTasksWaitingToReceive q' = filter (\<lambda>t. t \<notin> set ts) (xTasksWaitingToReceive q) \<and>
    xTasksWaitingToSend q' = filter (\<lambda>t. t \<notin> set ts) (xTasksWaitingToSend q) \<and>
    kern (leave_event_lists ts s) = kern s"
proof -
  let ?q1 = "q\<lparr>xTasksWaitingToSend := filter (\<lambda>t. t \<notin> set ts) (xTasksWaitingToSend q)\<rparr>"
  have "same_ring q (?q1\<lparr>xTasksWaitingToReceive := filter (\<lambda>t. t \<notin> set ts) (xTasksWaitingToReceive q)\<rparr>)"
    by (rule same_ring_trans [OF same_ring_send same_ring_receive])
  then show ?thesis using assms by (simp add: leave_event_lists_def)
qed

text \<open>Leaving the list because of a time-out.\<close>

lemma filtered_knows:
  assumes "knows t p q" and "same_ring q q'" and "cTxLock q' = cTxLock q"
    and "xTasksWaitingToReceive q' = filter P (xTasksWaitingToReceive q)"
    and "\<forall>b. p = Unlock_tx b \<longrightarrow> xTasksWaitingToReceive q' = xTasksWaitingToReceive q"
  shows "knows t p q'"
proof -
  have m: "uxMessagesWaiting q' = uxMessagesWaiting q" using same_ring_facts [OF assms(2)] by simp
  have "off_list q \<Longrightarrow> off_list q'" "locked_off_list q \<Longrightarrow> locked_off_list q'"
    "all_counted q \<Longrightarrow> all_counted q'" "waits_rightly t q \<Longrightarrow> waits_rightly t q'"
    using assms(3,4) m by (auto simp: off_list_def locked_off_list_def all_counted_def waits_rightly_def split: if_splits)
  then show ?thesis using assms(1,4,5) by (cases p) (auto split: if_splits)
qed

lemma tick_ok:
  assumes "receiver_ok a t r" and "rtos_tick (sys r) = Inr s"
  shows "receiver_ok a t (r\<lparr>sys := s\<rparr>)"
proof -
  obtain q where q: "queues (sys r) a = Some q" "wf_queue q" "pxQueueSetContainer q = None"
    "unat (uxLength q) \<le> 127" "knows t (pc r) q"
    using assms(1) by (auto simp: receiver_ok_def)
  obtain sw ts k where k: "xTaskIncrementTick (kern (sys r)) = Inr (sw, ts, k)"
    "s = leave_event_lists ts ((sys r)\<lparr>kern := k\<rparr>)"
    using assms(2) by (auto simp: rtos_tick_def)
  obtain q' where q': "queues s a = Some q'" "same_ring q q'" "cTxLock q' = cTxLock q"
    "xTasksWaitingToReceive q' = filter (\<lambda>t. t \<notin> set ts) (xTasksWaitingToReceive q)" "kern s = k"
    using leave_lists_view [of "(sys r)\<lparr>kern := k\<rparr>" a q ts] q(1) k(2) by auto
  have "\<forall>b. pc r = Unlock_tx b \<longrightarrow> xTasksWaitingToReceive q' = xTasksWaitingToReceive q"
    using same_run_tick(2) [OF k(1)] assms(1) q'(4) by (auto simp: receiver_ok_def)
  then have "knows t (pc r) q'" by (rule filtered_knows [OF q(5) q'(2-4)])
  then show ?thesis
    using assms(1) q q' same_ring_facts [OF q'(2)] same_run_tick(1) [OF k(1)]
    by (simp add: receiver_ok_def same_run_def)
qed

lemma send_ok:
  assumes "receiver_ok a t r" and "queues (sys r) a = Some q" and "queues s a = Some q'" and "posted q q'"
    and "same_run (kern (sys r)) (kern s)"
  shows "receiver_ok a t (r\<lparr>sys := s\<rparr>)"
proof -
  have q: "wf_queue q" "unat (uxLength q) \<le> 127" "knows t (pc r) q"
    using assms(1,2) by (auto simp: receiver_ok_def)
  have "knows t (pc r) q'" by (rule posted_knows [OF assms(4) q])
  moreover have "wf_queue q'" "pxQueueSetContainer q' = None" "uxLength q' = uxLength q"
    using assms(4) by (simp_all add: posted_def)
  ultimately show ?thesis using assms(1,3,5) q by (simp add: receiver_ok_def same_run_def)
qed

lemma running_unlocked:
  assumes "receiver_ok a t r" and "uxSchedulerSuspended (kern (sys r)) = 0" and "queues (sys r) a = Some q"
  shows "cTxLock q = queueUNLOCKED"
proof -
  have "\<not> suspended_pc (pc r)" "knows t (pc r) q"
    using assms by (auto simp: receiver_ok_def split: if_splits)
  then show ?thesis by (cases "pc r") (auto simp: off_list_def waits_rightly_def)
qed

lemma move_flags:
  "uxSchedulerSuspended (move_to_suspended u k) = uxSchedulerSuspended k" "pxCurrentTCB (move_to_suspended u k) = pxCurrentTCB k"
  by (simp_all add: move_to_suspended_def Let_def prvResetNextTaskUnblockTime_def taskRESET_READY_PRIORITY_def
      portRESET_READY_PRIORITY_def remove_state_item_def remove_ready_def)

lemma resume_run: "vTaskResume (Some u) w k = Inr k' \<Longrightarrow> same_run k k'"
  by (auto simp: vTaskResume_def Let_def same_run_def yield_within_api_def fields remove_state_item_def remove_ready_def
      split: if_splits)

lemma resume_ends: "\<exists>k'. vTaskResume (Some u) w k = Inr k'"
  by (simp add: vTaskResume_def Let_def)

lemma environment_ok:
  assumes "receiver_ok a t r" and "step a S t r r'" and "\<not> (pxCurrentTCB (kern (sys r)) = t \<and> receive_step a r = Inr r')"
  shows "receiver_ok a t r'"
proof -
  obtain q where q: "queues (sys r) a = Some q" "wf_queue q" "pxQueueSetContainer q = None"
    using assms(1) by (auto simp: receiver_ok_def)
  show ?thesis using assms(2)
  proof (cases rule: step.cases)
    case own
    then show ?thesis using assms(3) by simp
  next
    case (interrupt_send x w ok w' s)
    then show ?thesis using isr_send_view [OF q interrupt_send(2,3)] send_ok [OF assms(1) q(1)] by blast
  next
    case (tick s)
    then show ?thesis using tick_ok [OF assms(1)] by simp
  next
    case (task_send x ok s)
    then show ?thesis
      using task_send_view [OF q task_send(2) running_unlocked [OF assms(1) _ q(1)]] send_ok [OF assms(1) q(1)]
      by blast
  next
    case (task_suspend u s)
    let ?k = "move_to_suspended u (kern (sys r))"
    have s: "s = leave_event_lists [u] ((sys r)\<lparr>kern := ?k\<rparr>)"
      using task_suspend(5,7) move_flags(2) by (auto simp: suspend_task_def vTaskSuspend_def Let_def)
    obtain q' where q': "queues s a = Some q'" "same_ring q q'" "cTxLock q' = cTxLock q"
      "xTasksWaitingToReceive q' = filter (\<lambda>t. t \<notin> set [u]) (xTasksWaitingToReceive q)" "kern s = ?k"
      using leave_lists_view [of "(sys r)\<lparr>kern := ?k\<rparr>" a q "[u]"] q(1) s by auto
    have np: "\<not> suspended_pc (pc r)" using assms(1) task_suspend(2) by (auto simp: receiver_ok_def split: if_splits)
    have "knows t (pc r) q" using assms(1) q(1) by (auto simp: receiver_ok_def)
    from filtered_knows [OF this q'(2-4)] have "knows t (pc r) q'" using np by (cases "pc r") simp_all
    then show ?thesis using assms(1) q q' same_ring_facts [OF q'(2)] np task_suspend(1) move_flags(1)
      by (simp add: receiver_ok_def)
  next
    case (task_resume u w k)
    have "same_run (kern (sys r)) k" by (rule resume_run [OF task_resume(5)])
    then show ?thesis using assms(1) task_resume(1) by (simp add: receiver_ok_def same_run_def)
  next
    case (switch s)
    then obtain k where k: "vTaskSwitchContext (kern (sys r)) = Inr k" "s = (sys r)\<lparr>kern := k\<rparr>"
      by (auto simp: rtos_switch_def)
    then show ?thesis using switch_run [OF k(1)] switch assms(1) by (auto simp: receiver_ok_def split: if_splits)
  qed
qed

section \<open>Which tasks the kernel operations make ready\<close>

lemma make_ready_iff:
  "is_ready (prvAddTaskToReadyList t (remove_state_item t k)) u \<longleftrightarrow> u = t \<or> is_ready k u"
  unfolding is_ready_add by (cases "u = t") (simp_all add: is_ready_def remove_state_item_def remove_ready_def)

lemma ready_flags:
  "is_ready (k\<lparr>xYieldPending := y\<rparr>) u = is_ready k u"
  "is_ready (k\<lparr>xPendingReadyList := ts\<rparr>) u = is_ready k u"
  "is_ready (k\<lparr>uxSchedulerSuspended := n\<rparr>) u = is_ready k u"
  "is_ready (k\<lparr>uxPendedTicks := n\<rparr>) u = is_ready k u"
  "is_ready (yield_within_api k) u = is_ready k u"
  "is_ready (vTaskMissedYield k) u = is_ready k u"
  "is_ready (vTaskSuspendAll k) u = is_ready k u"
  "is_ready (prvResetNextTaskUnblockTime k) u = is_ready k u"
  by (simp_all add: is_ready_def yield_within_api_def vTaskMissedYield_def vTaskSuspendAll_def
      prvResetNextTaskUnblockTime_def)

lemma ready_pending_iff: "is_ready (ready_pending ts k) u \<longleftrightarrow> u \<in> set ts \<or> is_ready k u"
  by (induction ts arbitrary: k) (auto simp: Let_def ready_flags make_ready_iff)

lemma tick_ready_iff:
  assumes "kernel_ok k" and "xTaskIncrementTick k = Inr (sw, ts, k')"
  shows "is_ready k' u \<longleftrightarrow> is_ready k u \<or> u \<in> set ts"
proof (cases "uxSchedulerSuspended k = 0")
  case True
  have "timing_ok k" using assms(1) by (simp add: kernel_ok_def)
  then obtain sw1 ts1 k1 where "xTaskIncrementTick k = Inr (sw1, ts1, k1)"
    "pxReadyTasksLists k1 = pxReadyTasksLists (fold prvAddTaskToReadyList ts1 k)"
    using tick_refines [OF _ True] by blast
  then have "pxReadyTasksLists k' = pxReadyTasksLists (fold prvAddTaskToReadyList ts k)" using assms(2) by simp
  then show ?thesis using is_ready_fold [of ts k u] by (auto simp: is_ready_def)
next
  case False
  then show ?thesis using assms(2) by (auto simp: xTaskIncrementTick_def is_ready_def)
qed

lemma tick_suspended:
  assumes "kernel_ok k" and "xTaskIncrementTick k = Inr (sw, ts, k')"
  shows "xSuspendedTaskList k' = xSuspendedTaskList k"
proof (cases "uxSchedulerSuspended k = 0")
  case True
  have "timing_ok k" using assms(1) by (simp add: kernel_ok_def)
  from tick_effect [OF this True] show ?thesis using assms(2) by (auto simp: fields)
next
  case False
  then show ?thesis using assms(2) by (auto simp: xTaskIncrementTick_def)
qed

lemma pended_ticks_ready_iff:
  "kernel_ok k \<Longrightarrow> pended_ticks n k = Inr (ts, k') \<Longrightarrow> is_ready k' u \<longleftrightarrow> is_ready k u \<or> u \<in> set ts"
proof (induction n arbitrary: k ts k')
  case (Suc n)
  then obtain sw us k1 vs where k1: "xTaskIncrementTick k = Inr (sw, us, k1)" "ts = us @ vs"
    "pended_ticks n (if sw then k1\<lparr>xYieldPending := True\<rparr> else k1) = Inr (vs, k')"
    by auto
  let ?k2 = "if sw then k1\<lparr>xYieldPending := True\<rparr> else k1"
  have ok1: "kernel_ok k1" using tick_keeps [OF Suc.prems(1)] k1(1) by (auto simp: keeps_kernel_def)
  have "kernel_ok ?k2" using keeps_flags(1) [OF ok1] ok1 by (simp add: keeps_kernel_def)
  then show ?case using Suc.IH [OF _ k1(3)] tick_ready_iff [OF Suc.prems(1) k1(1), of u] k1(2)
    by (auto simp: ready_flags)
qed simp

lemma resume_ready_iff:
  assumes "kernel_ok k" and "uxSchedulerSuspended k = 1" and "set (xPendingReadyList k) \<subseteq> set_mset (state_items k)"
    and "xTaskResumeAll k = Inr (y, ts, k')"
  shows "is_ready k' u \<longleftrightarrow> is_ready k u \<or> u \<in> set (xPendingReadyList k) \<or> u \<in> set ts"
proof -
  define k1 where "k1 = k\<lparr>uxSchedulerSuspended := 0\<rparr>"
  have ok1: "kernel_ok k1" and i1: "set (xPendingReadyList k1) \<subseteq> set_mset (state_items k1)"
    using keeps_flags(3) [OF assms(1), of 0] assms(3) unfolding k1_def keeps_kernel_def by simp_all
  have r2: "is_ready (ready_all_pending k1) u \<longleftrightarrow> is_ready k u \<or> u \<in> set (xPendingReadyList k)"
    by (auto simp: ready_all_pending_def ready_flags ready_pending_iff k1_def)
  have ok2: "kernel_ok (ready_all_pending k1)"
    using ready_all_pending_keeps(1) [OF ok1 i1] by (simp add: keeps_kernel_def)
  have z: "uxSchedulerSuspended k1 = 0" by (simp add: k1_def)
  obtain k4 where k4: "pended_ticks (unat (uxPendedTicks (ready_all_pending k1))) (ready_all_pending k1) = Inr (ts, k4)"
    "is_ready k' u = is_ready k4 u"
    using assms(4) unfolding xTaskResumeAll_def Let_def assms(2)
    by (simp add: k1_def [symmetric] z) (auto simp: ready_flags split: if_splits)
  then show ?thesis using pended_ticks_ready_iff [OF ok2 k4(1), of u] r2 by auto
qed

lemma switch_ready:
  assumes "kernel_ok k" and "vTaskSwitchContext k = Inr k'"
  shows "is_ready k' u = is_ready k u" and "xPendingReadyList k' = xPendingReadyList k"
    and "xSuspendedTaskList k' = xSuspendedTaskList k"
proof -
  have ix: "index_ok (pxReadyTasksLists k p)" for p using assms(1) by (simp add: kernel_ok_def ready_ok_def)
  have ne: "entries l = entries (pxReadyTasksLists k p)"
    if "next_entry (pxReadyTasksLists k p) = Inr (x, l)" "entries (pxReadyTasksLists k p) \<noteq> []" for p x l
    using next_entry_ok [OF ix that(2)] that(1) by auto
  show "is_ready k' u = is_ready k u"
    using assms(2) ne by (auto simp: vTaskSwitchContext_def taskSELECT_HIGHEST_PRIORITY_TASK_def is_ready_def split: if_splits)
  show "xPendingReadyList k' = xPendingReadyList k" "xSuspendedTaskList k' = xSuspendedTaskList k"
    using assms(2) by (auto simp: vTaskSwitchContext_def taskSELECT_HIGHEST_PRIORITY_TASK_def split: if_splits)
qed

lemma removed_effect:
  assumes "xTaskRemoveFromEventList [t] k = Inr (h, [], k1)"
  shows "(is_ready k u \<longrightarrow> is_ready k1 u) \<and>
    (if uxSchedulerSuspended k = 0 then is_ready k1 t \<and> xPendingReadyList k1 = xPendingReadyList k
     else is_ready k1 t = is_ready k t \<and> xPendingReadyList k1 = xPendingReadyList k @ [t])"
proof -
  define k0 where "k0 = (if uxSchedulerSuspended k = 0 then prvAddTaskToReadyList t (remove_state_item t k)
      else k\<lparr>xPendingReadyList := xPendingReadyList k @ [t]\<rparr>)"
  have p: "xPendingReadyList (remove_state_item t k) = xPendingReadyList k"
    by (simp add: remove_state_item_def remove_ready_def)
  have "k1 = k0 \<or> k1 = k0\<lparr>xYieldPending := True\<rparr>"
    using assms by (auto simp: Let_def k0_def [symmetric] split: if_splits)
  then have "is_ready k1 v = is_ready k0 v" "xPendingReadyList k1 = xPendingReadyList k0" for v
    by (auto simp: ready_flags)
  then show ?thesis using p by (simp add: k0_def make_ready_iff ready_flags fields)
qed

text \<open>Handing an item to the receiver \<open>t\<close>, the only task that may wait.\<close>

lemma handed_effect:
  assumes "kernel_ok k" and "t \<in># state_items k" and "ws = [] \<or> ws = [t]" and "handed ws ws' k k'"
  shows "keeps_kernel k k'" and "is_ready k u \<Longrightarrow> is_ready k' u"
    and "ws' = ws \<and> k' = k \<or> ws = [t] \<and> ws' = [] \<and>
      (if uxSchedulerSuspended k = 0 then is_ready k' t \<and> xPendingReadyList k' = xPendingReadyList k
       else is_ready k' t = is_ready k t \<and> xPendingReadyList k' = xPendingReadyList k @ [t])"
proof -
  have "keeps_kernel k k' \<and> (is_ready k u \<longrightarrow> is_ready k' u) \<and> (ws' = ws \<and> k' = k \<or> ws = [t] \<and> ws' = [] \<and>
      (if uxSchedulerSuspended k = 0 then is_ready k' t \<and> xPendingReadyList k' = xPendingReadyList k
       else is_ready k' t = is_ready k t \<and> xPendingReadyList k' = xPendingReadyList k @ [t]))"
  proof (cases "ws' = ws \<and> k' = k")
    case True
    then show ?thesis using assms(1) by (simp add: keeps_kernel_def)
  next
    case False
    then obtain h k1 where k1: "ws = [t]" "ws' = []" "xTaskRemoveFromEventList [t] k = Inr (h, [], k1)"
      "k' \<in> {k1, yield_within_api k1, vTaskMissedYield k1}"
      using assms(3,4) by (auto simp: handed_def)
    have keep: "keeps_kernel k k1" using event_removal_keeps [OF assms(1), of "[t]"] assms(2) k1(3) by auto
    then have "keeps_kernel k k'"
      using k1(4) keeps_trans [OF keep keeps_flags(5)] keeps_trans [OF keep keeps_flags(1) [of k1 True]]
      by (auto simp: keeps_kernel_def vTaskMissedYield_def)
    moreover have "is_ready k' v = is_ready k1 v" "xPendingReadyList k' = xPendingReadyList k1" for v
      using k1(4) by (auto simp: ready_flags) (auto simp: yield_within_api_def vTaskMissedYield_def)
    moreover have "(is_ready k u \<longrightarrow> is_ready k1 u) \<and>
      (if uxSchedulerSuspended k = 0 then is_ready k1 t \<and> xPendingReadyList k1 = xPendingReadyList k
       else is_ready k1 t = is_ready k t \<and> xPendingReadyList k1 = xPendingReadyList k @ [t])"
      by (rule removed_effect [OF k1(3)])
    ultimately show ?thesis using k1(1,2) by simp
  qed
  then show "keeps_kernel k k'" "is_ready k u \<Longrightarrow> is_ready k' u" "ws' = ws \<and> k' = k \<or> ws = [t] \<and> ws' = [] \<and>
      (if uxSchedulerSuspended k = 0 then is_ready k' t \<and> xPendingReadyList k' = xPendingReadyList k
       else is_ready k' t = is_ready k t \<and> xPendingReadyList k' = xPendingReadyList k @ [t])" by blast+
qed

section \<open>How the items of the receiver are linked\<close>

text \<open>From the moment it is on the event list, the receiver is not ready until it is handed an item or times out.\<close>

fun may_sleep :: "receive_pc \<Rightarrow> bool" where
  "may_sleep (Unlock_tx b) = (b = On_list)"
| "may_sleep (Unlock_rx b) = (b = On_list)"
| "may_sleep (Resume_all b) = (b = On_list)"
| "may_sleep Asleep = True"
| "may_sleep p = False"

text \<open>Another task has suspended the receiver.\<close>

definition stopped :: "tcb set \<Rightarrow> tcb \<Rightarrow> kernel \<Rightarrow> bool" where
  "stopped S t k \<longleftrightarrow> t \<in> S \<and> t \<in> set (xSuspendedTaskList k) \<and> uxSchedulerSuspended k = 0"

definition linked :: "tcb set \<Rightarrow> tcb \<Rightarrow> receive_pc \<Rightarrow> queue \<Rightarrow> kernel \<Rightarrow> bool" where
  "linked S t p q k \<longleftrightarrow> kernel_ok k \<and> t \<in># state_items k \<and> (\<exists>u. u \<noteq> t \<and> is_ready k u) \<and>
    xTasksWaitingToSend q = [] \<and> set (xPendingReadyList k) \<subseteq> {t} \<and>
    (uxSchedulerSuspended k = 0 \<longrightarrow> xPendingReadyList k = [] \<and> is_ready k (pxCurrentTCB k)) \<and>
    (is_ready k t \<or> t \<in> set (xPendingReadyList k) \<longrightarrow> xTasksWaitingToReceive q = []) \<and>
    (xTasksWaitingToReceive q = [] \<longrightarrow> is_ready k t \<or> t \<in> set (xPendingReadyList k) \<or> stopped S t k) \<and>
    (\<not> may_sleep p \<longrightarrow> (is_ready k t \<or> stopped S t k) \<and> xPendingReadyList k = [])"

text \<open>The running receiver is not suspended.\<close>

lemma stopped_cases: "stopped S t k \<Longrightarrow> uxSchedulerSuspended k = 0"
  by (simp add: stopped_def)

lemma linked_running: "linked S t p q k \<Longrightarrow> pxCurrentTCB k = t \<Longrightarrow> \<not> may_sleep p \<Longrightarrow> is_ready k t"
  by (auto simp: linked_def stopped_def)

lemma stopped_keep: "xSuspendedTaskList k' = xSuspendedTaskList k \<Longrightarrow> uxSchedulerSuspended k' = uxSchedulerSuspended k \<Longrightarrow>
    stopped S t k' = stopped S t k"
  by (simp add: stopped_def)

definition receiver_inv :: "handle \<Rightarrow> tcb set \<Rightarrow> tcb \<Rightarrow> receiver \<Rightarrow> bool" where
  "receiver_inv a S t r \<longleftrightarrow> receiver_ok a t r \<and> linked S t (pc r) (the (queues (sys r) a)) (kern (sys r)) \<and>
    (pc r = Check_empty \<or> pc r = Place_on_list \<longrightarrow> 0 < xTicksToWait r)"

lemma knows_list:
  assumes "knows t p q"
  shows "xTasksWaitingToReceive q = [] \<or> may_sleep p \<and> xTasksWaitingToReceive q = [t]"
  using assms by (cases p) (auto simp: off_list_def locked_off_list_def waits_rightly_def split: if_splits)

lemma linked_handed:
  assumes "linked S t p q k" and "knows t p q" and "handed (xTasksWaitingToReceive q) (xTasksWaitingToReceive q') k k'"
    and "same_run k k'" and "xTasksWaitingToSend q' = []"
  shows "linked S t p q' k'"
proof -
  have k: "kernel_ok k" "t \<in># state_items k" using assms(1) by (simp_all add: linked_def)
  have l: "xTasksWaitingToReceive q = [] \<or> xTasksWaitingToReceive q = [t]" using knows_list [OF assms(2)] by blast
  note e = handed_effect [OF k l assms(3)]
  have s: "uxSchedulerSuspended k' = uxSchedulerSuspended k" "pxCurrentTCB k' = pxCurrentTCB k"
    using assms(4) by (simp_all add: same_run_def)
  have ks: "kernel_ok k'" "state_items k' = state_items k" using e(1) by (simp_all add: keeps_kernel_def)
  show ?thesis
  proof (cases "xTasksWaitingToReceive q' = xTasksWaitingToReceive q \<and> k' = k")
    case True
    then show ?thesis using assms(1,5) by (simp add: linked_def)
  next
    case False
    then have w: "xTasksWaitingToReceive q = [t]" "xTasksWaitingToReceive q' = []"
      "if uxSchedulerSuspended k = 0 then is_ready k' t \<and> xPendingReadyList k' = xPendingReadyList k
       else is_ready k' t = is_ready k t \<and> xPendingReadyList k' = xPendingReadyList k @ [t]"
      using e(3) by blast+
    have n: "may_sleep p" using w(1) knows_list [OF assms(2)] by auto
    have "\<exists>u. u \<noteq> t \<and> is_ready k' u" "uxSchedulerSuspended k = 0 \<Longrightarrow> is_ready k' (pxCurrentTCB k)"
      using e(2) assms(1) by (auto simp: linked_def)
    then show ?thesis using assms(1,5) w n s ks k(2) by (auto simp: linked_def split: if_splits)
  qed
qed

lemma linked_tick:
  assumes "linked S t p q k" and "knows t p q" and "xTaskIncrementTick k = Inr (sw, ts, k')"
    and "xTasksWaitingToReceive q' = filter (\<lambda>t. t \<notin> set ts) (xTasksWaitingToReceive q)"
    and "xTasksWaitingToSend q' = filter (\<lambda>t. t \<notin> set ts) (xTasksWaitingToSend q)"
  shows "linked S t p q' k'"
proof -
  have k: "kernel_ok k" using assms(1) by (simp add: linked_def)
  have k': "keeps_kernel k k'" "uxSchedulerSuspended k' = uxSchedulerSuspended k"
    "xPendingReadyList k' = xPendingReadyList k" "pxCurrentTCB k' = pxCurrentTCB k"
    using tick_keeps [OF k] assms(3) by auto
  note r = tick_ready_iff [OF k assms(3)]
  have st: "stopped S t k' = stopped S t k" by (rule stopped_keep [OF tick_suspended [OF k assms(3)] k'(2)])
  have "xTasksWaitingToReceive q' = [] \<longleftrightarrow> xTasksWaitingToReceive q = [] \<or> t \<in> set ts"
    using knows_list [OF assms(2)] assms(4) by auto
  then show ?thesis using assms(1,5) k' r st by (auto simp: linked_def keeps_kernel_def)
qed

text \<open>Another task suspends or resumes a task, which may be the receiver.\<close>

lemma moved_lists:
  "xSuspendedTaskList (move_to_suspended u k) = remove1 u (xSuspendedTaskList k) @ [u]"
  "xPendingReadyList (move_to_suspended u k) = remove1 u (xPendingReadyList k)"
  "v \<noteq> u \<Longrightarrow> is_ready (move_to_suspended u k) v = is_ready k v"
proof -
  have p: "pxReadyTasksLists (move_to_suspended u k) = pxReadyTasksLists (remove_ready u k)"
    by (simp add: move_to_suspended_def Let_def prvResetNextTaskUnblockTime_def taskRESET_READY_PRIORITY_def
        portRESET_READY_PRIORITY_def remove_state_item_def)
  show "v \<noteq> u \<Longrightarrow> is_ready (move_to_suspended u k) v = is_ready k v"
    unfolding is_ready_def p by (simp add: remove_ready_def entries_remove)
qed (simp_all add: move_to_suspended_def Let_def prvResetNextTaskUnblockTime_def taskRESET_READY_PRIORITY_def
      portRESET_READY_PRIORITY_def remove_state_item_def remove_ready_def)

lemma linked_suspended:
  assumes "linked S t p q k" and "knows t p q" and "uxSchedulerSuspended k = 0" and "pxCurrentTCB k \<noteq> t"
    and "u \<in> S" and "u \<noteq> pxCurrentTCB k" and "u \<in># state_items k" and "xTasksWaitingToSend q' = []"
    and "xTasksWaitingToReceive q' = filter (\<lambda>x. x \<noteq> u) (xTasksWaitingToReceive q)"
  shows "linked S t p q' (move_to_suspended u k)"
proof -
  have k: "kernel_ok k" using assms(1) by (simp add: linked_def)
  note m = move_to_suspended_keeps [OF k assms(7)]
  have l: "xTasksWaitingToReceive q = [] \<or> xTasksWaitingToReceive q = [t]" using knows_list [OF assms(2)] by blast
  have c: "is_ready (move_to_suspended u k) (pxCurrentTCB k)" "xPendingReadyList (move_to_suspended u k) = []"
    using assms(1,3,6) by (simp_all add: linked_def moved_lists)
  have basic: "kernel_ok (move_to_suspended u k)" "t \<in># state_items (move_to_suspended u k)"
    using m(1) assms(1) by (simp_all add: keeps_kernel_def linked_def)
  have rest: "(is_ready (move_to_suspended u k) t \<longrightarrow> xTasksWaitingToReceive q' = []) \<and>
      (xTasksWaitingToReceive q' = [] \<longrightarrow> is_ready (move_to_suspended u k) t \<or> stopped S t (move_to_suspended u k)) \<and>
      (\<not> may_sleep p \<longrightarrow> is_ready (move_to_suspended u k) t \<or> stopped S t (move_to_suspended u k))"
  proof (cases "u = t")
    case True
    then have "stopped S t (move_to_suspended u k)" using assms(3,5) m(5) by (simp add: stopped_def moved_lists)
    then show ?thesis using m(3) True by simp
  next
    case False
    then have "xTasksWaitingToReceive q' = xTasksWaitingToReceive q" using l assms(9) by auto
    moreover have "stopped S t (move_to_suspended u k) = stopped S t k"
      using False m(5) by (simp add: stopped_def moved_lists)
    ultimately show ?thesis using assms(1,3) False by (auto simp: linked_def moved_lists)
  qed
  show ?thesis unfolding linked_def m(5,6)
    using basic c rest assms(4,8) by (intro conjI impI exI [of _ "pxCurrentTCB k"]) simp_all
qed

lemma linked_resumed:
  assumes "linked S t p q k" and "uxSchedulerSuspended k = 0" and "pxCurrentTCB k \<noteq> t"
    and "u \<noteq> t \<or> w = (t \<in> set (xTasksWaitingToReceive q))" and "vTaskResume (Some u) w k = Inr k'" and "knows t p q"
  shows "linked S t p q k' \<and> same_run k k' \<and> (stopped S t k \<and> u = t \<and> xTasksWaitingToReceive q = [] \<longrightarrow> is_ready k' t)"
proof (cases "u \<noteq> pxCurrentTCB k \<and> prvTaskIsTaskSuspended u w k")
  case False
  then have "k' = k" using assms(5) by (simp add: vTaskResume_def split: if_splits)
  then show ?thesis
    using assms(1,3,4) False by (auto simp: same_run_refl prvTaskIsTaskSuspended_def stopped_def linked_def)
next
  case True
  define k1 where "k1 = prvAddTaskToReadyList u (remove_state_item u k)"
  have k': "k' = k1 \<or> k' = yield_within_api k1"
    using assms(5) True by (auto simp: vTaskResume_def Let_def k1_def)
  have k: "kernel_ok k" using assms(1) by (simp add: linked_def)
  have us: "u \<in> set (xSuspendedTaskList k)" "\<not> w" using True by (simp_all add: prvTaskIsTaskSuspended_def)
  then have "u \<in># state_items k" by (simp add: items_parts)
  then have "keeps_kernel k k1" using make_ready [OF k] by (simp add: keeps_kernel_def k1_def)
  then have keep: "kernel_ok k'" "state_items k' = state_items k"
    using k' keeps_flags(5) [of k1] by (auto simp: keeps_kernel_def)
  have r: "is_ready k' v \<longleftrightarrow> v = u \<or> is_ready k v" for v
    using k' make_ready_iff [of u k v] by (auto simp: ready_flags k1_def)
  have f: "xPendingReadyList k1 = xPendingReadyList k" "same_run k k1" "xSuspendedTaskList k1 = remove1 u (xSuspendedTaskList k)"
    by (simp_all add: k1_def fields same_run_def remove_state_item_def remove_ready_def)
  have g: "xPendingReadyList k' = xPendingReadyList k" "same_run k k'" "xSuspendedTaskList k' = remove1 u (xSuspendedTaskList k)"
    using k' f by (auto simp: yield_within_api_def same_run_def)
  have same: "u \<noteq> t \<Longrightarrow> stopped S t k' = stopped S t k" using g(2,3) by (simp add: stopped_def same_run_def)
  have off: "u = t \<Longrightarrow> xTasksWaitingToReceive q = []"
    using assms(4) us(2) knows_list [OF assms(6)] by auto
  have "linked S t p q k'" unfolding linked_def
    using assms(1,2) keep r g same off by (cases "u = t") (auto simp: linked_def same_run_def)
  then show ?thesis using g(2) r by blast
qed

lemma environment_linked:
  assumes "receiver_inv a S t r" and "step a S t r r'" and "\<not> (pxCurrentTCB (kern (sys r)) = t \<and> receive_step a r = Inr r')"
  shows "receiver_inv a S t r'"
proof -
  have ok: "receiver_ok a t r" using assms(1) by (simp add: receiver_inv_def)
  obtain q where q: "queues (sys r) a = Some q" "wf_queue q" "pxQueueSetContainer q = None" "knows t (pc r) q"
    using ok by (auto simp: receiver_ok_def)
  have l: "linked S t (pc r) q (kern (sys r))" using assms(1) q(1) by (simp add: receiver_inv_def)
  have send: "linked S t (pc r) (the (queues s a)) (kern s)"
    if v: "\<exists>q'. queues s a = Some q' \<and> posted q q' \<and> same_run (kern (sys r)) (kern s) \<and>
      handed (xTasksWaitingToReceive q) (xTasksWaitingToReceive q') (kern (sys r)) (kern s)" for s
  proof -
    obtain q' where q': "queues s a = Some q'" "posted q q'" "same_run (kern (sys r)) (kern s)"
      "handed (xTasksWaitingToReceive q) (xTasksWaitingToReceive q') (kern (sys r)) (kern s)" using v by blast
    have "xTasksWaitingToSend q' = []" using q'(2) l by (simp add: posted_def linked_def)
    then show ?thesis using linked_handed [OF l q(4) q'(4,3)] q'(1) by simp
  qed
  have same: "pc r' = pc r \<and> xTicksToWait r' = xTicksToWait r \<and>
      linked S t (pc r) (the (queues (sys r') a)) (kern (sys r'))"
    using assms(2)
  proof (cases rule: step.cases)
    case own
    then show ?thesis using assms(3) by simp
  next
    case (interrupt_send x w ok w' s)
    then show ?thesis using send [of s] isr_send_view [OF q(1-3) interrupt_send(2,3)] by auto
  next
    case (tick s)
    obtain sw ts k where k: "xTaskIncrementTick (kern (sys r)) = Inr (sw, ts, k)"
      "s = leave_event_lists ts ((sys r)\<lparr>kern := k\<rparr>)"
      using tick(2) by (auto simp: rtos_tick_def)
    show ?thesis using leave_lists_view [of "(sys r)\<lparr>kern := k\<rparr>" a q ts] q(1) tick(1) k(2)
        linked_tick [OF l q(4) k(1)] by auto
  next
    case (task_send x ok s)
    then show ?thesis using send [of s]
        task_send_view [OF q(1-3) task_send(2) running_unlocked [OF \<open>receiver_ok a t r\<close> _ q(1)]] by auto
  next
    case (task_suspend u s)
    let ?k = "move_to_suspended u (kern (sys r))"
    have s: "s = leave_event_lists [u] ((sys r)\<lparr>kern := ?k\<rparr>)"
      using task_suspend(5,7) move_flags(2) by (auto simp: suspend_task_def vTaskSuspend_def Let_def)
    obtain q' where q': "queues s a = Some q'" "kern s = ?k" "xTasksWaitingToSend q' = []"
      "xTasksWaitingToReceive q' = filter (\<lambda>x. x \<noteq> u) (xTasksWaitingToReceive q)"
      using leave_lists_view [of "(sys r)\<lparr>kern := ?k\<rparr>" a q "[u]"] q(1) s l by (auto simp: linked_def)
    show ?thesis using linked_suspended [OF l q(4) task_suspend(2-6) q'(3,4)] q' task_suspend(1) by simp
  next
    case (task_resume u w k)
    have "u \<noteq> t \<or> w = (t \<in> set (xTasksWaitingToReceive q))" using task_resume(4) q(1) by simp
    from linked_resumed [OF l task_resume(2,3) this task_resume(5) q(4)] show ?thesis using task_resume(1) q(1) by simp
  next
    case (switch s)
    obtain k where k: "vTaskSwitchContext (kern (sys r)) = Inr k" "s = (sys r)\<lparr>kern := k\<rparr>"
      using switch(3) by (auto simp: rtos_switch_def)
    have kk: "kernel_ok (kern (sys r))" "is_ready (kern (sys r)) (pxCurrentTCB (kern (sys r)))"
      using l switch(2) by (simp_all add: linked_def)
    have "keeps_kernel (kern (sys r)) k" "is_ready k (pxCurrentTCB k)"
      using switch_selects [OF kk switch(2)] k(1) by auto
    moreover have "stopped S t k = stopped S t (kern (sys r))"
      by (rule stopped_keep [OF switch_ready(3) [OF kk(1) k(1)] switch_run [OF k(1)]])
    ultimately show ?thesis using l k switch(1) q(1) switch_ready(1,2) [OF kk(1) k(1)] switch_run [OF k(1)]
      by (simp add: linked_def keeps_kernel_def)
  qed
  then show ?thesis using environment_ok [OF ok assms(2,3)] assms(1) by (simp add: receiver_inv_def)
qed

section \<open>The steps of the receiver\<close>

lemma receiver_invI:
  assumes "queues (sys r) a = Some q" and "wf_queue q \<and> pxQueueSetContainer q = None \<and> unat (uxLength q) \<le> 127"
    and "knows t (pc r) q" and "linked S t (pc r) q (kern (sys r))"
    and "uxSchedulerSuspended (kern (sys r)) = (if suspended_pc (pc r) then 1 else 0)"
    and "suspended_pc (pc r) \<longrightarrow> pxCurrentTCB (kern (sys r)) = t"
    and "pc r = Check_empty \<or> pc r = Place_on_list \<longrightarrow> 0 < xTicksToWait r"
  shows "receiver_inv a S t r"
  using assms by (simp add: receiver_inv_def receiver_ok_def)

lemma receiver_invD:
  assumes "receiver_inv a S t r"
  shows "\<exists>q. queues (sys r) a = Some q \<and> (wf_queue q \<and> pxQueueSetContainer q = None \<and> unat (uxLength q) \<le> 127) \<and>
    knows t (pc r) q \<and> linked S t (pc r) q (kern (sys r))"
    and "uxSchedulerSuspended (kern (sys r)) = (if suspended_pc (pc r) then 1 else 0)"
    and "pc r = Check_empty \<or> pc r = Place_on_list \<longrightarrow> 0 < xTicksToWait r"
  using assms by (auto simp: receiver_inv_def receiver_ok_def)

text \<open>The queue may change in what the links do not depend on.\<close>

lemma linked_cong:
  "linked S t p q k \<Longrightarrow> xTasksWaitingToSend q' = xTasksWaitingToSend q \<Longrightarrow>
    xTasksWaitingToReceive q' = xTasksWaitingToReceive q \<Longrightarrow> may_sleep p' = may_sleep p \<Longrightarrow> linked S t p' q' k"
  by (simp add: linked_def)

lemma linked_suspend:
  assumes "linked S t p q k" and "uxSchedulerSuspended k = 0" and "\<not> may_sleep p" and "\<not> may_sleep p'"
    and "pxCurrentTCB k = t"
  shows "linked S t p' q (vTaskSuspendAll k)" and "uxSchedulerSuspended (vTaskSuspendAll k) = 1"
    and "pxCurrentTCB (vTaskSuspendAll k) = pxCurrentTCB k"
proof -
  have "keeps_kernel k (vTaskSuspendAll k)" using assms(1) keeps_flags(7) by (simp add: linked_def)
  then show "linked S t p' q (vTaskSuspendAll k)"
    using assms linked_running [OF assms(1,5,3)]
    by (simp add: linked_def keeps_kernel_def ready_flags) (simp add: vTaskSuspendAll_def)
  show "uxSchedulerSuspended (vTaskSuspendAll k) = 1" "pxCurrentTCB (vTaskSuspendAll k) = pxCurrentTCB k"
    using assms(2) by (simp_all add: vTaskSuspendAll_def)
qed

lemma lock_view:
  assumes "wf_queue q" and "off_list q"
  shows "wf_queue (prvLockQueue q)" and "pxQueueSetContainer (prvLockQueue q) = pxQueueSetContainer q"
    and "uxLength (prvLockQueue q) = uxLength q" and "locked_off_list (prvLockQueue q)"
    and "xTasksWaitingToSend (prvLockQueue q) = xTasksWaitingToSend q"
    and "xTasksWaitingToReceive (prvLockQueue q) = xTasksWaitingToReceive q"
proof -
  have "same_ring q (prvLockQueue q)"
    using same_ring_trans [OF same_ring_rx same_ring_tx] same_ring_rx same_ring_tx same_ring_refl
    unfolding prvLockQueue_def Let_def by (simp split: if_splits)
  then show "wf_queue (prvLockQueue q)" "pxQueueSetContainer (prvLockQueue q) = pxQueueSetContainer q"
    "uxLength (prvLockQueue q) = uxLength q"
    using assms(1) same_ring_facts by auto
  show "locked_off_list (prvLockQueue q)"
    using assms(2) by (auto simp: locked_off_list_def off_list_def prvLockQueue_def Let_def queueLOCKED_UNMODIFIED_def)
  show "xTasksWaitingToSend (prvLockQueue q) = xTasksWaitingToSend q"
    "xTasksWaitingToReceive (prvLockQueue q) = xTasksWaitingToReceive q"
    by (simp_all add: prvLockQueue_def Let_def)
qed

lemma time_left:
  "xTaskCheckForTimeOut k e ticks = (False, e', ticks') \<Longrightarrow> 0 < ticks'"
proof -
  assume h: "xTaskCheckForTimeOut k e ticks = (False, e', ticks')"
  have "(0 :: u32) < portMAX_DELAY" by (simp add: portMAX_DELAY_def)
  moreover have "x < ticks \<Longrightarrow> 0 < ticks - x" for x :: u32 by unat_arith
  ultimately show "0 < ticks'" using h by (auto simp: xTaskCheckForTimeOut_def Let_def split: if_splits)
qed

text \<open>The current task goes to sleep: all other tasks stay as they are.\<close>

lemma delay_ready:
  fixes ticks :: u32 and indefinitely :: bool
  assumes "kernel_ok k" and "is_ready k (pxCurrentTCB k)"
  defines "k' \<equiv> prvAddCurrentTaskToDelayedList ticks indefinitely k"
  shows "\<not> is_ready k' (pxCurrentTCB k)" and "u \<noteq> pxCurrentTCB k \<Longrightarrow> is_ready k' u = is_ready k u"
    and "same_run k k'" and "xPendingReadyList k' = xPendingReadyList k"
proof -
  let ?t = "pxCurrentTCB k"
  have f: "pxReadyTasksLists k' = pxReadyTasksLists (leave_ready ?t k) \<and> same_run k k' \<and>
    xPendingReadyList k' = xPendingReadyList k"
    unfolding k'_def prvAddCurrentTaskToDelayedList_def Let_def by (simp add: fields same_run_def)
  have r: "is_ready k' u = is_ready (leave_ready ?t k) u" for u using f by (simp add: is_ready_def)
  have ok: "ready_ok k" "once (state_items k)" using assms(1) by (simp_all add: kernel_ok_def)
  have "add_mset ?t (state_items (leave_ready ?t k)) = state_items k" by (rule leave_ready_items [OF ok(1) assms(2)])
  moreover have "count (state_items k) ?t \<le> 1" using ok(2) by (simp add: once_def)
  ultimately have "count (state_items (leave_ready ?t k)) ?t = 0" by (metis One_nat_def add_mset_add_single count_add_mset le_0_eq not_less_eq_eq)
  then have "?t \<notin># ready_items (leave_ready ?t k)" unfolding items_parts by (simp add: not_in_iff)
  then show "\<not> is_ready k' ?t"
    using in_ready_items [OF ready_but [OF leave_ready_ok [OF ok(1)]]] r by metis
  show "u \<noteq> ?t \<Longrightarrow> is_ready k' u = is_ready k u" unfolding r by (simp add: is_ready_def fields)
  show "same_run k k'" "xPendingReadyList k' = xPendingReadyList k" using f by simp_all
qed

lemma place_view:
  assumes "linked S t Place_on_list q k" and "pxCurrentTCB k = t" and "0 < ticks"
    and "xTasksWaitingToReceive q = []" and "uxSchedulerSuspended k \<noteq> 0"
    and "vTaskPlaceOnEventList ticks (xTasksWaitingToReceive q) k = (ws, k')"
  shows "ws = [t]" and "linked S t (Unlock_tx On_list) (q\<lparr>xTasksWaitingToReceive := ws\<rparr>) k'" and "same_run k k'"
proof -
  have k: "kernel_ok k" "is_ready k (pxCurrentTCB k)" using assms(1,2) linked_running [OF assms(1,2)] by (simp_all add: linked_def)
  have e: "ws = [t]" "k' = prvAddCurrentTaskToDelayedList ticks True k"
    using assms(2,4,6) by (auto simp: vTaskPlaceOnEventList_def insert_by_def split: if_splits)
  note d = delay_ready [OF k, where ticks = ticks and indefinitely = True, folded e(2)]
  have "keeps_kernel k k'" unfolding e(2) by (rule delay_keeps [OF k assms(3)])
  then show "linked S t (Unlock_tx On_list) (q\<lparr>xTasksWaitingToReceive := ws\<rparr>) k'"
    using assms(1,2,5) d e(1) by (auto simp: linked_def keeps_kernel_def same_run_def)
  show "ws = [t]" "same_run k k'" using e(1) d(3) by simp_all
qed

lemma unlock_tx_loop_ends:
  "queues s a = Some q \<Longrightarrow> pxQueueSetContainer q = None \<Longrightarrow>
    \<exists>s' q'. unlock_tx_loop a c s = Inr s' \<and> queues s' a = Some q'"
proof (induction a c s arbitrary: q rule: unlock_tx_loop.induct)
  case (1 a c s)
  show ?case
  proof (cases "sint queueLOCKED_UNMODIFIED < sint c \<and> xTasksWaitingToReceive q \<noteq> []")
    case False
    then show ?thesis using 1(3,4) by (subst unlock_tx_loop.simps) (auto simp: get_queue_def)
  next
    case True
    obtain h q1 k where w: "wake_receiver q (kern s) = Inr (h, q1, k)" "same_ring q q1"
      using wake_receiver_ok by blast
    let ?s1 = "(set_queue a q1 s)\<lparr>kern := if h then vTaskMissedYield k else k\<rparr>"
    have "queues ?s1 a = Some q1" "pxQueueSetContainer q1 = None"
      using same_ring_facts [OF w(2)] 1(4) by simp_all
    then obtain s' q' where "unlock_tx_loop a (c - 1) ?s1 = Inr s'" "queues s' a = Some q'"
      using 1(2) [where x = q and xa = h and xb = q1 and xc = k] True 1(4) by blast
    then show ?thesis using True w(1) 1(3,4) by (subst unlock_tx_loop.simps) (simp add: get_queue_def)
  qed
qed

lemma unlock_tx_ends:
  "queues s a = Some q \<Longrightarrow> pxQueueSetContainer q = None \<Longrightarrow> \<exists>s'. unlock_tx a s = Inr s'"
  using unlock_tx_loop_ends [of s a q "cTxLock q"] by (fastforce simp: unlock_tx_def get_queue_def)

lemma unlock_rx_alone:
  assumes "queues s a = Some q" and "xTasksWaitingToSend q = []"
  shows "unlock_rx a s = Inr (set_queue a (q\<lparr>cRxLock := queueUNLOCKED\<rparr>) s)"
proof -
  have "unlock_rx_loop a (cRxLock q) s = Inr s"
    using assms by (subst unlock_rx_loop.simps) (simp add: get_queue_def)
  then show ?thesis using assms(1) by (simp add: unlock_rx_def get_queue_def)
qed

text \<open>The step at each program point, for the running receiver.\<close>

definition steps_well :: "handle \<Rightarrow> tcb set \<Rightarrow> tcb \<Rightarrow> receiver \<Rightarrow> bool" where
  "steps_well a S t r \<longleftrightarrow> (\<exists>r'. receive_step a r = Inr r' \<and> receiver_inv a S t r')"

lemma try_step:
  assumes "receiver_inv a S t r" and "pxCurrentTCB (kern (sys r)) = t" and "pc r = Try"
  shows "steps_well a S t r"
proof -
  obtain q where q: "queues (sys r) a = Some q"
    "wf_queue q \<and> pxQueueSetContainer q = None \<and> unat (uxLength q) \<le> 127"
    "off_list q" "linked S t Try q (kern (sys r))"
    using receiver_invD(1) [OF assms(1)] assms(3) by auto
  have z: "uxSchedulerSuspended (kern (sys r)) = 0" using receiver_invD(2) [OF assms(1)] assms(3) by simp
  show ?thesis
  proof (cases "uxMessagesWaiting q = 0")
    case True
    then have c: "receive_critical a (sys r) = Inr (None, sys r)"
      using q(1) by (simp add: receive_critical_def get_queue_def)
    have "receiver_inv a S t (r\<lparr>pc := Returned None\<rparr>)" "receiver_inv a S t (r\<lparr>pc := Suspend_all\<rparr>)"
      "receiver_inv a S t (r\<lparr>xTimeOut := e, xEntryTimeSet := True, pc := Suspend_all\<rparr>)" for e
      by (rule receiver_invI [where q = q]; use q z linked_cong [OF q(4)] in simp)+
    then show ?thesis using c assms(3) by (simp add: steps_well_def receive_step_def)
  next
    case False
    then have ne: "0 < uxMessagesWaiting q" by (simp add: word_greater_zero_iff)
    obtain q0 r0 where q0: "prvCopyDataFromQueue q = Inr (hd (items q), q0)" "q0 = q\<lparr>pcReadFrom := r0\<rparr>"
      "let p = q0\<lparr>uxMessagesWaiting := uxMessagesWaiting q - 1\<rparr> in wf_queue p \<and> uxLength p = uxLength q"
      using fetch_copy [OF _ ne] q(2) by (auto simp: Let_def)
    let ?q1 = "q0\<lparr>uxMessagesWaiting := uxMessagesWaiting q - 1\<rparr>"
    have s: "xTasksWaitingToSend ?q1 = []" "off_list ?q1" "linked S t (Returned x) ?q1 (kern (sys r))" for x
      using q(3,4) q0(2) by (simp_all add: linked_def off_list_def)
    then have "wake_sender ?q1 (kern (sys r)) = Inr (False, ?q1, kern (sys r))" by (simp add: wake_sender_def)
    then have c: "receive_critical a (sys r) = Inr (Some (hd (items q)), set_queue a ?q1 (sys r))"
      using q(1) ne q0(1) by (simp add: receive_critical_def get_queue_def Let_def set_queue_def)
    have "receiver_inv a S t (r\<lparr>sys := set_queue a ?q1 (sys r), pc := Returned (Some (hd (items q)))\<rparr>)"
      by (rule receiver_invI [where q = ?q1]; use q(2) q0(2,3) s z in \<open>simp add: Let_def\<close>)
    then show ?thesis using c assms(3) by (simp add: steps_well_def receive_step_def)
  qed
qed

lemma suspend_step:
  assumes "receiver_inv a S t r" and "pxCurrentTCB (kern (sys r)) = t" and "pc r = Suspend_all"
  shows "steps_well a S t r"
proof -
  obtain q where q: "queues (sys r) a = Some q"
    "wf_queue q \<and> pxQueueSetContainer q = None \<and> unat (uxLength q) \<le> 127"
    "off_list q" "linked S t Suspend_all q (kern (sys r))"
    using receiver_invD(1) [OF assms(1)] assms(3) by auto
  have z: "uxSchedulerSuspended (kern (sys r)) = 0" using receiver_invD(2) [OF assms(1)] assms(3) by simp
  note l = linked_suspend [OF q(4) z, where p' = Lock_queue, simplified, OF assms(2)]
  have "receiver_inv a S t (r\<lparr>sys := (sys r)\<lparr>kern := vTaskSuspendAll (kern (sys r))\<rparr>, pc := Lock_queue\<rparr>)"
    by (rule receiver_invI [where q = q]; use q l assms(2) in simp)
  then show ?thesis using assms(3) by (simp add: steps_well_def receive_step_def)
qed

lemma checking_steps:
  assumes "receiver_inv a S t r" and "pxCurrentTCB (kern (sys r)) = t" and "pc r \<in> {Lock_queue, Check_time, Check_empty}"
  shows "steps_well a S t r"
proof -
  obtain q where q: "queues (sys r) a = Some q"
    "wf_queue q \<and> pxQueueSetContainer q = None \<and> unat (uxLength q) \<le> 127"
    "knows t (pc r) q" "linked S t (pc r) q (kern (sys r))"
    using receiver_invD(1) [OF assms(1)] by auto
  have z: "uxSchedulerSuspended (kern (sys r)) = 1" using receiver_invD(2) [OF assms(1)] assms(3) by auto
  have n: "\<not> may_sleep (pc r)" using assms(3) by auto
  consider (lock) "pc r = Lock_queue" | (time) "pc r = Check_time" | (empty) "pc r = Check_empty" using assms(3) by blast
  then show ?thesis
  proof cases
    case lock
    then have off: "off_list q" using q(3) by simp
    note v = lock_view [OF _ off]
    have "linked S t Check_time (prvLockQueue q) (kern (sys r))"
      using linked_cong [OF q(4)] v q(2) n by simp
    then have "receiver_inv a S t (r\<lparr>sys := set_queue a (prvLockQueue q) (sys r), pc := Check_time\<rparr>)"
      by - (rule receiver_invI [where q = "prvLockQueue q"]; use q(2) v z assms(2) in simp)
    then show ?thesis using lock q(1) by (simp add: steps_well_def receive_step_def get_queue_def)
  next
    case time
    obtain x e n' where c: "xTaskCheckForTimeOut (kern (sys r)) (xTimeOut r) (xTicksToWait r) = (x, e, n')"
      by (cases "xTaskCheckForTimeOut (kern (sys r)) (xTimeOut r) (xTicksToWait r)") auto
    have "receiver_inv a S t (r\<lparr>xTimeOut := e, xTicksToWait := n', pc := if x then Unlock_tx Time_out else Check_empty\<rparr>)"
      using c time_left [of "kern (sys r)" _ _ e n']
      by - (rule receiver_invI [where q = q]; use q time z assms(2) linked_cong [OF q(4)] in \<open>cases x; simp\<close>)
    then show ?thesis using time c by (simp add: steps_well_def receive_step_def)
  next
    case empty
    have "locked_off_list q" using q(3) empty by simp
    then have "knows t (if prvIsQueueEmpty q then Place_on_list else Unlock_tx Data_again) q"
      by (auto simp: prvIsQueueEmpty_def locked_off_list_def all_counted_def)
    then have "receiver_inv a S t (r\<lparr>pc := if prvIsQueueEmpty q then Place_on_list else Unlock_tx Data_again\<rparr>)"
      using receiver_invD(3) [OF assms(1)] empty
      by - (rule receiver_invI [where q = q]; use q z assms(2) linked_cong [OF q(4)] in \<open>cases "prvIsQueueEmpty q"; simp\<close>)
    then show ?thesis using empty q(1) by (simp add: steps_well_def receive_step_def get_queue_def)
  qed
qed

lemma place_step:
  assumes "receiver_inv a S t r" and "pxCurrentTCB (kern (sys r)) = t" and "pc r = Place_on_list"
  shows "steps_well a S t r"
proof -
  obtain q where q: "queues (sys r) a = Some q"
    "wf_queue q \<and> pxQueueSetContainer q = None \<and> unat (uxLength q) \<le> 127"
    "xTasksWaitingToReceive q = []" "all_counted q" "linked S t Place_on_list q (kern (sys r))"
    using receiver_invD(1) [OF assms(1)] assms(3) by auto
  have z: "uxSchedulerSuspended (kern (sys r)) = 1" "0 < xTicksToWait r"
    using receiver_invD(2,3) [OF assms(1)] assms(3) by simp_all
  obtain ws k where w: "vTaskPlaceOnEventList (xTicksToWait r) (xTasksWaitingToReceive q) (kern (sys r)) = (ws, k)"
    by (cases "vTaskPlaceOnEventList (xTicksToWait r) (xTasksWaitingToReceive q) (kern (sys r))") auto
  note v = place_view [OF q(5) assms(2) z(2) q(3) _ w]
  let ?q1 = "q\<lparr>xTasksWaitingToReceive := ws\<rparr>"
  have "all_counted ?q1" using q(4) by (simp add: all_counted_def)
  then have "receiver_inv a S t (r\<lparr>sys := (set_queue a ?q1 (sys r))\<lparr>kern := k\<rparr>, pc := Unlock_tx On_list\<rparr>)"
    using same_ring_facts [OF same_ring_receive [of q ws]]
    by - (rule receiver_invI [where q = ?q1]; use q(2) v z assms(2) in \<open>simp add: same_run_def\<close>)
  then show ?thesis using w q(1) assms(3) by (simp add: steps_well_def receive_step_def get_queue_def)
qed

lemma unlock_tx_step:
  assumes "receiver_inv a S t r" and "pxCurrentTCB (kern (sys r)) = t" and "pc r = Unlock_tx b"
  shows "steps_well a S t r"
proof -
  obtain q where q: "queues (sys r) a = Some q"
    "wf_queue q \<and> pxQueueSetContainer q = None \<and> unat (uxLength q) \<le> 127"
    "knows t (Unlock_tx b) q" "linked S t (Unlock_tx b) q (kern (sys r))"
    using receiver_invD(1) [OF assms(1)] assms(3) by auto
  have z: "uxSchedulerSuspended (kern (sys r)) = 1" using receiver_invD(2) [OF assms(1)] assms(3) by simp
  have one: "length (xTasksWaitingToReceive q) \<le> 1" using knows_list [OF q(3)] by auto
  have nc: "pxQueueSetContainer q = None" using q(2) by simp
  obtain s where s: "unlock_tx a (sys r) = Inr s" using unlock_tx_ends [OF q(1) nc] by blast
  obtain q' where q': "queues s a = Some q'" "same_ring q q'" "same_run (kern (sys r)) (kern s)"
    "handed (xTasksWaitingToReceive q) (xTasksWaitingToReceive q') (kern (sys r)) (kern s)"
    "xTasksWaitingToSend q' = xTasksWaitingToSend q" "cTxLock q' = queueUNLOCKED"
    "xTasksWaitingToReceive q' = (if 0 < sint (cTxLock q) then [] else xTasksWaitingToReceive q)"
    using unlock_tx_view [OF q(1) nc one s] by blast
  have m: "uxMessagesWaiting q' = uxMessagesWaiting q" "wf_queue q'" "pxQueueSetContainer q' = None"
    "uxLength q' = uxLength q"
    using same_ring_facts [OF q'(2)] q(2) by simp_all
  have le: "unat (uxMessagesWaiting q) \<le> 127" using wf_messages q(2) by force
  have "knows t (Unlock_rx b) q'"
  proof (cases "b = On_list")
    case True
    define n where "n = unat (uxMessagesWaiting q)"
    have "n \<le> 127" "0 < n \<longleftrightarrow> uxMessagesWaiting q \<noteq> 0" using le by (simp_all add: n_def unat_gt_0)
    moreover have "cTxLock q = of_nat n" using q(3) True by (simp add: all_counted_def n_def)
    ultimately have "0 < sint (cTxLock q) \<longleftrightarrow> uxMessagesWaiting q \<noteq> 0" using sint_small [of n] by simp
    then show ?thesis using True q(3) q'(6,7) m(1) by (simp add: waits_rightly_def)
  next
    case False
    then show ?thesis using q(3) q'(6,7) by (simp add: locked_off_list_def off_list_def)
  qed
  moreover have "linked S t (Unlock_rx b) q' (kern s)"
    using linked_handed [OF q(4,3) q'(4,3)] q'(5) q(4) linked_cong [of S t "Unlock_tx b" q' "kern s" q' "Unlock_rx b"]
    by (simp add: linked_def)
  ultimately have "receiver_inv a S t (r\<lparr>sys := s, pc := Unlock_rx b\<rparr>)"
    by - (rule receiver_invI [where q = q']; use q'(1,3) q(2) m z assms(2) in \<open>simp add: same_run_def\<close>)
  then show ?thesis using s assms(3) by (simp add: steps_well_def receive_step_def)
qed

lemma unlock_rx_step:
  assumes "receiver_inv a S t r" and "pxCurrentTCB (kern (sys r)) = t" and "pc r = Unlock_rx b"
  shows "steps_well a S t r"
proof -
  obtain q where q: "queues (sys r) a = Some q"
    "wf_queue q \<and> pxQueueSetContainer q = None \<and> unat (uxLength q) \<le> 127"
    "knows t (Unlock_rx b) q" "linked S t (Unlock_rx b) q (kern (sys r))"
    using receiver_invD(1) [OF assms(1)] assms(3) by auto
  have z: "uxSchedulerSuspended (kern (sys r)) = 1" using receiver_invD(2) [OF assms(1)] assms(3) by simp
  let ?q1 = "q\<lparr>cRxLock := queueUNLOCKED\<rparr>"
  have "unlock_rx a (sys r) = Inr (set_queue a ?q1 (sys r))"
    using unlock_rx_alone [OF q(1)] q(4) by (simp add: linked_def)
  moreover have "knows t (Resume_all b) ?q1"
    using q(3) by (simp add: waits_rightly_def off_list_def split: if_splits)
  moreover have "linked S t (Resume_all b) ?q1 (kern (sys r))" using linked_cong [OF q(4)] by simp
  ultimately have "receiver_inv a S t (r\<lparr>sys := set_queue a ?q1 (sys r), pc := Resume_all b\<rparr>)"
    using same_ring_facts [OF same_ring_rx [of q queueUNLOCKED]]
    by - (rule receiver_invI [where q = ?q1]; use q(2) z assms(2) in simp)
  then show ?thesis
    using \<open>unlock_rx a (sys r) = _\<close> assms(3) by (simp add: steps_well_def receive_step_def)
qed

lemma last_steps:
  assumes "receiver_inv a S t r" and "pxCurrentTCB (kern (sys r)) = t"
    and "pc r = Asleep \<or> pc r = Last_look \<or> pc r = Returned x"
  shows "steps_well a S t r"
proof -
  obtain q where q: "queues (sys r) a = Some q"
    "wf_queue q \<and> pxQueueSetContainer q = None \<and> unat (uxLength q) \<le> 127"
    "knows t (pc r) q" "linked S t (pc r) q (kern (sys r))"
    using receiver_invD(1) [OF assms(1)] by auto
  have z: "uxSchedulerSuspended (kern (sys r)) = 0" using receiver_invD(2) [OF assms(1)] assms(3) by auto
  have l: "linked S t p q (kern (sys r))" "xTasksWaitingToReceive q = []" for p
    using q(4) z assms(2) by (simp_all add: linked_def)
  then have off: "off_list q" using q(3) assms(3) by (auto simp: waits_rightly_def off_list_def)
  have "receiver_inv a S t (r\<lparr>pc := Try\<rparr>)" "receiver_inv a S t (r\<lparr>pc := Returned None\<rparr>)"
    by (rule receiver_invI [where q = q]; use q(1,2) off l z in simp)+
  then show ?thesis using assms q(1) by (auto simp: steps_well_def receive_step_def get_queue_def)
qed

lemma maybe_switch:
  assumes "kernel_ok (kern s)" and "is_ready (kern s) u" and "uxSchedulerSuspended (kern s) = 0"
    and "\<not> sw \<longrightarrow> is_ready (kern s) (pxCurrentTCB (kern s))"
  shows "\<exists>s'. (if sw then rtos_switch s else Inr s) = Inr s' \<and> queues s' = queues s \<and>
    keeps_kernel (kern s) (kern s') \<and> (\<forall>v. is_ready (kern s') v = is_ready (kern s) v) \<and>
    xPendingReadyList (kern s') = xPendingReadyList (kern s) \<and> uxSchedulerSuspended (kern s') = 0 \<and>
    is_ready (kern s') (pxCurrentTCB (kern s'))"
proof (cases sw)
  case True
  obtain k where k: "vTaskSwitchContext (kern s) = Inr k" "keeps_kernel (kern s) k" "is_ready k (pxCurrentTCB k)"
    using switch_selects [OF assms(1-3)] by blast
  then show ?thesis using True switch_ready [OF assms(1) k(1)] switch_run [OF k(1)] assms(3)
    by (simp add: rtos_switch_def)
next
  case False
  then show ?thesis using assms by (simp add: keeps_kernel_def)
qed

lemma resume_step:
  assumes "receiver_inv a S t r" and "pxCurrentTCB (kern (sys r)) = t" and "pc r = Resume_all b"
  shows "steps_well a S t r"
proof -
  let ?k = "kern (sys r)" and ?p = "case b of On_list \<Rightarrow> Asleep | Data_again \<Rightarrow> Try | Time_out \<Rightarrow> Last_look"
  obtain q where q: "queues (sys r) a = Some q"
    "wf_queue q \<and> pxQueueSetContainer q = None \<and> unat (uxLength q) \<le> 127"
    "knows t (Resume_all b) q" "linked S t (Resume_all b) q ?k"
    using receiver_invD(1) [OF assms(1)] assms(3) by auto
  have z: "uxSchedulerSuspended ?k = 1" using receiver_invD(2) [OF assms(1)] assms(3) by simp
  have k: "kernel_ok ?k" "set (xPendingReadyList ?k) \<subseteq> set_mset (state_items ?k)" "uxSchedulerSuspended ?k \<noteq> 0"
    using q(4) z by (auto simp: linked_def)
  obtain y ts k1 where k1: "xTaskResumeAll ?k = Inr (y, ts, k1)" "keeps_kernel ?k k1" "uxSchedulerSuspended k1 = 0"
    "pxCurrentTCB k1 = t" "xPendingReadyList k1 = []"
    using resume_keeps [OF k(1,3,2)] z assms(2) by auto
  note ready1 = resume_ready_iff [OF k(1) z k(2) k1(1)]
  let ?s1 = "leave_event_lists ts ((sys r)\<lparr>kern := k1\<rparr>)"
  obtain q1 where q1: "queues ?s1 a = Some q1" "same_ring q q1" "cTxLock q1 = cTxLock q"
    "xTasksWaitingToReceive q1 = filter (\<lambda>t. t \<notin> set ts) (xTasksWaitingToReceive q)"
    "xTasksWaitingToSend q1 = []" "kern ?s1 = k1"
    using leave_lists_view [of "(sys r)\<lparr>kern := k1\<rparr>" a q ts] q(1,4) by (auto simp: linked_def)
  have ok1: "kernel_ok (kern ?s1)" using k1(2) q1(6) by (simp add: keeps_kernel_def)
  obtain u where u: "u \<noteq> t" "is_ready ?k u" using q(4) by (auto simp: linked_def)
  have ru: "is_ready (kern ?s1) u" using u(2) ready1 q1(6) by simp
  have rc: "\<not> (y \<or> b = On_list) \<longrightarrow> is_ready (kern ?s1) (pxCurrentTCB (kern ?s1))"
    using q(4) z ready1 k1(4) q1(6) by (auto simp: linked_def stopped_def)
  obtain s where s: "(if y \<or> b = On_list then rtos_switch ?s1 else Inr ?s1) = Inr s" "queues s = queues ?s1"
    "keeps_kernel k1 (kern s)" "\<forall>v. is_ready (kern s) v = is_ready k1 v" "xPendingReadyList (kern s) = []"
    "uxSchedulerSuspended (kern s) = 0" "is_ready (kern s) (pxCurrentTCB (kern s))"
    using maybe_switch [OF ok1 ru _ rc] q1(6) k1(3,5) by auto
  have empty: "xTasksWaitingToReceive q1 = [] \<longleftrightarrow> is_ready k1 t"
    using knows_list [OF q(3)] q(4) z q1(4) ready1 [of t] by (auto simp: linked_def stopped_def)
  have "linked S t ?p q1 (kern s)"
    using q(4) z s u ready1 empty q1(5) k1(2) by (cases b) (auto simp: linked_def keeps_kernel_def stopped_def)
  moreover have "knows t (Resume_all b) q1" by (rule filtered_knows [OF q(3) q1(2-4)]) simp
  then have "knows t ?p q1" by (cases b) simp_all
  ultimately have "receiver_inv a S t (r\<lparr>sys := s, pc := ?p\<rparr>)"
    using same_ring_facts [OF q1(2)]
    by - (rule receiver_invI [where q = q1]; use q(2) q1(1) s(2,6) in \<open>cases b; simp\<close>)
  moreover have "receive_step a r = Inr (r\<lparr>sys := s, pc := ?p\<rparr>)"
    using assms(3) k1(1) s(1) by (simp add: receive_step_def rtos_resume_all_def)
  ultimately show ?thesis by (simp add: steps_well_def)
qed

lemma own_step:
  assumes "receiver_inv a S t r" and "pxCurrentTCB (kern (sys r)) = t"
  shows "steps_well a S t r"
proof (cases "pc r")
  case (Unlock_tx b)
  then show ?thesis by (rule unlock_tx_step [OF assms])
next
  case (Unlock_rx b)
  then show ?thesis by (rule unlock_rx_step [OF assms])
next
  case (Resume_all b)
  then show ?thesis by (rule resume_step [OF assms])
qed (simp_all add: try_step suspend_step checking_steps place_step last_steps assms)

lemma reaches_inv: "reaches a S t r r' \<Longrightarrow> receiver_inv a S t r \<Longrightarrow> receiver_inv a S t r'"
proof (induction rule: reaches.induct)
  case (there r1 r2)
  show ?case
  proof (cases "pxCurrentTCB (kern (sys r1)) = t \<and> receive_step a r1 = Inr r2")
    case True
    then show ?thesis using own_step there by (fastforce simp: steps_well_def)
  next
    case False
    then show ?thesis using environment_linked there by blast
  qed
qed simp

lemma starts_inv:
  assumes "starts a t r" and "queue_capacity a (sys r) \<le> 127"
  shows "receiver_inv a S t r"
proof -
  obtain q where q: "queues (sys r) a = Some q" "wf_queue q" "pxQueueSetContainer q = None"
    using assms(1) unfolding starts_def good_queue_def by blast
  have k: "kernel_ok (kern (sys r))" "is_ready (kern (sys r)) t" using assms(1) by (simp_all add: starts_def Let_def)
  then have "ready_but 0 (kern (sys r))" using ready_but by (simp add: kernel_ok_def)
  then have "t \<in># state_items (kern (sys r))" using in_ready_items k(2) by (simp add: items_parts)
  then have "linked S t Try q (kern (sys r))" using assms(1) q(1) by (auto simp: starts_def linked_def Let_def)
  then show ?thesis using assms q
    by - (rule receiver_invI [where q = q]; simp add: starts_def off_list_def queue_capacity_def Let_def)
qed

section \<open>Properties\<close>

text \<open>
  C3: no wake-up is lost. A task that calls \<open>xQueueReceive\<close> on a queue of at most 127 items
  interleaves, in any order, with interrupts that send to the queue, ticks, context switches, and other
  tasks that send to the queue, suspend tasks of the set \<open>S\<close> (the receiver itself, if it is one of
  them) and resume tasks. In every state that is reached, the next step of the running receiver ends
  without a failed assertion; and whenever the receiver sleeps while there is an item in the queue, it
  is ready to run, or it is one of \<open>S\<close> and suspended, and \<open>vTaskResume\<close> makes it ready. In particular
  the windows between finding the queue empty, going on the event list and giving up the processor
  are safe. No other task receives from the queue.
\<close>

theorem no_lost_wakeup:
  assumes "starts a t r" and "queue_capacity a (sys r) \<le> 127" and "reaches a S t r r'"
  shows "(pxCurrentTCB (kern (sys r')) = t \<longrightarrow> (\<exists>r''. receive_step a r' = Inr r'')) \<and>
    (pc r' = Asleep \<and> queue_items a (sys r') \<noteq> [] \<longrightarrow>
      is_ready (kern (sys r')) t \<or>
      t \<in> S \<and> t \<in> set (xSuspendedTaskList (kern (sys r'))) \<and>
        (\<exists>k. vTaskResume (Some t) (t \<in> set (xTasksWaitingToReceive (the (queues (sys r') a)))) (kern (sys r')) = Inr k \<and>
          is_ready k t))"
proof (intro conjI impI)
  have inv: "receiver_inv a S t r'" using reaches_inv [OF assms(3) starts_inv [OF assms(1,2)]] .
  show "\<exists>r''. receive_step a r' = Inr r''" if "pxCurrentTCB (kern (sys r')) = t"
    using own_step [OF inv that] by (auto simp: steps_well_def)
  assume h: "pc r' = Asleep \<and> queue_items a (sys r') \<noteq> []"
  let ?k = "kern (sys r')"
  obtain q where q: "queues (sys r') a = Some q" "knows t Asleep q" "linked S t Asleep q ?k"
    using receiver_invD(1) [OF inv] h by auto
  have z: "uxSchedulerSuspended ?k = 0" using receiver_invD(2) [OF inv] h by simp
  have "uxMessagesWaiting q \<noteq> 0" using h q(1) items_nonempty [of q] by (auto simp: queue_items_def)
  then have e: "xTasksWaitingToReceive q = []" using q(2) by (simp add: waits_rightly_def)
  show "is_ready ?k t \<or> t \<in> S \<and> t \<in> set (xSuspendedTaskList ?k) \<and>
      (\<exists>k. vTaskResume (Some t) (t \<in> set (xTasksWaitingToReceive (the (queues (sys r') a)))) ?k = Inr k \<and> is_ready k t)"
  proof (cases "is_ready ?k t")
    case False
    then have s: "stopped S t ?k" "pxCurrentTCB ?k \<noteq> t" using q(3) e z by (auto simp: linked_def)
    obtain k where k: "vTaskResume (Some t) False ?k = Inr k" using resume_ends by blast
    then have "is_ready k t" using linked_resumed [OF q(3) z s(2) _ k q(2)] s(1) e by simp
    then show ?thesis using s(1) k q(1) e by (simp add: stopped_def)
  qed simp
qed

text \<open>The limit of 127: sends by interrupts while the queue is locked.\<close>

fun isr_sends :: "handle \<Rightarrow> u8 list list \<Rightarrow> rtos \<Rightarrow> rtos result" where
  "isr_sends a [] s = Inr s"
| "isr_sends a (x # xs) s =
    bindr (xQueueGenericSendFromISR (Some a) (Some x) queueSEND_TO_BACK False s) (\<lambda>(ok, w, s). isr_sends a xs s)"

lemma isr_sends_locked:
  "queues s a = Some q \<Longrightarrow> wf_queue q \<Longrightarrow> pxQueueSetContainer q = None \<Longrightarrow>
    cTxLock q = of_nat (unat (uxMessagesWaiting q)) \<Longrightarrow>
    unat (uxMessagesWaiting q) + length xs \<le> unat (uxLength q) \<Longrightarrow> unat (uxMessagesWaiting q) + length xs \<le> 255 \<Longrightarrow>
    \<forall>x \<in> set xs. length x = unat (uxItemSize q) \<Longrightarrow>
    \<exists>s' q'. isr_sends a xs s = Inr s' \<and> queues s' a = Some q' \<and> wf_queue q' \<and> pxQueueSetContainer q' = None \<and>
      unat (uxMessagesWaiting q') = unat (uxMessagesWaiting q) + length xs \<and>
      cTxLock q' = of_nat (unat (uxMessagesWaiting q')) \<and> xTasksWaitingToReceive q' = xTasksWaitingToReceive q"
proof (induction xs arbitrary: s q)
  case (Cons x xs)
  let ?n = "unat (uxMessagesWaiting q)"
  have g: "good_queue a s" "fits_queue a s x" using Cons.prems by (simp_all add: good_queue_def fits_queue_def)
  have "\<exists>ok s1. post_isr a x s = Inr (ok, s1)"
    using isr_fifo.post_room [OF g] isr_fifo.post_full [OF g] by blast
  then obtain ok w1 s1 where s1: "xQueueGenericSendFromISR (Some a) (Some x) queueSEND_TO_BACK False s = Inr (ok, w1, s1)"
    by (auto simp: post_isr_def)
  obtain q1 where q1: "queues s1 a = Some q1" "posted q q1"
    using isr_send_view [OF Cons.prems(1-3) g(2) s1] by blast
  have room: "uxMessagesWaiting q < uxLength q" using Cons.prems(5) by (simp add: word_less_nat_alt)
  have "of_nat ?n \<noteq> queueUNLOCKED" by (rule lock_below_255) (use Cons.prems(6) in simp)
  then have v: "cTxLock q1 = cTxLock q + 1" "xTasksWaitingToReceive q1 = xTasksWaitingToReceive q"
    "wf_queue q1" "pxQueueSetContainer q1 = None" "uxLength q1 = uxLength q" "uxItemSize q1 = uxItemSize q"
    using q1(2) room Cons.prems(4) by (simp_all add: posted_def)
  have m: "unat (uxMessagesWaiting q1) = Suc ?n" using posted_messages [OF q1(2) room] by simp
  have c: "cTxLock q1 = of_nat (unat (uxMessagesWaiting q1))" unfolding m v(1) Cons.prems(4) by simp
  have "\<exists>s' q'. isr_sends a xs s1 = Inr s' \<and> queues s' a = Some q' \<and> wf_queue q' \<and> pxQueueSetContainer q' = None \<and>
      unat (uxMessagesWaiting q') = unat (uxMessagesWaiting q1) + length xs \<and>
      cTxLock q' = of_nat (unat (uxMessagesWaiting q')) \<and> xTasksWaitingToReceive q' = xTasksWaitingToReceive q1"
    by (rule Cons.IH [OF q1(1) v(3,4) c]) (use Cons.prems(5-7) m v(5,6) in simp_all)
  then show ?case using s1 m v(2) by simp
qed simp

text \<open>
  C22: the lock counter is eight bits wide, and \<open>prvUnlockQueue\<close> reads it as a signed number. After
  \<open>n\<close> items that interrupts put, all of them accepted, into an empty queue locked by a receiver
  that has just gone on the event list, unlocking wakes the receiver exactly when \<open>n\<close> is between
  1 and 127: after 128 to 255 of them it goes on sleeping, although the queue is not empty.
\<close>

theorem lock_counter_limit:
  assumes "queues s a = Some q" and "wf_queue q" and "pxQueueSetContainer q = None"
    and "cTxLock q = queueLOCKED_UNMODIFIED" and "uxMessagesWaiting q = 0" and "xTasksWaitingToReceive q = [t]"
    and "length xs \<le> queue_capacity a s" and "length xs \<le> 255" and "\<forall>x \<in> set xs. fits_queue a s x"
  shows "\<exists>s1 s2 q2. isr_sends a xs s = Inr s1 \<and> unlock_tx a s1 = Inr s2 \<and> queues s2 a = Some q2 \<and>
    unat (uxMessagesWaiting q2) = length xs \<and> cTxLock q2 = queueUNLOCKED \<and>
    xTasksWaitingToReceive q2 = (if xs \<noteq> [] \<and> length xs \<le> 127 then [] else [t])"
proof -
  have c: "cTxLock q = of_nat (unat (uxMessagesWaiting q))" using assms(4,5) by (simp add: queueLOCKED_UNMODIFIED_def)
  have l: "unat (uxMessagesWaiting q) + length xs \<le> unat (uxLength q)"
    and f: "\<forall>x \<in> set xs. length x = unat (uxItemSize q)"
    using assms(1,5,7,9) by (simp_all add: queue_capacity_def fits_queue_def)
  obtain s1 q1 where s1: "isr_sends a xs s = Inr s1" "queues s1 a = Some q1" "pxQueueSetContainer q1 = None"
    "unat (uxMessagesWaiting q1) = length xs" "cTxLock q1 = of_nat (unat (uxMessagesWaiting q1))"
    "xTasksWaitingToReceive q1 = [t]"
    using isr_sends_locked [OF assms(1-3) c l _ f] assms(5,6,8) unfolding assms(5,6) unsigned_0 add_0 by blast
  note lock = s1(5) [unfolded s1(4)]
  obtain s2 where s2: "unlock_tx a s1 = Inr s2" using unlock_tx_ends [OF s1(2,3)] by blast
  obtain q2 where q2: "queues s2 a = Some q2" "same_ring q1 q2" "cTxLock q2 = queueUNLOCKED"
    "xTasksWaitingToReceive q2 = (if 0 < sint (cTxLock q1) then [] else xTasksWaitingToReceive q1)"
    using unlock_tx_view [OF s1(2,3) _ s2] s1(6) by auto
  have "0 < sint (cTxLock q1) \<longleftrightarrow> xs \<noteq> [] \<and> length xs \<le> 127"
  proof (cases "length xs \<le> 127")
    case True
    then show ?thesis using sint_small [OF True] lock by auto
  next
    case False
    then have "sint (cTxLock q1) = int (length xs) - 256"
      using assms(8) lock sint_big [of "length xs"] by simp
    then show ?thesis using False assms(8) by simp
  qed
  then show ?thesis using s1(1,4,6) s2 q2 same_ring_facts [OF q2(2)] by simp
qed

section \<open>A run\<close>

text \<open>
  Two ready tasks and an empty queue for two items of one byte. The receiver goes to sleep; an
  interrupt puts an item while the receiver is already on the event list, with the queue locked.
\<close>

abbreviation waiter :: tcb where "waiter \<equiv> \<lparr>tcb_id = 3, uxPriority = 2\<rparr>"

abbreviation idler :: tcb where "idler \<equiv> \<lparr>tcb_id = 0, uxPriority = 0\<rparr>"

definition sample_receiver :: receiver where
  "sample_receiver = \<lparr>sys = \<lparr>queues = [7 \<mapsto> \<lparr>qstore = [0, 0], pcWriteTo = 0, pcTail = 2, pcReadFrom = 1,
      xTasksWaitingToSend = [], xTasksWaitingToReceive = [], uxMessagesWaiting = 0, uxLength = 2, uxItemSize = 1,
      cRxLock = queueUNLOCKED, cTxLock = queueUNLOCKED, pxQueueSetContainer = None, ucQueueType = 0\<rparr>],
      kern = sample_kernel\<lparr>uxTopReadyPriority := 5,
        pxReadyTasksLists := (pxReadyTasksLists sample_kernel)(0 := \<lparr>entries = [idler], pxIndex = 1\<rparr>)\<rparr>\<rparr>,
    pc = Try, xEntryTimeSet = False, xTimeOut = \<lparr>xOverflowCount = 0, xTimeOnEntering = 0\<rparr>, xTicksToWait = 9\<rparr>"

datatype move = Own | Isr_send "u8 list" | Clock | Suspend tcb

fun run_moves :: "handle \<Rightarrow> tcb set \<Rightarrow> tcb \<Rightarrow> move list \<Rightarrow> receiver \<Rightarrow> receiver option" where
  "run_moves a S t [] r = Some r"
| "run_moves a S t (Own # ms) r =
    (if pxCurrentTCB (kern (sys r)) = t then
       (case receive_step a r of Inr r' \<Rightarrow> run_moves a S t ms r' | Inl _ \<Rightarrow> None) else None)"
| "run_moves a S t (Isr_send x # ms) r =
    (if fits_queue a (sys r) x then
       (case xQueueGenericSendFromISR (Some a) (Some x) queueSEND_TO_BACK False (sys r) of
          Inr (ok, w, s) \<Rightarrow> run_moves a S t ms (r\<lparr>sys := s\<rparr>) | Inl _ \<Rightarrow> None) else None)"
| "run_moves a S t (Clock # ms) r =
    (case rtos_tick (sys r) of Inr s \<Rightarrow> run_moves a S t ms (r\<lparr>sys := s\<rparr>) | Inl _ \<Rightarrow> None)"
| "run_moves a S t (Suspend u # ms) r =
    (let k = kern (sys r) in
     if uxSchedulerSuspended k = 0 \<and> pxCurrentTCB k \<noteq> t \<and> u \<in> S \<and> u \<noteq> pxCurrentTCB k \<and>
       u \<in> snd ` set (pxDelayedTaskList k) then
       (case suspend_task (Some u) (sys r) of Inr s \<Rightarrow> run_moves a S t ms (r\<lparr>sys := s\<rparr>) | Inl _ \<Rightarrow> None)
     else None)"

lemma delayed_item: "u \<in> snd ` set (pxDelayedTaskList k) \<Longrightarrow> u \<in># state_items k"
  unfolding items_parts by auto

lemma run_moves_reaches: "run_moves a S t ms r1 = Some r2 \<Longrightarrow> reaches a S t r r1 \<Longrightarrow> reaches a S t r r2"
proof (induction a S t ms r1 rule: run_moves.induct)
  case (2 a S t ms r1)
  then show ?case by (auto intro: there own split: if_splits sum.splits)
next
  case (3 a S t x ms r1)
  then show ?case by (fastforce intro: there interrupt_send split: if_splits sum.splits prod.splits)
next
  case (4 a S t ms r1)
  then show ?case by (auto intro: there tick split: sum.splits)
next
  case (5 a S t u ms r1)
  obtain s where s: "uxSchedulerSuspended (kern (sys r1)) = 0" "pxCurrentTCB (kern (sys r1)) \<noteq> t" "u \<in> S"
    "u \<noteq> pxCurrentTCB (kern (sys r1))" "u \<in> snd ` set (pxDelayedTaskList (kern (sys r1)))"
    "suspend_task (Some u) (sys r1) = Inr s" "run_moves a S t ms (r1\<lparr>sys := s\<rparr>) = Some r2"
    using 5(2) by (auto simp: Let_def split: if_splits sum.splits)
  have "step a S t r1 (r1\<lparr>sys := s\<rparr>)" by (rule task_suspend [OF s(1-4) delayed_item [OF s(5)] s(6)])
  then have "reaches a S t r (r1\<lparr>sys := s\<rparr>)" by (rule there [OF 5(3)])
  from 5(1) [OF refl _ s(6) s(7) this] s(1-5) show ?case by simp
qed simp

lemma sample_run:
  "case run_moves 7 {} waiter [Own, Own, Own, Own, Own, Clock, Own, Isr_send [6], Own, Own, Own] sample_receiver of
     None \<Rightarrow> False | Some r \<Rightarrow> pc r = Asleep \<and> queue_items 7 (sys r) = [[6]]"
  by code_simp

text \<open>The receiver goes to sleep, the other task suspends it, and then an item comes.\<close>

lemma sample_suspended_run:
  "case run_moves 7 {waiter} waiter [Own, Own, Own, Own, Own, Own, Own, Own, Own, Suspend waiter, Isr_send [6]]
      sample_receiver of None \<Rightarrow> False
    | Some r \<Rightarrow> pc r = Asleep \<and> queue_items 7 (sys r) = [[6]] \<and>
        waiter \<notin> set (entries (pxReadyTasksLists (kern (sys r)) (uxPriority waiter)))"
  by code_simp

lemma bit_5: "p < 32 \<Longrightarrow> bit (5 :: u32) p \<longleftrightarrow> p = 0 \<or> p = 2"
proof -
  assume "p < 32"
  then have "p \<in> set [0..<32]" unfolding set_upt atLeastLessThan_iff by simp
  moreover have "\<forall>p \<in> set [0..<32]. bit (5 :: u32) p = (p = 0 \<or> p = 2)" by code_simp
  ultimately show ?thesis by (rule bspec [rotated])
qed

lemma sample_receiver_kernel: "kernel_ok (kern (sys sample_receiver))"
proof -
  let ?k = "kern (sys sample_receiver)"
  have top: "uxTopReadyPriority ?k = 5" by (simp add: sample_receiver_def)
  have l: "pxReadyTasksLists ?k p = (if p = 2 then \<lparr>entries = [waiter], pxIndex = 1\<rparr>
      else if p = 0 then \<lparr>entries = [idler], pxIndex = 1\<rparr> else \<lparr>entries = [], pxIndex = 0\<rparr>)" for p
    by (simp add: sample_receiver_def sample_kernel_def vListInitialise_def)
  have "ready_ok ?k" unfolding ready_ok_def top l using bit_5 by (auto simp: index_ok_def configMAX_PRIORITIES_def)
  moreover have "state_items ?k = {#idler, waiter#}"
    unfolding state_items_def l by (simp add: configMAX_PRIORITIES_def sum_less_8 sample_receiver_def sample_kernel_def)
  then have "once (state_items ?k)" by (auto simp: once_def configMAX_PRIORITIES_def)
  moreover have "timing_ok ?k" by (simp add: timing_ok_def sample_receiver_def sample_kernel_def)
  ultimately show ?thesis by (simp add: kernel_ok_def)
qed

lemma sample_starts: "starts 7 waiter sample_receiver" "queue_capacity 7 (sys sample_receiver) \<le> 127"
proof -
  have "good_queue 7 (sys sample_receiver)"
    by (auto simp: good_queue_def sample_receiver_def wf_queue_def ring_def)
  moreover have "is_ready (kern (sys sample_receiver)) waiter" "is_ready (kern (sys sample_receiver)) idler"
    by (simp_all add: is_ready_def sample_receiver_def sample_kernel_def)
  moreover have "idler \<noteq> waiter" by simp
  ultimately show "starts 7 waiter sample_receiver"
    using sample_receiver_kernel unfolding starts_def Let_def
    by (intro conjI exI [of _ idler]) (simp_all add: sample_receiver_def sample_kernel_def)
  show "queue_capacity 7 (sys sample_receiver) \<le> 127" by (simp add: queue_capacity_def sample_receiver_def)
qed

theorem no_lost_wakeup_witness:
  "(\<exists>r. reaches 7 {} waiter sample_receiver r \<and> pc r = Asleep \<and> queue_items 7 (sys r) = [[6]] \<and>
    is_ready (kern (sys r)) waiter) \<and>
   (\<exists>r k. reaches 7 {waiter} waiter sample_receiver r \<and> pc r = Asleep \<and> queue_items 7 (sys r) = [[6]] \<and>
    \<not> is_ready (kern (sys r)) waiter \<and>
    vTaskResume (Some waiter) (waiter \<in> set (xTasksWaitingToReceive (the (queues (sys r) 7)))) (kern (sys r)) = Inr k \<and>
    is_ready k waiter)"
proof -
  obtain r where run: "run_moves 7 {} waiter [Own, Own, Own, Own, Own, Clock, Own, Isr_send [6], Own, Own, Own]
      sample_receiver = Some r" and r: "pc r = Asleep" "queue_items 7 (sys r) = [[6]]"
    using sample_run by (auto simp del: run_moves.simps split: option.splits)
  have reach: "reaches 7 {} waiter sample_receiver r" by (rule run_moves_reaches [OF run here])
  obtain r' where run': "run_moves 7 {waiter} waiter
      [Own, Own, Own, Own, Own, Own, Own, Own, Own, Suspend waiter, Isr_send [6]] sample_receiver = Some r'"
    and r': "pc r' = Asleep" "queue_items 7 (sys r') = [[6]]" "\<not> is_ready (kern (sys r')) waiter"
    using sample_suspended_run unfolding is_ready_def by (auto simp del: run_moves.simps split: option.splits)
  have reach': "reaches 7 {waiter} waiter sample_receiver r'" by (rule run_moves_reaches [OF run' here])
  show ?thesis
    using no_lost_wakeup [OF sample_starts reach] no_lost_wakeup [OF sample_starts reach'] reach reach' r r' by auto
qed

definition sample_locked :: rtos where
  "sample_locked = (sys sample_receiver)\<lparr>queues := [7 \<mapsto> \<lparr>qstore = replicate 200 0, pcWriteTo = 0, pcTail = 200,
     pcReadFrom = 199, xTasksWaitingToSend = [], xTasksWaitingToReceive = [waiter], uxMessagesWaiting = 0,
     uxLength = 200, uxItemSize = 1, cRxLock = queueUNLOCKED, cTxLock = queueLOCKED_UNMODIFIED,
     pxQueueSetContainer = None, ucQueueType = 0\<rparr>]\<rparr>"

theorem lock_counter_limit_witness:
  "\<exists>s1 s2 q2. isr_sends 7 (replicate 200 [1]) sample_locked = Inr s1 \<and> unlock_tx 7 s1 = Inr s2 \<and>
    queues s2 7 = Some q2 \<and> unat (uxMessagesWaiting q2) = 200 \<and> xTasksWaitingToReceive q2 = [waiter]"
proof -
  have w: "wf_queue (the (queues sample_locked 7))"
    by (auto simp: sample_locked_def wf_queue_def ring_def)
  then show ?thesis
    using lock_counter_limit [where s = sample_locked and a = 7 and xs = "replicate 200 [1]" and t = waiter,
        OF _ w]
    by (auto simp: sample_locked_def queue_capacity_def fits_queue_def)
qed

end
