(* ===== verification/FreeRTOS_Step.thy ===== *)
theory FreeRTOS_Step
  imports FreeRTOS_Fifo FreeRTOS_Sched
begin

text \<open>
  What an operation on one queue does to the rest of the system: it changes that queue and wakes at
  most one of the tasks that wait at it, so the other queues stay as they are and the scheduler
  keeps its invariant.
\<close>

section \<open>The kernel under the queue operations\<close>

definition waiting_tasks :: "queue \<Rightarrow> tcb set" where
  "waiting_tasks q = set (xTasksWaitingToSend q) \<union> set (xTasksWaitingToReceive q)"

definition rt_ok :: "rtos \<Rightarrow> bool" where
  "rt_ok s \<longleftrightarrow> kernel_ok (kern s) \<and>
    (\<forall>h q. queues s h = Some q \<longrightarrow> waiting_tasks q \<subseteq> set_mset (state_items (kern s)))"

text \<open>A queue operation on \<open>h\<close> changes that queue and wakes at most the first of its waiting tasks.\<close>

definition wakes :: "tcb list \<Rightarrow> tcb list \<Rightarrow> kernel \<Rightarrow> kernel \<Rightarrow> bool" where
  "wakes ws ws' k k' \<longleftrightarrow> ws' = ws \<and> k' = k \<or> ws \<noteq> [] \<and> ws' = tl ws \<and>
    (\<exists>h k1. xTaskRemoveFromEventList ws k = Inr (h, ws', k1) \<and> k' \<in> {k1, yield_within_api k1})"

definition queue_step :: "handle \<Rightarrow> rtos \<Rightarrow> rtos \<Rightarrow> bool" where
  "queue_step h s s' \<longleftrightarrow> s' = s \<or> (\<exists>q q'. queues s h = Some q \<and> queues s' = (queues s)(h \<mapsto> q') \<and>
    (xTasksWaitingToSend q' = xTasksWaitingToSend q \<and>
       wakes (xTasksWaitingToReceive q) (xTasksWaitingToReceive q') (kern s) (kern s') \<or>
     xTasksWaitingToReceive q' = xTasksWaitingToReceive q \<and>
       wakes (xTasksWaitingToSend q) (xTasksWaitingToSend q') (kern s) (kern s')))"

lemma event_tail: "xTaskRemoveFromEventList ws k = Inr (h, ws', k') \<Longrightarrow> ws \<noteq> [] \<and> ws' = tl ws"
  by (cases "(ws, k)" rule: xTaskRemoveFromEventList.cases) (auto simp: Let_def split: if_splits)

lemma wake_receiver_wakes:
  "wake_receiver q k = Inr (h, q', k1) \<Longrightarrow> k' = (if h then yield_within_api k1 else k1) \<or> k' = k1 \<Longrightarrow>
    xTasksWaitingToSend q' = xTasksWaitingToSend q \<and>
    wakes (xTasksWaitingToReceive q) (xTasksWaitingToReceive q') k k'"
  by (auto simp: wake_receiver_def wakes_def dest: event_tail split: if_splits)

lemma wake_sender_wakes:
  "wake_sender q k = Inr (h, q', k1) \<Longrightarrow> k' = (if h then yield_within_api k1 else k1) \<or> k' = k1 \<Longrightarrow>
    xTasksWaitingToReceive q' = xTasksWaitingToReceive q \<and>
    wakes (xTasksWaitingToSend q) (xTasksWaitingToSend q') k k'"
  by (auto simp: wake_sender_def wakes_def dest: event_tail split: if_splits)

lemma copy_waits:
  "prvCopyDataToQueue q x pos = Inr q' \<Longrightarrow>
    xTasksWaitingToSend q' = xTasksWaitingToSend q \<and> xTasksWaitingToReceive q' = xTasksWaitingToReceive q"
  by (auto simp: prvCopyDataToQueue_def store_write_def Let_def split: if_splits)

lemma copy_from_waits:
  "prvCopyDataFromQueue q = Inr (x, q') \<Longrightarrow>
    xTasksWaitingToSend q' = xTasksWaitingToSend q \<and> xTasksWaitingToReceive q' = xTasksWaitingToReceive q"
  by (auto simp: prvCopyDataFromQueue_def Let_def split: if_splits)

lemma copy_container: "prvCopyDataToQueue q x pos = Inr q' \<Longrightarrow> pxQueueSetContainer q' = pxQueueSetContainer q"
  by (auto simp: prvCopyDataToQueue_def store_write_def Let_def split: if_splits)

lemma send_queue_step:
  assumes "good_queue h s" and "xQueueGenericSend0 (Some h) (Some x) queueSEND_TO_BACK s = Inr (ok, s')"
  shows "queue_step h s s'"
proof -
  obtain q where q: "queues s h = Some q" "pxQueueSetContainer q = None" using assms(1) by (auto simp: good_queue_def)
  show ?thesis
  proof (cases "uxMessagesWaiting q < uxLength q")
    case True
    then obtain q1 hg q2 k where w: "prvCopyDataToQueue q x queueSEND_TO_BACK = Inr q1" "wake_receiver q1 (kern s) = Inr (hg, q2, k)"
      "s' = (set_queue h q2 (set_queue h q1 s))\<lparr>kern := if hg then yield_within_api k else k\<rparr>"
      using assms(2) q copy_container
      by (fastforce simp: xQueueGenericSend0_def send_critical_def get_queue_def Let_def split: if_splits)
    then have "queues s' = (queues s)(h \<mapsto> q2)" by simp
    then show ?thesis using q(1) w(3) copy_waits [OF w(1)] wake_receiver_wakes [OF w(2), of "kern s'"]
      by (auto simp: queue_step_def)
  next
    case False
    then show ?thesis using assms(2) q
      by (auto simp: xQueueGenericSend0_def send_critical_def get_queue_def queue_step_def split: if_splits)
  qed
qed

lemma send_isr_queue_step:
  assumes "good_queue h s" and "xQueueGenericSendFromISR (Some h) (Some x) queueSEND_TO_BACK w s = Inr (ok, w', s')"
  shows "queue_step h s s'"
proof -
  obtain q where q: "queues s h = Some q" "pxQueueSetContainer q = None" using assms(1) by (auto simp: good_queue_def)
  show ?thesis
  proof (cases "uxMessagesWaiting q < uxLength q")
    case True
    then obtain q1 where q1: "prvCopyDataToQueue q x queueSEND_TO_BACK = Inr q1"
      using assms(2) q by (auto simp: xQueueGenericSendFromISR_def get_queue_def Let_def split: if_splits)
    note c = copy_container [OF q1] copy_waits [OF q1]
    show ?thesis
    proof (cases "cTxLock q = queueUNLOCKED")
      case unl: True
      then obtain hg q2 k where w: "wake_receiver q1 (kern s) = Inr (hg, q2, k)" "s' = (set_queue h q2 s)\<lparr>kern := k\<rparr>"
        using assms(2) q q1 c True
        by (fastforce simp: xQueueGenericSendFromISR_def get_queue_def Let_def split: if_splits)
      then show ?thesis using q(1) c wake_receiver_wakes [OF w(1), of "kern s'"] by (auto simp: queue_step_def)
    next
      case False
      then have "s' = set_queue h (q1\<lparr>cTxLock := cTxLock q + 1\<rparr>) s"
        using assms(2) q q1 c True
        by (auto simp: xQueueGenericSendFromISR_def get_queue_def Let_def split: if_splits)
      then show ?thesis using q(1) c by (auto simp: queue_step_def wakes_def)
    qed
  next
    case False
    then show ?thesis using assms(2) q
      by (auto simp: xQueueGenericSendFromISR_def get_queue_def queue_step_def split: if_splits)
  qed
qed

lemma receive_queue_step:
  assumes "xQueueReceive0 (Some h) True s = Inr (item, s')"
  shows "queue_step h s s'"
proof -
  obtain q where q: "queues s h = Some q"
    using assms by (auto simp: xQueueReceive0_def get_queue_def split: option.splits)
  show ?thesis
  proof (cases "0 < uxMessagesWaiting q")
    case True
    then obtain x q1 hg q2 k where w: "prvCopyDataFromQueue q = Inr (x, q1)"
      "wake_sender (q1\<lparr>uxMessagesWaiting := uxMessagesWaiting q - 1\<rparr>) (kern s) = Inr (hg, q2, k)"
      "s' = (set_queue h q2 s)\<lparr>kern := if hg then yield_within_api k else k\<rparr>"
      using assms q by (auto simp: xQueueReceive0_def receive_critical_def get_queue_def Let_def)
    then show ?thesis using q copy_from_waits [OF w(1)] wake_sender_wakes [OF w(2), of "kern s'"]
      by (auto simp: queue_step_def)
  next
    case False
    then show ?thesis using assms q by (simp add: xQueueReceive0_def receive_critical_def get_queue_def queue_step_def)
  qed
qed

lemma wakes_keeps:
  assumes "wakes ws ws' k k'" and "kernel_ok k" and "set ws \<subseteq> set_mset (state_items k)"
  shows "keeps_kernel k k'" and "set ws' \<subseteq> set ws"
proof -
  have "keeps_kernel k k' \<and> set ws' \<subseteq> set ws"
  proof (cases "ws' = ws \<and> k' = k")
    case True
    then show ?thesis using assms(2) by (simp add: keeps_kernel_def)
  next
    case False
    then obtain h k1 where k1: "ws \<noteq> []" "ws' = tl ws" "xTaskRemoveFromEventList ws k = Inr (h, ws', k1)"
      "k' \<in> {k1, yield_within_api k1}"
      using assms(1) by (auto simp: wakes_def)
    have "hd ws \<in># state_items k" using k1(1) assms(3) hd_in_set by blast
    then have keep: "keeps_kernel k k1" using event_removal_keeps [OF assms(2) k1(1)] k1(3) by auto
    then have "keeps_kernel k (yield_within_api k1)"
      using keeps_trans [OF keep keeps_flags(5)] by (simp add: keeps_kernel_def)
    then show ?thesis using keep k1 by (cases ws) auto
  qed
  then show "keeps_kernel k k'" "set ws' \<subseteq> set ws" by blast+
qed

lemma queue_step_ok:
  assumes "queue_step h s s'" and "rt_ok s"
  shows "rt_ok s'"
proof (cases "s' = s")
  case False
  then obtain q q' where q: "queues s h = Some q" "queues s' = (queues s)(h \<mapsto> q')"
    "xTasksWaitingToSend q' = xTasksWaitingToSend q \<and>
       wakes (xTasksWaitingToReceive q) (xTasksWaitingToReceive q') (kern s) (kern s') \<or>
     xTasksWaitingToReceive q' = xTasksWaitingToReceive q \<and>
       wakes (xTasksWaitingToSend q) (xTasksWaitingToSend q') (kern s) (kern s')"
    using assms(1) by (auto simp: queue_step_def)
  have k: "kernel_ok (kern s)" "waiting_tasks q \<subseteq> set_mset (state_items (kern s))"
    using assms(2) q(1) by (auto simp: rt_ok_def)
  then have "keeps_kernel (kern s) (kern s') \<and> waiting_tasks q' \<subseteq> waiting_tasks q"
    using q(3) wakes_keeps [OF _ k(1)] unfolding waiting_tasks_def by (metis (no_types, lifting) Un_mono le_sup_iff order_refl)
  then show ?thesis using assms(2) q(2) k(2) unfolding rt_ok_def keeps_kernel_def by auto
qed (use assms(2) in simp)

lemma queue_step_others: "queue_step h s s' \<Longrightarrow> b \<noteq> h \<Longrightarrow> queues s' b = queues s b"
  by (auto simp: queue_step_def)

end
