(* ===== verification/Pbuf_Channel.thy ===== *)
theory Pbuf_Channel
  imports Pbuf_Refcount FreeRTOS_Step
begin

text \<open>
  Packet buffers handed from one task to another through FreeRTOS queues: an item of such a queue
  is the four bytes of a pointer. Whoever posts a pointer gives it up; when the queue does not
  take it, the sender releases the buffer. That discipline is the locale \<open>counted_channel\<close>.
\<close>

section \<open>Pointers as items\<close>

definition pointer_bytes :: "addr option \<Rightarrow> u8 list" where
  "pointer_bytes p = rev (bytes32 (case p of None \<Rightarrow> 0 | Some a \<Rightarrow> of_nat a))"

definition bytes_pointer :: "u8 list \<Rightarrow> addr option" where
  "bytes_pointer bs = (case bs of
     [d, c, b, a] \<Rightarrow> (let w = be32 a b c d in if w = 0 then None else Some (unat w))
   | _ \<Rightarrow> None)"

definition valid_addr :: "addr \<Rightarrow> bool" where
  "valid_addr a \<longleftrightarrow> 0 < a \<and> a < 4294967296"

lemma bytes_pointer_bytes: "valid_addr a \<Longrightarrow> bytes_pointer (pointer_bytes (Some a)) = Some a"
proof -
  assume a: "valid_addr a"
  then have u: "unat (of_nat a :: u32) = a" by (simp add: valid_addr_def unat_of_nat_u32)
  then have "(of_nat a :: u32) \<noteq> 0" using a by (auto simp: valid_addr_def)
  then show ?thesis using u by (simp add: bytes_pointer_def pointer_bytes_def bytes32_def be32_bytes32)
qed

lemma length_pointer_bytes [simp]: "length (pointer_bytes p) = 4"
  by (simp add: pointer_bytes_def)

section \<open>The queue operations\<close>

text \<open>The addresses in a queue, and \<open>xQueueSend\<close>, \<open>xQueueSendFromISR\<close> and \<open>xQueueReceive\<close> of one.\<close>

definition queued :: "handle \<Rightarrow> rtos \<Rightarrow> addr list" where
  "queued h s = List.map_filter bytes_pointer (queue_items h s)"

definition send_pointer :: "handle option \<Rightarrow> addr option \<Rightarrow> rtos \<Rightarrow> (bool \<times> rtos) result" where
  "send_pointer h p s = xQueueGenericSend0 h (Some (pointer_bytes p)) queueSEND_TO_BACK s"

definition send_pointer_isr :: "handle option \<Rightarrow> addr option \<Rightarrow> bool \<Rightarrow> rtos \<Rightarrow> (bool \<times> bool \<times> rtos) result" where
  "send_pointer_isr h p woken s = xQueueGenericSendFromISR h (Some (pointer_bytes p)) queueSEND_TO_BACK woken s"

definition receive_pointer :: "handle option \<Rightarrow> rtos \<Rightarrow> (addr option option \<times> rtos) result" where
  "receive_pointer h s =
    bindr (xQueueReceive0 h True s) (\<lambda>(item, s). Inr (map_option bytes_pointer item, s))"

definition good_channel :: "handle \<Rightarrow> rtos \<Rightarrow> bool" where
  "good_channel h s \<longleftrightarrow> good_queue h s \<and> uxItemSize (the (queues s h)) = 4"

lemma channel_fits: "good_channel h s \<Longrightarrow> fits_queue h s (pointer_bytes p)"
  by (simp add: good_channel_def fits_queue_def)

lemma fits_same_size: "good_queue h s' \<Longrightarrow> fits_queue h s' = fits_queue h s \<Longrightarrow> good_channel h s \<Longrightarrow> good_channel h s'"
proof -
  assume g: "good_queue h s'" and f: "fits_queue h s' = fits_queue h s" and c: "good_channel h s"
  have "fits_queue h s' (replicate 4 0)" unfolding f using c by (simp add: good_channel_def fits_queue_def)
  then have "unat (uxItemSize (the (queues s' h))) = 4" by (simp add: fits_queue_def)
  then have "uxItemSize (the (queues s' h)) = 4" by (simp add: word_unat_eq_iff)
  then show ?thesis using g by (simp add: good_channel_def)
qed

lemma queued_post:
  "valid_addr a \<Longrightarrow> queue_items h s' = queue_items h s @ [pointer_bytes (Some a)] \<Longrightarrow> queued h s' = queued h s @ [a]"
  by (simp add: queued_def map_filter_def bytes_pointer_bytes)

lemma channel_cong: "queues s' b = queues s b \<Longrightarrow> good_channel b s' = good_channel b s \<and> queued b s' = queued b s"
  by (simp add: good_channel_def good_queue_def queued_def queue_items_def)

section \<open>The contract\<close>

locale pbuf_channel =
  fixes good :: "'q \<Rightarrow> bool" and content :: "'q \<Rightarrow> addr list" and valid :: "addr \<Rightarrow> bool"
    and frame :: "'q \<Rightarrow> 'q \<Rightarrow> bool" and post :: "addr \<Rightarrow> 'q \<Rightarrow> (bool \<times> 'q) result"
  assumes post_ends: "good s \<Longrightarrow> valid a \<Longrightarrow>
    \<exists>ok s'. post a s = Inr (ok, s') \<and> good s' \<and> frame s s' \<and>
      content s' = (if ok then content s @ [a] else content s)"

text \<open>Post the pointer, or release the buffer.\<close>

definition post_or_free ::
    "(addr \<Rightarrow> 'q \<Rightarrow> (bool \<times> 'q) result) \<Rightarrow> (addr \<Rightarrow> 'm \<Rightarrow> 'm run) \<Rightarrow> addr \<Rightarrow> 'q \<Rightarrow> 'm \<Rightarrow> ('q \<times> 'm) run" where
  "post_or_free post free a s m =
    bindl (Some (post a s)) (\<lambda>(ok, s). if ok then ret (s, m) else bindl (free a m) (\<lambda>m. ret (s, m)))"

locale counted_channel = counted_pool + pbuf_channel
begin

lemma hand_over:
  assumes "good s" and "valid a" and "inv m (add_mset a (mset (content s) + M))"
  shows "runs (post_or_free post free a s m) (\<lambda>(s', m'). good s' \<and> frame s s' \<and> inv m' (mset (content s') + M))"
proof -
  obtain ok s' where p: "post a s = Inr (ok, s')" "good s'" "frame s s'"
    "content s' = (if ok then content s @ [a] else content s)"
    using post_ends [OF assms(1,2)] by blast
  show ?thesis
  proof (cases ok)
    case True
    then show ?thesis using p assms(3) by (simp add: post_or_free_def)
  next
    case False
    have "runs (free a m) (\<lambda>m'. inv m' (mset (content s') + M))"
      using free_keeps [OF assms(3)] p(4) False by simp
    then show ?thesis using p False by (auto simp: post_or_free_def runs_def)
  qed
qed

end

definition post_pointer :: "handle \<Rightarrow> addr \<Rightarrow> rtos \<Rightarrow> (bool \<times> rtos) result" where
  "post_pointer h a s = send_pointer (Some h) (Some a) s"

definition post_pointer_isr :: "handle \<Rightarrow> addr \<Rightarrow> bool \<times> rtos \<Rightarrow> (bool \<times> bool \<times> rtos) result" where
  "post_pointer_isr h a = (\<lambda>(woken, s). send_pointer_isr (Some h) (Some a) woken s)"

lemma task_post_ends:
  assumes "good_channel h s" and "valid_addr a"
  shows "\<exists>ok s'. post_pointer h a s = Inr (ok, s') \<and> good_channel h s' \<and> queue_step h s s' \<and>
    queued h s' = (if ok then queued h s @ [a] else queued h s)"
proof -
  have g: "good_queue h s" using assms(1) by (simp add: good_channel_def)
  note f = channel_fits [OF assms(1), of "Some a"] and step = send_queue_step [OF g, of "pointer_bytes (Some a)"]
  show ?thesis
  proof (cases "length (queue_items h s) < queue_capacity h s")
    case True
    then obtain s' where "post_task h (pointer_bytes (Some a)) s = Inr (True, s')" "good_queue h s'"
      "queue_items h s' = queue_items h s @ [pointer_bytes (Some a)]" "fits_queue h s' = fits_queue h s"
      using task_fifo.post_room [OF g f] by blast
    then show ?thesis using fits_same_size [of h s' s] queued_post [OF assms(2), of h s' s] assms(1) step [of True s']
      by (intro exI [of _ True] exI [of _ s']) (simp add: post_pointer_def send_pointer_def post_task_def)
  next
    case False
    then show ?thesis using task_fifo.post_full [OF g f] assms(1) step [of False s]
      by (intro exI [of _ False] exI [of _ s]) (simp add: post_pointer_def send_pointer_def post_task_def)
  qed
qed

text \<open>The flag of the caller is only ever set.\<close>

lemma send_isr_woken:
  "xQueueGenericSendFromISR h x pos w s =
    bindr (xQueueGenericSendFromISR h x pos False s) (\<lambda>(ok, w', s). Inr (ok, w \<or> w', s))"
  by (simp add: xQueueGenericSendFromISR_def Let_def bindr_assoc case_prod_unfold if_distrib [of "\<lambda>c. bindr c _"] cong: if_cong)

lemma isr_post_ends:
  assumes "good_channel h s" and "valid_addr a"
  shows "\<exists>ok w' s'. send_pointer_isr (Some h) (Some a) w s = Inr (ok, w', s') \<and> good_channel h s' \<and>
    queue_step h s s' \<and> queued h s' = (if ok then queued h s @ [a] else queued h s)"
proof -
  have g: "good_queue h s" using assms(1) by (simp add: good_channel_def)
  note f = channel_fits [OF assms(1), of "Some a"]
  obtain ok s' where p: "post_isr h (pointer_bytes (Some a)) s = Inr (ok, s')" "good_channel h s'"
    "queued h s' = (if ok then queued h s @ [a] else queued h s)"
  proof (cases "length (queue_items h s) < queue_capacity h s")
    case True
    then obtain s' where "post_isr h (pointer_bytes (Some a)) s = Inr (True, s')" "good_queue h s'"
      "queue_items h s' = queue_items h s @ [pointer_bytes (Some a)]" "fits_queue h s' = fits_queue h s"
      using isr_fifo.post_room [OF g f] by blast
    then show thesis using that [of True s'] fits_same_size [of h s' s] queued_post [OF assms(2), of h s' s] assms(1) by simp
  next
    case False
    then show thesis using that [of False s] isr_fifo.post_full [OF g f] assms(1) by simp
  qed
  obtain w1 where "xQueueGenericSendFromISR (Some h) (Some (pointer_bytes (Some a))) queueSEND_TO_BACK False s =
      Inr (ok, w1, s')" using p(1) by (auto simp: post_isr_def)
  moreover from this have "queue_step h s s'" by (rule send_isr_queue_step [OF g])
  ultimately have "queue_step h s s' \<and> send_pointer_isr (Some h) (Some a) w s = Inr (ok, w \<or> w1, s')"
    by (simp add: send_pointer_isr_def send_isr_woken [of _ _ _ w])
  then show ?thesis using p(2,3) by blast
qed

text \<open>Owned buffers at addresses that fit a pointer.\<close>

definition own :: "pmem \<Rightarrow> addr multiset \<Rightarrow> bool" where
  "own m M \<longleftrightarrow> owned m M \<and> (\<forall>a. cells m a \<noteq> None \<longrightarrow> valid_addr a)"

lemma own_valid: "own m (add_mset a M) \<Longrightarrow> valid_addr a"
  using owned_live [of m "add_mset a M" a] by (auto simp: own_def)

lemma free1_own:
  assumes "own m (add_mset a M)"
  shows "runs (free1 a m) (\<lambda>m'. own m' M \<and> only_released m m')"
proof -
  have o: "owned m (add_mset a M)" using assms by (simp add: own_def)
  have "own m' M \<and> only_released m m'" if "owned m' M" "only_released m m'" for m'
    using that assms only_released_dom [of m m'] unfolding own_def by blast
  then show ?thesis
    unfolding free1_def by (intro runs_bindl [OF pbuf_free_runs [OF o]]) (auto simp: freed_def)
qed

interpretation own_pool: counted_pool own "\<lambda>m a. cells m a \<noteq> None" free1
proof unfold_locales
  fix m a M assume o: "own m (add_mset a M)"
  then show "cells m a \<noteq> None" using owned_live [of m "add_mset a M" a] by (auto simp: own_def)
  show "runs (free1 a m) (\<lambda>m'. own m' M)" by (rule runs_mono [OF free1_own [OF o]]) simp
qed

interpretation task_channel: counted_channel own "\<lambda>m a. cells m a \<noteq> None" free1
  "good_channel h" "queued h" valid_addr "queue_step h" "post_pointer h" for h :: handle
  by unfold_locales (rule task_post_ends)

interpretation isr_channel: counted_channel own "\<lambda>m a. cells m a \<noteq> None" free1
  "\<lambda>ws. good_channel h (snd ws)" "\<lambda>ws. queued h (snd ws)" valid_addr "\<lambda>ws ws'. queue_step h (snd ws) (snd ws')"
  "post_pointer_isr h" for h :: handle
proof unfold_locales
  fix ws :: "bool \<times> rtos" and a
  assume g: "good_channel h (snd ws)" and a: "valid_addr a"
  from isr_post_ends [OF g a, of "fst ws"] show "\<exists>ok s'. post_pointer_isr h a ws = Inr (ok, s') \<and>
      good_channel h (snd s') \<and> queue_step h (snd ws) (snd s') \<and>
      queued h (snd s') = (if ok then queued h (snd ws) @ [a] else queued h (snd ws))"
    by (fastforce simp: post_pointer_isr_def case_prod_unfold)
qed

end
