(* ===== verification/Udp_Fusion.thy ===== *)
theory Udp_Fusion
  imports Pbuf_Channel Gain_Revolution
begin

text \<open>
  The path of the video packets through \<open>src/src/main.c\<close> and \<open>iwip.c\<close>: \<open>udp_receive_callback\<close>
  queues a packet; \<open>udp_parse_task\<close> fuses ten packets in a row into the first of them, sample by
  sample, hands the result to the gain control through a second queue and sends it on;
  \<open>udp_auto_gain_control_task\<close> takes it from there. A task step is one round of the task's loop;
  waiting for the queue (\<open>portMAX_DELAY\<close>) is to make no step while it is empty. \<open>udp_send\<close> of lwIP
  is a parameter. The C locals \<open>o_curr_data\<close>, \<open>curr_data\<close> and \<open>iw\<close> are never used.
\<close>

section \<open>State\<close>

text \<open>The handles that \<open>network_init_task\<close> creates.\<close>

record env =
  xPbufQueueudp :: "handle option"
  xPbufQueueforautogaincontrolQueue :: "handle option"
  xPbufQueuetcp :: "handle option"
  xAutoGainControlTask :: "tcb option"

text \<open>
  The memory of the buffers, the kernel with its queues, the locals of the two tasks, the static
  flags \<open>xHigherPriorityTaskWoken\<close> of the two callbacks, and \<open>ulPortYieldRequired\<close>.
\<close>

record radar =
  mem :: pmem
  rt :: rtos
  old_pbuf :: "addr option"
  counter_of_packets :: u8
  gain :: agc
  udp_woken :: bool
  tcp_woken :: bool
  ulPortYieldRequired :: bool

definition free_pointer :: "addr option \<Rightarrow> pmem \<Rightarrow> pmem run" where
  "free_pointer p m = bindl (pbuf_free (\<lambda>_ m. Inr m) p m) (\<lambda>(_, m). ret m)"

definition portYIELD_FROM_ISR :: "bool \<Rightarrow> radar \<Rightarrow> radar" where
  "portYIELD_FROM_ISR woken s = (if woken then s\<lparr>ulPortYieldRequired := True\<rparr> else s)"

section \<open>Receiving a packet\<close>

definition udp_receive_callback :: "env \<Rightarrow> addr option \<Rightarrow> radar \<Rightarrow> radar run" where
  "udp_receive_callback e p s =
    (if p = None then ret s
     else bindl (Some (send_pointer_isr (xPbufQueueudp e) p (udp_woken s) (rt s))) (\<lambda>(ok, woken, k).
       bindl (if ok then ret (mem s) else free_pointer p (mem s)) (\<lambda>m.
       ret (portYIELD_FROM_ISR woken (s\<lparr>mem := m, rt := k, udp_woken := woken\<rparr>)))))"

text \<open>\<open>recv_callback\<close> of the TCP connection, which returns \<open>ERR_BUF\<close> for a null pointer.\<close>

definition recv_callback :: "env \<Rightarrow> addr option \<Rightarrow> radar \<Rightarrow> (bool \<times> radar) run" where
  "recv_callback e p s =
    (if p = None then ret (False, s)
     else bindl (Some (send_pointer_isr (xPbufQueuetcp e) p (tcp_woken s) (rt s))) (\<lambda>(ok, woken, k).
       bindl (if ok then ret (mem s) else free_pointer p (mem s)) (\<lambda>m.
       ret (True, portYIELD_FROM_ISR woken (s\<lparr>mem := m, rt := k, tcp_woken := woken\<rparr>)))))"

section \<open>Fusing a packet into the first one\<close>

text \<open>The comparison of the two samples at byte \<open>j\<close>, most significant byte first.\<close>

definition sample_exceeds :: "pbuf \<Rightarrow> pbuf \<Rightarrow> nat \<Rightarrow> bool result" where
  "sample_exceeds q r j =
    bindr (payload_byte q j) (\<lambda>qh. bindr (payload_byte r j) (\<lambda>rh.
      if rh < qh then Inr True
      else if qh = rh then
        bindr (payload_byte q (j + 1)) (\<lambda>ql. bindr (payload_byte r (j + 1)) (\<lambda>rl. Inr (rl < ql)))
      else Inr False))"

fun fuse_samples :: "pbuf \<Rightarrow> nat \<Rightarrow> nat list \<Rightarrow> pbuf \<Rightarrow> pbuf result" where
  "fuse_samples q kursor [] r = Inr r"
| "fuse_samples q kursor (i # is) r =
    bindr (sample_exceeds q r (kursor + i)) (\<lambda>exceeds.
      if exceeds then
        bindr (payload_byte q (kursor + i)) (\<lambda>h. bindr (payload_write r (kursor + i) [h]) (\<lambda>r.
        bindr (payload_byte q (kursor + i + 1)) (\<lambda>l. bindr (payload_write r (kursor + i + 1) [l]) (\<lambda>r.
          fuse_samples q kursor is r))))
      else fuse_samples q kursor is r)"

text \<open>The new \<open>total_len\<close> and \<open>predel_na_shag\<close>, and the values of \<open>i\<close>.\<close>

definition segment_share :: "u32 \<Rightarrow> u32 \<times> u32" where
  "segment_share total_len =
    (if 1480 < total_len then (total_len - 1480, 1480) else (total_len, total_len mod 1480))"

definition even_offsets :: "u32 \<Rightarrow> nat list" where
  "even_offsets n = map (\<lambda>j. 2 * j) [0..<(unat n + 1) div 2]"

definition fuse_segment :: "pbuf \<Rightarrow> nat \<Rightarrow> u32 \<Rightarrow> addr option \<Rightarrow> pmem \<Rightarrow> pmem result" where
  "fuse_segment b kursor n r m =
    (if n = 0 then Inr m
     else bindr (cell m r) (\<lambda>c. bindr (fuse_samples b kursor (even_offsets n) c) (\<lambda>c. Inr (put (the r) c m))))"

text \<open>\<open>ref = ref->next\<close> reads the block of the first packet even when nothing was fused into it.\<close>

partial_function (option) fusion_loop ::
    "addr option \<Rightarrow> addr option \<Rightarrow> u32 \<Rightarrow> nat \<Rightarrow> pmem \<Rightarrow> pmem run" where
  "fusion_loop q r total_len kursor m =
    (case q of None \<Rightarrow> Some (Inr m) | Some a \<Rightarrow>
      (case cells m a of None \<Rightarrow> Some (Inl Use_after_free) | Some b \<Rightarrow>
        (case fuse_segment b kursor (snd (segment_share total_len)) r m of
           Inl e \<Rightarrow> Some (Inl e)
         | Inr m \<Rightarrow>
             (case cell m r of Inl e \<Rightarrow> Some (Inl e)
              | Inr c \<Rightarrow> fusion_loop (next_pbuf b) (next_pbuf c) (fst (segment_share total_len)) 0 m))))"

section \<open>Handing the result on\<close>

text \<open>The event item of a task is in an event list of one of the queues.\<close>

definition waits_at :: "tcb \<Rightarrow> rtos \<Rightarrow> handle option \<Rightarrow> bool" where
  "waits_at t s h \<longleftrightarrow> (case h of None \<Rightarrow> False | Some a \<Rightarrow>
     (case queues s a of None \<Rightarrow> False
      | Some q \<Rightarrow> t \<in> set (xTasksWaitingToSend q) \<or> t \<in> set (xTasksWaitingToReceive q)))"

definition waits_in :: "handle option list \<Rightarrow> tcb \<Rightarrow> rtos \<Rightarrow> bool" where
  "waits_in hs t s \<longleftrightarrow> (\<exists>h \<in> set hs. waits_at t s h)"

definition gain_task_state :: "env \<Rightarrow> rtos \<Rightarrow> eTaskState result" where
  "gain_task_state e s = (case xAutoGainControlTask e of None \<Rightarrow> Inl Assert_failed
     | Some t \<Rightarrow> Inr (eTaskGetState t
         (waits_in [xPbufQueueudp e, xPbufQueueforautogaincontrolQueue e, xPbufQueuetcp e] t s) (kern s)))"

text \<open>\<open>udp_send\<close> begins by reading the fields of its argument.\<close>

definition transmit :: "(addr \<Rightarrow> pmem \<Rightarrow> pmem run) \<Rightarrow> addr option \<Rightarrow> pmem \<Rightarrow> pmem run" where
  "transmit udp_send p m = bindl (Some (cell m p)) (\<lambda>_. udp_send (the p) m)"

text \<open>
  The two tests of the state of the gain control task, one after the other: tasks of higher
  priority can run between them.
\<close>

definition hand_over_running :: "(addr \<Rightarrow> pmem \<Rightarrow> pmem run) \<Rightarrow> env \<Rightarrow> radar \<Rightarrow> radar run" where
  "hand_over_running udp_send e s =
    bindl (Some (gain_task_state e (rt s))) (\<lambda>state.
    if state \<noteq> eSuspended then
      bindl (Some (send_pointer (xPbufQueueforautogaincontrolQueue e) (old_pbuf s) (rt s))) (\<lambda>(ok, k).
      bindl (if ok then ret (mem s) else free_pointer (old_pbuf s) (mem s)) (\<lambda>m.
      bindl (transmit udp_send (old_pbuf s) m) (\<lambda>m.
      ret (s\<lparr>mem := m, rt := k\<rparr>))))
    else ret s)"

definition hand_over_suspended :: "(addr \<Rightarrow> pmem \<Rightarrow> pmem run) \<Rightarrow> env \<Rightarrow> radar \<Rightarrow> radar run" where
  "hand_over_suspended udp_send e s =
    bindl (Some (gain_task_state e (rt s))) (\<lambda>state.
    if state = eSuspended then
      bindl (transmit udp_send (old_pbuf s) (mem s)) (\<lambda>m.
      bindl (free_pointer (old_pbuf s) m) (\<lambda>m.
      ret (s\<lparr>mem := m\<rparr>)))
    else ret s)"

section \<open>The tasks\<close>

definition nominal_counter_value :: u8 where
  "nominal_counter_value = 10"

definition fuse_packet :: "addr \<Rightarrow> radar \<Rightarrow> radar run" where
  "fuse_packet p s =
    bindl (Some (cell (mem s) (Some p))) (\<lambda>b.
    bindl (fusion_loop (Some p) (old_pbuf s) (ucast (tot_len b)) 32 (mem s)) (\<lambda>m.
    bindl (free_pointer (Some p) m) (\<lambda>m. ret (s\<lparr>mem := m\<rparr>))))"

definition parse_packet :: "(addr \<Rightarrow> pmem \<Rightarrow> pmem run) \<Rightarrow> env \<Rightarrow> addr \<Rightarrow> radar \<Rightarrow> radar run" where
  "parse_packet udp_send e p s =
    bindl
      (if counter_of_packets s = 1 then
         bindl (Some (cell (mem s) (Some p))) (\<lambda>_. ret (s\<lparr>old_pbuf := Some p\<rparr>))
       else
         bindl (fuse_packet p s) (\<lambda>s.
         if nominal_counter_value \<le> counter_of_packets s then
           bindl (hand_over_running udp_send e s) (\<lambda>s.
           bindl (hand_over_suspended udp_send e s) (\<lambda>s.
           ret (s\<lparr>counter_of_packets := 0\<rparr>)))
         else ret s))
      (\<lambda>s. ret (s\<lparr>counter_of_packets := counter_of_packets s + 1\<rparr>))"

definition udp_parse_task :: "(addr \<Rightarrow> pmem \<Rightarrow> pmem run) \<Rightarrow> env \<Rightarrow> radar \<Rightarrow> radar run" where
  "udp_parse_task udp_send e s =
    bindl (Some (receive_pointer (xPbufQueueudp e) (rt s))) (\<lambda>(item, k).
    let s = s\<lparr>rt := k\<rparr> in
    case item of Some (Some p) \<Rightarrow> parse_packet udp_send e p s | _ \<Rightarrow> ret s)"

definition udp_auto_gain_control_task :: "env \<Rightarrow> radar \<Rightarrow> radar run" where
  "udp_auto_gain_control_task e s =
    bindl (Some (receive_pointer (xPbufQueueforautogaincontrolQueue e) (rt s))) (\<lambda>(item, k).
    let s = s\<lparr>rt := k\<rparr> in
    case item of
      Some (Some p) \<Rightarrow>
        bindl (auto_gain_control (mem s) (Some p) (gain s)) (\<lambda>g.
        bindl (free_pointer (Some p) (mem s)) (\<lambda>m. ret (s\<lparr>gain := g, mem := m\<rparr>)))
    | _ \<Rightarrow> ret s)"

end
