(* ===== verification/Ip4_Addr.thy ===== *)
theory Ip4_Addr
  imports Prelude
begin

text \<open>
  The textual form of IPv4 addresses (\<open>core/ipv4/ip4_addr.c\<close> of lwIP). An address is a word in
  network order: on the little-endian target its first octet is the low byte. A C string is the
  list of the bytes from the pointer on; reading past its end is the fault \<open>Out_of_bounds\<close>.
\<close>

unbundle bit_operations_syntax

section \<open>Characters\<close>

definition lwip_isdigit :: "u8 \<Rightarrow> bool" where
  "lwip_isdigit c \<longleftrightarrow> 0x30 \<le> c \<and> c \<le> 0x39"

definition lwip_isxdigit :: "u8 \<Rightarrow> bool" where
  "lwip_isxdigit c \<longleftrightarrow> lwip_isdigit c \<or> 0x61 \<le> c \<and> c \<le> 0x66 \<or> 0x41 \<le> c \<and> c \<le> 0x46"

definition lwip_islower :: "u8 \<Rightarrow> bool" where
  "lwip_islower c \<longleftrightarrow> 0x61 \<le> c \<and> c \<le> 0x7A"

definition lwip_isspace :: "u8 \<Rightarrow> bool" where
  "lwip_isspace c \<longleftrightarrow> c \<in> {0x20, 0x0C, 0x0A, 0x0D, 0x09, 0x0B}"

definition lwip_htonl :: "u32 \<Rightarrow> u32" where
  "lwip_htonl n = push_bit 24 (n AND 0xFF) OR push_bit 8 (n AND 0xFF00) OR
    drop_bit 8 (n AND 0xFF0000) OR drop_bit 24 (n AND 0xFF000000)"

section \<open>From text to address\<close>

text \<open>The digits of one number, in base 8, 10 or 16; octal numbers take the digits 8 and 9 too.\<close>

fun number_digits :: "u8 list \<Rightarrow> u32 \<Rightarrow> u32 \<Rightarrow> (u32 \<times> u8 list) result" where
  "number_digits [] base val = Inl Out_of_bounds"
| "number_digits (c # cs) base val =
    (if lwip_isdigit c then number_digits cs base (val * base + ucast (c - 0x30))
     else if base = 16 \<and> lwip_isxdigit c then
       number_digits cs base (push_bit 4 val OR ucast (c + 10 - (if lwip_islower c then 0x61 else 0x41)))
     else Inr (val, c # cs))"

text \<open>The base of the number that starts here, and where its digits start; \<open>None\<close> if no digit does.\<close>

definition number_base :: "u8 list \<Rightarrow> (u32 \<times> u8 list) option result" where
  "number_base cs =
    bindr (rd cs 0) (\<lambda>c.
    if \<not> lwip_isdigit c then Inr None
    else if c = 0x30 then
      bindr (rd cs 1) (\<lambda>d. Inr (Some (if d = 0x78 \<or> d = 0x58 then (16, drop 2 cs) else (8, drop 1 cs))))
    else Inr (Some (10, cs)))"

text \<open>The loop over the parts; \<open>n\<close> dots are still allowed. The results: the parts before the last
  one, the last one, and the rest of the text.\<close>

fun aton_parts :: "nat \<Rightarrow> u32 list \<Rightarrow> u8 list \<Rightarrow> (u32 list \<times> u32 \<times> u8 list) option result" where
  "aton_parts n parts cs =
    bindr (number_base cs) (\<lambda>b. case b of None \<Rightarrow> Inr None
      | Some (base, ds) \<Rightarrow>
          bindr (number_digits ds base 0) (\<lambda>(val, rest).
          bindr (rd rest 0) (\<lambda>c.
          if c = 0x2E then
            (case n of 0 \<Rightarrow> Inr None | Suc m \<Rightarrow> aton_parts m (parts @ [val]) (drop 1 rest))
          else Inr (Some (parts, val, rest)))))"

declare aton_parts.simps [simp del]

text \<open>The address made of one to four parts; the last part takes all the bits that are left.\<close>

definition concoct :: "u32 list \<Rightarrow> u32 \<Rightarrow> u32 option" where
  "concoct parts val =
    (case parts of
       [] \<Rightarrow> Some val
     | [a] \<Rightarrow> if 0xFFFFFF < val \<or> 0xFF < a then None else Some (val OR push_bit 24 a)
     | [a, b] \<Rightarrow> if 0xFFFF < val \<or> 0xFF < a \<or> 0xFF < b then None
         else Some (val OR (push_bit 24 a OR push_bit 16 b))
     | [a, b, c] \<Rightarrow> if 0xFF < val \<or> 0xFF < a \<or> 0xFF < b \<or> 0xFF < c then None
         else Some (val OR (push_bit 24 a OR push_bit 16 b OR push_bit 8 c))
     | _ \<Rightarrow> Some val)"

definition ip4addr_aton :: "u8 list \<Rightarrow> u32 option result" where
  "ip4addr_aton cp =
    bindr (aton_parts 3 [] cp) (\<lambda>r. case r of None \<Rightarrow> Inr None
      | Some (parts, val, rest) \<Rightarrow>
          bindr (rd rest 0) (\<lambda>c.
          if c \<noteq> 0 \<and> \<not> lwip_isspace c then Inr None
          else Inr (map_option lwip_htonl (concoct parts val))))"

definition IPADDR_NONE :: u32 where "IPADDR_NONE = 0xFFFFFFFF"

definition ipaddr_addr :: "u8 list \<Rightarrow> u32 result" where
  "ipaddr_addr cp = bindr (ip4addr_aton cp) (\<lambda>r. Inr (case r of None \<Rightarrow> IPADDR_NONE | Some a \<Rightarrow> a))"

section \<open>From address to text\<close>

text \<open>The digits of an octet, least significant first (\<open>inv\<close>).\<close>

function octet_digits :: "u8 \<Rightarrow> u8 list" where
  "octet_digits b = (0x30 + b mod 10) # (if b div 10 \<noteq> 0 then octet_digits (b div 10) else [])"
  by pat_completeness auto

termination
proof (relation "measure unat")
  fix b :: u8 assume "b div 10 \<noteq> 0"
  then have "unat (b div 10) \<noteq> 0" by (simp add: unat_eq_zero)
  then have "0 < unat b" by (auto simp: unat_div)
  then show "(b div 10, b) \<in> measure unat" by (simp add: unat_div)
qed simp

declare octet_digits.simps [simp del]

text \<open>Appending characters while \<open>len\<close>, the number of characters so far, is below \<open>buflen\<close>.\<close>

fun append_chars :: "nat \<Rightarrow> u8 list \<Rightarrow> u8 list \<Rightarrow> u8 list option" where
  "append_chars buflen [] buf = Some buf"
| "append_chars buflen (c # cs) buf =
    (if buflen \<le> length buf then None else append_chars buflen cs (buf @ [c]))"

definition addr_octets :: "u32 \<Rightarrow> u8 list" where
  "addr_octets a = [ucast a, ucast (drop_bit 8 a), ucast (drop_bit 16 a), ucast (drop_bit 24 a)]"

fun ntoa_octets :: "nat \<Rightarrow> u8 list \<Rightarrow> u8 list \<Rightarrow> u8 list option" where
  "ntoa_octets buflen [] buf = Some buf"
| "ntoa_octets buflen (b # bs) buf =
    (case append_chars buflen (rev (octet_digits b)) buf of None \<Rightarrow> None
     | Some buf \<Rightarrow>
         (case append_chars buflen [0x2E] buf of None \<Rightarrow> None | Some buf \<Rightarrow> ntoa_octets buflen bs buf))"

text \<open>The last dot becomes the end of the string.\<close>

definition ip4addr_ntoa_r :: "u32 \<Rightarrow> nat \<Rightarrow> u8 list option" where
  "ip4addr_ntoa_r addr buflen =
    map_option (\<lambda>buf. butlast buf @ [0]) (ntoa_octets buflen (addr_octets addr) [])"

section \<open>Netmasks and broadcast addresses\<close>

text \<open>The two loops, with the mask \<open>1 << i\<close>: the first zero from the top, then a one below it.\<close>

fun no_one_below :: "u32 \<Rightarrow> nat \<Rightarrow> bool" where
  "no_one_below nm 0 = True"
| "no_one_below nm (Suc i) = (if bit nm i then False else no_one_below nm i)"

fun ones_then_zeros :: "u32 \<Rightarrow> nat \<Rightarrow> bool" where
  "ones_then_zeros nm 0 = True"
| "ones_then_zeros nm (Suc i) = (if \<not> bit nm i then no_one_below nm (Suc i) else ones_then_zeros nm i)"

definition ip4_addr_netmask_valid :: "u32 \<Rightarrow> bool" where
  "ip4_addr_netmask_valid netmask = ones_then_zeros (lwip_htonl netmask) 32"

record netif_addr =
  ip_addr :: u32
  netmask :: u32
  netif_broadcast :: bool

definition ip4_addr_isbroadcast_u32 :: "u32 \<Rightarrow> netif_addr \<Rightarrow> bool" where
  "ip4_addr_isbroadcast_u32 addr nif =
    (if NOT addr = 0 \<or> addr = 0 then True
     else if \<not> netif_broadcast nif then False
     else if addr = ip_addr nif then False
     else addr AND netmask nif = ip_addr nif AND netmask nif \<and>
       addr AND NOT (netmask nif) = 0xFFFFFFFF AND NOT (netmask nif))"

section \<open>Every address can be written and read back\<close>

lemma digit_char:
  assumes "unat (x :: u8) < 10"
  shows "lwip_isdigit (0x30 + x)" "0x30 + x - 0x30 = x" "0x30 + x = 0x30 \<longleftrightarrow> x = 0"
proof -
  have "unat (0x30 + x) = 0x30 + unat x" using assms by (simp add: unat_word_ariths)
  then show "lwip_isdigit (0x30 + x)" using assms by (simp add: lwip_isdigit_def word_le_nat_alt)
qed simp_all

definition value_of :: "u8 list \<Rightarrow> u32 \<Rightarrow> u32" where
  "value_of ds v = foldl (\<lambda>v d. v * 10 + ucast (d - 0x30)) v ds"

text \<open>The text of an octet: one to three digits, without a leading zero, of the value of the octet.\<close>

lemma octet_text:
  "list_all lwip_isdigit (octet_digits b) \<and> octet_digits b \<noteq> [] \<and> length (octet_digits b) \<le> 3 \<and>
   (last (octet_digits b) = 0x30 \<longrightarrow> octet_digits b = [0x30]) \<and> value_of (rev (octet_digits b)) 0 = ucast b"
proof -
  have dm: "unat (x mod 10) < 10" for x :: u8 by (simp add: unat_mod)
  have step: "(ucast (x div 10) :: u32) * 10 + ucast (x mod 10) = ucast x" for x :: u8
  proof -
    have "unat x div 10 < 256" using unat_u8_less [of x] by linarith
    then show ?thesis by (simp add: word_unat_eq_iff unat_word_ariths unat_div unat_mod)
  qed
  have b: "unat b < 256" by simp
  consider "unat b < 10" | "10 \<le> unat b" "unat b < 100" | "100 \<le> unat b" by linarith
  then show ?thesis
  proof cases
    case 1
    then have "b div 10 = 0" "b mod 10 = b" by (simp_all add: word_unat_eq_iff unat_div unat_mod)
    then have "octet_digits b = [0x30 + b]" by (simp add: octet_digits.simps)
    then show ?thesis using 1 digit_char [of b] by (auto simp: value_of_def)
  next
    case 2
    then have d: "b div 10 \<noteq> 0" "b div 10 div 10 = 0" "b div 10 mod 10 = b div 10" "unat (b div 10) < 10"
      by (simp_all add: word_unat_eq_iff unat_div unat_mod)
    then have "octet_digits b = [0x30 + b mod 10, 0x30 + b div 10]"
      by (subst octet_digits.simps, subst octet_digits.simps) simp
    then show ?thesis using d digit_char [OF dm, of b] digit_char [of "b div 10"] step [of b]
      by (simp add: value_of_def)
  next
    case 3
    have "unat b div 10 div 10 < 3" using b by linarith
    with 3 have d: "b div 10 \<noteq> 0" "b div 10 div 10 \<noteq> 0" "b div 10 div 10 div 10 = 0"
      "b div 10 div 10 mod 10 = b div 10 div 10" "unat (b div 10 div 10) < 10"
      using b by (simp_all add: word_unat_eq_iff unat_div unat_mod)
    then have "octet_digits b = [0x30 + b mod 10, 0x30 + b div 10 mod 10, 0x30 + b div 10 div 10]"
      by (subst octet_digits.simps, subst octet_digits.simps, subst octet_digits.simps) simp
    then show ?thesis
      using d digit_char [OF dm, of b] digit_char [OF dm, of "b div 10"] digit_char [of "b div 10 div 10"]
        step [of b] step [of "b div 10"]
      by (simp add: value_of_def)
  qed
qed

lemma digits_read:
  assumes "list_all lwip_isdigit ds" "\<not> lwip_isdigit c"
  shows "number_digits (ds @ c # cs) 10 v = Inr (value_of ds v, c # cs)"
  using assms by (induction ds arbitrary: v) (simp_all add: value_of_def)

lemma not_digits [simp]: "\<not> lwip_isdigit 0x2E" "\<not> lwip_isdigit 0"
  by (simp_all add: lwip_isdigit_def)

text \<open>One octet and the character after it.\<close>

lemma part_read:
  assumes "c = 0x2E \<or> c = 0" and "aton_parts n parts (rev (octet_digits b) @ c # cs) = r"
  shows "r = (if c = 0x2E then (case n of 0 \<Rightarrow> Inr None | Suc m \<Rightarrow> aton_parts m (parts @ [ucast b]) cs)
    else Inr (Some (parts, ucast b, c # cs)))"
proof -
  note o = octet_text [of b]
  have c: "\<not> lwip_isdigit c" using assms(1) by auto
  have hd: "lwip_isdigit (hd (rev (octet_digits b)))"
    using o by (simp add: hd_rev list_all_iff)
  obtain base ds where base: "number_base (rev (octet_digits b) @ c # cs) = Inr (Some (base, ds))"
      "number_digits ds base 0 = Inr (ucast b, c # cs)"
  proof (cases "last (octet_digits b) = 0x30")
    case True
    then have od: "octet_digits b = [0x30]" using o by blast
    then have "ucast b = (0 :: u32)" using o by (simp add: value_of_def)
    moreover have "number_base (rev (octet_digits b) @ c # cs) = Inr (Some (8, c # cs))"
      using assms(1) by (auto simp: od number_base_def lwip_isdigit_def)
    ultimately show ?thesis using that c assms(1) by auto
  next
    case False
    then have "number_base (rev (octet_digits b) @ c # cs) = Inr (Some (10, rev (octet_digits b) @ c # cs))"
      using hd o by (auto simp: number_base_def hd_rev rd_def nth_append hd_conv_nth [symmetric])
    moreover have "number_digits (rev (octet_digits b) @ c # cs) 10 0 = Inr (ucast b, c # cs)"
      using digits_read [of "rev (octet_digits b)" c cs 0] c o by (simp add: list_all_iff)
    ultimately show ?thesis using that by blast
  qed
  have "aton_parts n parts (rev (octet_digits b) @ c # cs) =
      (if c = 0x2E then (case n of 0 \<Rightarrow> Inr None | Suc m \<Rightarrow> aton_parts m (parts @ [ucast b]) cs)
       else Inr (Some (parts, ucast b, c # cs)))"
    by (subst aton_parts.simps) (simp add: base split: nat.split)
  then show ?thesis using assms(2) by simp
qed

lemma chars_fit: "length buf + length cs \<le> buflen \<Longrightarrow> append_chars buflen cs buf = Some (buf @ cs)"
  by (induction cs arbitrary: buf) auto

definition octet_chars :: "u8 \<Rightarrow> u8 list" where
  "octet_chars b = rev (octet_digits b) @ [0x2E]"

lemma octet_chars_length: "2 \<le> length (octet_chars b) \<and> length (octet_chars b) \<le> 4"
  using octet_text [of b] by (cases "octet_digits b") (auto simp: octet_chars_def)

lemma octets_fit:
  "length buf + 4 * length bs \<le> buflen \<Longrightarrow> ntoa_octets buflen bs buf = Some (buf @ concat (map octet_chars bs))"
proof (induction bs arbitrary: buf)
  case (Cons b bs)
  have "length (rev (octet_digits b)) + 1 \<le> 4" using octet_chars_length [of b] by (simp add: octet_chars_def)
  then show ?case using Cons by (simp add: chars_fit octet_chars_def)
qed simp

text \<open>The text that fits into sixteen characters.\<close>

lemma ntoa_text:
  "\<exists>w x y z. addr_octets a = [w, x, y, z] \<and>
    ip4addr_ntoa_r a 16 = Some (octet_chars w @ octet_chars x @ octet_chars y @ rev (octet_digits z) @ [0])"
proof -
  have "ntoa_octets 16 (addr_octets a) [] = Some ([] @ concat (map octet_chars (addr_octets a)))"
    by (rule octets_fit) (simp add: addr_octets_def)
  then show ?thesis by (simp add: ip4addr_ntoa_r_def addr_octets_def octet_chars_def butlast_append)
qed

lemma octet_masks:
  assumes "n < 32"
  shows "bit (0xFF :: u32) n \<longleftrightarrow> n < 8" "bit (0xFF00 :: u32) n \<longleftrightarrow> 8 \<le> n \<and> n < 16"
    "bit (0xFF0000 :: u32) n \<longleftrightarrow> 16 \<le> n \<and> n < 24" "bit (0xFF000000 :: u32) n \<longleftrightarrow> 24 \<le> n"
proof -
  have "\<forall>n \<in> set [0..<32]. bit (0xFF :: u32) n = (n < 8)" by code_simp
  then show "bit (0xFF :: u32) n \<longleftrightarrow> n < 8" by (rule bspec) (use assms in simp)
  have "\<forall>n \<in> set [0..<32]. bit (0xFF00 :: u32) n = (8 \<le> n \<and> n < 16)" by code_simp
  then show "bit (0xFF00 :: u32) n \<longleftrightarrow> 8 \<le> n \<and> n < 16" by (rule bspec) (use assms in simp)
  have "\<forall>n \<in> set [0..<32]. bit (0xFF0000 :: u32) n = (16 \<le> n \<and> n < 24)" by code_simp
  then show "bit (0xFF0000 :: u32) n \<longleftrightarrow> 16 \<le> n \<and> n < 24" by (rule bspec) (use assms in simp)
  have "\<forall>n \<in> set [0..<32]. bit (0xFF000000 :: u32) n = (24 \<le> n)" by code_simp
  then show "bit (0xFF000000 :: u32) n \<longleftrightarrow> 24 \<le> n" by (rule bspec) (use assms in simp)
qed

lemma octet_index:
  assumes "n < (32 :: nat)"
  shows "\<exists>k < 8. n = k \<or> n = k + 8 \<or> n = k + 16 \<or> n = k + 24"
proof (intro exI conjI)
  show "n mod 8 < 8" by simp
  show "n = n mod 8 \<or> n = n mod 8 + 8 \<or> n = n mod 8 + 16 \<or> n = n mod 8 + 24"
    using assms by presburger
qed

lemma htonl_be32: "lwip_htonl (be32 w x y z) = be32 z y x w"
proof (rule bit_word_eqI)
  fix n assume n: "n < LENGTH(32)"
  have *: "bit (lwip_htonl v) n = (if n < 8 then bit v (n + 24) else if n < 16 then bit v (n + 8)
      else if n < 24 then bit v (n - 8) else bit v (n - 24))" if "n < 32" for v n
    using that octet_masks [of n] octet_masks(3) [of "n + 8"] octet_masks(4) [of "n + 24"] by (auto simp: lwip_htonl_def bit_simps add.commute)
  consider k where "n = k" "k < 8" | k where "n = k + 8" "k < 8" | k where "n = k + 16" "k < 8"
    | k where "n = k + 24" "k < 8"
    using octet_index [of n] n by auto
  then show "bit (lwip_htonl (be32 w x y z)) n = bit (be32 z y x w) n"
    by cases (simp_all add: * be32_def bit_simps bit_u8_out)
qed

text \<open>C28: Every IPv4 address survives being written and read: its text is at most sixteen characters
  long with the terminating zero, so it fits the buffers of the program, and parsing the text, from
  the start of any longer string, gives the address back.\<close>

theorem aton_ntoa:
  "\<exists>cs. ip4addr_ntoa_r a 16 = Some cs \<and> length cs \<le> 16 \<and> last cs = 0 \<and>
    ip4addr_aton (cs @ junk) = Inr (Some a)"
proof -
  obtain w x y z where octets: "addr_octets a = [w, x, y, z]"
    and written: "ip4addr_ntoa_r a 16 = Some (octet_chars w @ octet_chars x @ octet_chars y @ rev (octet_digits z) @ [0])"
    using ntoa_text by blast
  have three: "(3 :: nat) = Suc (Suc (Suc 0))" by simp
  let ?cs = "octet_chars w @ octet_chars x @ octet_chars y @ rev (octet_digits z) @ [0]"
  have a: "be32 z y x w = a" using octets be32_bytes32 [of a] by (simp add: addr_octets_def)
  have "length ?cs \<le> 16"
    using octet_chars_length [of w] octet_chars_length [of x] octet_chars_length [of y] octet_text [of z] by simp
  moreover have "aton_parts 3 [] (?cs @ junk) = Inr (Some ([ucast w, ucast x, ucast y], ucast z, 0 # junk))"
    unfolding three by (simp add: octet_chars_def part_read [OF _ refl])
  moreover have small: "\<not> 0xFF < (ucast b :: u32)" for b :: u8
    using unat_u8_le [of b] by (simp add: word_less_nat_alt not_less)
  have "concoct [ucast w, ucast x, ucast y] (ucast z) = Some (be32 w x y z)"
    by (simp add: concoct_def small be32_def ac_simps)
  ultimately have "ip4addr_aton (?cs @ junk) = Inr (Some a)"
    by (simp add: ip4addr_aton_def htonl_be32 a)
  then show ?thesis using written \<open>length ?cs \<le> 16\<close> by simp
qed

end
