(* ===== verification/Tcp_Stack.thy ===== *)
theory Tcp_Stack
  imports Ip4_Addr
begin

text \<open>
  The TCP side of the program: the monitor of the connection (\<open>src/src/tcp_stack.c\<close>) and the
  connection itself (\<open>src/src/iwip.c\<close>). The control blocks of lwIP are the fields the program
  reads, by address; a block that lwIP has released is gone, and reading it is the fault
  \<open>Use_after_free\<close>. The monitors are objects of the heap of lwIP.
\<close>

section \<open>Data\<close>

datatype tcp_state =
    CLOSED | LISTEN | SYN_SENT | SYN_RCVD | ESTABLISHED | FIN_WAIT_1 | FIN_WAIT_2 | CLOSE_WAIT
  | CLOSING | LAST_ACK | TIME_WAIT

text \<open>The functions the program registers with a control block.\<close>

datatype callback = Tcp_connect_error | Recv_callback

record tcp_pcb =
  pcb_state :: tcp_state
  pcb_flags :: u16
  remote_ip :: u32
  remote_port :: u16
  errf :: "callback option"
  recv :: "callback option"

record tcp_monitor =
  mon_pcb :: "nat option"
  mon_state :: tcp_state
  remote_ip_str :: "u8 list"
  mon_remote_port :: u16
  mon_flags :: u16
  creation_time :: u32
  lifetime :: u32
  last_recv_cmd :: u32
  last_update_time :: u32

text \<open>
  The globals of \<open>iwip.c\<close> and \<open>main.h\<close>, the two kinds of objects, and what was passed to
  \<open>tcp_write\<close> so far: the control block and the bytes.
\<close>

record connection =
  pcbs :: "nat \<rightharpoonup> tcp_pcb"
  monitors :: "nat \<rightharpoonup> tcp_monitor"
  tcp_pcb :: "nat option"
  monitor :: "nat option"
  stat_tcp_con :: u8
  try_reconnect :: u8
  written :: "(nat \<times> u8 list) list"

datatype err_t = ERR_OK | ERR_MEM | ERR_RTE | ERR_VAL | ERR_ALREADY | ERR_CLSD | ERR_CONN | ERR_ABRT

definition pcb_at :: "nat option \<Rightarrow> connection \<Rightarrow> tcp_pcb result" where
  "pcb_at p s = (case p of None \<Rightarrow> Inl Null_pointer
     | Some a \<Rightarrow> (case pcbs s a of None \<Rightarrow> Inl Use_after_free | Some b \<Rightarrow> Inr b))"

definition monitor_at :: "nat option \<Rightarrow> connection \<Rightarrow> tcp_monitor result" where
  "monitor_at m s = (case m of None \<Rightarrow> Inl Null_pointer
     | Some a \<Rightarrow> (case monitors s a of None \<Rightarrow> Inl Use_after_free | Some b \<Rightarrow> Inr b))"

fun tcp_state_to_string :: "tcp_state \<Rightarrow> string" where
  "tcp_state_to_string CLOSED = ''CLOSED''"
| "tcp_state_to_string LISTEN = ''LISTEN''"
| "tcp_state_to_string SYN_SENT = ''SYN_SENT''"
| "tcp_state_to_string SYN_RCVD = ''SYN_RCVD''"
| "tcp_state_to_string ESTABLISHED = ''ESTABLISHED''"
| "tcp_state_to_string FIN_WAIT_1 = ''FIN_WAIT_1''"
| "tcp_state_to_string FIN_WAIT_2 = ''FIN_WAIT_2''"
| "tcp_state_to_string CLOSE_WAIT = ''CLOSE_WAIT''"
| "tcp_state_to_string CLOSING = ''CLOSING''"
| "tcp_state_to_string LAST_ACK = ''LAST_ACK''"
| "tcp_state_to_string TIME_WAIT = ''TIME_WAIT''"

text \<open>The states in the order of the C enumeration, so that a fact about all of them can be computed.\<close>

instantiation tcp_state :: enum
begin

definition enum_tcp_state :: "tcp_state list" where
  "enum_tcp_state = [CLOSED, LISTEN, SYN_SENT, SYN_RCVD, ESTABLISHED, FIN_WAIT_1, FIN_WAIT_2, CLOSE_WAIT,
     CLOSING, LAST_ACK, TIME_WAIT]"

definition enum_all_tcp_state :: "(tcp_state \<Rightarrow> bool) \<Rightarrow> bool" where
  "enum_all_tcp_state P \<longleftrightarrow> list_all P enum_class.enum"

definition enum_ex_tcp_state :: "(tcp_state \<Rightarrow> bool) \<Rightarrow> bool" where
  "enum_ex_tcp_state P \<longleftrightarrow> list_ex P enum_class.enum"

instance
proof
  have all: "x \<in> set (enum_class.enum :: tcp_state list)" for x by (cases x) (simp_all add: enum_tcp_state_def)
  then show "(UNIV :: tcp_state set) = set enum_class.enum" by auto
  show "distinct (enum_class.enum :: tcp_state list)" by (simp add: enum_tcp_state_def)
  show "enum_class.enum_all P \<longleftrightarrow> Ball UNIV P" for P :: "tcp_state \<Rightarrow> bool"
    using all by (auto simp: enum_all_tcp_state_def list_all_iff)
  show "enum_class.enum_ex P \<longleftrightarrow> Bex UNIV P" for P :: "tcp_state \<Rightarrow> bool"
    using all by (auto simp: enum_ex_tcp_state_def list_ex_iff)
qed

end

text \<open>The name that \<open>print_status\<close> shows determines the state.\<close>

lemma tcp_state_names: "inj tcp_state_to_string"
proof -
  have "distinct (map tcp_state_to_string enum_class.enum)" by (simp add: enum_tcp_state_def)
  then show ?thesis by (simp only: distinct_map UNIV_enum [symmetric])
qed

section \<open>The monitor\<close>

text \<open>A string written into the 16 bytes of \<open>remote_ip_str\<close>; without one the buffer stays.\<close>

definition overwrite :: "u8 list \<Rightarrow> u8 list \<Rightarrow> u8 list" where
  "overwrite cs buf = cs @ drop (length cs) buf"

definition show_ip :: "u32 \<Rightarrow> u8 list \<Rightarrow> u8 list" where
  "show_ip a buf = (case ip4addr_ntoa_r a 16 of None \<Rightarrow> buf | Some cs \<Rightarrow> overwrite cs buf)"

definition zero_address :: "u8 list" where
  "zero_address = [0x30, 0x2E, 0x30, 0x2E, 0x30, 0x2E, 0x30, 0]"

text \<open>
  \<open>room\<close> is the result of \<open>mem_malloc\<close>; the two readings of the tick count are taken at the same
  tick. The monitor is cleared before it is filled.
\<close>

definition create_tcp_monitor :: "nat option \<Rightarrow> u32 \<Rightarrow> nat option \<Rightarrow> connection \<Rightarrow> (nat option \<times> connection) result" where
  "create_tcp_monitor room tick pcb s =
    (case room of None \<Rightarrow> Inr (None, s)
     | Some m \<Rightarrow>
         bindr (pcb_at pcb s) (\<lambda>b.
         let ip = (if remote_ip b = 0 then overwrite zero_address (replicate 16 0)
                   else show_ip (remote_ip b) (replicate 16 0)) in
         Inr (Some m, s\<lparr>monitors := (monitors s)(m \<mapsto>
           \<lparr>mon_pcb = pcb, mon_state = pcb_state b, remote_ip_str = ip, mon_remote_port = remote_port b,
            mon_flags = pcb_flags b, creation_time = tick, lifetime = 0, last_recv_cmd = 0,
            last_update_time = tick\<rparr>)\<rparr>)))"

definition update_monitor :: "u32 \<Rightarrow> nat option \<Rightarrow> connection \<Rightarrow> (err_t \<times> connection) result" where
  "update_monitor tick m s =
    (case m of None \<Rightarrow> Inr (ERR_MEM, s)
     | Some a \<Rightarrow>
         bindr (monitor_at m s) (\<lambda>mo.
         if mon_pcb mo = None then Inr (ERR_MEM, s)
         else bindr (pcb_at (mon_pcb mo) s) (\<lambda>b.
           Inr (ERR_OK, s\<lparr>monitors := (monitors s)(a \<mapsto>
             mo\<lparr>mon_state := pcb_state b, mon_flags := pcb_flags b, mon_remote_port := remote_port b,
                last_update_time := tick, lifetime := tick - creation_time mo,
                remote_ip_str := show_ip (remote_ip b) (remote_ip_str mo)\<rparr>)\<rparr>))))"

text \<open>What \<open>print_status\<close> shows: address, port, state, lifetime and time of the last update.\<close>

definition print_status ::
    "nat option \<Rightarrow> connection \<Rightarrow> (err_t \<times> (u8 list \<times> u16 \<times> string \<times> u32 \<times> u32) option) result" where
  "print_status m s =
    (case m of None \<Rightarrow> Inr (ERR_MEM, None)
     | Some a \<Rightarrow>
         bindr (monitor_at m s) (\<lambda>mo.
         if mon_pcb mo = None then Inr (ERR_MEM, None)
         else Inr (ERR_OK, Some (remote_ip_str mo, mon_remote_port mo,
           tcp_state_to_string (mon_state mo), lifetime mo, last_update_time mo))))"

definition destroy_monitor :: "nat option \<Rightarrow> connection \<Rightarrow> (err_t \<times> connection) result" where
  "destroy_monitor m s =
    (case m of None \<Rightarrow> Inr (ERR_VAL, s)
     | Some a \<Rightarrow> (case monitors s a of None \<Rightarrow> Inl Use_after_free
        | Some mo \<Rightarrow> Inr (ERR_OK, s\<lparr>monitors := (monitors s)(a := None)\<rparr>)))"

section \<open>Callbacks of the connection\<close>

text \<open>lwIP has already released the control block when it reports an error.\<close>

definition tcp_connect_error :: "connection \<Rightarrow> connection" where
  "tcp_connect_error s = s\<lparr>tcp_pcb := None, stat_tcp_con := 0\<rparr>"

definition set_pcb :: "nat \<Rightarrow> (tcp_pcb \<Rightarrow> tcp_pcb) \<Rightarrow> connection \<Rightarrow> connection result" where
  "set_pcb a f s = (case pcbs s a of None \<Rightarrow> Inl Use_after_free
     | Some b \<Rightarrow> Inr (s\<lparr>pcbs := (pcbs s)(a \<mapsto> f b)\<rparr>))"

definition client_connected :: "nat \<Rightarrow> err_t \<Rightarrow> connection \<Rightarrow> (err_t \<times> connection) result" where
  "client_connected tpcb err s =
    (if err \<noteq> ERR_OK then Inr (err, s)
     else bindr (set_pcb tpcb (\<lambda>b. b\<lparr>recv := Some Recv_callback\<rparr>) (s\<lparr>stat_tcp_con := 1\<rparr>))
       (\<lambda>s. Inr (err, s)))"

section \<open>What lwIP does meanwhile\<close>

text \<open>
  While the program waits, the thread of the network interface may complete the handshake, see the
  state of a connection change, or give a connection up: then it releases the control block and
  calls the registered error function.
\<close>

datatype network_event = Handshake nat | State_change nat tcp_state | Gives_up nat

definition network_step :: "network_event \<Rightarrow> connection \<Rightarrow> connection result" where
  "network_step ev s = (case ev of
     Handshake a \<Rightarrow>
       (case pcbs s a of None \<Rightarrow> Inr s
        | Some b \<Rightarrow>
            bindr (client_connected a ERR_OK (s\<lparr>pcbs := (pcbs s)(a \<mapsto> b\<lparr>pcb_state := ESTABLISHED\<rparr>)\<rparr>))
              (\<lambda>(err, s). Inr s))
   | State_change a st \<Rightarrow>
       (case pcbs s a of None \<Rightarrow> Inr s
        | Some b \<Rightarrow> Inr (s\<lparr>pcbs := (pcbs s)(a \<mapsto> b\<lparr>pcb_state := st\<rparr>)\<rparr>))
   | Gives_up a \<Rightarrow>
       (case pcbs s a of None \<Rightarrow> Inr s
        | Some b \<Rightarrow>
            let s = s\<lparr>pcbs := (pcbs s)(a := None)\<rparr> in
            Inr (if errf b = Some Tcp_connect_error then tcp_connect_error s else s)))"

fun network_run :: "network_event list \<Rightarrow> connection \<Rightarrow> connection result" where
  "network_run [] s = Inr s"
| "network_run (ev # evs) s = bindr (network_step ev s) (network_run evs)"

section \<open>Opening and closing\<close>

text \<open>
  \<open>tcp_client_close\<close>: the result is undefined for the null pointer (\<open>None\<close>). \<open>closed\<close> is the
  result of \<open>tcp_close\<close>. After it, or after \<open>tcp_abort\<close> when it fails, the control block belongs to
  lwIP alone and must not be read any more.
\<close>

definition tcp_client_close :: "err_t \<Rightarrow> nat option \<Rightarrow> connection \<Rightarrow> (err_t option \<times> connection) result" where
  "tcp_client_close closed pcb s =
    (case pcb of None \<Rightarrow> Inr (None, s)
     | Some a \<Rightarrow>
         bindr (set_pcb a (\<lambda>b. b\<lparr>errf := None\<rparr>) s) (\<lambda>s.
         Inr (Some closed, s\<lparr>pcbs := (pcbs s)(a := None)\<rparr>)))"

text \<open>\<open>REMOTE_IP_ADDRESS\<close>, the string 192.168.1.100, and \<open>TCP_REMOTE_PORT\<close>.\<close>

definition REMOTE_IP_ADDRESS :: "u8 list" where
  "REMOTE_IP_ADDRESS = [0x31, 0x39, 0x32, 0x2E, 0x31, 0x36, 0x38, 0x2E, 0x31, 0x2E, 0x31, 0x30, 0x30, 0]"

definition TCP_REMOTE_PORT :: u16 where "TCP_REMOTE_PORT = 7"

text \<open>\<open>tcp_connect\<close> notes the peer first, and sends the first segment when nothing fails.\<close>

definition start_connect :: "nat \<Rightarrow> u32 \<Rightarrow> err_t \<Rightarrow> connection \<Rightarrow> connection result" where
  "start_connect a ip result s =
    set_pcb a (\<lambda>b. b\<lparr>remote_ip := ip, remote_port := TCP_REMOTE_PORT,
      pcb_state := if result = ERR_OK then SYN_SENT else pcb_state b\<rparr>) s"

text \<open>
  \<open>tcp_connection_cl\<close>. Results of lwIP are arguments: the new control block of
  \<open>tcp_new_ip_type\<close>, the memory for the monitor, the result of \<open>tcp_connect\<close> and of \<open>tcp_close\<close>;
  \<open>evs\<close> is what happens during the delay of two seconds. The state of the block is printed, so a
  block that is gone is read only when the pointer still leads to it. \<open>REMOTE_IP_ADDRESS\<close> is an
  address (\<open>remote_address\<close> below), so \<open>inet_aton\<close> always sets \<open>remote_addr\<close>.
\<close>

definition tcp_connection_cl ::
    "nat option \<Rightarrow> nat option \<Rightarrow> u32 \<Rightarrow> err_t \<Rightarrow> err_t \<Rightarrow> network_event list \<Rightarrow> connection \<Rightarrow> (err_t \<times> connection) result" where
  "tcp_connection_cl new room tick connect closed evs s =
    (let fresh = \<lparr>pcb_state = CLOSED, pcb_flags = 0, remote_ip = 0, remote_port = 0, errf = None, recv = None\<rparr> in
     bindr (ip4addr_aton REMOTE_IP_ADDRESS) (\<lambda>ip.
     case new of None \<Rightarrow> Inr (ERR_MEM, s\<lparr>tcp_pcb := None\<rparr>)
     | Some a \<Rightarrow>
         bindr (create_tcp_monitor room tick (Some a)
           (s\<lparr>tcp_pcb := Some a, pcbs := (pcbs s)(a \<mapsto> fresh)\<rparr>)) (\<lambda>(m, s).
         bindr (update_monitor tick m (s\<lparr>monitor := m\<rparr>)) (\<lambda>(err, s).
         bindr (set_pcb a (\<lambda>b. b\<lparr>errf := Some Tcp_connect_error\<rparr>) s) (\<lambda>s.
         bindr (start_connect a (the ip) connect s) (\<lambda>s.
         bindr (network_run evs s) (\<lambda>s.
         bindr (if tcp_pcb s = None then Inr () else bindr (pcb_at (tcp_pcb s) s) (\<lambda>b. Inr ())) (\<lambda>_.
         if connect \<noteq> ERR_OK then
           bindr (tcp_client_close closed (tcp_pcb s) s) (\<lambda>(err, s). Inr (ERR_CLSD, s))
         else Inr (ERR_OK, s)))))))))"

definition need_reconnect :: "u32 \<Rightarrow> connection \<Rightarrow> (err_t \<times> connection) result" where
  "need_reconnect tick s =
    bindr (update_monitor tick (monitor s) s) (\<lambda>(err, s).
    bindr (monitor_at (monitor s) s) (\<lambda>mo.
    bindr (pcb_at (mon_pcb mo) s) (\<lambda>b.
    Inr (ERR_OK, s\<lparr>try_reconnect := if pcb_state b \<noteq> ESTABLISHED then 1 else 0\<rparr>))))"

text \<open>
  \<open>reconnection_tcp\<close>: the old monitor is destroyed, the old control block loses its callbacks and
  is aborted, and a new connection is opened.
\<close>

definition reconnection_tcp ::
    "nat option \<Rightarrow> nat option \<Rightarrow> u32 \<Rightarrow> err_t \<Rightarrow> err_t \<Rightarrow> network_event list \<Rightarrow> nat option \<Rightarrow> connection \<Rightarrow>
     (err_t \<times> connection) result" where
  "reconnection_tcp new room tick connect closed evs pcb s =
    bindr (pcb_at pcb s) (\<lambda>b.
    if pcb_state b = ESTABLISHED then Inr (ERR_ALREADY, s\<lparr>try_reconnect := 0\<rparr>)
    else
      bindr (destroy_monitor (monitor s) s) (\<lambda>(err, s).
      bindr (set_pcb (the pcb) (\<lambda>b. b\<lparr>errf := None\<rparr>) s) (\<lambda>s.
      bindr (tcp_connection_cl new room tick connect closed evs
        (s\<lparr>pcbs := (pcbs s)(the pcb := None)\<rparr>)) (\<lambda>(err, s).
      Inr (ERR_OK, s)))))"

section \<open>Where the pointers lead\<close>

lemma remote_address: "ip4addr_aton REMOTE_IP_ADDRESS = Inr (Some 0x6401A8C0)"
  by code_simp

text \<open>
  One control block at most, with the error callback; the global pointer leads to it as long as it
  lives, and is null and the connection marked down when it is gone. The connection is marked up
  exactly when the block has the receive callback.
\<close>

definition tracked :: "nat \<Rightarrow> nat option \<Rightarrow> (nat \<rightharpoonup> tcp_monitor) \<Rightarrow> connection \<Rightarrow> bool" where
  "tracked a m ms s \<longleftrightarrow> monitor s = m \<and> monitors s = ms \<and>
    (case pcbs s a of
       None \<Rightarrow> pcbs s = Map.empty \<and> tcp_pcb s = None \<and> stat_tcp_con s = 0
     | Some b \<Rightarrow> pcbs s = [a \<mapsto> b] \<and> errf b = Some Tcp_connect_error \<and> tcp_pcb s = Some a \<and>
         (if recv b = None then stat_tcp_con s = 0 else stat_tcp_con s = 1))"

lemma tracked_live:
  "pcbs s a = Some b \<Longrightarrow> tracked a m ms s \<longleftrightarrow>
    pcbs s = [a \<mapsto> b] \<and> errf b = Some Tcp_connect_error \<and> tcp_pcb s = Some a \<and>
    (if recv b = None then stat_tcp_con s = 0 else stat_tcp_con s = 1) \<and> monitor s = m \<and> monitors s = ms"
  by (auto simp: tracked_def)

lemma tracked_gone:
  "pcbs s a = None \<Longrightarrow> tracked a m ms s \<longleftrightarrow>
    pcbs s = Map.empty \<and> tcp_pcb s = None \<and> stat_tcp_con s = 0 \<and> monitor s = m \<and> monitors s = ms"
  by (auto simp: tracked_def)

lemma network_step_gone:
  assumes "tracked a m ms s" and gone: "pcbs s a = None"
  shows "network_step ev s = Inr s"
proof -
  have "pcbs s = Map.empty" using assms tracked_gone [OF gone] by simp
  then show ?thesis by (cases ev) (simp_all add: network_step_def)
qed

lemma network_step_tracked:
  assumes tr: "tracked a m ms s"
  shows "\<exists>s'. network_step ev s = Inr s' \<and> tracked a m ms s'"
proof (cases "pcbs s a")
  case None
  then show ?thesis using network_step_gone [OF tr] tr by simp
next
  case (Some b)
  note at = tr [unfolded tracked_live [OF Some]]
  then have blocks: "pcbs s = [a \<mapsto> b]" by simp
  show ?thesis
  proof (cases ev)
    case (Handshake c)
    show ?thesis
    proof (cases "c = a")
      case True
      show ?thesis
        unfolding Handshake True network_step_def
        using at by (simp add: client_connected_def set_pcb_def tracked_live)
    qed (use tr Handshake blocks in \<open>simp add: network_step_def\<close>)
  next
    case (State_change c st)
    show ?thesis
    proof (cases "c = a")
      case True
      show ?thesis
        unfolding State_change True network_step_def
        using at by (simp add: tracked_live)
    qed (use tr State_change blocks in \<open>simp add: network_step_def\<close>)
  next
    case (Gives_up c)
    show ?thesis
    proof (cases "c = a")
      case True
      show ?thesis
        unfolding Gives_up True network_step_def
        using at by (simp add: tcp_connect_error_def tracked_gone Let_def)
    qed (use tr Gives_up blocks in \<open>simp add: network_step_def\<close>)
  qed
qed

lemma network_run_tracked:
  assumes "tracked a m ms s"
  shows "\<exists>s'. network_run evs s = Inr s' \<and> tracked a m ms s'"
  using assms
proof (induction evs arbitrary: s)
  case (Cons ev evs)
  obtain s1 where "network_step ev s = Inr s1" "tracked a m ms s1"
    using network_step_tracked [OF Cons.prems] by blast
  then show ?case using Cons.IH by simp
qed simp

lemma given_up_stays:
  assumes "tracked a m ms s" "network_run evs s = Inr s'" "pcbs s a = None \<or> Gives_up a \<in> set evs"
  shows "pcbs s' a = None"
  using assms
proof (induction evs arbitrary: s)
  case (Cons ev evs)
  obtain s1 where one: "network_step ev s = Inr s1" and tr: "tracked a m ms s1"
    using network_step_tracked [OF Cons.prems(1)] by blast
  have "pcbs s1 a = None \<or> Gives_up a \<in> set evs"
  proof (cases "pcbs s a")
    case None
    then show ?thesis using network_step_gone [OF Cons.prems(1)] one by simp
  next
    case (Some b)
    then show ?thesis using Cons.prems(3) one
      by (auto simp: network_step_def tcp_connect_error_def Let_def split: if_splits)
  qed
  then show ?case using Cons.IH [OF tr] Cons.prems(2) one by simp
qed simp

text \<open>What the monitor of a new control block holds before \<open>tcp_connect\<close>.\<close>

definition first_report :: "nat \<Rightarrow> u32 \<Rightarrow> tcp_monitor" where
  "first_report a tick =
    \<lparr>mon_pcb = Some a, mon_state = CLOSED, remote_ip_str = show_ip 0 (overwrite zero_address (replicate 16 0)),
     mon_remote_port = 0, mon_flags = 0, creation_time = tick, lifetime = 0, last_recv_cmd = 0,
     last_update_time = tick\<rparr>"

definition reports :: "nat option \<Rightarrow> nat \<Rightarrow> u32 \<Rightarrow> connection \<Rightarrow> (nat \<rightharpoonup> tcp_monitor)" where
  "reports room a tick s = (case room of None \<Rightarrow> monitors s
     | Some m \<Rightarrow> (monitors s)(m \<mapsto> first_report a tick))"

text \<open>Opening is a matter of the events while it waits.\<close>

lemma connection_opens:
  assumes "pcbs s = Map.empty" "stat_tcp_con s = 0"
  shows "\<exists>s'. tracked a room (reports room a tick s) s' \<and> (Gives_up a \<in> set evs \<longrightarrow> pcbs s' a = None) \<and>
    tcp_connection_cl (Some a) room tick connect closed evs s =
      (if connect = ERR_OK then Inr (ERR_OK, s') else Inr (ERR_CLSD, s'\<lparr>pcbs := Map.empty\<rparr>))"
proof -
  let ?b = "\<lparr>pcb_state = if connect = ERR_OK then SYN_SENT else CLOSED, pcb_flags = 0, remote_ip = 0x6401A8C0,
    remote_port = TCP_REMOTE_PORT, errf = Some Tcp_connect_error, recv = None\<rparr>"
  let ?s = "s\<lparr>tcp_pcb := Some a, pcbs := [a \<mapsto> ?b], monitor := room, monitors := reports room a tick s\<rparr>"
  have start: "tracked a room (reports room a tick s) ?s"
    using assms by (simp add: tracked_def)
  then obtain s' where run: "network_run evs ?s = Inr s'" and tr: "tracked a room (reports room a tick s) s'"
    using network_run_tracked by blast
  have gone: "Gives_up a \<in> set evs \<longrightarrow> pcbs s' a = None"
    using given_up_stays [OF start run] by blast
  have head: "tcp_connection_cl (Some a) room tick connect closed evs s =
    bindr (network_run evs ?s) (\<lambda>s.
      bindr (if tcp_pcb s = None then Inr () else bindr (pcb_at (tcp_pcb s) s) (\<lambda>b. Inr ())) (\<lambda>_.
      if connect \<noteq> ERR_OK then
        bindr (tcp_client_close closed (tcp_pcb s) s) (\<lambda>(err, s). Inr (ERR_CLSD, s))
      else Inr (ERR_OK, s)))"
    using assms(1)
    by (cases s; cases room) (simp_all add: tcp_connection_cl_def remote_address create_tcp_monitor_def update_monitor_def
        monitor_at_def pcb_at_def set_pcb_def start_connect_def reports_def first_report_def Let_def)
  show ?thesis
  proof (cases "pcbs s' a")
    case None
    then show ?thesis using tr head run gone
      by (intro exI [of _ s']) (simp add: tracked_gone tcp_client_close_def)
  next
    case (Some b)
    then show ?thesis using tr head run gone
      by (intro exI [of _ s']) (simp add: tracked_live tcp_client_close_def pcb_at_def set_pcb_def)
  qed
qed

section \<open>Properties\<close>

text \<open>
  C29: Opening the connection never reads a control block that lwIP has released, whatever the
  network does during the two seconds of waiting. If \<open>tcp_connect\<close> accepted the request, the
  global pointer leads to the control block exactly as long as it lives, and a connection is marked
  up exactly when the block has the receive callback; when lwIP has given it up, the pointer is null
  and the connection is marked down. If \<open>tcp_connect\<close> refused, the caller gets \<open>ERR_CLSD\<close>, and the
  global pointer is either null or dangling: closing leaves it as it is.
\<close>

theorem connection_pointer:
  assumes "pcbs s = Map.empty" "stat_tcp_con s = 0"
  shows "\<exists>s'. tcp_connection_cl (Some a) room tick connect closed evs s =
      Inr (if connect = ERR_OK then ERR_OK else ERR_CLSD, s') \<and>
    (if connect = ERR_OK then
       (case pcbs s' a of None \<Rightarrow> tcp_pcb s' = None \<and> stat_tcp_con s' = 0
        | Some b \<Rightarrow> tcp_pcb s' = Some a \<and> stat_tcp_con s' = (if recv b = None then 0 else 1))
     else pcb_at (tcp_pcb s') s' = Inl (if tcp_pcb s' = None then Null_pointer else Use_after_free))"
proof -
  obtain s' where tr: "tracked a room (reports room a tick s) s'"
    and run: "tcp_connection_cl (Some a) room tick connect closed evs s =
      (if connect = ERR_OK then Inr (ERR_OK, s') else Inr (ERR_CLSD, s'\<lparr>pcbs := Map.empty\<rparr>))"
    using connection_opens [OF assms] by blast
  show ?thesis
  proof (cases "connect = ERR_OK")
    case True
    then show ?thesis using tr run
      by (intro exI [of _ s']) (auto simp: tracked_def split: option.splits if_splits)
  next
    case False
    then show ?thesis using run
      by (intro exI [of _ "s'\<lparr>pcbs := Map.empty\<rparr>"]) (simp add: pcb_at_def split: option.split)
  qed
qed

definition no_connection :: connection where
  "no_connection = \<lparr>pcbs = Map.empty, monitors = Map.empty, tcp_pcb = None, monitor = None, stat_tcp_con = 0,
     try_reconnect = 0, written = []\<rparr>"

theorem connection_pointer_witness:
  "\<exists>s'. tcp_connection_cl (Some 0x100) (Some 0x200) 5 ERR_OK ERR_OK [Handshake 0x100] no_connection =
      Inr (ERR_OK, s') \<and>
    (case pcbs s' 0x100 of None \<Rightarrow> tcp_pcb s' = None \<and> stat_tcp_con s' = 0
     | Some b \<Rightarrow> tcp_pcb s' = Some 0x100 \<and> stat_tcp_con s' = (if recv b = None then 0 else 1))"
  using connection_pointer [where s = no_connection and a = "0x100" and room = "Some 0x200" and tick = 5 and
      connect = ERR_OK and closed = ERR_OK and evs = "[Handshake 0x100]"]
  by (simp add: no_connection_def)

text \<open>
  C30: When the peer refuses or the handshake times out, the error callback clears the global
  pointer but not the monitor, which still holds the address of the released control block: the
  next check of the connection (\<open>need_reconnect\<close>) reads freed memory, and so does any update of
  the monitor.
\<close>

theorem stale_monitor:
  assumes "pcbs s = Map.empty" "stat_tcp_con s = 0" "Gives_up a \<in> set evs"
  shows "\<exists>s'. tcp_connection_cl (Some a) (Some m) tick ERR_OK closed evs s = Inr (ERR_OK, s') \<and>
    tcp_pcb s' = None \<and> update_monitor later (monitor s') s' = Inl Use_after_free \<and>
    need_reconnect later s' = Inl Use_after_free"
proof -
  obtain s' where gone: "pcbs s' a = None" and tr: "tracked a (Some m) (reports (Some m) a tick s) s'"
    and run: "tcp_connection_cl (Some a) (Some m) tick ERR_OK closed evs s = Inr (ERR_OK, s')"
    using connection_opens [OF assms(1, 2), of a "Some m" tick evs ERR_OK closed] assms(3) by auto
  have m: "monitor_at (Some m) s' = Inr (first_report a tick)"
    using tr by (simp add: monitor_at_def tracked_def reports_def)
  have "update_monitor later (Some m) s' = Inl Use_after_free"
    using m gone by (simp add: update_monitor_def first_report_def pcb_at_def)
  then show ?thesis
    using run tr gone by (intro exI [of _ s']) (simp add: tracked_gone need_reconnect_def)
qed

theorem stale_monitor_witness:
  "\<exists>s'. tcp_connection_cl (Some 0x100) (Some 0x200) 5 ERR_OK ERR_OK [Gives_up 0x100] no_connection = Inr (ERR_OK, s') \<and>
    tcp_pcb s' = None \<and> update_monitor 300 (monitor s') s' = Inl Use_after_free \<and>
    need_reconnect 300 s' = Inl Use_after_free"
  by (rule stale_monitor) (simp_all add: no_connection_def)

end
