(* ===== verification/Commands.thy ===== *)
theory Commands
  imports Udp_Fusion FreeRTOS_Blocking Tcp_Stack
begin

text \<open>
  The commands of the operator: \<open>tcp_parse_task\<close> of \<open>src/src/main.c\<close>, \<open>parse_msg\<close> and
  \<open>get_tetrada\<close> of \<open>iwip.c\<close>, the codes of \<open>cmd.h\<close> and \<open>send_to_PL\<close> of \<open>pl_interface.c\<close>. A command
  is noted in the monitor of the connection; the one that sets the amplitude is echoed to the peer,
  suspends or resumes the task of the automatic gain control, and is passed to the logic.
\<close>

unbundle bit_operations_syntax

section \<open>Codes\<close>

definition CMD_STOP :: u32 where "CMD_STOP = 0xC0"
definition CMD_START :: u32 where "CMD_START = 0xC1"
definition CMD_WORKTYPE_SET :: u32 where "CMD_WORKTYPE_SET = 0xC2"
definition CMD_CTRL_AMPL :: u32 where "CMD_CTRL_AMPL = 0xC3"
definition CMD_CTRL_AMPL_AUTO_VALUE :: u8 where "CMD_CTRL_AMPL_AUTO_VALUE = 0xFF"
definition CMD_CTRL_AMPL_MAX_VALUE :: u8 where "CMD_CTRL_AMPL_MAX_VALUE = 0x7F"
definition CMD_CTRL_AMPL_MIN_VALUE :: u8 where "CMD_CTRL_AMPL_MIN_VALUE = 0x00"
definition CMD_SEA_FILTER :: u32 where "CMD_SEA_FILTER = 0xC4"
definition CMD_PREC_FILTER :: u32 where "CMD_PREC_FILTER = 0xC5"
definition CMD_VELOCITY :: u32 where "CMD_VELOCITY = 0xC6"
definition CMD_BLANK_SEC :: u32 where "CMD_BLANK_SEC = 0xC7"
definition CMD_FREQ_CHGE :: u32 where "CMD_FREQ_CHGE = 0xC8"
definition CMD_TELEMETRY_REQS :: u32 where "CMD_TELEMETRY_REQS = 0x00C9"
definition CMD_RESET_FAULTS :: u32 where "CMD_RESET_FAULTS = 0x01C9"
definition CMD_WORKTYPE_REQS :: u32 where "CMD_WORKTYPE_REQS = 0x00F"
definition CMD_TOB_POINT :: u32 where "CMD_TOB_POINT = 0xD"
definition CMD_TOB_VALUE_REQS :: u32 where "CMD_TOB_VALUE_REQS = 0xE"

definition cmd_pull :: "u32 list" where
  "cmd_pull = [CMD_STOP, CMD_START, CMD_WORKTYPE_SET, CMD_CTRL_AMPL, CMD_SEA_FILTER, CMD_PREC_FILTER,
     CMD_VELOCITY, CMD_BLANK_SEC, CMD_FREQ_CHGE, CMD_TELEMETRY_REQS, CMD_RESET_FAULTS, CMD_WORKTYPE_REQS,
     CMD_TOB_POINT, CMD_TOB_VALUE_REQS]"

lemmas command_codes = CMD_STOP_def CMD_START_def CMD_WORKTYPE_SET_def CMD_CTRL_AMPL_def CMD_SEA_FILTER_def
  CMD_PREC_FILTER_def CMD_VELOCITY_def CMD_BLANK_SEC_def CMD_FREQ_CHGE_def CMD_TELEMETRY_REQS_def
  CMD_RESET_FAULTS_def CMD_WORKTYPE_REQS_def CMD_TOB_POINT_def CMD_TOB_VALUE_REQS_def

lemmas amplitude_codes = CMD_CTRL_AMPL_AUTO_VALUE_def CMD_CTRL_AMPL_MAX_VALUE_def CMD_CTRL_AMPL_MIN_VALUE_def

section \<open>State\<close>

text \<open>The packets, the kernel and the gain control of the radar, and the connection.\<close>

record station =
  radar_of :: radar
  link :: connection

text \<open>The messages passed to the logic by either task are one sequence.\<close>

definition emit :: "u8 list \<Rightarrow> station \<Rightarrow> station" where
  "emit bs s = s\<lparr>radar_of := (radar_of s)\<lparr>gain := (gain (radar_of s))\<lparr>to_PL := to_PL (gain (radar_of s)) @ [bs]\<rparr>\<rparr>\<rparr>"

text \<open>The bytes from \<open>payload[i]\<close> on.\<close>

fun read_bytes :: "pbuf \<Rightarrow> nat \<Rightarrow> nat \<Rightarrow> u8 list result" where
  "read_bytes b i 0 = Inr []"
| "read_bytes b i (Suc n) =
    bindr (payload_byte b i) (\<lambda>x. bindr (read_bytes b (i + 1) n) (\<lambda>xs. Inr (x # xs)))"

definition send_to_PL :: "pbuf \<Rightarrow> u16 \<Rightarrow> station \<Rightarrow> station result" where
  "send_to_PL b n s = bindr (read_bytes b 0 (unat n)) (\<lambda>bs. Inr (emit bs s))"

section \<open>One command\<close>

text \<open>\<open>(uint8_t)p->len\<close>, as every use of the length in \<open>parse_msg\<close> but one.\<close>

definition short_len :: "pbuf \<Rightarrow> u8" where
  "short_len b = ucast (len b)"

text \<open>
  \<open>payload[(uint8_t)len - 1]\<close>: the index is an \<open>int\<close>, and minus one when the low byte of the length
  is zero. It then leads to the byte in front of the payload.
\<close>

definition last_byte :: "pbuf \<Rightarrow> u8 result" where
  "last_byte b =
    (let j = int (payload b) + (int (unat (short_len b)) - 1) in
     if j < 0 then Inl Out_of_bounds else rd (storage b) (nat j))"

definition get_tetrada :: "pbuf \<Rightarrow> u8 \<Rightarrow> u8 result" where
  "get_tetrada b n =
    (if n = 0 then Inr 0 else bindr (payload_byte b (unat n - 1)) (\<lambda>x. Inr (drop_bit 4 x AND 0x0F)))"

text \<open>\<open>monitor->last_recv_cmd = c\<close>.\<close>

definition note_command :: "u32 \<Rightarrow> station \<Rightarrow> station result" where
  "note_command c s =
    bindr (monitor_at (monitor (link s)) (link s)) (\<lambda>mo.
      Inr (s\<lparr>link := (link s)\<lparr>monitors :=
        (monitors (link s))(the (monitor (link s)) \<mapsto> mo\<lparr>last_recv_cmd := c\<rparr>)\<rparr>\<rparr>))"

text \<open>
  \<open>tcp_write\<close> refuses a null pointer with \<open>ERR_ARG\<close>, which \<open>parse_msg\<close> ignores, as any other error.
  With the flag \<open>TCP_WRITE_FLAG_COPY\<close> the bytes are copied. \<open>written\<close> is what was passed to \<open>tcp_write\<close>
  for each control block; whether lwIP has room for it makes no difference to this program.
\<close>

definition tcp_write :: "pbuf \<Rightarrow> station \<Rightarrow> station result" where
  "tcp_write b s =
    (case tcp_pcb (link s) of None \<Rightarrow> Inr s
     | Some a \<Rightarrow>
         bindr (pcb_at (Some a) (link s)) (\<lambda>_.
         bindr (read_bytes b 0 (unat (len b))) (\<lambda>bs.
         Inr (s\<lparr>link := (link s)\<lparr>written := written (link s) @ [(a, bs)]\<rparr>\<rparr>))))"

text \<open>Resuming the task of the gain control; it is suspended by \<open>suspend_task\<close>.\<close>

definition resume_task :: "env \<Rightarrow> rtos \<Rightarrow> rtos result" where
  "resume_task e s =
    bindr (vTaskResume (xAutoGainControlTask e)
        (waits_in [xPbufQueueudp e, xPbufQueueforautogaincontrolQueue e, xPbufQueuetcp e]
          (the (xAutoGainControlTask e)) s) (kern s))
      (\<lambda>k. Inr (s\<lparr>kern := k\<rparr>))"

definition set_rt :: "rtos \<Rightarrow> station \<Rightarrow> station" where
  "set_rt k s = s\<lparr>radar_of := (radar_of s)\<lparr>rt := k\<rparr>\<rparr>"

definition automatic_mode :: "env \<Rightarrow> station \<Rightarrow> station result" where
  "automatic_mode e s =
    (let k = rt (radar_of s) in
     bindr (gain_task_state e k) (\<lambda>st.
     if st = eSuspended then bindr (resume_task e k) (\<lambda>k. Inr (set_rt k s)) else Inr s))"

definition manual_mode :: "env \<Rightarrow> station \<Rightarrow> station result" where
  "manual_mode e s =
    (let k = rt (radar_of s) in
     bindr (gain_task_state e k) (\<lambda>st.
     if st \<noteq> eSuspended then bindr (suspend_task (xAutoGainControlTask e) k) (\<lambda>k. Inr (set_rt k s)) else Inr s))"

text \<open>The branch of \<open>CMD_CTRL_AMPL\<close>.\<close>

definition control_amplitude :: "env \<Rightarrow> addr \<Rightarrow> pbuf \<Rightarrow> station \<Rightarrow> station result" where
  "control_amplitude e p b s =
    bindr (tcp_write b s) (\<lambda>s.
    bindr (payload_byte b 0) (\<lambda>x.
    bindr
      (if x = CMD_CTRL_AMPL_AUTO_VALUE then
         bindr (automatic_mode e s) (\<lambda>s.
         bindr (payload_write b 0 [0x7F]) (\<lambda>b.
         send_to_PL b (ucast (short_len b))
           (s\<lparr>radar_of := (radar_of s)\<lparr>mem := put p b (mem (radar_of s))\<rparr>\<rparr>)))
       else if CMD_CTRL_AMPL_MIN_VALUE < x \<and> x < CMD_CTRL_AMPL_MAX_VALUE then
         bindr (manual_mode e s) (\<lambda>s. send_to_PL b (ucast (short_len b)) s)
       else Inr s)
      (note_command CMD_CTRL_AMPL)))"

definition parse_msg :: "env \<Rightarrow> addr option \<Rightarrow> station \<Rightarrow> station result" where
  "parse_msg e p s =
    bindr (cell (mem (radar_of s)) p) (\<lambda>b.
    bindr (last_byte b) (\<lambda>c.
    if short_len b < 6 then
      bindr (get_tetrada b (short_len b)) (\<lambda>t.
      if t = 0x0E then note_command CMD_TOB_VALUE_REQS s
      else if t = 0x0F then note_command CMD_WORKTYPE_REQS s
      else if t = 0x0D then note_command CMD_TOB_POINT s
      else if t = 0x0C then
        (if ucast c = CMD_STOP then note_command CMD_STOP s
         else if ucast c = CMD_START then note_command CMD_START s
         else if ucast c = CMD_WORKTYPE_SET then note_command CMD_WORKTYPE_SET s
         else if ucast c = CMD_CTRL_AMPL then control_amplitude e (the p) b s
         else if ucast c = CMD_SEA_FILTER then note_command CMD_SEA_FILTER s
         else if ucast c = CMD_PREC_FILTER then note_command CMD_PREC_FILTER s
         else if ucast c = CMD_VELOCITY then note_command CMD_VELOCITY s
         else if ucast c = CMD_FREQ_CHGE then note_command CMD_FREQ_CHGE s
         else if ucast c = CMD_TELEMETRY_REQS then note_command CMD_TELEMETRY_REQS s
         else note_command CMD_RESET_FAULTS s)
      else Inr s)
    else note_command CMD_BLANK_SEC s))"

text \<open>One round of the task; waiting is to make no step.\<close>

definition tcp_parse_task :: "env \<Rightarrow> station \<Rightarrow> station run" where
  "tcp_parse_task e s =
    bindl (Some (receive_pointer (xPbufQueuetcp e) (rt (radar_of s)))) (\<lambda>(item, k).
    let s = set_rt k s in
    case item of
      Some (Some p) \<Rightarrow>
        bindl (Some (parse_msg e (Some p) s)) (\<lambda>s.
        bindl (free_pointer (Some p) (mem (radar_of s))) (\<lambda>m.
        ret (s\<lparr>radar_of := (radar_of s)\<lparr>mem := m\<rparr>\<rparr>)))
    | _ \<Rightarrow> ret s)"

section \<open>Short commands\<close>

text \<open>What a message of fewer than six bytes that ends with \<open>c\<close> means.\<close>

definition command_of :: "u8 \<Rightarrow> u32 option" where
  "command_of c =
    (if c div 16 = 0xE then Some CMD_TOB_VALUE_REQS
     else if c div 16 = 0xF then Some CMD_WORKTYPE_REQS
     else if c div 16 = 0xD then Some CMD_TOB_POINT
     else if c div 16 = 0xC then Some (if c \<le> 0xC9 \<and> c \<noteq> 0xC7 then ucast c else CMD_RESET_FAULTS)
     else None)"

lemma all_bytes: "\<forall>n \<in> set [0..<256]. P (of_nat n) \<Longrightarrow> P (c :: u8)"
proof -
  assume a: "\<forall>n \<in> set [0..<256]. P (of_nat n)"
  have "unat c \<in> set [0..<256]" by (simp only: set_upt atLeastLessThan_iff unat_u8_less simp_thms zero_le)
  then have "P (of_nat (unat c))" using a by blast
  then show "P c" by simp
qed

lemma tetrada_div: "drop_bit 4 (x :: u8) AND 0x0F = x div 16"
  by (rule all_bytes) code_simp

lemma command_cases:
  fixes c :: u8
  assumes "c \<noteq> 0xC3"
  shows "command_of c =
    (let t = c div 16 in
      if t = 0x0E then Some CMD_TOB_VALUE_REQS
      else if t = 0x0F then Some CMD_WORKTYPE_REQS
      else if t = 0x0D then Some CMD_TOB_POINT
      else if t = 0x0C then
        Some (if ucast c = CMD_STOP then CMD_STOP
         else if ucast c = CMD_START then CMD_START
         else if ucast c = CMD_WORKTYPE_SET then CMD_WORKTYPE_SET
         else if ucast c = CMD_SEA_FILTER then CMD_SEA_FILTER
         else if ucast c = CMD_PREC_FILTER then CMD_PREC_FILTER
         else if ucast c = CMD_VELOCITY then CMD_VELOCITY
         else if ucast c = CMD_FREQ_CHGE then CMD_FREQ_CHGE
         else if ucast c = CMD_TELEMETRY_REQS then CMD_TELEMETRY_REQS
         else CMD_RESET_FAULTS)
      else None)"
  using assms by (rule rev_mp) (rule all_bytes, code_simp)

lemma command_amplitude: "ucast c = CMD_CTRL_AMPL \<longleftrightarrow> c = (0xC3 :: u8)"
  by (rule all_bytes) code_simp

lemma last_byte_payload: "short_len b \<noteq> 0 \<Longrightarrow> last_byte b = payload_byte b (unat (short_len b) - 1)"
proof -
  assume "short_len b \<noteq> 0"
  then have n: "0 < unat (short_len b)" by (simp add: unat_gt_0)
  then have "int (payload b) + (int (unat (short_len b)) - 1) = int (payload b + (unat (short_len b) - 1))" by simp
  then show ?thesis unfolding last_byte_def Let_def payload_byte_def by (simp only: nat_int) simp
qed

lemma tetrada_last:
  "short_len b \<noteq> 0 \<Longrightarrow> payload_byte b (unat (short_len b) - 1) = Inr c \<Longrightarrow> get_tetrada b (short_len b) = Inr (c div 16)"
  by (simp add: get_tetrada_def tetrada_div)

lemma parse_short:
  assumes "cells (mem (radar_of s)) p = Some b" "short_len b \<noteq> 0" "short_len b < 6"
    and "payload_byte b (unat (short_len b) - 1) = Inr c"
  shows "parse_msg e (Some p) s =
    (if c = 0xC3 then control_amplitude e p b s
     else case command_of c of None \<Rightarrow> Inr s | Some v \<Rightarrow> note_command v s)"
proof -
  have "(0xC3 :: u8) div 16 = 0x0C" by code_simp
  moreover have "ucast (0xC3 :: u8) = CMD_CTRL_AMPL" by code_simp
  moreover have "CMD_CTRL_AMPL \<noteq> CMD_STOP" "CMD_CTRL_AMPL \<noteq> CMD_START" "CMD_CTRL_AMPL \<noteq> CMD_WORKTYPE_SET"
    by (simp_all add: command_codes)
  moreover note assms tetrada_last [OF assms(2,4)] last_byte_payload [OF assms(2)]
  ultimately show ?thesis
    by (cases "c = 0xC3") (simp_all add: parse_msg_def cell_def command_amplitude command_cases Let_def)
qed

section \<open>Properties\<close>

text \<open>
  C31: What a message does depends on the low byte of its length. If it is from one to five, the last
  of these bytes decides, and unless it asks for the amplitude (C3), \<open>parse_msg\<close> notes the code
  \<open>command_of\<close> gives for it and does nothing else: the codes C0 to C9 stand for themselves except C7,
  which like every unknown code from CA to CF resets the faults; D, E and F in the high half stand
  for one request each; anything else is ignored. If the low byte is six or more, a blind sector is
  noted. If it is zero, as for 256 bytes, the parser reads the byte in front of the payload, and
  ignores the message.
\<close>

theorem message_meaning:
  assumes "cells (mem (radar_of s)) p = Some b"
  shows "if short_len b = 0 then
      parse_msg e (Some p) s =
        (if payload b = 0 \<or> length (storage b) < payload b then Inl Out_of_bounds else Inr s)
    else (\<forall>c. payload_byte b (unat (short_len b) - 1) = Inr c \<longrightarrow>
      (if 6 \<le> short_len b then parse_msg e (Some p) s = note_command CMD_BLANK_SEC s
       else c \<noteq> 0xC3 \<longrightarrow>
         parse_msg e (Some p) s = (case command_of c of None \<Rightarrow> Inr s | Some v \<Rightarrow> note_command v s)))"
proof (cases "short_len b = 0")
  case True
  have "last_byte b = (if payload b = 0 then Inl Out_of_bounds else rd (storage b) (payload b - 1))"
    using True by (simp add: last_byte_def Let_def nat_diff_distrib)
  then show ?thesis
    using assms True by (cases "payload b") (auto simp: parse_msg_def cell_def rd_def get_tetrada_def)
next
  case False
  show ?thesis
  proof (simp only: False if_False, intro allI impI)
    fix c assume c: "payload_byte b (unat (short_len b) - 1) = Inr c"
    show "if 6 \<le> short_len b then parse_msg e (Some p) s = note_command CMD_BLANK_SEC s
       else c \<noteq> 0xC3 \<longrightarrow>
         parse_msg e (Some p) s = (case command_of c of None \<Rightarrow> Inr s | Some v \<Rightarrow> note_command v s)"
    proof (cases "6 \<le> short_len b")
      case True
      then have "\<not> short_len b < 6" by simp
      then show ?thesis using True assms c last_byte_payload [OF False] by (simp add: parse_msg_def cell_def)
    next
      case small: False
      then have lt: "short_len b < 6" by simp
      show ?thesis using small parse_short [OF assms False lt c, of e] by simp
    qed
  qed
qed

text \<open>A packet with five bytes in front of the payload, and a station that has received it.\<close>

definition command_packet :: "u8 list \<Rightarrow> pbuf" where
  "command_packet bs = \<lparr>next_pbuf = None, storage = replicate 5 0 @ bs, payload = 5, tot_len = of_nat (length bs),
     len = of_nat (length bs), type_internal = 0x82, flags = 0, ref = 1, if_idx = 0\<rparr>"

definition command_radar :: "u8 list \<Rightarrow> rtos \<Rightarrow> radar" where
  "command_radar bs k = \<lparr>mem = \<lparr>cells = [1 \<mapsto> command_packet bs], pool_free = [], refs_free = []\<rparr>, rt = k,
     old_pbuf = None, counter_of_packets = 1, gain = initial_agc, udp_woken = False, tcp_woken = False,
     ulPortYieldRequired = False\<rparr>"

definition command_station :: "u8 list \<Rightarrow> rtos \<Rightarrow> station" where
  "command_station bs k = \<lparr>radar_of = command_radar bs k,
     link = no_connection\<lparr>monitors := [0x200 \<mapsto> first_report 0x100 0], monitor := Some 0x200\<rparr>\<rparr>"

theorem message_meaning_witness:
  "\<forall>e k. \<exists>s'. parse_msg e (Some 1) (command_station [0x05, 0xC7] k) = Inr s' \<and>
    map_option last_recv_cmd (monitors (link s') 0x200) = Some CMD_RESET_FAULTS"
proof (intro allI)
  fix e k
  let ?b = "command_packet [0x05, 0xC7]"
  have "cells (mem (radar_of (command_station [0x05, 0xC7] k))) 1 = Some ?b"
    by (simp add: command_station_def command_radar_def)
  note table = message_meaning [OF this, of e]
  have "short_len ?b = 2" "payload_byte ?b 1 = Inr 0xC7" "command_of 0xC7 = Some CMD_RESET_FAULTS" by code_simp+
  then have "parse_msg e (Some 1) (command_station [0x05, 0xC7] k) = note_command CMD_RESET_FAULTS (command_station [0x05, 0xC7] k)"
    using table by simp
  then show "\<exists>s'. parse_msg e (Some 1) (command_station [0x05, 0xC7] k) = Inr s' \<and>
      map_option last_recv_cmd (monitors (link s') 0x200) = Some CMD_RESET_FAULTS"
    by (simp add: note_command_def monitor_at_def command_station_def no_connection_def)
qed

text \<open>
  A command changes the monitors only in the code noted last, to one of \<open>C\<close>; only the command that
  sets the amplitude passes anything to \<open>tcp_write\<close>, one message for the current control block.
\<close>

definition noted_in :: "u32 set \<Rightarrow> connection \<Rightarrow> connection \<Rightarrow> bool" where
  "noted_in C l l' \<longleftrightarrow> pcbs l' = pcbs l \<and> tcp_pcb l' = tcp_pcb l \<and> monitor l' = monitor l \<and>
    stat_tcp_con l' = stat_tcp_con l \<and> try_reconnect l' = try_reconnect l \<and>
    (monitors l' = monitors l \<and> written l' = written l \<or>
     (\<exists>a mo c. monitor l = Some a \<and> monitors l a = Some mo \<and> c \<in> C \<and>
       monitors l' = (monitors l)(a \<mapsto> mo\<lparr>last_recv_cmd := c\<rparr>) \<and>
       (written l' = written l \<or>
        c = CMD_CTRL_AMPL \<and> (\<exists>pcb bs. tcp_pcb l = Some pcb \<and> written l' = written l @ [(pcb, bs)]))))"

lemma note_command_noted:
  "note_command c s = Inr s' \<Longrightarrow> noted_in {c} (link s) (link s') \<and> radar_of s' = radar_of s \<and>
    written (link s') = written (link s)"
  by (auto simp: note_command_def noted_in_def monitor_at_def split: option.splits)

lemma tcp_write_noted:
  "tcp_write b s = Inr s' \<Longrightarrow> radar_of s' = radar_of s \<and> (link s' = link s \<or>
    (\<exists>a bs. tcp_pcb (link s) = Some a \<and> link s' = (link s)\<lparr>written := written (link s) @ [(a, bs)]\<rparr>))"
  by (auto simp: tcp_write_def split: option.splits)

lemma send_to_PL_link: "send_to_PL b n s = Inr s' \<Longrightarrow> link s' = link s"
  by (auto simp: send_to_PL_def emit_def)

lemma modes_link:
  "automatic_mode e s = Inr s' \<Longrightarrow> link s' = link s" "manual_mode e s = Inr s' \<Longrightarrow> link s' = link s"
  by (auto simp: automatic_mode_def manual_mode_def set_rt_def Let_def split: if_splits)

lemma noted_in_link:
  assumes "note_command CMD_CTRL_AMPL s = Inr s'"
    and "link s = l \<or> (\<exists>a bs. tcp_pcb l = Some a \<and> link s = l\<lparr>written := written l @ [(a, bs)]\<rparr>)"
  shows "noted_in {CMD_CTRL_AMPL} l (link s')"
  using assms by (auto simp: note_command_def noted_in_def monitor_at_def split: option.splits)

lemma control_amplitude_noted:
  assumes "control_amplitude e p b s = Inr s'"
  shows "noted_in {CMD_CTRL_AMPL} (link s) (link s')"
proof -
  obtain s1 s2 x where s1: "tcp_write b s = Inr s1" and s2: "(if x = CMD_CTRL_AMPL_AUTO_VALUE then
         bindr (automatic_mode e s1) (\<lambda>s. bindr (payload_write b 0 [0x7F]) (\<lambda>b.
         send_to_PL b (ucast (short_len b)) (s\<lparr>radar_of := (radar_of s)\<lparr>mem := put p b (mem (radar_of s))\<rparr>\<rparr>)))
       else if CMD_CTRL_AMPL_MIN_VALUE < x \<and> x < CMD_CTRL_AMPL_MAX_VALUE then
         bindr (manual_mode e s1) (\<lambda>s. send_to_PL b (ucast (short_len b)) s)
       else Inr s1) = Inr s2" and s': "note_command CMD_CTRL_AMPL s2 = Inr s'"
    using assms unfolding control_amplitude_def bindr_eq_Inr by blast
  have "link s2 = link s1"
    using s2 by (auto split: if_splits dest!: send_to_PL_link modes_link)
  then show ?thesis using tcp_write_noted [OF s1] noted_in_link [OF s'] by simp
qed

lemma parse_outcomes:
  assumes "parse_msg e p s = Inr s'"
  shows "s' = s \<or> (\<exists>c \<in> set cmd_pull. note_command c s = Inr s') \<or>
    (\<exists>a b. p = Some a \<and> cells (mem (radar_of s)) a = Some b \<and> control_amplitude e a b s = Inr s')"
proof -
  have pull: "note_command c s = Inr s' \<Longrightarrow> c \<in> set cmd_pull \<Longrightarrow> ?thesis" for c by blast
  obtain b c where b: "cell (mem (radar_of s)) p = Inr b" "last_byte b = Inr c"
    using assms unfolding parse_msg_def bindr_eq_Inr by blast
  obtain a where a: "p = Some a" "cells (mem (radar_of s)) a = Some b"
    using b(1) by (auto simp: cell_def split: option.splits)
  show ?thesis
  proof (cases "short_len b < 6")
    case False
    then show ?thesis using assms b pull [of CMD_BLANK_SEC] by (simp add: parse_msg_def cmd_pull_def)
  next
    case True
    then obtain t where "get_tetrada b (short_len b) = Inr t"
      using assms b unfolding parse_msg_def by (auto split: if_splits)
    then show ?thesis using assms b True a unfolding parse_msg_def
      by (simp only: bindr.simps if_True option.sel split: if_splits) (auto simp: cmd_pull_def)
  qed
qed

end
