(* ===== verification/Fusion_Maximum.thy ===== *)
theory Fusion_Maximum
  imports Udp_Fusion
begin

text \<open>
  What \<open>udp_parse_task\<close> computes: in the part of each fragment that \<open>predel_na_shag\<close> delimits, every
  sample of the first packet becomes the larger of itself and the sample at the same place of the packet
  fused into it, and nothing else changes.
\<close>

section \<open>One sample\<close>

lemma be16_less:
  "be16 a b < be16 c d \<longleftrightarrow> a < c \<or> a = c \<and> b < d"
proof -
  have v: "unat (be16 x y) = unat x * 256 + unat y" for x y
  proof -
    have "unat x * 256 + unat y < 65536" using unat_u8_less [of x] unat_u8_less [of y] by linarith
    then show ?thesis unfolding be16_arith [symmetric] by (simp add: unat_word_ariths)
  qed
  have "unat a \<le> 255" "unat b \<le> 255" "unat c \<le> 255" "unat d \<le> 255" by simp_all
  then show ?thesis unfolding word_less_nat_alt v word_unat_eq_iff by linarith
qed

definition in_block :: "pbuf \<Rightarrow> nat \<Rightarrow> bool" where
  "in_block b j \<longleftrightarrow> payload b + j + 2 \<le> length (storage b)"

definition merge_at :: "pbuf \<Rightarrow> nat \<Rightarrow> nat \<Rightarrow> pbuf \<Rightarrow> pbuf" where
  "merge_at q k j r =
    (if sample_at r k j < sample_at q k j then
       r\<lparr>storage := (storage r)[payload r + (k + j * 2) := storage q ! (payload q + (k + j * 2)),
           payload r + (k + (j * 2 + 1)) := storage q ! (payload q + (k + (j * 2 + 1)))]\<rparr>
     else r)"

lemma payload_write_one:
  "payload b + i < length (storage b) \<Longrightarrow>
    payload_write b i [v] = Inr (b\<lparr>storage := (storage b)[payload b + i := v]\<rparr>)"
  by (simp add: payload_write_def upd_conv_take_nth_drop)

lemma fuse_one:
  assumes "in_block q (k + j * 2)" and "in_block r (k + j * 2)"
  shows "fuse_samples q k (j * 2 # is) r = fuse_samples q k is (merge_at q k j r)"
proof -
  let ?i = "k + j * 2"
  have b: "payload q + ?i < length (storage q)" "payload q + (?i + 1) < length (storage q)"
    "payload r + ?i < length (storage r)" "payload r + (?i + 1) < length (storage r)"
    using assms by (simp_all add: in_block_def)
  have e: "sample_exceeds q r ?i = Inr (sample_at r k j < sample_at q k j)"
    using b by (auto simp: sample_exceeds_def payload_byte_def sample_at_def be16_less add.assoc)
  show ?thesis
    using b by (auto simp: e merge_at_def payload_byte_def payload_write_one add.assoc)
qed

lemma merge_shape:
  "length (storage (merge_at q k j r)) = length (storage r)" "payload (merge_at q k j r) = payload r"
  "\<exists>st. merge_at q k j r = r\<lparr>storage := st\<rparr>"
proof -
  show "\<exists>st. merge_at q k j r = r\<lparr>storage := st\<rparr>"
    by (rule exI [of _ "storage (merge_at q k j r)"]) (simp add: merge_at_def)
qed (simp_all add: merge_at_def)

lemma sample_merge:
  assumes "in_block r (k + j * 2)"
  shows "sample_at (merge_at q k j r) k i = (if i = j then max (sample_at q k j) (sample_at r k j) else sample_at r k i)"
proof -
  have "payload r + (k + (j * 2 + 1)) < length (storage r)" using assms by (simp add: in_block_def)
  moreover have "i * 2 \<noteq> j * 2 + 1" "i * 2 + 1 \<noteq> j * 2" by presburger+
  ultimately show ?thesis by (auto simp: merge_at_def sample_at_def max_def nth_list_update)
qed

lemma merge_elsewhere:
  "x < payload r + (k + j * 2) \<or> payload r + (k + j * 2) + 2 \<le> x \<Longrightarrow> storage (merge_at q k j r) ! x = storage r ! x"
  by (auto simp: merge_at_def)

section \<open>One block\<close>

text \<open>\<open>n\<close> samples from the byte \<open>k\<close> of the payload on have been fused.\<close>

definition fused :: "nat \<Rightarrow> nat \<Rightarrow> pbuf \<Rightarrow> pbuf \<Rightarrow> pbuf \<Rightarrow> bool" where
  "fused k n q r r' \<longleftrightarrow> (\<exists>st. r' = r\<lparr>storage := st\<rparr> \<and> length st = length (storage r)) \<and>
    (\<forall>j < n. sample_at r' k j = max (sample_at q k j) (sample_at r k j)) \<and>
    (\<forall>x. x < payload r + k \<or> payload r + k + 2 * n \<le> x \<longrightarrow> storage r' ! x = storage r ! x)"

lemma fused_refl: "fused k 0 q r r"
  by (auto simp: fused_def intro: exI [of _ "storage r"])

lemma fuse_samples_fused:
  assumes "\<forall>j < n. in_block q (k + j * 2) \<and> in_block r (k + j * 2)"
  shows "\<exists>r'. fuse_samples q k (map (\<lambda>j. 2 * j) [0..<n] @ is) r = fuse_samples q k is r' \<and> fused k n q r r'"
  using assms
proof (induction n arbitrary: "is")
  case 0
  then show ?case using fused_refl by auto
next
  case (Suc n)
  have "\<forall>j < n. in_block q (k + j * 2) \<and> in_block r (k + j * 2)" using Suc.prems by simp
  from Suc.IH [OF this, of "n * 2 # is"] obtain r1 where r1:
    "fuse_samples q k (map (\<lambda>j. 2 * j) [0..<n] @ n * 2 # is) r = fuse_samples q k (n * 2 # is) r1"
    "fused k n q r r1" by blast
  obtain st where st: "r1 = r\<lparr>storage := st\<rparr>" "length st = length (storage r)" using r1(2) by (auto simp: fused_def)
  have b: "in_block q (k + n * 2)" "in_block r1 (k + n * 2)" using Suc.prems st by (simp_all add: in_block_def)
  have "\<forall>j < n. sample_at r1 k j = max (sample_at q k j) (sample_at r k j)"
    "\<forall>x. x < payload r + k \<or> payload r + k + 2 * n \<le> x \<longrightarrow> st ! x = storage r ! x"
    using r1(2) st(1) by (simp_all add: fused_def)
  moreover from this(2) have "sample_at r1 k n = sample_at r k n" by (simp add: sample_at_def st(1))
  ultimately have "\<forall>j < Suc n. sample_at (merge_at q k n r1) k j = max (sample_at q k j) (sample_at r k j)"
    "\<forall>x. x < payload r + k \<or> payload r + k + 2 * Suc n \<le> x \<longrightarrow> storage (merge_at q k n r1) ! x = storage r ! x"
    using sample_merge [OF b(2), of q] merge_elsewhere [of _ r1 k n q] st(1) by (auto simp: less_Suc_eq)
  moreover obtain st' where "merge_at q k n r1 = r1\<lparr>storage := st'\<rparr>" using merge_shape(3) by blast
  moreover have "length (storage (merge_at q k n r1)) = length (storage r)" using st by (simp add: merge_shape)
  ultimately have "fused k (Suc n) q r (merge_at q k n r1)" using st(1) by (auto simp: fused_def)
  then show ?case using r1(1) fuse_one [OF b, of "is"] by (auto simp: mult.commute)
qed

section \<open>A whole packet\<close>

text \<open>\<open>predel_na_shag\<close> of the \<open>i\<close>-th block, and the number of its samples compared.\<close>

fun share :: "u32 \<Rightarrow> nat \<Rightarrow> u32" where
  "share total_len 0 = snd (segment_share total_len)"
| "share total_len (Suc i) = share (fst (segment_share total_len)) i"

definition pairs :: "u32 \<Rightarrow> nat" where
  "pairs n = (unat n + 1) div 2"

lemma share_le: "share t i \<le> 1480"
proof (induction i arbitrary: t)
  case 0
  have "unat (t mod 1480) < 1480" by (simp add: unat_mod)
  then show ?case by (simp add: segment_share_def word_le_nat_alt)
next
  case (Suc i)
  then show ?case by simp
qed

lemma pairs_le: "pairs (share t i) \<le> 740"
  using share_le [of t i] by (simp add: pairs_def word_le_nat_alt)

text \<open>
  In closed form: 1480 bytes of a fragment as long as more than 1480 are left, then the remainder
  of the length of the packet, which is 0 if it is a multiple of 1480.
\<close>

lemma share_bytes: "unat (share n i) = (if 1480 * (i + 1) < unat n then 1480 else unat n mod 1480)"
proof (induction i arbitrary: n)
  case 0
  then show ?case by (simp add: segment_share_def word_less_nat_alt unat_mod)
next
  case (Suc i)
  show ?case
  proof (cases "1480 < n")
    case True
    then have n: "1480 < unat n" by (simp add: word_less_nat_alt)
    then have "unat (n - 1480) = unat n - 1480" by (simp add: unat_sub word_le_nat_alt)
    moreover have "(unat n - 1480) mod 1480 = unat n mod 1480" using n by (simp add: le_mod_geq)
    moreover have "1480 * (i + 1) < unat n - 1480 \<longleftrightarrow> 1480 * (Suc i + 1) < unat n" using n by auto
    ultimately show ?thesis using Suc.IH [of "n - 1480"] True by (simp add: segment_share_def)
  next
    case False
    then have "\<not> 1480 * (i + 1) < unat n" "\<not> 1480 * (Suc i + 1) < unat n" by (simp_all add: word_less_nat_alt)
    then show ?thesis using Suc.IH [of n] False by (simp add: segment_share_def)
  qed
qed

definition samples_fused :: "nat \<Rightarrow> nat \<Rightarrow> nat" where
  "samples_fused n i = (if 1480 * (i + 1) < n then 740 else (n mod 1480 + 1) div 2)"

lemma pairs_share: "pairs (share n i) = samples_fused (unat n) i"
  by (simp add: pairs_def share_bytes samples_fused_def)

text \<open>There is storage for 32 bytes of header and 1480 of samples behind \<open>payload\<close>.\<close>

definition roomy :: "pbuf \<Rightarrow> bool" where
  "roomy b \<longleftrightarrow> payload b + 1512 \<le> length (storage b)"

lemma roomy_block: "roomy b \<Longrightarrow> k \<le> 32 \<Longrightarrow> j < 740 \<Longrightarrow> in_block b (k + j * 2)"
  by (simp add: roomy_def in_block_def)

lemma fuse_segment_fused:
  assumes "roomy b" and "cells m x = Some c" and "roomy c" and "k \<le> 32" and "unat n \<le> 1480"
  shows "\<exists>c'. fuse_segment b k n (Some x) m = Inr (m\<lparr>cells := (cells m)(x \<mapsto> c')\<rparr>) \<and> fused k (pairs n) b c c'"
proof (cases "n = 0")
  case True
  then have "fuse_segment b k n (Some x) m = Inr (m\<lparr>cells := (cells m)(x \<mapsto> c)\<rparr>)"
    using assms(2) by (simp add: fuse_segment_def fun_upd_idem)
  then show ?thesis using True fused_refl by (auto simp: pairs_def)
next
  case False
  have "\<forall>j < pairs n. in_block b (k + j * 2) \<and> in_block c (k + j * 2)"
    using roomy_block assms by (auto simp: pairs_def)
  from fuse_samples_fused [OF this, of "[]"] obtain c' where
    "fuse_samples b k (even_offsets n) c = Inr c'" "fused k (pairs n) b c c'"
    by (auto simp: even_offsets_def pairs_def)
  then show ?thesis using False assms(2) by (auto simp: fuse_segment_def cell_def put_def)
qed

text \<open>The memory after fusing the blocks \<open>as\<close> into the blocks \<open>os\<close>.\<close>

definition packet_fused :: "u32 \<Rightarrow> nat \<Rightarrow> addr list \<Rightarrow> addr list \<Rightarrow> pmem \<Rightarrow> pmem \<Rightarrow> bool" where
  "packet_fused total_len kursor as os m m' \<longleftrightarrow>
    (\<forall>i < length as. fused (if i = 0 then kursor else 0) (pairs (share total_len i))
       (the (cells m (as ! i))) (the (cells m (os ! i))) (the (cells m' (os ! i)))) \<and>
    (\<forall>x. x \<notin> set (take (length as) os) \<longrightarrow> cells m' x = cells m x) \<and>
    dom (cells m') = dom (cells m) \<and> pool_free m' = pool_free m \<and> refs_free m' = refs_free m"

lemma all_less_Suc_split: "(\<forall>i < Suc n. P i) \<longleftrightarrow> P 0 \<and> (\<forall>i < n. P (Suc i))"
  using All_less_Suc2 [of n P] by simp

lemma fusion_loop_fused:
  "chain (cells m) q as \<Longrightarrow> chain (cells m) r os \<Longrightarrow> set as \<inter> set os = {} \<Longrightarrow> length as \<le> length os \<Longrightarrow> k \<le> 32 \<Longrightarrow>
    \<forall>x \<in> set as \<union> set os. \<forall>b. cells m x = Some b \<longrightarrow> roomy b \<Longrightarrow>
    runs (fusion_loop q r t k m) (packet_fused t k as os m)"
proof (induction as arbitrary: q r os t k m)
  case Nil
  then show ?case by (subst fusion_loop.simps) (simp add: packet_fused_def)
next
  case (Cons a as)
  obtain b where b: "q = Some a" "cells m a = Some b" "chain (cells m) (next_pbuf b) as"
    using Cons.prems(1) by (auto split: option.splits)
  obtain x xs where xs: "os = x # xs" using Cons.prems(4) by (cases os) auto
  obtain c where c: "r = Some x" "cells m x = Some c" "chain (cells m) (next_pbuf c) xs"
    using Cons.prems(2) xs by (auto split: option.splits)
  have ne: "a \<noteq> x" "x \<notin> set as" "x \<notin> set xs" using Cons.prems(3) chain_distinct [OF Cons.prems(2)] xs by auto
  let ?n = "snd (segment_share t)" and ?t = "fst (segment_share t)"
  have "unat ?n \<le> 1480" using share_le [of t 0] by (simp add: word_le_nat_alt)
  then obtain c' where c': "fuse_segment b k ?n (Some x) m = Inr (m\<lparr>cells := (cells m)(x \<mapsto> c')\<rparr>)"
    "fused k (pairs ?n) b c c'"
    using fuse_segment_fused [of b m x c k ?n] Cons.prems(5,6) b(2) c(2) xs by auto
  let ?m = "m\<lparr>cells := (cells m)(x \<mapsto> c')\<rparr>"
  obtain st where st: "c' = c\<lparr>storage := st\<rparr>" "length st = length (storage c)" using c'(2) by (auto simp: fused_def)
  have ch: "chain (cells ?m) (next_pbuf b) as" "chain (cells ?m) (next_pbuf c) xs"
    using b(3) c(3) ne by (simp_all add: chain_fun_upd)
  have "runs (fusion_loop (next_pbuf b) (next_pbuf c) ?t 0 ?m) (packet_fused ?t 0 as xs ?m)"
    by (rule Cons.IH [OF ch]) (use Cons.prems(3,4,6) xs ne in auto)
  moreover have "packet_fused t k (a # as) os m m'" if p: "packet_fused ?t 0 as xs ?m m'" for m'
  proof -
    have same: "cells ?m (as ! i) = cells m (as ! i) \<and> cells ?m (xs ! i) = cells m (xs ! i)" if "i < length as" for i
      using that ne nth_mem [of i as] nth_mem [of i xs] Cons.prems(4) xs by auto
    have "cells m' x = Some c'" using p ne(3) by (auto simp: packet_fused_def dest: in_set_takeD)
    moreover have "\<forall>i < length as. fused 0 (pairs (share ?t i)) (the (cells m (as ! i))) (the (cells m (xs ! i)))
        (the (cells m' (xs ! i)))"
      using p same unfolding packet_fused_def by simp
    ultimately show ?thesis
      using p c'(2) b(2) c(2) xs by (auto simp: packet_fused_def all_less_Suc_split insert_absorb domI)
  qed
  ultimately have "runs (fusion_loop (next_pbuf b) (next_pbuf c) ?t 0 ?m) (packet_fused t k (a # as) os m)"
    using runs_mono by blast
  then show ?case using b(1,2) c'(1) c(1) st(1)
    by (subst fusion_loop.simps) (simp add: cell_def)
qed

section \<open>Ownership\<close>

text \<open>Changing the contents of buffers does not change who owns them.\<close>

definition shape :: "pbuf \<Rightarrow> addr option \<times> u8 \<times> bool" where
  "shape b = (next_pbuf b, ref b, poolable b)"

lemma shape_iff: "map_option shape x = map_option shape y \<longleftrightarrow>
    (x = None \<longleftrightarrow> y = None) \<and> (\<forall>b c. x = Some b \<longrightarrow> y = Some c \<longrightarrow> shape b = shape c)"
  by (cases x; cases y) auto

lemma owned_same_shape:
  assumes "owned m M" and same: "\<And>a. map_option shape (cells m' a) = map_option shape (cells m a)"
  shows "owned m' M"
proof -
  have "cells m' a = None \<longleftrightarrow> cells m a = None" for a using same [of a] by (simp add: shape_iff)
  then have d: "dom (cells m') = dom (cells m)" by (simp add: dom_def)
  have s: "\<exists>c. cells m a = Some c \<and> shape c = shape b" if "cells m' a = Some b" for a b
    using same [of a] that by (cases "cells m a") auto
  have s': "\<exists>c. cells m' a = Some c \<and> shape c = shape b" if "cells m a = Some b" for a b
    using same [of a] that by (cases "cells m' a") auto
  have p: "preds m' a = preds m a" for a
    unfolding preds_def using s s' by (fastforce simp: shape_def)
  show ?thesis unfolding owned_def
  proof (intro conjI allI impI)
    show "finite (dom (cells m'))" using assms(1) d by (simp add: owned_def)
    fix a
    show "counted m' M a b" if m': "cells m' a = Some b" for b
    proof -
      obtain c where c: "cells m a = Some c" "shape c = shape b" using s [OF m'] by blast
      then have "ref b = ref c" "poolable b = poolable c" by (simp_all add: shape_def)
      with owned_cell [OF assms(1) c(1)] show ?thesis unfolding counted_def p by metis
    qed
    show "cells m' a \<noteq> None" if "a \<in># M \<or> preds m' a \<noteq> {}"
      using assms(1) that d unfolding owned_def p by blast
  qed
qed

lemma fused_shape: "fused k n q r r' \<Longrightarrow> shape r' = shape r"
  by (auto simp: fused_def shape_def)

lemma packet_fused_shape:
  assumes "packet_fused t k as os m m'" and "length as \<le> length os" and "\<forall>x \<in> set os. cells m x \<noteq> None"
  shows "map_option shape (cells m' a) = map_option shape (cells m a)"
proof (cases "a \<in> set (take (length as) os)")
  case True
  then obtain i where i: "i < length as" "a = os ! i" using assms(2) by (auto simp: in_set_conv_nth)
  then have "cells m a \<noteq> None" using assms(2,3) by auto
  moreover from this have "cells m' a \<noteq> None" using assms(1) by (auto simp: packet_fused_def)
  moreover have "shape (the (cells m' a)) = shape (the (cells m a))"
    using assms(1) i fused_shape unfolding packet_fused_def by blast
  ultimately show ?thesis by auto
next
  case False
  then show ?thesis using assms(1) by (simp add: packet_fused_def)
qed

lemma chain_cells: "chain h p xs \<Longrightarrow> \<forall>x \<in> set xs. h x \<noteq> None"
  by (induction h p xs rule: chain.induct) (auto split: option.splits)

lemma chain_shape:
  "chain (cells m) p xs \<Longrightarrow> (\<And>a. map_option shape (cells m' a) = map_option shape (cells m a)) \<Longrightarrow> chain (cells m') p xs"
proof (induction "cells m" p xs rule: chain.induct)
  case (2 p a as)
  then obtain b where b: "p = Some a" "cells m a = Some b" "chain (cells m) (next_pbuf b) as"
    by (auto split: option.splits)
  obtain c where "cells m' a = Some c" "next_pbuf c = next_pbuf b"
    using 2(3) [of a] b(2) by (auto simp: shape_def)
  then show ?case using 2(1) [OF b(2)] 2(3) b by simp
qed simp

text \<open>A chain that is still owned survives the release of other buffers.\<close>

lemma chain_survives:
  "chain (cells m) (Some x) xs \<Longrightarrow> owned m' M \<Longrightarrow> only_released m m' \<Longrightarrow> cells m' x \<noteq> None \<Longrightarrow>
    chain (cells m') (Some x) xs \<and> (\<forall>y \<in> set xs. storage (the (cells m' y)) = storage (the (cells m y)) \<and>
      payload (the (cells m' y)) = payload (the (cells m y)))"
proof (induction xs arbitrary: x)
  case (Cons y ys)
  obtain b where b: "x = y" "cells m y = Some b" "chain (cells m) (next_pbuf b) ys"
    using Cons.prems(1) by (auto split: option.splits)
  obtain b' where b': "cells m' y = Some b'" using Cons.prems(4) b(1) by auto
  obtain r where r: "b' = b\<lparr>ref := r\<rparr>" using Cons.prems(3) b' b(2) unfolding only_released_def by fastforce
  show ?case
  proof (cases "next_pbuf b")
    case None
    then show ?thesis using b b' r by simp
  next
    case (Some z)
    then have "cells m' z \<noteq> None" using owned_next [OF Cons.prems(2) b'] r by auto
    then show ?thesis using Cons.IH [of z] Cons.prems(2,3) b b' r Some by simp
  qed
qed simp

section \<open>Property\<close>

abbreviation block :: "radar \<Rightarrow> addr \<Rightarrow> pbuf" where
  "block s a \<equiv> the (cells (mem s) a)"

text \<open>
  C7: fusing the packet \<open>p\<close> into the first packet \<open>x\<close>. The samples start at byte 32 of the first block and
  at byte 0 of the others; in block \<open>i\<close> the first 740 of them are fused if more than 1480 bytes of the
  total length are left after it, and otherwise those in the remainder of the total length by 1480 (so
  none in the last block if it is a multiple of 1480). There every sample of \<open>x\<close> becomes the larger of the
  two, compared as 16-bit numbers, whatever the packets contain; all other bytes of the blocks of \<open>x\<close> stay.
  Fusing ends without a fault, gives up exactly the pointer to \<open>p\<close>, and leaves the chain of \<open>x\<close> as it was.
  This holds if the two packets share no block, \<open>x\<close> has at least as many blocks as \<open>p\<close>, every block
  has storage for 1512 bytes, and the reference counts are exact.
\<close>

theorem fuse_packet_maximum:
  assumes "owned (mem s) (add_mset p (add_mset x M))" and "old_pbuf s = Some x"
    and "chain (cells (mem s)) (Some p) as" and "chain (cells (mem s)) (Some x) os"
    and "set as \<inter> set os = {}" and "length as \<le> length os"
    and "\<forall>a \<in> set as \<union> set os. roomy (block s a)"
  shows "\<exists>s'. fuse_packet p s = ret s' \<and> owned (mem s') (add_mset x M) \<and> chain (cells (mem s')) (Some x) os \<and>
    (\<forall>i < length as.
      let k = if i = 0 then 32 else 0; n = samples_fused (unat (tot_len (block s p))) i;
        q = block s (as ! i); r = block s (os ! i); r' = block s' (os ! i) in
      (\<forall>j < n. sample_at r' k j = max (sample_at q k j) (sample_at r k j)) \<and>
      (\<forall>y. y < payload r + k \<or> payload r + k + 2 * n \<le> y \<longrightarrow> storage r' ! y = storage r ! y)) \<and>
    (\<forall>y \<in> set (drop (length as) os). storage (block s' y) = storage (block s y))"
proof -
  let ?t = "ucast (tot_len (block s p)) :: u32"
  have len: "unat ?t = unat (tot_len (block s p))" by (simp add: unsigned_ucast_eq take_bit_eq_mod)
  obtain b where b: "cells (mem s) p = Some b" using owned_live [OF assms(1), of p] by auto
  have room: "\<forall>a \<in> set as \<union> set os. \<forall>b. cells (mem s) a = Some b \<longrightarrow> roomy b"
    using assms(7) by (metis option.sel)
  obtain m1 where m1: "fusion_loop (Some p) (Some x) ?t 32 (mem s) = ret m1" "packet_fused ?t 32 as os (mem s) m1"
    using fusion_loop_fused [OF assms(3-6) _ room, of 32 ?t] by (auto simp: runs_def)
  note sh = packet_fused_shape [OF m1(2) assms(6) chain_cells [OF assms(4)]]
  have own1: "owned m1 (add_mset p (add_mset x M))" by (rule owned_same_shape [OF assms(1) sh])
  obtain n m2 where m2: "pbuf_free (\<lambda>_ m. Inr m) (Some p) m1 = ret (n, m2)" "owned m2 (add_mset x M)" "only_released m1 m2"
    using pbuf_free_runs [OF own1, of "\<lambda>_ m. Inr m"] by (auto simp: runs_def freed_def)
  have "cells m2 x \<noteq> None" using owned_live [OF m2(2), of x] by auto
  from chain_survives [OF chain_shape [OF assms(4) sh] m2(2,3) this]
  have ch: "chain (cells m2) (Some x) os" and st: "\<forall>y \<in> set os. storage (the (cells m2 y)) = storage (the (cells m1 y)) \<and>
      payload (the (cells m2 y)) = payload (the (cells m1 y))" by blast+
  have run: "fuse_packet p s = ret (s\<lparr>mem := m2\<rparr>)"
    using b m1(1) m2(1) assms(2) by (simp add: fuse_packet_def cell_def free_pointer_def)
  have blocks: "fused (if i = 0 then 32 else 0) (samples_fused (unat (tot_len (block s p))) i) (block s (as ! i))
      (block s (os ! i)) (the (cells m1 (os ! i)))" if "i < length as" for i
    using m1(2) that unfolding packet_fused_def pairs_share len by blast
  have at: "sample_at (the (cells m2 (os ! i))) k j = sample_at (the (cells m1 (os ! i))) k j"
    "storage (the (cells m2 (os ! i))) = storage (the (cells m1 (os ! i)))" if "i < length as" for i j k
    using st that assms(6) by (simp_all add: sample_at_def)
  have "distinct os" by (rule chain_distinct [OF assms(4)])
  then have out: "y \<notin> set (take (length as) os)" if "y \<in> set (drop (length as) os)" for y
    using that set_take_disj_set_drop_if_distinct [of os "length as" "length as"] by blast
  have rest: "storage (the (cells m2 y)) = storage (block s y)" if y: "y \<in> set (drop (length as) os)" for y
  proof -
    have "cells m1 y = cells (mem s) y" using out [OF y] m1(2) unfolding packet_fused_def by blast
    then show ?thesis using st in_set_dropD [OF y] by simp
  qed
  show ?thesis
    by (intro exI [of _ "s\<lparr>mem := m2\<rparr>"] conjI)
      (use run m2(2) ch blocks at rest in \<open>simp_all add: fused_def Let_def\<close>)
qed

text \<open>Two packets of one block; the first sample of the packet 1 is the larger one.\<close>

definition sample_packet :: "u8 \<Rightarrow> pbuf" where
  "sample_packet v = pbuf_init_alloced_pbuf ((replicate 1512 0)[32 := 1, 33 := v]) 0 34 34 PBUF_POOL 0"

definition sample_radar :: radar where
  "sample_radar = \<lparr>mem = \<lparr>cells = [1 \<mapsto> sample_packet 5, 2 \<mapsto> sample_packet 3], pool_free = [], refs_free = []\<rparr>,
     rt = sample_rtos, old_pbuf = Some 2, counter_of_packets = 2, gain = initial_agc, udp_woken = False,
     tcp_woken = False, ulPortYieldRequired = False\<rparr>"

lemma sample_packet_fields [simp]:
  "next_pbuf (sample_packet v) = None" "ref (sample_packet v) = 1" "poolable (sample_packet v)"
  "roomy (sample_packet v)" "tot_len (sample_packet v) = 34" "payload (sample_packet v) = 0"
  "storage (sample_packet v) = (replicate 1512 0)[32 := 1, 33 := v]"
  by (simp_all add: sample_packet_def pbuf_init_alloced_pbuf_def poolable_def pbuf_get_allocsrc_def roomy_def)

lemma sample_radar_cells [simp]:
  "cells (mem sample_radar) = [1 \<mapsto> sample_packet 5, 2 \<mapsto> sample_packet 3]"
  by (simp add: sample_radar_def)

lemma sample_radar_owned: "owned (mem sample_radar) {#1, 2#}"
proof -
  have "preds (mem sample_radar) a = {}" for a by (auto simp: preds_def split: if_splits)
  then show ?thesis by (auto simp: owned_def counted_def split: if_splits)
qed

theorem fuse_packet_maximum_witness:
  "\<exists>s'. fuse_packet 1 sample_radar = ret s' \<and> owned (mem s') {#2#} \<and> sample_at (block s' 2) 32 0 = 0x105"
proof -
  have old: "old_pbuf sample_radar = Some 2" by (simp add: sample_radar_def)
  have "0 < samples_fused (unat (tot_len (block sample_radar 1))) 0" by (simp add: samples_fused_def)
  moreover have "sample_at (sample_packet 5) 32 0 = 0x105" "sample_at (sample_packet 3) 32 0 = 0x103"
    by (simp_all add: sample_at_def be16_def)
  ultimately show ?thesis
    using fuse_packet_maximum [where s = sample_radar and p = 1 and x = 2 and M = "{#}" and as = "[1]" and os = "[2]"]
      sample_radar_owned old
    by (auto simp: Let_def)
qed

end
