(* ===== verification/Packet_Ownership.thy ===== *)
theory Packet_Ownership
  imports Fusion_Maximum
begin

text \<open>
  Who owns the packets on their way through callback, fusing task and gain control task: the reference
  count of every packet buffer is the number of pointers to it that the two queues, the fusing task,
  lwIP and other buffers hold.
\<close>

section \<open>The gain control task stays as suspended as it is\<close>

lemma once_parts:
  assumes "kernel_ok k"
  shows "count (mset (xSuspendedTaskList k)) t \<le> 1"
    and "t \<in> set (xSuspendedTaskList k) \<Longrightarrow> t \<notin> snd ` set (pxDelayedTaskList k) \<and> t \<notin> snd ` set (pxOverflowDelayedTaskList k)"
proof -
  let ?S = "mset (xSuspendedTaskList k)" and ?D = "mset (map snd (pxDelayedTaskList k))"
    and ?O = "mset (map snd (pxOverflowDelayedTaskList k))"
  have "count (ready_items k + ?D + ?O + ?S) t \<le> 1"
    using assms unfolding kernel_ok_def once_def items_parts by blast
  then have c: "count ?D t + count ?O t + count ?S t \<le> 1" unfolding count_union by linarith
  then show "count ?S t \<le> 1" by linarith
  assume "t \<in> set (xSuspendedTaskList k)"
  then have "0 < count ?S t" by (simp only: count_greater_zero_iff set_mset_mset)
  then have "count ?D t = 0" "count ?O t = 0" using c by linarith+
  then show "t \<notin> snd ` set (pxDelayedTaskList k) \<and> t \<notin> snd ` set (pxOverflowDelayedTaskList k)"
    unfolding count_mset_0_iff set_map by blast
qed

lemma removed_once: "count (mset xs) t \<le> 1 \<Longrightarrow> t \<notin> set (remove1 t xs)"
proof
  assume c: "count (mset xs) t \<le> 1" and "t \<in> set (remove1 t xs)"
  then have "0 < count (mset (remove1 t xs)) t" by (simp only: count_greater_zero_iff set_mset_mset)
  then show False using c by simp
qed

lemma suspended_iff:
  "eTaskGetState t w k = eSuspended \<longleftrightarrow> t \<noteq> pxCurrentTCB k \<and> t \<notin> snd ` set (pxDelayedTaskList k) \<and>
    t \<notin> snd ` set (pxOverflowDelayedTaskList k) \<and> t \<in> set (xSuspendedTaskList k) \<and> \<not> w \<and> t \<notin> set (xPendingReadyList k)"
  by (auto simp: eTaskGetState_def)

lemma removal_fields:
  assumes "xTaskRemoveFromEventList (x # ws) k = Inr (h, ws', k1)"
  shows "pxCurrentTCB k1 = pxCurrentTCB k"
    and "if uxSchedulerSuspended k = 0
      then xSuspendedTaskList k1 = remove1 x (xSuspendedTaskList k) \<and> xPendingReadyList k1 = xPendingReadyList k
      else xSuspendedTaskList k1 = xSuspendedTaskList k \<and> xPendingReadyList k1 = xPendingReadyList k @ [x]"
  using assms by (auto simp: Let_def fields remove_state_item_def remove_ready_def split: if_splits)

lemma wakes_suspended:
  assumes "wakes ws ws' k k'" and "kernel_ok k" and "eTaskGetState t w' k' = eSuspended"
    and "w \<longrightarrow> w' \<or> t \<in> set ws \<and> t \<notin> set ws'"
  shows "eTaskGetState t w k = eSuspended"
proof (cases "ws' = ws \<and> k' = k")
  case True
  then show ?thesis using assms(3,4) by (auto simp: suspended_iff)
next
  case False
  then obtain x h k1 where k1: "ws = x # ws'" "xTaskRemoveFromEventList (x # ws') k = Inr (h, ws', k1)"
    "k' \<in> {k1, yield_within_api k1}"
    using assms(1) by (cases ws) (auto simp: wakes_def)
  have same: "pxCurrentTCB k' = pxCurrentTCB k1" "xSuspendedTaskList k' = xSuspendedTaskList k1"
    "xPendingReadyList k' = xPendingReadyList k1"
    using k1(3) by (auto simp: yield_within_api_def)
  note f = removal_fields [OF k1(2)]
  have s: "t \<noteq> pxCurrentTCB k" "t \<in> set (xSuspendedTaskList k1)" "t \<notin> set (xPendingReadyList k1)" "\<not> w'"
    using assms(3) same f(1) by (simp_all add: suspended_iff)
  have t: "t \<in> set (xSuspendedTaskList k)" "t \<notin> set (xPendingReadyList k)"
    using s f(2) by (auto split: if_splits dest: subsetD [OF set_remove1_subset])
  have "t \<noteq> x"
  proof
    assume "t = x"
    then show False using s(2,3) f(2) removed_once [OF once_parts(1) [OF assms(2), of t]] by (auto split: if_splits)
  qed
  then have "\<not> w" using assms(4) s(4) k1(1) by auto
  then show ?thesis using s(1) t once_parts(2) [OF assms(2) t(1)] by (simp add: suspended_iff)
qed

lemma waits_in_iff: "waits_in hs t s \<longleftrightarrow> (\<exists>a q. Some a \<in> set hs \<and> queues s a = Some q \<and>
    (t \<in> set (xTasksWaitingToSend q) \<or> t \<in> set (xTasksWaitingToReceive q)))"
proof -
  have "waits_at t s h \<longleftrightarrow> (\<exists>a q. h = Some a \<and> queues s a = Some q \<and>
      (t \<in> set (xTasksWaitingToSend q) \<or> t \<in> set (xTasksWaitingToReceive q)))" for h
    by (cases h) (simp_all add: waits_at_def split: option.split)
  note at = this
  show ?thesis
  proof
    assume "waits_in hs t s"
    then obtain h where "h \<in> set hs" "waits_at t s h" unfolding waits_in_def by (rule bexE)
    then show "\<exists>a q. Some a \<in> set hs \<and> queues s a = Some q \<and>
        (t \<in> set (xTasksWaitingToSend q) \<or> t \<in> set (xTasksWaitingToReceive q))" unfolding at by metis
  next
    assume "\<exists>a q. Some a \<in> set hs \<and> queues s a = Some q \<and>
        (t \<in> set (xTasksWaitingToSend q) \<or> t \<in> set (xTasksWaitingToReceive q))"
    then obtain a where "Some a \<in> set hs" "waits_at t s (Some a)" unfolding at by metis
    then show "waits_in hs t s" unfolding waits_in_def by (rule rev_bexI)
  qed
qed

lemma gain_task_stays:
  assumes "queue_step h s s'" and "rt_ok s" and "gain_task_state e s' = Inr eSuspended"
  shows "gain_task_state e s = Inr eSuspended"
proof (cases "s' = s")
  case False
  then obtain q q' where q: "queues s h = Some q" "queues s' = (queues s)(h \<mapsto> q')"
    "xTasksWaitingToSend q' = xTasksWaitingToSend q \<and>
       wakes (xTasksWaitingToReceive q) (xTasksWaitingToReceive q') (kern s) (kern s') \<or>
     xTasksWaitingToReceive q' = xTasksWaitingToReceive q \<and>
       wakes (xTasksWaitingToSend q) (xTasksWaitingToSend q') (kern s) (kern s')"
    using assms(1) by (auto simp: queue_step_def)
  obtain t where t: "xAutoGainControlTask e = Some t" using assms(3) by (cases "xAutoGainControlTask e") (auto simp: gain_task_state_def)
  define hs where "hs = [xPbufQueueudp e, xPbufQueueforautogaincontrolQueue e, xPbufQueuetcp e]"
  have w: "waits_in hs t s \<longrightarrow> waits_in hs t s' \<or>
      (t \<in> set (xTasksWaitingToSend q) \<or> t \<in> set (xTasksWaitingToReceive q)) \<and>
      \<not> (t \<in> set (xTasksWaitingToSend q') \<or> t \<in> set (xTasksWaitingToReceive q'))"
  proof
    assume "waits_in hs t s"
    then obtain a q1 where a: "Some a \<in> set hs" "queues s a = Some q1"
      "t \<in> set (xTasksWaitingToSend q1) \<or> t \<in> set (xTasksWaitingToReceive q1)"
      unfolding waits_in_iff by blast
    show "waits_in hs t s' \<or> (t \<in> set (xTasksWaitingToSend q) \<or> t \<in> set (xTasksWaitingToReceive q)) \<and>
      \<not> (t \<in> set (xTasksWaitingToSend q') \<or> t \<in> set (xTasksWaitingToReceive q'))"
    proof (cases "a = h")
      case True
      then show ?thesis using a q(1) unfolding waits_in_iff q(2) by (metis fun_upd_same option.inject)
    next
      case False
      then show ?thesis using a unfolding waits_in_iff q(2) by (metis fun_upd_other)
    qed
  qed
  have s': "eTaskGetState t (waits_in hs t s') (kern s') = eSuspended"
    using assms(3) t by (simp add: gain_task_state_def hs_def)
  have k: "kernel_ok (kern s)" using assms(2) by (simp add: rt_ok_def)
  have "eTaskGetState t (waits_in hs t s) (kern s) = eSuspended"
    using q(3) wakes_suspended [OF _ k s'] w by metis
  then show ?thesis using t by (simp add: gain_task_state_def hs_def)
qed (use assms(3) in simp)

section \<open>The invariant\<close>

text \<open>What the fusing task holds, and all that is held when lwIP holds \<open>R\<close>.\<close>

definition kept :: "radar \<Rightarrow> addr multiset" where
  "kept s = (if counter_of_packets s = 1 then {#} else {#the (old_pbuf s)#})"

definition handles_ok :: "env \<Rightarrow> handle \<Rightarrow> handle \<Rightarrow> bool" where
  "handles_ok e hu ha \<longleftrightarrow> xPbufQueueudp e = Some hu \<and> xPbufQueueforautogaincontrolQueue e = Some ha \<and> hu \<noteq> ha"

definition channels_ok :: "handle \<Rightarrow> handle \<Rightarrow> rtos \<Rightarrow> bool" where
  "channels_ok hu ha k \<longleftrightarrow> good_channel hu k \<and> good_channel ha k \<and> rt_ok k"

definition counter_ok :: "radar \<Rightarrow> bool" where
  "counter_ok s \<longleftrightarrow> 1 \<le> unat (counter_of_packets s) \<and> unat (counter_of_packets s) \<le> 10 \<and>
    (counter_of_packets s \<noteq> 1 \<longrightarrow> old_pbuf s \<noteq> None)"

definition held :: "env \<Rightarrow> addr multiset \<Rightarrow> radar \<Rightarrow> bool" where
  "held e R s \<longleftrightarrow> (\<exists>hu ha. handles_ok e hu ha \<and> channels_ok hu ha (rt s) \<and> counter_ok s \<and>
    own (mem s) (mset (queued hu (rt s)) + mset (queued ha (rt s)) + kept s + R))"

lemma heldI:
  "handles_ok e hu ha \<Longrightarrow> channels_ok hu ha (rt s) \<Longrightarrow> counter_ok s \<Longrightarrow>
    own (mem s) (mset (queued hu (rt s)) + (mset (queued ha (rt s)) + kept s + R)) \<Longrightarrow> held e R s"
  unfolding held_def by (intro exI [of _ hu] exI [of _ ha]) (simp add: ac_simps)

text \<open>The pointers in a queue, and what \<open>held\<close> says of a single buffer.\<close>

definition in_queue :: "handle option \<Rightarrow> rtos \<Rightarrow> addr multiset" where
  "in_queue h k = (case h of None \<Rightarrow> {#} | Some a \<Rightarrow> mset (queued a k))"

lemma held_count:
  assumes "held e R s" and "cells (mem s) a = Some b"
  shows "count (in_queue (xPbufQueueudp e) (rt s) + in_queue (xPbufQueueforautogaincontrolQueue e) (rt s) + kept s + R) a +
    card (preds (mem s) a) = unat (ref b)"
proof -
  obtain hu ha where h: "handles_ok e hu ha" "own (mem s) (mset (queued hu (rt s)) + mset (queued ha (rt s)) + kept s + R)"
    using assms(1) unfolding held_def by blast
  then have "owned (mem s) (mset (queued hu (rt s)) + mset (queued ha (rt s)) + kept s + R)" by (simp add: own_def)
  from owned_cell [OF this assms(2)] show ?thesis using h(1) by (simp add: counted_def in_queue_def handles_ok_def)
qed

text \<open>
  \<open>udp_send\<close> returns, does not take over the buffer it is given, and may keep pointers to buffers
  of its own (\<open>L\<close>), in the queue of ARP for instance.
\<close>

definition sends_well :: "(addr \<Rightarrow> pmem \<Rightarrow> pmem run) \<Rightarrow> bool" where
  "sends_well udp_send \<longleftrightarrow> (\<forall>m M a. own m M \<and> cells m a \<noteq> None \<longrightarrow>
     runs (udp_send a m) (\<lambda>m'. \<exists>L. own m' (M + L)))"

lemma free_pointer_Some: "free_pointer (Some p) m = free1 p m"
  by (simp add: free_pointer_def free1_def)

lemma queue_step_channels:
  assumes "channels_ok hu ha k" and "queue_step h k k'" and "h = hu \<and> good_channel hu k' \<or> h = ha \<and> good_channel ha k'"
    and "hu \<noteq> ha"
  shows "channels_ok hu ha k'" and "h = hu \<Longrightarrow> queued ha k' = queued ha k" and "h = ha \<Longrightarrow> queued hu k' = queued hu k"
  using assms queue_step_ok [OF assms(2)] queue_step_others [OF assms(2)] channel_cong [of k' _ k]
  by (auto simp: channels_ok_def)

section \<open>The callback\<close>

lemma callback_form:
  assumes "xPbufQueueudp e = Some h"
  shows "udp_receive_callback e (Some p) s =
    bindl (post_or_free (post_pointer_isr h) free1 p (udp_woken s, rt s) (mem s)) (\<lambda>((w, k), m).
      ret (portYIELD_FROM_ISR w (s\<lparr>mem := m, rt := k, udp_woken := w\<rparr>)))"
proof (cases "send_pointer_isr (Some h) (Some p) (udp_woken s) (rt s)")
  case (Inr r)
  obtain ok w k where r: "r = (ok, w, k)" by (cases r) auto
  show ?thesis
    using assms Inr r
    by (simp add: udp_receive_callback_def post_or_free_def post_pointer_isr_def free_pointer_Some bindl_assoc)
qed (use assms in \<open>simp add: udp_receive_callback_def post_or_free_def post_pointer_isr_def\<close>)

lemma yield_fields [fields]:
  "mem (portYIELD_FROM_ISR w s) = mem s" "rt (portYIELD_FROM_ISR w s) = rt s"
  "kept (portYIELD_FROM_ISR w s) = kept s" "counter_ok (portYIELD_FROM_ISR w s) = counter_ok s"
  by (simp_all add: portYIELD_FROM_ISR_def kept_def counter_ok_def)

lemma kept_fields [fields]:
  "kept (s\<lparr>mem := m\<rparr>) = kept s" "kept (s\<lparr>rt := k\<rparr>) = kept s" "kept (s\<lparr>udp_woken := w\<rparr>) = kept s"
  "kept (s\<lparr>gain := g\<rparr>) = kept s"
  "counter_ok (s\<lparr>mem := m\<rparr>) = counter_ok s" "counter_ok (s\<lparr>rt := k\<rparr>) = counter_ok s"
  "counter_ok (s\<lparr>udp_woken := w\<rparr>) = counter_ok s" "counter_ok (s\<lparr>gain := g\<rparr>) = counter_ok s"
  by (simp_all add: kept_def counter_ok_def)

lemma callback_held:
  assumes "held e (add_mset p R) s"
  shows "runs (udp_receive_callback e (Some p) s) (held e R)"
proof -
  obtain hu ha where h: "handles_ok e hu ha" "channels_ok hu ha (rt s)" "counter_ok s"
    and o: "own (mem s) (add_mset p (mset (queued hu (rt s)) + (mset (queued ha (rt s)) + kept s + R)))"
    using assms by (auto simp: held_def ac_simps)
  have ne: "hu \<noteq> ha" and e: "xPbufQueueudp e = Some hu" using h(1) by (simp_all add: handles_ok_def)
  have g: "good_channel hu (snd (udp_woken s, rt s))" using h(2) by (simp add: channels_ok_def)
  have post: "held e R (portYIELD_FROM_ISR w (s\<lparr>mem := m, rt := k, udp_woken := w\<rparr>))"
    if c: "good_channel hu k" "queue_step hu (rt s) k" "own m (mset (queued hu k) + (mset (queued ha (rt s)) + kept s + R))"
    for w k m
    by (rule heldI [OF h(1)])
      (use queue_step_channels [OF h(2) c(2) _ ne] c(1,3) h(3) in \<open>simp_all add: fields\<close>)
  have "runs (post_or_free (post_pointer_isr hu) free1 p (udp_woken s, rt s) (mem s))
      (\<lambda>(ws, m). good_channel hu (snd ws) \<and> queue_step hu (rt s) (snd ws) \<and>
         own m (mset (queued hu (snd ws)) + (mset (queued ha (rt s)) + kept s + R)))"
    using isr_channel.hand_over [OF g own_valid [OF o]] o by simp
  then show ?thesis unfolding callback_form [OF e]
    by (rule runs_bindl) (use post in \<open>auto split: prod.splits\<close>)
qed

section \<open>The gain control task\<close>

lemma receive_channel:
  assumes "good_channel h k"
  shows "\<exists>item k'. receive_pointer (Some h) k = Inr (item, k') \<and> good_channel h k' \<and> queue_step h k k' \<and>
    (case item of Some (Some p) \<Rightarrow> queued h k = p # queued h k' | _ \<Rightarrow> queued h k' = queued h k)"
proof -
  have g: "good_queue h k" using assms by (simp add: good_channel_def)
  obtain item k' where r: "xQueueReceive0 (Some h) True k = Inr (item, k')" "good_channel h k'"
    "case item of None \<Rightarrow> queued h k' = queued h k | Some bs \<Rightarrow> queue_items h k = bs # queue_items h k'"
  proof (cases "queue_items h k = []")
    case True
    then show thesis using that [of None k] task_fifo.fetch_empty [OF g] assms by (simp add: fetch_task_def)
  next
    case False
    obtain k' where k': "fetch_task h k = Inr (Some (hd (queue_items h k)), k')" "good_queue h k'"
      "queue_items h k' = tl (queue_items h k)" "fits_queue h k' = fits_queue h k"
      using task_fifo.fetch_item [OF g False] by blast
    then show thesis using that [of "Some (hd (queue_items h k))" k'] fits_same_size [of h k' k] assms False
      by (simp add: fetch_task_def)
  qed
  have "case map_option bytes_pointer item of Some (Some p) \<Rightarrow> queued h k = p # queued h k' | _ \<Rightarrow> queued h k' = queued h k"
    using r(3) by (auto simp: queued_def map_filter_simps split: option.splits)
  then show ?thesis using r(1,2) receive_queue_step [OF r(1)] by (simp add: receive_pointer_def)
qed

text \<open>Taking a pointer from a queue moves it from there to the task.\<close>

lemma take_from:
  assumes "handles_ok e hu ha" and "channels_ok hu ha k" and "h = hu \<or> h = ha"
  shows "\<exists>item k'. receive_pointer (Some h) k = Inr (item, k') \<and> channels_ok hu ha k' \<and>
    mset (queued hu k) + mset (queued ha k) =
      (case item of Some (Some p) \<Rightarrow> {#p#} | _ \<Rightarrow> {#}) + (mset (queued hu k') + mset (queued ha k'))"
proof -
  have ne: "hu \<noteq> ha" using assms(1) by (simp add: handles_ok_def)
  have "good_channel h k" using assms(2,3) by (auto simp: channels_ok_def)
  then obtain item k' where r: "receive_pointer (Some h) k = Inr (item, k')" "good_channel h k'" "queue_step h k k'"
    "case item of Some (Some p) \<Rightarrow> queued h k = p # queued h k' | _ \<Rightarrow> queued h k' = queued h k"
    using receive_channel by blast
  have "h = hu \<and> good_channel hu k' \<or> h = ha \<and> good_channel ha k'" using assms(3) r(2) by blast
  note c = queue_step_channels [OF assms(2) r(3) this ne]
  have "mset (queued hu k) + mset (queued ha k) =
      (case item of Some (Some p) \<Rightarrow> {#p#} | _ \<Rightarrow> {#}) + (mset (queued hu k') + mset (queued ha k'))"
    using assms(3) r(4) c(2,3) by (auto split: option.splits)
  then show ?thesis using r(1) c(1) by blast
qed

lemma gain_task_held:
  assumes "held e R s" and "udp_auto_gain_control_task e s = ret s'"
  shows "held e R s'"
proof -
  obtain hu ha where h: "handles_ok e hu ha" "channels_ok hu ha (rt s)" "counter_ok s"
    and o: "own (mem s) (mset (queued hu (rt s)) + mset (queued ha (rt s)) + kept s + R)"
    using assms(1) by (auto simp: held_def)
  have e: "xPbufQueueforautogaincontrolQueue e = Some ha" using h(1) by (simp add: handles_ok_def)
  obtain item k where r: "receive_pointer (Some ha) (rt s) = Inr (item, k)" "channels_ok hu ha k"
    "mset (queued hu (rt s)) + mset (queued ha (rt s)) =
      (case item of Some (Some p) \<Rightarrow> {#p#} | _ \<Rightarrow> {#}) + (mset (queued hu k) + mset (queued ha k))"
    using take_from [OF h(1,2)] by blast
  show ?thesis
  proof (cases "\<exists>p. item = Some (Some p)")
    case True
    then obtain p where p: "item = Some (Some p)" by blast
    obtain g m where m: "free1 p (mem s) = ret m" "s' = s\<lparr>rt := k, gain := g, mem := m\<rparr>"
      using assms(2) r(1) p e by (auto simp: udp_auto_gain_control_task_def Let_def free_pointer_Some)
    have "own (mem s) (add_mset p (mset (queued hu k) + (mset (queued ha k) + kept s + R)))"
      using o r(3) p by (simp add: ac_simps)
    then have "own m (mset (queued hu k) + (mset (queued ha k) + kept s + R))"
      using free1_own m(1) by (fastforce simp: runs_def)
    then show ?thesis using m(2) r(2) h(3) by (intro heldI [OF h(1)]) (simp_all add: fields)
  next
    case False
    then have "s' = s\<lparr>rt := k\<rparr>"
      using assms(2) r(1) e by (auto simp: udp_auto_gain_control_task_def Let_def split: option.splits)
    moreover have "mset (queued hu (rt s)) + mset (queued ha (rt s)) = mset (queued hu k) + mset (queued ha k)"
      using r(3) False by (auto split: option.splits)
    ultimately show ?thesis using o r(2) h(3) by (intro heldI [OF h(1)]) (simp_all add: fields ac_simps)
  qed
qed

section \<open>The fusing task\<close>

lemma payload_write_shape: "payload_write b i bs = Inr b' \<Longrightarrow> shape b' = shape b"
  by (auto simp: payload_write_def shape_def split: if_splits)

lemma fuse_samples_shape: "fuse_samples q k is r = Inr r' \<Longrightarrow> shape r' = shape r"
proof (induction q k "is" r rule: fuse_samples.induct)
  case (2 q k i "is" r)
  obtain x where x: "sample_exceeds q r (k + i) = Inr x" using 2(3) by auto
  show ?case
  proof (cases x)
    case True
    then show ?thesis using 2(1) [OF True] 2(3) x payload_write_shape by fastforce
  next
    case False
    then show ?thesis using 2(2) [OF False] 2(3) x by auto
  qed
qed simp

definition same_shapes :: "pmem \<Rightarrow> pmem \<Rightarrow> bool" where
  "same_shapes m m' \<longleftrightarrow> (\<forall>a. map_option shape (cells m' a) = map_option shape (cells m a))"

lemma same_shapes_trans: "same_shapes m m1 \<Longrightarrow> same_shapes m1 m2 \<Longrightarrow> same_shapes m m2"
  by (simp add: same_shapes_def)

lemma same_shapes_own: "own m M \<Longrightarrow> same_shapes m m' \<Longrightarrow> own m' M"
proof -
  assume o: "own m M" and s: "same_shapes m m'"
  have "cells m' a = None \<longleftrightarrow> cells m a = None" for a using s by (auto simp: same_shapes_def shape_iff)
  then show "own m' M" using o s owned_same_shape [of m M m'] by (auto simp: own_def same_shapes_def)
qed

lemma fuse_segment_shape: "fuse_segment b k n r m = Inr m' \<Longrightarrow> same_shapes m m'"
proof (cases "n = 0")
  case False
  moreover assume "fuse_segment b k n r m = Inr m'"
  ultimately obtain c c' where c: "cell m r = Inr c" "fuse_samples b k (even_offsets n) c = Inr c'" "m' = put (the r) c' m"
    by (auto simp: fuse_segment_def)
  then obtain a where "r = Some a" "cells m a = Some c" by (auto simp: cell_def split: option.splits)
  then show ?thesis using c(2,3) fuse_samples_shape [OF c(2)] by (simp add: same_shapes_def)
qed (simp add: fuse_segment_def same_shapes_def)

lemma fusion_loop_shape: "fusion_loop q r t k m = Some res \<Longrightarrow> \<forall>m'. res = Inr m' \<longrightarrow> same_shapes m m'"
proof (erule fusion_loop.raw_induct [rotated])
  fix loop q r t k m res
  assume IH: "\<And>q r t k m res. loop q r t k m = Some res \<Longrightarrow> \<forall>m'. res = Inr m' \<longrightarrow> same_shapes m m'"
    and body: "(case q of None \<Rightarrow> Some (Inr m) | Some a \<Rightarrow> (case cells m a of None \<Rightarrow> Some (Inl Use_after_free) | Some b \<Rightarrow>
      (case fuse_segment b k (snd (segment_share t)) r m of Inl e \<Rightarrow> Some (Inl e) | Inr m \<Rightarrow>
        (case cell m r of Inl e \<Rightarrow> Some (Inl e)
         | Inr c \<Rightarrow> loop (next_pbuf b) (next_pbuf c) (fst (segment_share t)) 0 m)))) = Some res"
  show "\<forall>m'. res = Inr m' \<longrightarrow> same_shapes m m'"
  proof (intro allI impI, cases q)
    fix m' assume res: "res = Inr m'"
    show "same_shapes m m'" if "q = None" using that body res by (simp add: same_shapes_def)
    fix a assume Some: "q = Some a"
    then obtain b where b: "cells m a = Some b" using body res by (auto split: option.splits)
    obtain m1 where m1: "fuse_segment b k (snd (segment_share t)) r m = Inr m1"
      using body res Some b by (auto split: sum.splits)
    obtain c where c: "cell m1 r = Inr c" using body res Some b m1 by (auto split: sum.splits)
    have "loop (next_pbuf b) (next_pbuf c) (fst (segment_share t)) 0 m1 = Some res"
      using body Some b m1 c by simp
    then show "same_shapes m m'" using IH res fuse_segment_shape [OF m1] same_shapes_trans by blast
  qed
qed

abbreviation in_queues :: "handle \<Rightarrow> handle \<Rightarrow> radar \<Rightarrow> addr multiset" where
  "in_queues hu ha s \<equiv> mset (queued hu (rt s)) + mset (queued ha (rt s))"

lemma free1_ret: "own m (add_mset p N) \<Longrightarrow> free1 p m = ret m' \<Longrightarrow> own m' N"
  using free1_own [of m p N] by (auto simp: runs_def)

lemma fuse_packet_own:
  assumes "own (mem s) (add_mset p N)" and "fuse_packet p s = ret s'"
  shows "\<exists>m. s' = s\<lparr>mem := m\<rparr> \<and> own m N"
proof -
  obtain m1 m2 t where m: "fusion_loop (Some p) (old_pbuf s) t 32 (mem s) = ret m1" "free1 p m1 = ret m2" "s' = s\<lparr>mem := m2\<rparr>"
    using assms(2) by (auto simp: fuse_packet_def free_pointer_Some)
  have "same_shapes (mem s) m1" using fusion_loop_shape [OF m(1)] by simp
  then show ?thesis using m(2,3) free1_ret [OF same_shapes_own [OF assms(1)]] by blast
qed

lemma transmit_own:
  assumes "sends_well f" and "own m M" and "transmit f p m = ret m'"
  shows "\<exists>L. own m' (M + L)"
proof -
  obtain a where a: "cells m a \<noteq> None" "f a m = ret m'"
    using assms(3) by (auto simp: transmit_def cell_def split: option.splits)
  then show ?thesis using assms(1,2) unfolding sends_well_def runs_def by fastforce
qed

lemma hand_over_running_held:
  assumes "sends_well f" and "handles_ok e hu ha" and "channels_ok hu ha (rt s)" and "old_pbuf s = Some x"
    and "own (mem s) (add_mset x (in_queues hu ha s + R))" and "hand_over_running f e s = ret s'"
  shows "s' = s \<and> gain_task_state e (rt s) = Inr eSuspended \<or>
    (\<exists>m k L. s' = s\<lparr>mem := m, rt := k\<rparr> \<and> channels_ok hu ha k \<and> gain_task_state e k \<noteq> Inr eSuspended \<and>
      own m (in_queues hu ha s' + R + L))"
proof -
  obtain state where st: "gain_task_state e (rt s) = Inr state" using assms(6) by (auto simp: hand_over_running_def)
  have ne: "hu \<noteq> ha" and ha: "xPbufQueueforautogaincontrolQueue e = Some ha" using assms(2) by (simp_all add: handles_ok_def)
  show ?thesis
  proof (cases "state = eSuspended")
    case True
    then show ?thesis using assms(6) st by (simp add: hand_over_running_def)
  next
    case False
    have g: "good_channel ha (rt s)" using assms(3) by (simp add: channels_ok_def)
    obtain ok k where k: "post_pointer ha x (rt s) = Inr (ok, k)" "good_channel ha k" "queue_step ha (rt s) k"
      "queued ha k = (if ok then queued ha (rt s) @ [x] else queued ha (rt s))"
      using task_post_ends [OF g own_valid [OF assms(5)]] by blast
    have "ha = hu \<and> good_channel hu k \<or> ha = ha \<and> good_channel ha k" using k(2) by blast
    note c = queue_step_channels [OF assms(3) k(3) this ne]
    obtain m1 m2 where m: "(if ok then ret (mem s) else free1 x (mem s)) = ret m1" "transmit f (Some x) m1 = ret m2"
      "s' = s\<lparr>mem := m2, rt := k\<rparr>"
      using assms(4,6) st False k(1) ha
      by (auto simp: hand_over_running_def post_pointer_def free_pointer_Some if_distrib [of "\<lambda>c. bindl c _"] split: if_splits)
    have "own m1 (mset (queued hu k) + mset (queued ha k) + R)"
      using m(1) assms(5) free1_ret [OF assms(5)] k(4) c(3) by (cases ok) (simp_all add: ac_simps)
    then obtain L where "own m2 (mset (queued hu k) + mset (queued ha k) + R + L)"
      using transmit_own [OF assms(1) _ m(2)] by blast
    moreover have "gain_task_state e k \<noteq> Inr eSuspended"
      using gain_task_stays [OF k(3), of e] assms(3) st False by (auto simp: channels_ok_def)
    ultimately show ?thesis using m(3) c(1) by fastforce
  qed
qed

lemma hand_over_suspended_held:
  assumes "sends_well f" and "old_pbuf s = Some x" and "hand_over_suspended f e s = ret s'"
  shows "gain_task_state e (rt s) = Inr eSuspended \<Longrightarrow> own (mem s) (add_mset x (in_queues hu ha s + R)) \<Longrightarrow>
      \<exists>m L. s' = s\<lparr>mem := m\<rparr> \<and> own m (in_queues hu ha s + R + L)"
    and "gain_task_state e (rt s) \<noteq> Inr eSuspended \<Longrightarrow> s' = s"
proof -
  show "s' = s" if "gain_task_state e (rt s) \<noteq> Inr eSuspended"
    using that assms(3) by (auto simp: hand_over_suspended_def split: if_splits)
  assume st: "gain_task_state e (rt s) = Inr eSuspended" and o: "own (mem s) (add_mset x (in_queues hu ha s + R))"
  obtain m1 m2 where m: "transmit f (Some x) (mem s) = ret m1" "free1 x m1 = ret m2" "s' = s\<lparr>mem := m2\<rparr>"
    using assms(2,3) st by (auto simp: hand_over_suspended_def free_pointer_Some)
  obtain L where "own m1 (add_mset x (in_queues hu ha s + R) + L)" using transmit_own [OF assms(1) o m(1)] by blast
  then have "own m1 (add_mset x (in_queues hu ha s + R + L))" by simp
  then show "\<exists>m L. s' = s\<lparr>mem := m\<rparr> \<and> own m (in_queues hu ha s + R + L)" using free1_ret m(2,3) by blast
qed

lemma hand_over_held:
  assumes "sends_well f" and "handles_ok e hu ha" and "channels_ok hu ha (rt s)" and "old_pbuf s = Some x"
    and "own (mem s) (add_mset x (in_queues hu ha s + R))"
    and "hand_over_running f e s = ret s1" and "hand_over_suspended f e s1 = ret s2"
  shows "\<exists>m k L. s2 = s\<lparr>mem := m, rt := k\<rparr> \<and> channels_ok hu ha k \<and> own m (in_queues hu ha s2 + R + L)"
proof -
  consider (suspended) "s1 = s" "gain_task_state e (rt s) = Inr eSuspended"
    | (running) m k L where "s1 = s\<lparr>mem := m, rt := k\<rparr>" "channels_ok hu ha k" "gain_task_state e k \<noteq> Inr eSuspended"
      "own m (in_queues hu ha s1 + R + L)"
    using hand_over_running_held [OF assms(1-6)] by blast
  then show ?thesis
  proof cases
    case suspended
    then obtain m L where "s2 = s\<lparr>mem := m\<rparr>" "own m (in_queues hu ha s + R + L)"
      using hand_over_suspended_held(1) [OF assms(1,4) _ _ assms(5)] assms(7) by blast
    then show ?thesis using assms(3) by (intro exI [of _ m] exI [of _ "rt s"] exI [of _ L]) simp
  next
    case running
    have "s2 = s1" using hand_over_suspended_held(2) [OF assms(1) _ assms(7)] running assms(4) by simp
    then show ?thesis using running by blast
  qed
qed

lemma parse_packet_held:
  assumes "sends_well f" and "handles_ok e hu ha" and "channels_ok hu ha (rt s)" and "counter_ok s"
    and "own (mem s) (add_mset p (in_queues hu ha s + kept s + R))" and "parse_packet f e p s = ret s'"
  shows "\<exists>L. held e (R + L) s'"
proof (cases "counter_of_packets s = 1")
  case True
  then have s': "s' = s\<lparr>old_pbuf := Some p, counter_of_packets := 2\<rparr>" using assms(6) by (auto simp: parse_packet_def)
  have "kept s = {#}" "kept s' = {#p#}" "counter_ok s'" using True by (simp_all add: s' kept_def counter_ok_def)
  moreover have "mem s' = mem s" "rt s' = rt s" by (simp_all add: s')
  ultimately have "held e R s'" using assms(3,5) by (intro heldI [OF assms(2)]) (simp_all add: ac_simps)
  then show ?thesis by (intro exI [of _ "{#}"]) simp
next
  case False
  then obtain x where x: "old_pbuf s = Some x" "kept s = {#x#}" using assms(4) by (auto simp: counter_ok_def kept_def)
  obtain s1 where s1: "fuse_packet p s = ret s1" using assms(6) False by (auto simp: parse_packet_def)
  obtain m where m: "s1 = s\<lparr>mem := m\<rparr>" "own m (add_mset x (in_queues hu ha s + R))"
    using fuse_packet_own [OF assms(5) s1] x(2) by (auto simp: ac_simps)
  show ?thesis
  proof (cases "nominal_counter_value \<le> counter_of_packets s")
    case True
    obtain s2 s3 where h: "hand_over_running f e s1 = ret s2" "hand_over_suspended f e s2 = ret s3"
      "s' = s3\<lparr>counter_of_packets := 1\<rparr>"
      using assms(6) False True s1 m(1) by (auto simp: parse_packet_def)
    obtain m' k L where r: "s3 = s1\<lparr>mem := m', rt := k\<rparr>" "channels_ok hu ha k" "own m' (in_queues hu ha s3 + R + L)"
      using hand_over_held [OF assms(1,2) _ _ _ h(1,2), of x R] assms(3) x(1) m by auto
    have "held e (R + L) s'"
      using h(3) r m(1) by (intro heldI [OF assms(2)]) (simp_all add: kept_def counter_ok_def ac_simps)
    then show ?thesis by blast
  next
    case lt: False
    have s': "s' = s\<lparr>mem := m, counter_of_packets := counter_of_packets s + 1\<rparr>"
      using assms(6) False lt s1 m(1) by (auto simp: parse_packet_def)
    have "unat (counter_of_packets s) < 10" using lt
      unfolding nominal_counter_value_def not_le word_less_nat_alt by simp
    then have n: "unat (counter_of_packets s + 1) = unat (counter_of_packets s) + 1" "counter_of_packets s + 1 \<noteq> 1"
      using assms(4) by (auto simp: counter_ok_def unat_word_ariths)
    then have "held e R s'"
      using s' x m(2) assms(3) n \<open>unat (counter_of_packets s) < 10\<close>
      by (intro heldI [OF assms(2)]) (simp_all add: kept_def counter_ok_def ac_simps)
    then show ?thesis by (intro exI [of _ "{#}"]) simp
  qed
qed

lemma fusing_task_held:
  assumes "sends_well f" and "held e R s" and "udp_parse_task f e s = ret s'"
  shows "\<exists>L. held e (R + L) s'"
proof -
  obtain hu ha where h: "handles_ok e hu ha" "channels_ok hu ha (rt s)" "counter_ok s"
    and o: "own (mem s) (in_queues hu ha s + kept s + R)"
    using assms(2) by (auto simp: held_def)
  have e: "xPbufQueueudp e = Some hu" using h(1) by (simp add: handles_ok_def)
  obtain item k where r: "receive_pointer (Some hu) (rt s) = Inr (item, k)" "channels_ok hu ha k"
    "in_queues hu ha s = (case item of Some (Some p) \<Rightarrow> {#p#} | _ \<Rightarrow> {#}) + (mset (queued hu k) + mset (queued ha k))"
    using take_from [OF h(1,2)] by blast
  show ?thesis
  proof (cases "\<exists>p. item = Some (Some p)")
    case True
    then obtain p where p: "item = Some (Some p)" by blast
    have run: "parse_packet f e p (s\<lparr>rt := k\<rparr>) = ret s'" using assms(3) r(1) p e by (simp add: udp_parse_task_def)
    have c: "channels_ok hu ha (rt (s\<lparr>rt := k\<rparr>))" "counter_ok (s\<lparr>rt := k\<rparr>)" using r(2) h(3) by (simp_all add: fields)
    have "own (mem (s\<lparr>rt := k\<rparr>)) (add_mset p (in_queues hu ha (s\<lparr>rt := k\<rparr>) + kept (s\<lparr>rt := k\<rparr>) + R))"
      using o r(3) p by (simp add: fields)
    from parse_packet_held [OF assms(1) h(1) c this run] show ?thesis .
  next
    case False
    then have "s' = s\<lparr>rt := k\<rparr>"
      using assms(3) r(1) e by (auto simp: udp_parse_task_def Let_def split: option.splits)
    moreover have "in_queues hu ha s = mset (queued hu k) + mset (queued ha k)"
      using r(3) False by (auto split: option.splits)
    ultimately have "held e R s'" using o r(2) h(3) by (intro heldI [OF h(1)]) (simp_all add: fields ac_simps)
    then show ?thesis by (intro exI [of _ "{#}"]) simp
  qed
qed

section \<open>Handing over with room in the queue, and without\<close>

lemma post_pointer_room:
  assumes "good_channel h k" and "valid_addr x"
  shows "if length (queue_items h k) < queue_capacity h k
    then \<exists>k'. post_pointer h x k = Inr (True, k') else post_pointer h x k = Inr (False, k)"
proof -
  have g: "good_queue h k" using assms(1) by (simp add: good_channel_def)
  note f = channel_fits [OF assms(1), of "Some x"]
  show ?thesis using task_fifo.post_room [OF g f] task_fifo.post_full [OF g f]
    by (auto simp: post_pointer_def send_pointer_def post_task_def)
qed

lemma transmit_runs:
  assumes "sends_well f" and "own m (add_mset x M)"
  shows "\<exists>m' L. transmit f (Some x) m = ret m' \<and> own m' (add_mset x (M + L))"
proof -
  obtain b where "cells m x = Some b" using own_pool.held_live [OF assms(2)] by auto
  moreover from this obtain m' L where "f x m = ret m'" "own m' (add_mset x M + L)"
    using assms unfolding sends_well_def runs_def by blast
  ultimately show ?thesis by (auto simp: transmit_def cell_def)
qed

text \<open>Releasing the last pointer to a buffer releases the buffer.\<close>

lemma free1_last:
  assumes "own m (add_mset x N)" and "cells m x = Some b" and "ref b = 1"
  shows "\<exists>m'. free1 x m = ret m' \<and> own m' N \<and> cells m' x = None"
proof -
  obtain m' where m': "free1 x m = ret m'" "own m' N" "only_released m m'"
    using free1_own [OF assms(1)] by (auto simp: runs_def)
  have o: "owned m (add_mset x N)" "owned m' N" using assms(1) m'(2) by (simp_all add: own_def)
  have c: "count N x + card (preds m x) = 0"
    using owned_cell [OF o(1) assms(2)] assms(3) by (simp add: counted_def)
  have fin: "finite (preds m x)" using o(1) by (simp add: owned_def finite_preds)
  have none: "preds m x = {}" using c fin by simp
  have "preds m' x \<subseteq> preds m x"
  proof
    fix z assume "z \<in> preds m' x"
    then obtain b' where b': "cells m' z = Some b'" "next_pbuf b' = Some x" by (auto simp: preds_def)
    then obtain b0 r where "cells m z = Some b0" "b' = b0\<lparr>ref := r\<rparr>"
      using m'(3) unfolding only_released_def by blast
    then show "z \<in> preds m x" using b'(2) by (simp add: preds_def)
  qed
  then have p: "preds m' x = {}" using none by simp
  have "cells m' x = None"
  proof (rule ccontr)
    assume "cells m' x \<noteq> None"
    then obtain b' where "cells m' x = Some b'" by blast
    from owned_cell [OF o(2) this] show False using c p by (simp add: counted_def)
  qed
  then show ?thesis using m' by blast
qed

section \<open>Properties\<close>

text \<open>
  C23: the reference counts stay exact. In a state \<open>held\<close>, the count of every allocated buffer is the
  number of pointers to it: those in the two queues, that of the fusing task once it has a first packet,
  those of lwIP (\<open>R\<close>) and those of other buffers; so a buffer with count 1 has a single holder, and no
  pointer in a queue dangles. From such a state, \<open>udp_receive_callback\<close> ends without a fault
  and takes the packet over from lwIP, whether or not the queue has room. A round of
  \<open>udp_parse_task\<close>, however the packets look and in every state of the gain control task, and a round of
  \<open>udp_auto_gain_control_task\<close> leave such a state if they end without a fault. (They do not always: see
  the hand-over to a full queue below, and the headers that the gain control does not check.)
\<close>

theorem packets_owned:
  assumes "sends_well udp_send"
  shows "(held e (add_mset p R) s \<longrightarrow> (\<exists>s'. udp_receive_callback e (Some p) s = ret s' \<and> held e R s')) \<and>
    (held e R s \<and> udp_parse_task udp_send e s = ret s' \<longrightarrow> (\<exists>L. held e (R + L) s')) \<and>
    (held e R s \<and> udp_auto_gain_control_task e s = ret s' \<longrightarrow> held e R s') \<and>
    (held e R s \<and> (xPbufQueueudp e = Some h \<or> xPbufQueueforautogaincontrolQueue e = Some h) \<longrightarrow>
      (\<forall>a \<in> set (queued h (rt s)). cells (mem s) a \<noteq> None)) \<and>
    (held e R s \<and> cells (mem s) a = Some b \<longrightarrow>
      count (in_queue (xPbufQueueudp e) (rt s) + in_queue (xPbufQueueforautogaincontrolQueue e) (rt s) + kept s + R) a +
        card (preds (mem s) a) = unat (ref b))"
proof (intro conjI impI ballI)
  show "count (in_queue (xPbufQueueudp e) (rt s) + in_queue (xPbufQueueforautogaincontrolQueue e) (rt s) + kept s + R) a +
      card (preds (mem s) a) = unat (ref b)" if "held e R s \<and> cells (mem s) a = Some b"
    using held_count that by blast
  show "\<exists>s'. udp_receive_callback e (Some p) s = ret s' \<and> held e R s'" if "held e (add_mset p R) s"
    using callback_held [OF that] by (simp add: runs_def)
  show "\<exists>L. held e (R + L) s'" if "held e R s \<and> udp_parse_task udp_send e s = ret s'"
    using fusing_task_held [OF assms] that by blast
  show "held e R s'" if "held e R s \<and> udp_auto_gain_control_task e s = ret s'"
    using gain_task_held that by blast
  fix a assume h: "held e R s \<and> (xPbufQueueudp e = Some h \<or> xPbufQueueforautogaincontrolQueue e = Some h)"
    and a: "a \<in> set (queued h (rt s))"
  obtain hu ha where "handles_ok e hu ha" "own (mem s) (in_queues hu ha s + kept s + R)"
    using h by (auto simp: held_def)
  then show "cells (mem s) a \<noteq> None"
    using a h by (intro own_pool.held_all_live) (auto simp: handles_ok_def)
qed

text \<open>
  C24: the hand-over of the fused packet \<open>x\<close>. With room in the queue of the gain control task, or that
  task suspended, it ends without a fault: the packet is sent, and goes to the queue or, if the
  task is suspended, is released. With a full queue it releases the packet before it sends it,
  and \<open>udp_send\<close> reads a released buffer. (\<open>x\<close> is held by the fusing task alone.)
\<close>

theorem hand_over_outcomes:
  assumes "sends_well udp_send" and "handles_ok e hu ha" and "channels_ok hu ha (rt s)" and "old_pbuf s = Some x"
    and "own (mem s) (add_mset x (in_queues hu ha s + R))" and "cells (mem s) x = Some b" and "ref b = 1"
    and "gain_task_state e (rt s) = Inr state"
  shows "if state = eSuspended \<or> length (queue_items ha (rt s)) < queue_capacity ha (rt s)
    then \<exists>s1 s2 L. hand_over_running udp_send e s = ret s1 \<and> hand_over_suspended udp_send e s1 = ret s2 \<and>
      own (mem s2) (in_queues hu ha s2 + R + L) \<and>
      queued ha (rt s2) = (if state = eSuspended then queued ha (rt s) else queued ha (rt s) @ [x])
    else hand_over_running udp_send e s = fails Use_after_free"
proof (cases "state = eSuspended")
  case True
  obtain m1 L where m1: "transmit udp_send (Some x) (mem s) = ret m1" "own m1 (add_mset x (in_queues hu ha s + R + L))"
    using transmit_runs [OF assms(1,5)] by blast
  obtain m2 where "free1 x m1 = ret m2" "own m2 (in_queues hu ha s + R + L)"
    using free1_own [OF m1(2)] by (auto simp: runs_def)
  then show ?thesis using True assms(4,8) m1(1)
    by (auto simp: hand_over_running_def hand_over_suspended_def free_pointer_Some)
next
  case False
  have g: "good_channel ha (rt s)" and q: "xPbufQueueforautogaincontrolQueue e = Some ha"
    using assms(2,3) by (simp_all add: channels_ok_def handles_ok_def)
  note room = post_pointer_room [OF g own_valid [OF assms(5)]]
  show ?thesis
  proof (cases "length (queue_items ha (rt s)) < queue_capacity ha (rt s)")
    case True
    then obtain k where k: "post_pointer ha x (rt s) = Inr (True, k)" using room by auto
    have k': "queued ha k = queued ha (rt s) @ [x]"
      using task_post_ends [OF g own_valid [OF assms(5)]] k by auto
    obtain m1 where m1: "transmit udp_send (Some x) (mem s) = ret m1" using transmit_runs [OF assms(1,5)] by blast
    have run: "hand_over_running udp_send e s = ret (s\<lparr>mem := m1, rt := k\<rparr>)" (is "_ = ret ?s1")
      using assms(4,8) False q k m1 by (simp add: hand_over_running_def post_pointer_def)
    have not_susp: "gain_task_state e (rt s) \<noteq> Inr eSuspended" using assms(8) False by simp
    obtain m k0 L where r: "s\<lparr>mem := m1, rt := k\<rparr> = s\<lparr>mem := m, rt := k0\<rparr>" "gain_task_state e k0 \<noteq> Inr eSuspended"
      "own m (in_queues hu ha ?s1 + R + L)"
      using hand_over_running_held [OF assms(1-5) run] not_susp by blast
    have same: "m = m1" "k0 = k" using arg_cong [OF r(1), of mem] arg_cong [OF r(1), of rt] by simp_all
    have old: "old_pbuf ?s1 = Some x" using assms(4) by simp
    obtain st2 where st2: "gain_task_state e k = Inr st2" "st2 \<noteq> eSuspended"
      using assms(8) r(2) same by (auto simp: gain_task_state_def split: option.splits)
    then have "hand_over_suspended udp_send e ?s1 = ret ?s1" by (simp add: hand_over_suspended_def)
    then show ?thesis using True False run r(3) same k' by auto
  next
    case full: False
    obtain m1 where m1: "free1 x (mem s) = ret m1" "cells m1 x = None" using free1_last [OF assms(5-7)] by blast
    have "post_pointer ha x (rt s) = Inr (False, rt s)" using room full by simp
    then have "hand_over_running udp_send e s = fails Use_after_free"
      using assms(4,8) False q m1
      by (simp add: hand_over_running_def post_pointer_def free_pointer_Some transmit_def cell_def)
    then show ?thesis using False full by simp
  qed
qed

text \<open>
  C25: the two tests are not atomic. If the gain control task is not suspended at the first test and is
  suspended by a task of higher priority (a TCP command) before the second, the packet is both
  in the queue of the gain control task and released: the task will use it after it is resumed.
  (\<open>udp_send\<close> is taken to do nothing to the buffers.)
\<close>

theorem hand_over_race:
  assumes "handles_ok e hu ha" and "channels_ok hu ha (rt s)" and "old_pbuf s = Some x"
    and "own (mem s) (add_mset x (in_queues hu ha s + R))" and "cells (mem s) x = Some b" and "ref b = 1"
    and "gain_task_state e (rt s) = Inr state" and "state \<noteq> eSuspended"
    and "length (queue_items ha (rt s)) < queue_capacity ha (rt s)"
  shows "\<exists>k. hand_over_running (\<lambda>a m. ret m) e s = ret (s\<lparr>rt := k\<rparr>) \<and> queue_step ha (rt s) k \<and>
    (\<forall>k'. gain_task_state e (k\<lparr>kern := k'\<rparr>) = Inr eSuspended \<longrightarrow>
      (\<exists>s'. hand_over_suspended (\<lambda>a m. ret m) e (s\<lparr>rt := k\<lparr>kern := k'\<rparr>\<rparr>) = ret s' \<and>
        x \<in> set (queued ha (rt s')) \<and> cells (mem s') x = None))"
proof -
  have g: "good_channel ha (rt s)" and q: "xPbufQueueforautogaincontrolQueue e = Some ha"
    using assms(1,2) by (simp_all add: channels_ok_def handles_ok_def)
  obtain k where k: "post_pointer ha x (rt s) = Inr (True, k)"
    using post_pointer_room [OF g own_valid [OF assms(4)]] assms(9) by auto
  have k': "queued ha k = queued ha (rt s) @ [x]" "queue_step ha (rt s) k"
    using task_post_ends [OF g own_valid [OF assms(4)]] k by auto
  have tr: "transmit (\<lambda>a m. ret m) (Some x) (mem s) = ret (mem s)" using assms(5) by (simp add: transmit_def cell_def)
  have run: "hand_over_running (\<lambda>a m. ret m) e s = ret (s\<lparr>rt := k\<rparr>)"
    using assms(3,7,8) q k tr by (simp add: hand_over_running_def post_pointer_def)
  obtain m where m: "free1 x (mem s) = ret m" "cells m x = None" using free1_last [OF assms(4-6)] by blast
  have "hand_over_suspended (\<lambda>a m. ret m) e (s\<lparr>rt := k\<lparr>kern := k2\<rparr>\<rparr>) = ret (s\<lparr>rt := k\<lparr>kern := k2\<rparr>, mem := m\<rparr>) \<and>
      x \<in> set (queued ha (k\<lparr>kern := k2\<rparr>))" if "gain_task_state e (k\<lparr>kern := k2\<rparr>) = Inr eSuspended" for k2
    using that assms(3) tr m(1) k'(1) by (simp add: hand_over_suspended_def free_pointer_Some queued_def queue_items_def)
  then show ?thesis using run k'(2) m(2) by fastforce
qed

section \<open>A sample state\<close>

text \<open>The fusing task runs and has fused nine packets into the buffer 2; lwIP is about to deliver 1.\<close>

abbreviation fusing_tcb :: tcb where "fusing_tcb \<equiv> \<lparr>tcb_id = 3, uxPriority = 2\<rparr>"

abbreviation gain_tcb :: tcb where "gain_tcb \<equiv> \<lparr>tcb_id = 4, uxPriority = 1\<rparr>"

definition sample_env :: env where
  "sample_env = \<lparr>xPbufQueueudp = Some 7, xPbufQueueforautogaincontrolQueue = Some 8, xPbufQueuetcp = None,
     xAutoGainControlTask = Some gain_tcb\<rparr>"

definition empty_queue :: queue where
  "empty_queue = \<lparr>qstore = replicate 8 0, pcWriteTo = 0, pcTail = 8, pcReadFrom = 4, xTasksWaitingToSend = [],
     xTasksWaitingToReceive = [], uxMessagesWaiting = 0, uxLength = 2, uxItemSize = 4, cRxLock = queueUNLOCKED,
     cTxLock = queueUNLOCKED, pxQueueSetContainer = None, ucQueueType = 0\<rparr>"

definition sample_state :: radar where
  "sample_state = sample_radar\<lparr>counter_of_packets := 10,
     rt := \<lparr>queues = [7 \<mapsto> empty_queue, 8 \<mapsto> empty_queue],
       kern = sample_kernel\<lparr>uxTopReadyPriority := 6,
         pxReadyTasksLists := (pxReadyTasksLists sample_kernel)(1 := \<lparr>entries = [gain_tcb], pxIndex = 1\<rparr>)\<rparr>\<rparr>\<rparr>"

lemma bit_6: "p < 32 \<Longrightarrow> bit (6 :: u32) p \<longleftrightarrow> p = 1 \<or> p = 2"
proof -
  assume "p < 32"
  then have "p \<in> set [0..<32]" unfolding set_upt atLeastLessThan_iff by simp
  moreover have "\<forall>p \<in> set [0..<32]. bit (6 :: u32) p = (p = 1 \<or> p = 2)" by code_simp
  ultimately show ?thesis by (rule bspec [rotated])
qed

lemma sample_state_kernel: "kernel_ok (kern (rt sample_state))"
proof -
  let ?k = "kern (rt sample_state)"
  have top: "uxTopReadyPriority ?k = 6" by (simp add: sample_state_def)
  have l: "pxReadyTasksLists ?k p = (if p = 2 then \<lparr>entries = [fusing_tcb], pxIndex = 1\<rparr>
      else if p = 1 then \<lparr>entries = [gain_tcb], pxIndex = 1\<rparr> else \<lparr>entries = [], pxIndex = 0\<rparr>)" for p
    by (simp add: sample_state_def sample_kernel_def vListInitialise_def)
  have "ready_ok ?k" unfolding ready_ok_def top l using bit_6 by (auto simp: index_ok_def configMAX_PRIORITIES_def)
  moreover have "state_items ?k = {#gain_tcb, fusing_tcb#}"
    unfolding state_items_def l by (simp add: configMAX_PRIORITIES_def sum_less_8 sample_state_def sample_kernel_def)
  then have "once (state_items ?k)" by (auto simp: once_def configMAX_PRIORITIES_def)
  moreover have "timing_ok ?k" by (simp add: timing_ok_def sample_state_def sample_kernel_def)
  ultimately show ?thesis by (simp add: kernel_ok_def)
qed

lemma sample_state_parts:
  "handles_ok sample_env 7 8" "channels_ok 7 8 (rt sample_state)" "counter_ok sample_state"
  "queued 7 (rt sample_state) = []" "queued 8 (rt sample_state) = []" "old_pbuf sample_state = Some 2"
  "own (mem sample_state) {#1, 2#}" "kept sample_state = {#2#}"
proof -
  show "handles_ok sample_env 7 8" by (simp add: handles_ok_def sample_env_def)
  have q: "queues (rt sample_state) = [7 \<mapsto> empty_queue, 8 \<mapsto> empty_queue]" by (simp add: sample_state_def)
  have "wf_queue empty_queue" by (auto simp: wf_queue_def ring_def empty_queue_def)
  then have "good_channel 7 (rt sample_state)" "good_channel 8 (rt sample_state)"
    by (simp_all add: good_channel_def good_queue_def q) (simp_all add: empty_queue_def)
  moreover have "rt_ok (rt sample_state)"
    using sample_state_kernel by (auto simp: rt_ok_def q waiting_tasks_def empty_queue_def)
  ultimately show "channels_ok 7 8 (rt sample_state)" by (simp add: channels_ok_def)
  show "counter_ok sample_state" "old_pbuf sample_state = Some 2" "kept sample_state = {#2#}"
    by (simp_all add: counter_ok_def kept_def sample_state_def sample_radar_def)
  show "queued 7 (rt sample_state) = []" "queued 8 (rt sample_state) = []"
    by (simp_all add: queued_def queue_items_def q items_def slots_def empty_queue_def map_filter_simps)
  show "own (mem sample_state) {#1, 2#}"
    using sample_radar_owned by (simp add: own_def sample_state_def valid_addr_def split: if_splits)
qed

lemma sample_held: "held sample_env (add_mset 1 {#}) sample_state"
  by (rule heldI [OF sample_state_parts(1-3)]) (use sample_state_parts(4-8) in simp)

theorem packets_owned_witness:
  "\<exists>s'. udp_receive_callback sample_env (Some 1) sample_state = ret s' \<and> held sample_env {#} s'"
proof -
  have "sends_well (\<lambda>a m. ret m)" by (auto simp: sends_well_def intro: exI [of _ "{#}"])
  from packets_owned [OF this] show ?thesis using sample_held by blast
qed

lemma sample_hand_over:
  "own (mem sample_state) (add_mset 2 (in_queues 7 8 sample_state + {#1#}))"
  "cells (mem sample_state) 2 = Some (sample_packet 3)" "ref (sample_packet 3) = 1"
  "gain_task_state sample_env (rt sample_state) = Inr eReady"
  "length (queue_items 8 (rt sample_state)) < queue_capacity 8 (rt sample_state)"
proof -
  show "own (mem sample_state) (add_mset 2 (in_queues 7 8 sample_state + {#1#}))"
    using sample_state_parts(4,5,7) by (simp add: add_mset_commute)
  show "cells (mem sample_state) 2 = Some (sample_packet 3)" by (simp add: sample_state_def)
  show "gain_task_state sample_env (rt sample_state) = Inr eReady"
    by (simp add: gain_task_state_def eTaskGetState_def sample_env_def sample_state_def sample_kernel_def)
  show "length (queue_items 8 (rt sample_state)) < queue_capacity 8 (rt sample_state)"
    by (simp add: queue_items_def queue_capacity_def sample_state_def items_def slots_def empty_queue_def)
qed simp

theorem hand_over_outcomes_witness:
  "\<exists>s1 s2. hand_over_running (\<lambda>a m. ret m) sample_env sample_state = ret s1 \<and>
    hand_over_suspended (\<lambda>a m. ret m) sample_env s1 = ret s2 \<and> queued 8 (rt s2) = [2]"
proof -
  have "sends_well (\<lambda>a m. ret m)" by (auto simp: sends_well_def intro: exI [of _ "{#}"])
  from hand_over_outcomes [OF this sample_state_parts(1,2,6) sample_hand_over(1-4)] show ?thesis
    using sample_hand_over(5) sample_state_parts(5) by auto
qed

text \<open>The gain control task is suspended as \<open>vTaskSuspend\<close> does it.\<close>

lemma sample_suspended:
  "case vTaskSuspend (Some gain_tcb) (kern (rt sample_state)) of Inl _ \<Rightarrow> False
   | Inr (t, k) \<Rightarrow> eTaskGetState gain_tcb False k = eSuspended"
  by code_simp

lemma sample_nobody_waits: "queue_step 8 (rt sample_state) k \<Longrightarrow>
    kern k = kern (rt sample_state) \<and> \<not> waits_in [Some 7, Some 8, None] t (k\<lparr>kern := k'\<rparr>)"
  by (auto simp: queue_step_def wakes_def waits_in_def waits_at_def sample_state_def empty_queue_def)

theorem hand_over_race_witness:
  "\<exists>k k' s'. hand_over_running (\<lambda>a m. ret m) sample_env sample_state = ret (sample_state\<lparr>rt := k\<rparr>) \<and>
    vTaskSuspend (Some gain_tcb) (kern k) = Inr (gain_tcb, k') \<and>
    hand_over_suspended (\<lambda>a m. ret m) sample_env (sample_state\<lparr>rt := k\<lparr>kern := k'\<rparr>\<rparr>) = ret s' \<and>
    2 \<in> set (queued 8 (rt s')) \<and> cells (mem s') 2 = None"
proof -
  obtain k where k: "hand_over_running (\<lambda>a m. ret m) sample_env sample_state = ret (sample_state\<lparr>rt := k\<rparr>)"
    "queue_step 8 (rt sample_state) k"
    and race: "\<forall>k'. gain_task_state sample_env (k\<lparr>kern := k'\<rparr>) = Inr eSuspended \<longrightarrow>
      (\<exists>s'. hand_over_suspended (\<lambda>a m. ret m) sample_env (sample_state\<lparr>rt := k\<lparr>kern := k'\<rparr>\<rparr>) = ret s' \<and>
        2 \<in> set (queued 8 (rt s')) \<and> cells (mem s') 2 = None)"
    using hand_over_race [OF sample_state_parts(1,2,6) sample_hand_over(1-4) _ sample_hand_over(5)] by auto
  obtain k' where k': "vTaskSuspend (Some gain_tcb) (kern k) = Inr (gain_tcb, k')" "eTaskGetState gain_tcb False k' = eSuspended"
    using sample_suspended sample_nobody_waits [OF k(2)]
    by (auto simp: vTaskSuspend_def Let_def split: sum.splits prod.splits if_splits)
  have "gain_task_state sample_env (k\<lparr>kern := k'\<rparr>) = Inr eSuspended"
    using k'(2) sample_nobody_waits [OF k(2)] by (simp add: gain_task_state_def sample_env_def)
  then show ?thesis using k(1) k'(1) race by blast
qed

end
