(* ===== verification/Command_Modes.thy ===== *)
theory Command_Modes
  imports Commands Packet_Ownership
begin

text \<open>
  The command that sets the amplitude, and the whole task that reads the commands: the operator's
  choice decides whether the task of the automatic gain control runs, and the reference counts of the
  packets in the three queues stay exact.
\<close>

section \<open>Suspending and resuming the task of the gain control\<close>

text \<open>What both need: the task exists, is not the current one, and the scheduler runs.\<close>

definition gain_ready :: "env \<Rightarrow> tcb \<Rightarrow> rtos \<Rightarrow> bool" where
  "gain_ready e t k \<longleftrightarrow> xAutoGainControlTask e = Some t \<and> rt_ok k \<and> t \<in># state_items (kern k) \<and>
    t \<noteq> pxCurrentTCB (kern k) \<and> uxSchedulerSuspended (kern k) = 0 \<and> xPendingReadyList (kern k) = []"

text \<open>The queues stay as they are but for their event lists, which lose tasks at most.\<close>

definition only_event_lists :: "rtos \<Rightarrow> rtos \<Rightarrow> bool" where
  "only_event_lists k k' \<longleftrightarrow> (\<forall>h. good_channel h k \<longrightarrow> good_channel h k' \<and> queued h k' = queued h k)"

lemma leave_lists_channel: "only_event_lists k (leave_event_lists ts (k\<lparr>kern := x\<rparr>))"
proof -
  have w: "wf_queue (q\<lparr>xTasksWaitingToSend := a, xTasksWaitingToReceive := b\<rparr>) = wf_queue q"
    "items (q\<lparr>xTasksWaitingToSend := a, xTasksWaitingToReceive := b\<rparr>) = items q" for q a b
    by (simp_all add: wf_queue_def ring_def items_def slots_def slot_def)
  show ?thesis
    unfolding only_event_lists_def
    by (auto simp: good_channel_def good_queue_def queued_def queue_items_def leave_event_lists_def w)
qed

lemma leave_lists_waiting:
  assumes "queues (leave_event_lists ts k) h = Some q'"
  shows "\<exists>q. queues k h = Some q \<and> waiting_tasks q' \<subseteq> waiting_tasks q - set ts"
  using assms by (auto simp: leave_event_lists_def waiting_tasks_def)

lemma leave_lists_rt:
  assumes "rt_ok k" and "keeps_kernel (kern k) x"
  shows "rt_ok (leave_event_lists ts (k\<lparr>kern := x\<rparr>))"
proof -
  have "waiting_tasks q' \<subseteq> set_mset (state_items x)"
    if r: "queues (leave_event_lists ts (k\<lparr>kern := x\<rparr>)) h = Some q'" for h q'
  proof -
    obtain q where "queues k h = Some q" "waiting_tasks q' \<subseteq> waiting_tasks q"
      using leave_lists_waiting [OF r] by auto
    then show ?thesis using assms unfolding rt_ok_def keeps_kernel_def by fastforce
  qed
  then show ?thesis using assms(2) by (simp add: rt_ok_def keeps_kernel_def leave_event_lists_def)
qed

lemma left_waits_nowhere: "\<not> waits_in hs t (leave_event_lists [t] k)"
  unfolding waits_in_iff by (auto simp: leave_event_lists_def)

lemma suspend_gain:
  assumes "gain_ready e t k"
  shows "\<exists>k'. suspend_task (Some t) k = Inr k' \<and> gain_ready e t k' \<and> only_event_lists k k' \<and>
    gain_task_state e k' = Inr eSuspended"
proof -
  let ?x = "move_to_suspended t (kern k)"
  let ?k = "leave_event_lists [t] (k\<lparr>kern := ?x\<rparr>)"
  have k: "kernel_ok (kern k)" "t \<in># state_items (kern k)" "t \<noteq> pxCurrentTCB (kern k)"
    "uxSchedulerSuspended (kern k) = 0" "xPendingReadyList (kern k) = []" "rt_ok k"
    "xAutoGainControlTask e = Some t"
    using assms by (simp_all add: gain_ready_def rt_ok_def)
  note m = move_to_suspended_keeps [OF k(1,2)]
  have pend: "xPendingReadyList ?x = []"
    using k(5) by (simp add: move_to_suspended_def Let_def prvResetNextTaskUnblockTime_def taskRESET_READY_PRIORITY_def
        portRESET_READY_PRIORITY_def remove_state_item_def remove_ready_def)
  have f: "kern ?k = ?x" by (simp add: leave_event_lists_def)
  have run: "suspend_task (Some t) k = Inr ?k"
    using m(6) k(3) by (simp add: suspend_task_def vTaskSuspend_def Let_def)
  have items: "t \<in># state_items ?x" using m(1) k(2) by (simp add: keeps_kernel_def)
  have "gain_ready e t ?k"
    unfolding gain_ready_def f using k m pend items leave_lists_rt [OF k(6) m(1)] by simp
  moreover have "t \<notin> snd ` set (pxDelayedTaskList ?x)" "t \<notin> snd ` set (pxOverflowDelayedTaskList ?x)"
    using once_parts(2) [of ?x t] m(1,2) by (simp_all add: keeps_kernel_def)
  then have "gain_task_state e ?k = Inr eSuspended"
    using k m pend left_waits_nowhere by (simp add: gain_task_state_def suspended_iff f)
  ultimately show ?thesis using run leave_lists_channel by blast
qed

lemma resume_gain:
  assumes "gain_ready e t k" and "gain_task_state e k = Inr eSuspended"
  shows "\<exists>k'. resume_task e k = Inr k' \<and> gain_ready e t k' \<and> only_event_lists k k' \<and>
    gain_task_state e k' = Inr eReady"
proof -
  let ?hs = "[xPbufQueueudp e, xPbufQueueforautogaincontrolQueue e, xPbufQueuetcp e]"
  have k: "kernel_ok (kern k)" "t \<in># state_items (kern k)" "t \<noteq> pxCurrentTCB (kern k)"
    "uxSchedulerSuspended (kern k) = 0" "xPendingReadyList (kern k) = []" "rt_ok k"
    "xAutoGainControlTask e = Some t"
    using assms by (simp_all add: gain_ready_def rt_ok_def)
  have s: "t \<in> set (xSuspendedTaskList (kern k))" "\<not> waits_in ?hs t k"
    using assms(2) k(7) by (simp_all add: gain_task_state_def suspended_iff)
  define x where "x = prvAddTaskToReadyList t (remove_state_item t (kern k))"
  define y where "y = (if uxPriority (pxCurrentTCB x) \<le> uxPriority t then yield_within_api x else x)"
  have x: "keeps_kernel (kern k) x" using make_ready [OF k(1,2)] by (simp add: keeps_kernel_def x_def)
  then have y: "keeps_kernel (kern k) y"
    using keeps_trans [OF x keeps_flags(5)] by (auto simp: y_def keeps_kernel_def)
  have run: "resume_task e k = Inr (k\<lparr>kern := y\<rparr>)"
    using k s by (simp add: resume_task_def vTaskResume_def prvTaskIsTaskSuspended_def Let_def x_def y_def)
  have f: "pxCurrentTCB y = pxCurrentTCB (kern k)" "uxSchedulerSuspended y = 0" "xPendingReadyList y = []"
    "xSuspendedTaskList y = remove1 t (xSuspendedTaskList (kern k))"
    "pxDelayedTaskList y = filter (\<lambda>(v, u). u \<noteq> t) (pxDelayedTaskList (kern k))"
    "pxOverflowDelayedTaskList y = filter (\<lambda>(v, u). u \<noteq> t) (pxOverflowDelayedTaskList (kern k))"
    "t \<in> set (entries (pxReadyTasksLists y (uxPriority t)))"
    using k(4,5) by (simp_all add: y_def x_def yield_within_api_def prvAddTaskToReadyList_def remove_state_item_def
        remove_ready_def entries_insert_end)
  have rt: "rt_ok (k\<lparr>kern := y\<rparr>)" using k(6) y by (simp add: rt_ok_def keeps_kernel_def)
  have "t \<in># state_items y" using y k(2) by (simp add: keeps_kernel_def)
  then have "gain_ready e t (k\<lparr>kern := y\<rparr>)"
    unfolding gain_ready_def using k f rt by simp
  moreover have "t \<notin> snd ` set (pxDelayedTaskList y)" "t \<notin> snd ` set (pxOverflowDelayedTaskList y)"
    unfolding f by auto
  moreover have "t \<notin> set (xSuspendedTaskList y)"
    unfolding f using removed_once [OF once_parts(1) [OF k(1)]] by blast
  ultimately have "gain_ready e t (k\<lparr>kern := y\<rparr>)" "gain_task_state e (k\<lparr>kern := y\<rparr>) = Inr eReady"
    using k(3,7) f by (simp_all add: gain_task_state_def eTaskGetState_def)
  moreover have "only_event_lists k (k\<lparr>kern := y\<rparr>)"
    unfolding only_event_lists_def using channel_cong [of "k\<lparr>kern := y\<rparr>" _ k] by simp
  ultimately show ?thesis using run by blast
qed

section \<open>The amplitude\<close>

text \<open>The first \<open>n\<close> bytes of a message.\<close>

definition head_bytes :: "pbuf \<Rightarrow> nat \<Rightarrow> u8 list" where
  "head_bytes b n = take n (drop (payload b) (storage b))"

lemma read_bytes_take:
  "payload b + i + n \<le> length (storage b) \<Longrightarrow> read_bytes b i n = Inr (take n (drop (payload b + i) (storage b)))"
proof (induction n arbitrary: i)
  case (Suc n)
  have lt: "payload b + i < length (storage b)" using Suc.prems by simp
  have "read_bytes b (i + 1) n = Inr (take n (drop (payload b + (i + 1)) (storage b)))"
    by (rule Suc.IH) (use Suc.prems in simp)
  then show ?case using lt by (simp add: payload_byte_def rd_def Cons_nth_drop_Suc [symmetric])
qed simp

lemma short_len_le: "unat (short_len b) \<le> unat (len b)"
  by (simp add: short_len_def unsigned_ucast_eq take_bit_eq_mod)

text \<open>The pointers the command uses are good.\<close>

definition amplitude_ready :: "env \<Rightarrow> tcb \<Rightarrow> addr \<Rightarrow> pbuf \<Rightarrow> station \<Rightarrow> bool" where
  "amplitude_ready e t p b s \<longleftrightarrow> cells (mem (radar_of s)) p = Some b \<and>
    payload b + unat (len b) \<le> length (storage b) \<and> gain_ready e t (rt (radar_of s)) \<and>
    (\<exists>mo. monitor_at (monitor (link s)) (link s) = Inr mo) \<and>
    pcb_at (tcp_pcb (link s)) (link s) \<noteq> Inl Use_after_free"

definition echo :: "station \<Rightarrow> pbuf \<Rightarrow> (nat \<times> u8 list) list" where
  "echo s b = (case tcp_pcb (link s) of None \<Rightarrow> [] | Some a \<Rightarrow> [(a, head_bytes b (unat (len b)))])"

lemma tcp_write_echo:
  assumes "amplitude_ready e t p b s"
  shows "tcp_write b s = Inr (s\<lparr>link := (link s)\<lparr>written := written (link s) @ echo s b\<rparr>\<rparr>)"
  using assms read_bytes_take [of b 0 "unat (len b)"]
  by (cases "tcp_pcb (link s)")
    (auto simp: tcp_write_def echo_def amplitude_ready_def pcb_at_def head_bytes_def split: option.splits)

lemma send_to_PL_emits:
  assumes "payload b + unat (len b) \<le> length (storage b)"
  shows "send_to_PL b (ucast (short_len b)) s = Inr (emit (head_bytes b (unat (short_len b))) s)"
proof -
  have n: "unat (ucast (short_len b) :: u16) = unat (short_len b)"
    using unat_u8_less [of "short_len b"] by (simp add: unsigned_ucast_eq take_bit_eq_mod)
  have "payload b + 0 + unat (short_len b) \<le> length (storage b)" using assms short_len_le [of b] by simp
  from read_bytes_take [OF this] show ?thesis by (simp add: send_to_PL_def n head_bytes_def)
qed

lemma automatic_mode_runs:
  assumes "gain_ready e t (rt (radar_of s))"
  shows "\<exists>k st. automatic_mode e s = Inr (set_rt k s) \<and> only_event_lists (rt (radar_of s)) k \<and>
    gain_ready e t k \<and> gain_task_state e k = Inr st \<and> st \<noteq> eSuspended"
proof (cases "gain_task_state e (rt (radar_of s)) = Inr eSuspended")
  case True
  then show ?thesis using resume_gain [OF assms True] by (auto simp: automatic_mode_def)
next
  case False
  have "set_rt (rt (radar_of s)) s = s" by (simp add: set_rt_def)
  moreover have "only_event_lists k k" for k by (simp add: only_event_lists_def)
  moreover obtain st where "gain_task_state e (rt (radar_of s)) = Inr st"
    using assms by (auto simp: gain_ready_def gain_task_state_def)
  ultimately show ?thesis
    using False assms by (intro exI [of _ "rt (radar_of s)"] exI [of _ st]) (simp add: automatic_mode_def)
qed

lemma manual_mode_runs:
  assumes "gain_ready e t (rt (radar_of s))"
  shows "\<exists>k. manual_mode e s = Inr (set_rt k s) \<and> only_event_lists (rt (radar_of s)) k \<and>
    gain_ready e t k \<and> gain_task_state e k = Inr eSuspended"
proof -
  have h: "xAutoGainControlTask e = Some t" using assms by (simp add: gain_ready_def)
  obtain st where st: "gain_task_state e (rt (radar_of s)) = Inr st"
    using assms by (auto simp: gain_ready_def gain_task_state_def)
  have same: "set_rt (rt (radar_of s)) s = s" "only_event_lists k k" for k
    by (simp_all add: set_rt_def only_event_lists_def)
  show ?thesis
  proof (cases "st = eSuspended")
    case True
    then show ?thesis using st same assms by (intro exI [of _ "rt (radar_of s)"]) (simp add: manual_mode_def)
  next
    case False
    then show ?thesis using suspend_gain [OF assms] st h by (auto simp: manual_mode_def)
  qed
qed

lemma overwrite_first:
  assumes "payload b + unat (len b) \<le> length (storage b)" and "short_len b \<noteq> 0"
  shows "\<exists>b'. payload_write b 0 [y] = Inr b' \<and> short_len b' = short_len b \<and>
    payload b' + unat (len b') \<le> length (storage b') \<and> shape b' = shape b \<and>
    head_bytes b' (unat (short_len b)) = y # tl (head_bytes b (unat (short_len b)))"
proof -
  have n: "0 < unat (short_len b)" using assms(2) by (simp add: unat_gt_0)
  have le: "payload b + 1 \<le> length (storage b)" using assms(1) n short_len_le [of b] by simp
  let ?b = "b\<lparr>storage := take (payload b) (storage b) @ [y] @ drop (payload b + 1) (storage b)\<rparr>"
  have "payload_write b 0 [y] = Inr ?b" using le by (simp add: payload_write_def)
  moreover have "drop (payload b) (storage ?b) = y # drop (payload b + 1) (storage b)" using le by simp
  then have "head_bytes ?b (unat (short_len b)) = y # tl (head_bytes b (unat (short_len b)))"
    using n by (cases "unat (short_len b)") (simp_all add: head_bytes_def take_Suc drop_Suc tl_drop tl_take)
  ultimately show ?thesis using le assms(1) by (intro exI [of _ ?b]) (simp add: short_len_def shape_def)
qed

text \<open>The first byte of the command decides: the station after it, up to the code noted last.\<close>

definition amplitude_set :: "env \<Rightarrow> pbuf \<Rightarrow> u8 \<Rightarrow> station \<Rightarrow> station \<Rightarrow> bool" where
  "amplitude_set e b x s s' \<longleftrightarrow>
    (let msg = head_bytes b (unat (short_len b)); k = rt (radar_of s'); sent = to_PL (gain (radar_of s)) in
     if x = CMD_CTRL_AMPL_AUTO_VALUE then
       (\<exists>st. gain_task_state e k = Inr st \<and> st \<noteq> eSuspended) \<and> to_PL (gain (radar_of s')) = sent @ [0x7F # tl msg]
     else if CMD_CTRL_AMPL_MIN_VALUE < x \<and> x < CMD_CTRL_AMPL_MAX_VALUE then
       gain_task_state e k = Inr eSuspended \<and> to_PL (gain (radar_of s')) = sent @ [msg]
     else k = rt (radar_of s) \<and> to_PL (gain (radar_of s')) = sent)"

definition packet_kept :: "env \<Rightarrow> tcb \<Rightarrow> station \<Rightarrow> station \<Rightarrow> bool" where
  "packet_kept e t s s' \<longleftrightarrow> same_shapes (mem (radar_of s)) (mem (radar_of s')) \<and>
    (\<exists>k m g. radar_of s' = (radar_of s)\<lparr>rt := k, mem := m, gain := g\<rparr>) \<and>
    only_event_lists (rt (radar_of s)) (rt (radar_of s')) \<and> gain_ready e t (rt (radar_of s'))"

lemma emit_fields [fields]:
  "link (emit bs s) = link s" "rt (radar_of (emit bs s)) = rt (radar_of s)" "mem (radar_of (emit bs s)) = mem (radar_of s)"
  "to_PL (gain (radar_of (emit bs s))) = to_PL (gain (radar_of s)) @ [bs]"
  by (simp_all add: emit_def)

lemma radar_parts: "\<exists>k' m g'. (r :: radar)\<lparr>rt := k, gain := g\<rparr> = r\<lparr>rt := k', mem := m, gain := g'\<rparr>"
  by (intro exI [of _ k] exI [of _ "mem r"] exI [of _ g]) simp

lemma control_amplitude_sets:
  assumes "amplitude_ready e t p b s" and "short_len b \<noteq> 0" and x: "payload_byte b 0 = Inr x"
  shows "\<exists>s2. control_amplitude e p b s = note_command CMD_CTRL_AMPL s2 \<and>
    link s2 = (link s)\<lparr>written := written (link s) @ echo s b\<rparr> \<and> amplitude_set e b x s s2 \<and> packet_kept e t s s2"
proof -
  let ?s = "s\<lparr>link := (link s)\<lparr>written := written (link s) @ echo s b\<rparr>\<rparr>"
  have b: "payload b + unat (len b) \<le> length (storage b)" "gain_ready e t (rt (radar_of ?s))"
    "cells (mem (radar_of s)) p = Some b"
    using assms(1) by (simp_all add: amplitude_ready_def)
  note start = tcp_write_echo [OF assms(1)]
  consider "x = CMD_CTRL_AMPL_AUTO_VALUE"
    | "x \<noteq> CMD_CTRL_AMPL_AUTO_VALUE" "CMD_CTRL_AMPL_MIN_VALUE < x \<and> x < CMD_CTRL_AMPL_MAX_VALUE"
    | "x \<noteq> CMD_CTRL_AMPL_AUTO_VALUE" "\<not> (CMD_CTRL_AMPL_MIN_VALUE < x \<and> x < CMD_CTRL_AMPL_MAX_VALUE)" by blast
  then show ?thesis
  proof cases
    case 1
    obtain k st where k: "automatic_mode e ?s = Inr (set_rt k ?s)" "only_event_lists (rt (radar_of s)) k"
      "gain_ready e t k" "gain_task_state e k = Inr st" "st \<noteq> eSuspended"
      using automatic_mode_runs [OF b(2)] by auto
    obtain b' where b': "payload_write b 0 [0x7F] = Inr b'" "short_len b' = short_len b"
      "payload b' + unat (len b') \<le> length (storage b')" "shape b' = shape b"
      "head_bytes b' (unat (short_len b)) = 0x7F # tl (head_bytes b (unat (short_len b)))"
      using overwrite_first [OF b(1) assms(2)] by blast
    let ?m = "put p b' (mem (radar_of s))"
    let ?s2 = "emit (head_bytes b' (unat (short_len b))) (s\<lparr>link := link ?s, radar_of := (radar_of s)\<lparr>rt := k, mem := ?m\<rparr>\<rparr>)"
    have "control_amplitude e p b s = note_command CMD_CTRL_AMPL ?s2"
      using start x 1 k(1) b'(1,2) send_to_PL_emits [OF b'(3)] by (simp add: control_amplitude_def set_rt_def)
    moreover have "same_shapes (mem (radar_of s)) ?m"
      using b(3) b'(4) by (simp add: same_shapes_def put_def)
    then have "packet_kept e t s ?s2"
      using k by (simp add: packet_kept_def fields) (auto simp: emit_def)
    moreover have "amplitude_set e b x s ?s2"
      using 1 k(4,5) b'(5) by (simp add: amplitude_set_def fields)
    ultimately show ?thesis by (intro exI [of _ ?s2]) (simp add: fields)
  next
    case 2
    obtain k where k: "manual_mode e ?s = Inr (set_rt k ?s)" "only_event_lists (rt (radar_of s)) k"
      "gain_ready e t k" "gain_task_state e k = Inr eSuspended"
      using manual_mode_runs [OF b(2)] by auto
    let ?s2 = "emit (head_bytes b (unat (short_len b))) (set_rt k ?s)"
    have "control_amplitude e p b s = note_command CMD_CTRL_AMPL ?s2"
      using start x 2 k(1) send_to_PL_emits [OF b(1)] by (simp add: control_amplitude_def)
    moreover have "packet_kept e t s ?s2"
      using k radar_parts by (simp add: packet_kept_def fields set_rt_def same_shapes_def) (simp add: emit_def)
    moreover have "amplitude_set e b x s ?s2"
      using 2 k(4) by (simp add: amplitude_set_def fields set_rt_def)
    ultimately show ?thesis by (intro exI [of _ ?s2]) (simp add: fields set_rt_def)
  next
    case 3
    have "control_amplitude e p b s = note_command CMD_CTRL_AMPL ?s"
      using start x 3(1) by (simp add: control_amplitude_def if_not_P [OF 3(2)])
    moreover have "\<exists>k m g. radar_of ?s = (radar_of s)\<lparr>rt := k, mem := m, gain := g\<rparr>"
      by (intro exI [of _ "rt (radar_of s)"] exI [of _ "mem (radar_of s)"] exI [of _ "gain (radar_of s)"]) simp
    then have "packet_kept e t s ?s"
      using b(2) by (simp add: packet_kept_def same_shapes_def only_event_lists_def)
    moreover have "amplitude_set e b x s ?s" using 3 by (auto simp: amplitude_set_def Let_def)
    ultimately show ?thesis by (intro exI [of _ ?s]) simp
  qed
qed

text \<open>
  C33: The command that sets the amplitude, a message of less than six bytes that ends with C3. It is
  passed to \<open>tcp_write\<close> as it came, if there is a control block. With the first byte FF the task of the
  automatic gain control is not suspended afterwards, and the logic gets the message with 7F in
  front; with a first byte from 1 to 7E the task is suspended, and the logic gets the message; with
  any other (7F among them, and the C3 itself of a message of one byte) nothing changes. In all
  cases C3 is noted as the last command.
\<close>

theorem amplitude_command:
  assumes "amplitude_ready e t p b s" and "short_len b \<noteq> 0" and "short_len b < 6"
    and "payload_byte b (unat (short_len b) - 1) = Inr 0xC3" and "payload_byte b 0 = Inr x"
  shows "\<exists>s'. parse_msg e (Some p) s = Inr s' \<and> amplitude_set e b x s s' \<and>
    written (link s') = written (link s) @ echo s b \<and>
    map_option last_recv_cmd (monitors (link s') (the (monitor (link s)))) = Some CMD_CTRL_AMPL"
proof -
  have "cells (mem (radar_of s)) p = Some b" using assms(1) by (simp add: amplitude_ready_def)
  from parse_short [OF this assms(2-4), of e]
  have run: "parse_msg e (Some p) s = control_amplitude e p b s" by simp
  obtain s2 where s2: "control_amplitude e p b s = note_command CMD_CTRL_AMPL s2"
    "link s2 = (link s)\<lparr>written := written (link s) @ echo s b\<rparr>" "amplitude_set e b x s s2"
    using control_amplitude_sets [OF assms(1,2,5)] by blast
  obtain mo where mo: "monitor_at (monitor (link s2)) (link s2) = Inr mo"
    using assms(1) s2(2) by (auto simp: amplitude_ready_def monitor_at_def split: option.splits)
  then obtain s' where s': "note_command CMD_CTRL_AMPL s2 = Inr s'" by (simp add: note_command_def)
  have r: "radar_of s' = radar_of s2" "written (link s') = written (link s2)"
    using note_command_noted [OF s'] by simp_all
  have "map_option last_recv_cmd (monitors (link s') (the (monitor (link s)))) = Some CMD_CTRL_AMPL"
    using s' mo s2(2) by (auto simp: note_command_def)
  moreover have "amplitude_set e b x s s'" using s2(3) unfolding amplitude_set_def r(1) .
  ultimately show ?thesis using run s2(1,2) s' r(2) by simp
qed

text \<open>The station of the witnesses: the kernel of two tasks, and a packet of two bytes.\<close>

lemma sample_gain_ready: "gain_ready sample_env gain_tcb (rt sample_state)"
proof -
  have "rt_ok (rt sample_state)" using sample_state_parts(2) by (simp add: channels_ok_def)
  moreover have "gain_tcb \<in> set (entries (pxReadyTasksLists (kern (rt sample_state)) 1))"
    by (simp add: sample_state_def)
  then have "gain_tcb \<in># state_items (kern (rt sample_state))"
    unfolding state_items_def by (auto simp: set_mset_sum configMAX_PRIORITIES_def)
  ultimately show ?thesis
    by (simp add: gain_ready_def sample_env_def sample_state_def sample_kernel_def)
qed

theorem amplitude_command_witness:
  "\<exists>s'. parse_msg sample_env (Some 1) (command_station [0x20, 0xC3] (rt sample_state)) = Inr s' \<and>
    gain_task_state sample_env (rt (radar_of s')) = Inr eSuspended \<and> to_PL (gain (radar_of s')) = [[0x20, 0xC3]]"
proof -
  let ?b = "command_packet [0x20, 0xC3]" and ?s = "command_station [0x20, 0xC3] (rt sample_state)"
  have b: "short_len ?b = 2" "payload_byte ?b 1 = Inr 0xC3" "payload_byte ?b 0 = Inr 0x20"
    "payload ?b + unat (len ?b) \<le> length (storage ?b)" "head_bytes ?b 2 = [0x20, 0xC3]"
    by code_simp+
  have m: "(0x20 :: u8) \<noteq> CMD_CTRL_AMPL_AUTO_VALUE" "CMD_CTRL_AMPL_MIN_VALUE < 0x20 \<and> 0x20 < CMD_CTRL_AMPL_MAX_VALUE"
    by code_simp+
  have "amplitude_ready sample_env gain_tcb 1 ?b ?s"
    using sample_gain_ready b(4) unfolding amplitude_ready_def
    by (simp add: command_station_def command_radar_def monitor_at_def pcb_at_def no_connection_def)
  from amplitude_command [OF this, of "0x20"]
  show ?thesis using b m
    by (simp add: amplitude_set_def Let_def) (auto simp: command_station_def command_radar_def initial_agc_def)
qed

text \<open>
  C32: Whatever bytes the peer sends, a message that is parsed without a fault leaves a code of the
  list \<open>cmd_pull\<close> as the last command of the monitor, or the monitor as it was; the other fields of
  the monitors, the control blocks, the pointers to them and the state of the connection do not change.
  At most one message is passed to \<open>tcp_write\<close>, for the current control block, and only by the command
  that sets the amplitude (the only one whose code is \<open>CMD_CTRL_AMPL\<close>).
\<close>

theorem commands_known:
  assumes "parse_msg e p s = Inr s'"
  shows "noted_in (set cmd_pull) (link s) (link s')"
  using parse_outcomes [OF assms]
proof (elim disjE bexE exE)
  fix c assume "c \<in> set cmd_pull" "note_command c s = Inr s'"
  then show ?thesis using note_command_noted [of c s s'] unfolding noted_in_def by blast
next
  fix a b assume "p = Some a \<and> cells (mem (radar_of s)) a = Some b \<and> control_amplitude e a b s = Inr s'"
  then have "control_amplitude e a b s = Inr s'" by simp
  moreover have "CMD_CTRL_AMPL \<in> set cmd_pull" by (simp add: cmd_pull_def)
  ultimately show ?thesis using control_amplitude_noted [of e a b s s'] unfolding noted_in_def by blast
qed (simp add: noted_in_def)

theorem commands_known_witness:
  "\<exists>s'. parse_msg sample_env (Some 1) (command_station [0x05, 0xC7] (rt sample_state)) = Inr s' \<and>
    noted_in (set cmd_pull) (link (command_station [0x05, 0xC7] (rt sample_state))) (link s')"
proof -
  let ?s = "command_station [0x05, 0xC7] (rt sample_state)" and ?b = "command_packet [0x05, 0xC7]"
  have b: "short_len ?b \<noteq> 0" "short_len ?b < 6" "payload_byte ?b (unat (short_len ?b) - 1) = Inr 0xC7"
    "command_of 0xC7 = Some CMD_RESET_FAULTS" by code_simp+
  have "cells (mem (radar_of ?s)) 1 = Some ?b" by (simp add: command_station_def command_radar_def)
  from parse_short [OF this b(1-3), of sample_env] b(4)
  have "parse_msg sample_env (Some 1) ?s = note_command CMD_RESET_FAULTS ?s" by simp
  moreover have "\<exists>s'. note_command CMD_RESET_FAULTS ?s = Inr s'"
    by (simp add: note_command_def monitor_at_def command_station_def no_connection_def)
  ultimately obtain s' where "parse_msg sample_env (Some 1) ?s = Inr s'" by auto
  then show ?thesis using commands_known [of sample_env "Some 1" ?s s'] by blast
qed

section \<open>The task\<close>

text \<open>A queue operation does not touch the current task, the suspension of the scheduler or its pending list.\<close>

lemma queue_step_fields:
  assumes "rt_ok k" and "uxSchedulerSuspended (kern k) = 0" and "queue_step h k k'"
  shows "rt_ok k' \<and> state_items (kern k') = state_items (kern k) \<and> pxCurrentTCB (kern k') = pxCurrentTCB (kern k) \<and>
    uxSchedulerSuspended (kern k') = 0 \<and> xPendingReadyList (kern k') = xPendingReadyList (kern k)"
proof (cases "k' = k")
  case False
  have rt: "rt_ok k'" by (rule queue_step_ok [OF assms(3,1)])
  obtain q q' ws ws' where q: "queues k h = Some q" "wakes ws ws' (kern k) (kern k')" "set ws \<subseteq> waiting_tasks q"
    using False assms(3) by (auto simp: queue_step_def waiting_tasks_def)
  have ok: "kernel_ok (kern k)" "set ws \<subseteq> set_mset (state_items (kern k))"
    using assms(1) q(1,3) by (auto simp: rt_ok_def)
  have keep: "keeps_kernel (kern k) (kern k')" by (rule wakes_keeps(1) [OF q(2) ok])
  show ?thesis
  proof (cases "kern k' = kern k")
    case True
    then show ?thesis using assms(2) rt by simp
  next
    case other: False
    then obtain x us f k1 where x: "ws = x # us" "xTaskRemoveFromEventList (x # us) (kern k) = Inr (f, ws', k1)"
      "kern k' \<in> {k1, yield_within_api k1}"
      using q(2) unfolding wakes_def by (cases ws) auto
    have "pxCurrentTCB k1 = pxCurrentTCB (kern k)" "xPendingReadyList k1 = xPendingReadyList (kern k)"
      using removal_fields [OF x(2)] assms(2) by simp_all
    moreover have "uxSchedulerSuspended k1 = 0"
      using x(2) assms(2) by (auto simp: Let_def prvAddTaskToReadyList_def remove_state_item_def remove_ready_def split: if_splits)
    ultimately show ?thesis using x(3) rt keep by (auto simp: yield_within_api_def keeps_kernel_def)
  qed
qed (use assms in simp)

lemma queue_step_gain_ready: "gain_ready e t k \<Longrightarrow> queue_step h k k' \<Longrightarrow> gain_ready e t k'"
  using queue_step_fields [of k h k'] by (simp add: gain_ready_def)

lemma control_amplitude_kept:
  assumes "control_amplitude e p b s = Inr s'" and "cells (mem (radar_of s)) p = Some b"
    and "gain_ready e t (rt (radar_of s))"
  shows "packet_kept e t s s'"
proof -
  obtain s1 s2 x where s1: "tcp_write b s = Inr s1" and s2: "(if x = CMD_CTRL_AMPL_AUTO_VALUE then
         bindr (automatic_mode e s1) (\<lambda>s. bindr (payload_write b 0 [0x7F]) (\<lambda>b.
         send_to_PL b (ucast (short_len b)) (s\<lparr>radar_of := (radar_of s)\<lparr>mem := put p b (mem (radar_of s))\<rparr>\<rparr>)))
       else if CMD_CTRL_AMPL_MIN_VALUE < x \<and> x < CMD_CTRL_AMPL_MAX_VALUE then
         bindr (manual_mode e s1) (\<lambda>s. send_to_PL b (ucast (short_len b)) s)
       else Inr s1) = Inr s2" and s': "note_command CMD_CTRL_AMPL s2 = Inr s'"
    using assms(1) unfolding control_amplitude_def bindr_eq_Inr by blast
  have r1: "radar_of s1 = radar_of s" using tcp_write_noted [OF s1] by simp
  then have g1: "gain_ready e t (rt (radar_of s1))" using assms(3) by simp
  obtain ka sa where a: "automatic_mode e s1 = Inr (set_rt ka s1)" "only_event_lists (rt (radar_of s)) ka" "gain_ready e t ka"
    using automatic_mode_runs [OF g1] r1 by auto
  obtain km where m: "manual_mode e s1 = Inr (set_rt km s1)" "only_event_lists (rt (radar_of s)) km" "gain_ready e t km"
    using manual_mode_runs [OF g1] r1 by auto
  have "\<exists>k m g. radar_of s2 = (radar_of s)\<lparr>rt := k, mem := m, gain := g\<rparr> \<and> only_event_lists (rt (radar_of s)) k \<and>
    gain_ready e t k \<and> same_shapes (mem (radar_of s)) m"
  proof (cases "x = CMD_CTRL_AMPL_AUTO_VALUE")
    case True
    then obtain b' bs where b': "payload_write b 0 [0x7F] = Inr b'"
      "s2 = emit bs ((set_rt ka s1)\<lparr>radar_of := (radar_of (set_rt ka s1))\<lparr>mem := put p b' (mem (radar_of s1))\<rparr>\<rparr>)"
      using s2 a(1) by (auto simp: send_to_PL_def set_rt_def)
    have "same_shapes (mem (radar_of s)) (put p b' (mem (radar_of s)))"
      using payload_write_shape [OF b'(1)] assms(2) by (simp add: same_shapes_def put_def)
    then show ?thesis using b'(2) a r1
      by (intro exI [of _ ka] exI [of _ "put p b' (mem (radar_of s))"] exI [of _ "gain (radar_of s2)"])
        (simp add: emit_def set_rt_def)
  next
    case False
    then consider "s2 = s1" | bs where "s2 = emit bs (set_rt km s1)"
      using s2 m(1) by (auto simp: send_to_PL_def split: if_splits)
    then show ?thesis
    proof cases
      case 1
      then show ?thesis using r1 assms(3)
        by (intro exI [of _ "rt (radar_of s)"] exI [of _ "mem (radar_of s)"] exI [of _ "gain (radar_of s)"])
          (simp add: only_event_lists_def same_shapes_def)
    next
      case 2
      then show ?thesis using r1 m
        by (intro exI [of _ km] exI [of _ "mem (radar_of s)"] exI [of _ "gain (radar_of s2)"])
          (simp add: emit_def set_rt_def same_shapes_def)
    qed
  qed
  then show ?thesis using note_command_noted [OF s'] unfolding packet_kept_def by force
qed

lemma packet_kept_same: "radar_of s' = radar_of s \<Longrightarrow> gain_ready e t (rt (radar_of s)) \<Longrightarrow> packet_kept e t s s'"
  unfolding packet_kept_def
  by (intro conjI exI [of _ "rt (radar_of s)"] exI [of _ "mem (radar_of s)"] exI [of _ "gain (radar_of s)"])
    (simp_all add: same_shapes_def only_event_lists_def)

text \<open>The state between two rounds: the packets queued for the command task are among those held.\<close>

definition command_held :: "env \<Rightarrow> tcb \<Rightarrow> addr multiset \<Rightarrow> station \<Rightarrow> bool" where
  "command_held e t R s \<longleftrightarrow> (\<exists>hc. xPbufQueuetcp e = Some hc \<and> xPbufQueueudp e \<noteq> Some hc \<and>
    xPbufQueueforautogaincontrolQueue e \<noteq> Some hc \<and> good_channel hc (rt (radar_of s)) \<and>
    held e (mset (queued hc (rt (radar_of s))) + R) (radar_of s)) \<and> gain_ready e t (rt (radar_of s))"

lemma held_step:
  assumes "held e M r" and "\<And>h. good_channel h (rt r) \<Longrightarrow> xPbufQueueudp e = Some h \<or> xPbufQueueforautogaincontrolQueue e = Some h \<Longrightarrow>
      good_channel h k \<and> queued h k = queued h (rt r)"
    and "rt_ok k" and "\<And>N. own (mem r) (N + M) \<Longrightarrow> own m (N + M')"
  shows "held e M' (r\<lparr>rt := k, gain := g, mem := m\<rparr>)"
proof -
  obtain hu ha where h: "handles_ok e hu ha" "channels_ok hu ha (rt r)" "counter_ok r"
    "own (mem r) (in_queues hu ha r + kept r + M)"
    using assms(1) by (auto simp: held_def)
  have q: "good_channel hu k \<and> queued hu k = queued hu (rt r)" "good_channel ha k \<and> queued ha k = queued ha (rt r)"
    using h(1,2) assms(2) by (auto simp: handles_ok_def channels_ok_def)
  have "own m (in_queues hu ha r + kept r + M')" using assms(4) [OF h(4)] .
  then show ?thesis
    using h q assms(3) by (intro heldI [OF h(1)]) (simp_all add: channels_ok_def fields kept_def counter_ok_def ac_simps split: if_splits)
qed

text \<open>
  A round of \<open>tcp_parse_task\<close>, whatever bytes the packet holds: when it ends without a fault, the
  packet it took from the queue has been released once and no other, the reference counts are still the
  numbers of the pointers that the three queues, the fusing task and lwIP hold, and the task of the gain control is still in one of
  the lists of the scheduler. Nothing else changes if the queue was empty.
\<close>

lemma command_packet_released:
  assumes "command_held e t R s" and "tcp_parse_task e s = ret s'"
  shows "command_held e t R s'"
proof -
  obtain hc where hc: "xPbufQueuetcp e = Some hc" "xPbufQueueudp e \<noteq> Some hc"
    "xPbufQueueforautogaincontrolQueue e \<noteq> Some hc" "good_channel hc (rt (radar_of s))"
    "held e (mset (queued hc (rt (radar_of s))) + R) (radar_of s)" and g: "gain_ready e t (rt (radar_of s))"
    using assms(1) by (auto simp: command_held_def)
  obtain item k where k: "receive_pointer (Some hc) (rt (radar_of s)) = Inr (item, k)" "good_channel hc k"
    "queue_step hc (rt (radar_of s)) k"
    "case item of Some (Some p) \<Rightarrow> queued hc (rt (radar_of s)) = p # queued hc k | _ \<Rightarrow> queued hc k = queued hc (rt (radar_of s))"
    using receive_channel [OF hc(4)] by blast
  have gk: "gain_ready e t k" by (rule queue_step_gain_ready [OF g k(3)])
  then have rk: "rt_ok k" by (simp add: gain_ready_def)
  have others: "good_channel h k \<and> queued h k = queued h (rt (radar_of s))"
    if "good_channel h (rt (radar_of s))" "xPbufQueueudp e = Some h \<or> xPbufQueueforautogaincontrolQueue e = Some h" for h
    using channel_cong [OF queue_step_others [OF k(3), of h]] that hc(2,3) by auto
  show ?thesis
  proof (cases "\<exists>p. item = Some (Some p)")
    case False
    then have s': "s' = set_rt k s" and same: "queued hc k = queued hc (rt (radar_of s))"
      using assms(2) k(1,4) hc(1) by (auto simp: tcp_parse_task_def split: option.splits)
    have "held e (mset (queued hc k) + R) ((radar_of s)\<lparr>rt := k, gain := gain (radar_of s), mem := mem (radar_of s)\<rparr>)"
      by (rule held_step [OF hc(5) others rk]) (simp_all add: same)
    then show ?thesis using s' hc k(2) gk by (simp add: command_held_def set_rt_def)
  next
    case True
    then obtain p where p: "item = Some (Some p)" by blast
    then have front: "queued hc (rt (radar_of s)) = p # queued hc k" using k(4) by simp
    obtain s1 m where s1: "parse_msg e (Some p) (set_rt k s) = Inr s1" "free1 p (mem (radar_of s1)) = ret m"
      "s' = s1\<lparr>radar_of := (radar_of s1)\<lparr>mem := m\<rparr>\<rparr>"
      using assms(2) k(1) hc(1) p by (auto simp: tcp_parse_task_def free_pointer_Some Let_def bindl_eq_ret)
    have f: "rt (radar_of (set_rt k s)) = k" "mem (radar_of (set_rt k s)) = mem (radar_of s)" by (simp_all add: set_rt_def)
    have "packet_kept e t (set_rt k s) s1"
      using parse_outcomes [OF s1(1)]
    proof (elim disjE bexE exE)
      fix a b assume "Some p = Some a \<and> cells (mem (radar_of (set_rt k s))) a = Some b \<and>
        control_amplitude e a b (set_rt k s) = Inr s1"
      then show ?thesis using control_amplitude_kept [of e p b "set_rt k s" s1 t] gk f(1) by simp
    qed (use note_command_noted gk f in \<open>auto intro!: packet_kept_same\<close>)
    then obtain k2 m2 g2 where r1: "radar_of s1 = (radar_of s)\<lparr>rt := k2, mem := m2, gain := g2\<rparr>"
      "only_event_lists k k2" "gain_ready e t k2" "same_shapes (mem (radar_of s)) m2"
      unfolding packet_kept_def by (auto simp: set_rt_def)
    have own2: "own m (N + (mset (queued hc k2) + R))"
      if "own (mem (radar_of s)) (N + (mset (queued hc (rt (radar_of s))) + R))" for N
    proof -
      have "own m2 (add_mset p (N + (mset (queued hc k) + R)))"
        using same_shapes_own [OF that r1(4)] front by (simp add: ac_simps)
      then have "own m (N + (mset (queued hc k) + R))" using free1_ret s1(2) r1(1) by simp
      then show ?thesis using r1(2) k(2) by (simp add: only_event_lists_def)
    qed
    have rk2: "rt_ok k2" using r1(3) by (simp add: gain_ready_def)
    have "held e (mset (queued hc k2) + R) ((radar_of s)\<lparr>rt := k2, gain := g2, mem := m\<rparr>)"
    proof (rule held_step [OF hc(5) _ rk2 own2])
      show "good_channel h k2 \<and> queued h k2 = queued h (rt (radar_of s))"
        if "good_channel h (rt (radar_of s))" "xPbufQueueudp e = Some h \<or> xPbufQueueforautogaincontrolQueue e = Some h" for h
        using others [OF that] r1(2) by (simp add: only_event_lists_def)
    qed
    then show ?thesis using s1(3) r1 hc(1-3) k(2) by (simp add: command_held_def only_event_lists_def)
  qed
qed

text \<open>The queue of the commands holds a packet of 34 bytes.\<close>

definition command_env :: env where
  "command_env = sample_env\<lparr>xPbufQueuetcp := Some 9\<rparr>"

definition command_queue :: queue where
  "command_queue = empty_queue\<lparr>qstore := pointer_bytes (Some 1) @ replicate 4 0, pcWriteTo := 4, uxMessagesWaiting := 1\<rparr>"

definition command_rt :: rtos where
  "command_rt = (rt sample_state)\<lparr>queues := (queues (rt sample_state))(9 \<mapsto> command_queue)\<rparr>"

definition command_sample :: station where
  "command_sample = (command_station [] command_rt)
    \<lparr>radar_of := sample_state\<lparr>rt := command_rt, gain := gain sample_state, mem := mem sample_state\<rparr>\<rparr>"

lemma command_queue_ok: "good_channel 9 command_rt" "queued 9 command_rt = [1]"
proof -
  have q: "queues command_rt 9 = Some command_queue" by (simp add: command_rt_def)
  have "wf_queue command_queue"
    by (auto simp: wf_queue_def ring_def command_queue_def empty_queue_def)
  then show "good_channel 9 command_rt"
    by (simp add: good_channel_def good_queue_def q) (simp add: command_queue_def empty_queue_def)
  show "queued 9 command_rt = [1]" by code_simp
qed

lemma command_gain_ready: "gain_ready command_env gain_tcb command_rt"
proof -
  have g: "gain_ready sample_env gain_tcb (rt sample_state)" by (rule sample_gain_ready)
  have "waiting_tasks command_queue = {}" by (simp add: waiting_tasks_def command_queue_def empty_queue_def)
  then have "rt_ok command_rt" using g by (auto simp: gain_ready_def rt_ok_def command_rt_def)
  then show ?thesis using g by (simp add: gain_ready_def command_rt_def command_env_def)
qed

lemma command_sample_held: "command_held command_env gain_tcb {#} command_sample"
proof -
  have h: "handles_ok command_env 7 8" by (simp add: handles_ok_def command_env_def sample_env_def)
  have "held command_env (add_mset 1 {#}) sample_state"
    by (rule heldI [OF h sample_state_parts(2,3)]) (use sample_state_parts(4-8) in simp)
  then have "held command_env {#1#} (sample_state\<lparr>rt := command_rt, gain := gain sample_state, mem := mem sample_state\<rparr>)"
  proof (rule held_step)
    show "rt_ok command_rt" using command_gain_ready by (simp add: gain_ready_def)
    show "good_channel x command_rt \<and> queued x command_rt = queued x (rt sample_state)"
      if "good_channel x (rt sample_state)" "xPbufQueueudp command_env = Some x \<or> xPbufQueueforautogaincontrolQueue command_env = Some x" for x
      using that h channel_cong [of command_rt x "rt sample_state"] by (auto simp: handles_ok_def command_rt_def)
  qed
  moreover have "radar_of command_sample = sample_state\<lparr>rt := command_rt, gain := gain sample_state, mem := mem sample_state\<rparr>"
    unfolding command_sample_def by (cases "command_station [] command_rt") (simp del: radar.update_convs)
  ultimately have "held command_env {#1#} (radar_of command_sample)" "rt (radar_of command_sample) = command_rt"
    by simp_all
  then show ?thesis
    using command_queue_ok command_gain_ready
    by (simp add: command_held_def) (simp add: command_env_def sample_env_def)
qed

lemma command_round: "\<exists>s'. tcp_parse_task command_env command_sample = ret s'"
proof -
  have "case receive_pointer (Some 9) command_rt of Inr (Some (Some p), k) \<Rightarrow> p = 1 | _ \<Rightarrow> False" by code_simp
  then obtain k where k: "receive_pointer (Some 9) command_rt = Inr (Some (Some 1), k)"
    by (auto split: sum.splits option.splits prod.splits)
  let ?s = "set_rt k command_sample"
  have m: "mem (radar_of ?s) = mem sample_state" by (simp add: set_rt_def command_sample_def)
  have "short_len (sample_packet 5) = 34" "last_byte (sample_packet 5) = Inr 5" by code_simp+
  moreover have "cells (mem (radar_of ?s)) 1 = Some (sample_packet 5)" by (simp add: m sample_state_def)
  ultimately have "parse_msg command_env (Some 1) ?s = note_command CMD_BLANK_SEC ?s"
    by (simp add: parse_msg_def cell_def)
  moreover obtain s1 where s1: "note_command CMD_BLANK_SEC ?s = Inr s1"
    by (simp add: note_command_def monitor_at_def set_rt_def command_sample_def command_station_def no_connection_def)
  moreover have "mem (radar_of s1) = mem sample_state" using note_command_noted [OF s1] m by simp
  moreover obtain m' where "free1 1 (mem sample_state) = ret m'"
    using free1_own [of "mem sample_state" 1 "{#2#}"] sample_state_parts(7) by (auto simp: runs_def)
  ultimately show ?thesis
    using k by (simp add: tcp_parse_task_def command_env_def command_sample_def free_pointer_Some Let_def)
qed

end
