(* ===== verification/Radar_System.thy ===== *)
theory Radar_System
  imports Command_Modes
begin

text \<open>
  The running program as a whole: packets that arrive, rounds of the three tasks, the tick, context
  switches, and lwIP at its own work, in any order. In every state that can be reached the reference
  counts of the packet buffers cover the pointers held, and the callbacks never meet a released buffer.
\<close>

section \<open>The steps\<close>

text \<open>The pointers in the three queues and the one of the fusing task.\<close>

definition program_pointers :: "env \<Rightarrow> radar \<Rightarrow> addr multiset" where
  "program_pointers e r = in_queue (xPbufQueueudp e) (rt r) + in_queue (xPbufQueueforautogaincontrolQueue e) (rt r) +
     in_queue (xPbufQueuetcp e) (rt r) + kept r"

text \<open>lwIP passes on a pointer of its own: the buffer is counted more often than the program and the chains hold it.\<close>

definition lwip_holds :: "env \<Rightarrow> radar \<Rightarrow> addr \<Rightarrow> bool" where
  "lwip_holds e r p \<longleftrightarrow> (\<exists>b. cells (mem r) p = Some b \<and>
     count (program_pointers e r) p + card (preds (mem r) p) < unat (ref b))"

text \<open>lwIP at work takes and releases buffers, but not those that the program holds.\<close>

definition keeps_program :: "env \<Rightarrow> radar \<Rightarrow> pmem \<Rightarrow> bool" where
  "keeps_program e r m \<longleftrightarrow> (\<forall>R. own (mem r) (program_pointers e r + R) \<longrightarrow> (\<exists>R'. own m (program_pointers e r + R')))"

inductive radar_reach :: "env \<Rightarrow> (addr \<Rightarrow> pmem \<Rightarrow> pmem run) \<Rightarrow> tcb \<Rightarrow> station \<Rightarrow> station \<Rightarrow> bool"
  for e :: env and f :: "addr \<Rightarrow> pmem \<Rightarrow> pmem run" and t :: tcb and s0 :: station where
  start: "radar_reach e f t s0 s0"
| udp_packet: "radar_reach e f t s0 s \<Longrightarrow> lwip_holds e (radar_of s) p \<Longrightarrow>
    udp_receive_callback e (Some p) (radar_of s) = ret r \<Longrightarrow> radar_reach e f t s0 (s\<lparr>radar_of := r\<rparr>)"
| tcp_packet: "radar_reach e f t s0 s \<Longrightarrow> lwip_holds e (radar_of s) p \<Longrightarrow>
    recv_callback e (Some p) (radar_of s) = ret (b, r) \<Longrightarrow> radar_reach e f t s0 (s\<lparr>radar_of := r\<rparr>)"
| fuse: "radar_reach e f t s0 s \<Longrightarrow> udp_parse_task f e (radar_of s) = ret r \<Longrightarrow> radar_reach e f t s0 (s\<lparr>radar_of := r\<rparr>)"
| gain_control: "radar_reach e f t s0 s \<Longrightarrow> udp_auto_gain_control_task e (radar_of s) = ret r \<Longrightarrow>
    radar_reach e f t s0 (s\<lparr>radar_of := r\<rparr>)"
| command: "radar_reach e f t s0 s \<Longrightarrow> pxCurrentTCB (kern (rt (radar_of s))) \<noteq> t \<Longrightarrow> tcp_parse_task e s = ret s' \<Longrightarrow>
    radar_reach e f t s0 s'"
| tick: "radar_reach e f t s0 s \<Longrightarrow> rtos_tick (rt (radar_of s)) = Inr k \<Longrightarrow> radar_reach e f t s0 (set_rt k s)"
| switch: "radar_reach e f t s0 s \<Longrightarrow> rtos_switch (rt (radar_of s)) = Inr k \<Longrightarrow> radar_reach e f t s0 (set_rt k s)"
| lwip: "radar_reach e f t s0 s \<Longrightarrow> keeps_program e (radar_of s) m \<Longrightarrow>
    radar_reach e f t s0 (s\<lparr>radar_of := (radar_of s)\<lparr>mem := m\<rparr>\<rparr>)"
| network: "radar_reach e f t s0 s \<Longrightarrow> network_step ev (link s) = Inr l \<Longrightarrow> radar_reach e f t s0 (s\<lparr>link := l\<rparr>)"

section \<open>The invariant\<close>

text \<open>The task of the gain control is in the lists of a running scheduler; it may be the current one.\<close>

definition gain_listed :: "env \<Rightarrow> tcb \<Rightarrow> rtos \<Rightarrow> bool" where
  "gain_listed e t k \<longleftrightarrow> xAutoGainControlTask e = Some t \<and> rt_ok k \<and> t \<in># state_items (kern k) \<and>
    uxSchedulerSuspended (kern k) = 0 \<and> xPendingReadyList (kern k) = []"

definition station_ok :: "env \<Rightarrow> tcb \<Rightarrow> addr multiset \<Rightarrow> station \<Rightarrow> bool" where
  "station_ok e t R s \<longleftrightarrow> (\<exists>hc. xPbufQueuetcp e = Some hc \<and> xPbufQueueudp e \<noteq> Some hc \<and>
    xPbufQueueforautogaincontrolQueue e \<noteq> Some hc \<and> good_channel hc (rt (radar_of s)) \<and>
    held e (mset (queued hc (rt (radar_of s))) + R) (radar_of s)) \<and> gain_listed e t (rt (radar_of s))"

lemma station_command:
  "station_ok e t R s \<and> pxCurrentTCB (kern (rt (radar_of s))) \<noteq> t \<longleftrightarrow> command_held e t R s"
  by (auto simp: station_ok_def command_held_def gain_listed_def gain_ready_def)

lemma gain_listed_queue_step: "gain_listed e t k \<Longrightarrow> queue_step h k k' \<Longrightarrow> gain_listed e t k'"
  using queue_step_fields [of k h k'] by (simp add: gain_listed_def)

text \<open>Operations on the two queues of the video packets.\<close>

definition video_steps :: "env \<Rightarrow> rtos \<Rightarrow> rtos \<Rightarrow> bool" where
  "video_steps e = (\<lambda>k k'. \<exists>h. (xPbufQueueudp e = Some h \<or> xPbufQueueforautogaincontrolQueue e = Some h) \<and> queue_step h k k')\<^sup>*\<^sup>*"

lemma video_steps_refl [simp]: "video_steps e k k"
  by (simp add: video_steps_def)

lemma video_step:
  "queue_step h k k' \<Longrightarrow> xPbufQueueudp e = Some h \<or> xPbufQueueforautogaincontrolQueue e = Some h \<Longrightarrow> video_steps e k k'"
  unfolding video_steps_def by (rule r_into_rtranclp) blast

lemma video_steps_trans: "video_steps e k k1 \<Longrightarrow> video_steps e k1 k2 \<Longrightarrow> video_steps e k k2"
  unfolding video_steps_def by (rule rtranclp_trans)

lemma video_steps_keep:
  assumes "video_steps e k k'" and "xPbufQueueudp e \<noteq> Some hc" "xPbufQueueforautogaincontrolQueue e \<noteq> Some hc"
  shows "queues k' hc = queues k hc \<and> (gain_listed e t k \<longrightarrow> gain_listed e t k')"
  using assms(1) unfolding video_steps_def
proof (induction rule: rtranclp_induct)
  case (step k1 k2)
  then obtain h where h: "xPbufQueueudp e = Some h \<or> xPbufQueueforautogaincontrolQueue e = Some h" "queue_step h k1 k2" by blast
  then have "hc \<noteq> h" using assms(2,3) by auto
  then show ?case using step.IH queue_step_others [OF h(2)] gain_listed_queue_step [OF _ h(2)] by auto
qed simp

lemma station_moves:
  assumes "station_ok e t R s" and "video_steps e (rt (radar_of s)) (rt r)"
    and "\<And>C. held e (C + R) (radar_of s) \<Longrightarrow> held e (C + R') r"
  shows "station_ok e t R' (s\<lparr>radar_of := r\<rparr>)"
proof -
  obtain hc where hc: "xPbufQueuetcp e = Some hc" "xPbufQueueudp e \<noteq> Some hc" "xPbufQueueforautogaincontrolQueue e \<noteq> Some hc"
    "good_channel hc (rt (radar_of s))" "held e (mset (queued hc (rt (radar_of s))) + R) (radar_of s)"
    and g: "gain_listed e t (rt (radar_of s))"
    using assms(1) by (auto simp: station_ok_def)
  have k: "queues (rt r) hc = queues (rt (radar_of s)) hc" "gain_listed e t (rt r)"
    using video_steps_keep [OF assms(2) hc(2,3)] g by auto
  then show ?thesis using hc assms(3) [OF hc(5)] channel_cong [OF k(1)] by (auto simp: station_ok_def)
qed

text \<open>What is held in a good state is what the program points to and what lwIP holds.\<close>

lemma station_own:
  assumes "station_ok e t R s"
  shows "own (mem (radar_of s)) (program_pointers e (radar_of s) + R)"
proof -
  obtain hc where hc: "xPbufQueuetcp e = Some hc" "held e (mset (queued hc (rt (radar_of s))) + R) (radar_of s)"
    using assms unfolding station_ok_def by blast
  then obtain hu ha where "handles_ok e hu ha"
    "own (mem (radar_of s)) (in_queues hu ha (radar_of s) + kept (radar_of s) + (mset (queued hc (rt (radar_of s))) + R))"
    unfolding held_def by blast
  then show ?thesis using hc(1) by (simp add: program_pointers_def in_queue_def handles_ok_def ac_simps)
qed

lemma lwip_has:
  assumes "station_ok e t R s" and "lwip_holds e (radar_of s) p"
  obtains R' where "R = add_mset p R'"
proof -
  let ?P = "program_pointers e (radar_of s)"
  obtain b where b: "cells (mem (radar_of s)) p = Some b" "count ?P p + card (preds (mem (radar_of s)) p) < unat (ref b)"
    using assms(2) by (auto simp: lwip_holds_def)
  have "owned (mem (radar_of s)) (?P + R)" using station_own [OF assms(1)] by (simp add: own_def)
  from owned_cell [OF this b(1)] have "0 < count R p" using b(2) by (simp add: counted_def)
  then have "p \<in># R" by (simp only: count_greater_zero_iff)
  then show thesis using that multi_member_split by metis
qed

section \<open>Arrival\<close>

lemma callback_moves:
  assumes "held e (add_mset p M) r" and "udp_receive_callback e (Some p) r = ret r'"
  shows "video_steps e (rt r) (rt r')"
proof -
  obtain hu where hu: "xPbufQueueudp e = Some hu" "good_channel hu (rt r)"
    using assms(1) by (auto simp: held_def handles_ok_def channels_ok_def)
  have v: "valid_addr p" using assms(1) own_valid [of "mem r" p] by (auto simp: held_def ac_simps)
  obtain ok w k where k: "send_pointer_isr (Some hu) (Some p) (udp_woken r) (rt r) = Inr (ok, w, k)" "queue_step hu (rt r) k"
    using isr_post_ends [OF hu(2) v] by blast
  then have "rt r' = k" using assms(2) hu(1) by (auto simp: udp_receive_callback_def fields)
  then show ?thesis using video_step [OF k(2)] hu(1) by simp
qed

lemma udp_arrival:
  assumes "station_ok e t (add_mset p R) s"
  shows "\<exists>r. udp_receive_callback e (Some p) (radar_of s) = ret r \<and> station_ok e t R (s\<lparr>radar_of := r\<rparr>)"
proof -
  obtain C where "held e (add_mset p (C + R)) (radar_of s)" using assms by (auto simp: station_ok_def)
  then obtain r where r: "udp_receive_callback e (Some p) (radar_of s) = ret r" "video_steps e (rt (radar_of s)) (rt r)"
    using callback_held callback_moves by (fastforce simp: runs_def)
  have "held e (M + R) r" if "held e (M + add_mset p R) (radar_of s)" for M
    using callback_held [of e p "M + R" "radar_of s"] that r(1) by (simp add: runs_def)
  then show ?thesis using r station_moves [OF assms r(2)] by blast
qed

lemma tcp_callback_form:
  assumes "xPbufQueuetcp e = Some h"
  shows "recv_callback e (Some p) s =
    bindl (post_or_free (post_pointer_isr h) free1 p (tcp_woken s, rt s) (mem s)) (\<lambda>((w, k), m).
      ret (True, portYIELD_FROM_ISR w (s\<lparr>mem := m, rt := k, tcp_woken := w\<rparr>)))"
proof (cases "send_pointer_isr (Some h) (Some p) (tcp_woken s) (rt s)")
  case (Inr r)
  obtain ok w k where r: "r = (ok, w, k)" by (cases r) auto
  show ?thesis
    using assms Inr r by (simp add: recv_callback_def post_or_free_def post_pointer_isr_def free_pointer_Some bindl_assoc)
qed (use assms in \<open>simp add: recv_callback_def post_or_free_def post_pointer_isr_def\<close>)

lemma tcp_arrival:
  assumes "station_ok e t (add_mset p R) s"
  shows "\<exists>r. recv_callback e (Some p) (radar_of s) = ret (True, r) \<and> station_ok e t R (s\<lparr>radar_of := r\<rparr>)"
proof -
  let ?r = "radar_of s"
  obtain hc hu ha where hc: "xPbufQueuetcp e = Some hc" "xPbufQueueudp e \<noteq> Some hc" "xPbufQueueforautogaincontrolQueue e \<noteq> Some hc"
    "good_channel hc (rt ?r)" and h: "handles_ok e hu ha" "channels_ok hu ha (rt ?r)" "counter_ok ?r"
    and o: "own (mem ?r) (add_mset p (mset (queued hc (rt ?r)) + (in_queues hu ha ?r + kept ?r + R)))"
    and g: "gain_listed e t (rt ?r)"
    using assms by (auto simp: station_ok_def held_def ac_simps)
  have good: "good_channel hc (snd (tcp_woken ?r, rt ?r))" using hc(4) by simp
  have "runs (post_or_free (post_pointer_isr hc) free1 p (tcp_woken ?r, rt ?r) (mem ?r))
      (\<lambda>(ws, m). good_channel hc (snd ws) \<and> queue_step hc (rt ?r) (snd ws) \<and>
         own m (mset (queued hc (snd ws)) + (in_queues hu ha ?r + kept ?r + R)))"
    using isr_channel.hand_over [OF good own_valid [OF o]] o by simp
  then obtain w k m where p: "post_or_free (post_pointer_isr hc) free1 p (tcp_woken ?r, rt ?r) (mem ?r) = ret ((w, k), m)"
    "good_channel hc k" "queue_step hc (rt ?r) k" "own m (mset (queued hc k) + (in_queues hu ha ?r + kept ?r + R))"
    by (auto simp: runs_def)
  let ?r' = "portYIELD_FROM_ISR w (?r\<lparr>mem := m, rt := k, tcp_woken := w\<rparr>)"
  have ne: "hu \<noteq> hc" "ha \<noteq> hc" using h(1) hc(2,3) by (auto simp: handles_ok_def)
  note same = channel_cong [OF queue_step_others [OF p(3) ne(1)]] channel_cong [OF queue_step_others [OF p(3) ne(2)]]
  have rt: "rt_ok k" "gain_listed e t k" using gain_listed_queue_step [OF g p(3)] by (simp_all add: gain_listed_def)
  have kc: "kept ?r' = kept ?r" "counter_ok ?r' = counter_ok ?r" by (simp_all add: fields) (simp_all add: kept_def counter_ok_def)
  have "channels_ok hu ha k" using h(2) same rt(1) by (simp add: channels_ok_def)
  then have "held e (mset (queued hc k) + R) ?r'"
    using h(1,3) p(4) same kc by (intro heldI [of e hu ha]) (simp_all add: fields ac_simps)
  then have "station_ok e t R (s\<lparr>radar_of := ?r'\<rparr>)" using hc(1-3) p(2) rt(2) by (auto simp: station_ok_def fields)
  then show ?thesis unfolding tcp_callback_form [OF hc(1)] p(1) by simp
qed

section \<open>The tasks and the kernel\<close>

text \<open>The kernel works: the queues keep their items.\<close>

lemma station_kernel:
  assumes "station_ok e t R s" and "only_event_lists (rt (radar_of s)) k" and "gain_listed e t k"
  shows "station_ok e t R (set_rt k s)"
proof -
  let ?r = "radar_of s"
  obtain hc where hc: "xPbufQueuetcp e = Some hc" "xPbufQueueudp e \<noteq> Some hc" "xPbufQueueforautogaincontrolQueue e \<noteq> Some hc"
    "good_channel hc (rt ?r)" "held e (mset (queued hc (rt ?r)) + R) ?r"
    using assms(1) unfolding station_ok_def by blast
  have q: "good_channel h k \<and> queued h k = queued h (rt ?r)" if "good_channel h (rt ?r)" for h
    using assms(2) that unfolding only_event_lists_def by blast
  have "held e (mset (queued hc (rt ?r)) + R) (?r\<lparr>rt := k, gain := gain ?r, mem := mem ?r\<rparr>)"
    by (rule held_step [OF hc(5)]) (use q assms(3) in \<open>simp_all add: gain_listed_def\<close>)
  then show ?thesis using hc(1-3) q [OF hc(4)] assms(3) by (simp add: station_ok_def set_rt_def)
qed

lemma tick_station:
  assumes "gain_listed e t k" and "rtos_tick k = Inr k'"
  shows "only_event_lists k k' \<and> gain_listed e t k'"
proof -
  obtain sw ts x where x: "xTaskIncrementTick (kern k) = Inr (sw, ts, x)" "k' = leave_event_lists ts (k\<lparr>kern := x\<rparr>)"
    using assms(2) by (auto simp: rtos_tick_def)
  have g: "rt_ok k" "kernel_ok (kern k)" "t \<in># state_items (kern k)" "uxSchedulerSuspended (kern k) = 0"
    "xPendingReadyList (kern k) = []" "xAutoGainControlTask e = Some t"
    using assms(1) by (simp_all add: gain_listed_def rt_ok_def)
  have y: "keeps_kernel (kern k) x" "uxSchedulerSuspended x = 0" "xPendingReadyList x = []"
    using tick_keeps [OF g(2)] x(1) g(4,5) by auto
  have "kern k' = x" by (simp add: x(2) leave_event_lists_def)
  then have "gain_listed e t k'"
    using g(3,6) y leave_lists_rt [OF g(1) y(1), of ts] x(2) by (simp add: gain_listed_def keeps_kernel_def)
  then show ?thesis using leave_lists_channel x(2) by simp
qed

lemma switch_station:
  assumes "gain_listed e t k" and "rtos_switch k = Inr k'"
  shows "only_event_lists k k' \<and> gain_listed e t k'"
proof -
  let ?k = "(kern k)\<lparr>xYieldPending := False\<rparr>"
  have g: "rt_ok k" "kernel_ok (kern k)" "t \<in># state_items (kern k)" "uxSchedulerSuspended (kern k) = 0"
    "xPendingReadyList (kern k) = []" "xAutoGainControlTask e = Some t"
    using assms(1) by (simp_all add: gain_listed_def rt_ok_def)
  obtain x where x: "vTaskSwitchContext (kern k) = Inr x" "k' = k\<lparr>kern := x\<rparr>" using assms(2) by (auto simp: rtos_switch_def)
  obtain p u l where n: "next_entry (pxReadyTasksLists (kern k) p) = Inr (u, l)"
    "x = ?k\<lparr>pxCurrentTCB := u, pxReadyTasksLists := (pxReadyTasksLists (kern k))(p := l)\<rparr>"
    using x(1) g(4) by (auto simp: vTaskSwitchContext_def taskSELECT_HIGHEST_PRIORITY_TASK_def split: if_splits)
  have r: "ready_ok (kern k)" using g(2) by (simp add: kernel_ok_def)
  have ne: "entries (pxReadyTasksLists (kern k) p) \<noteq> []" using n(1) by (auto simp: next_entry_def)
  then have "hd (entries (pxReadyTasksLists (kern k) p)) \<in> set (entries (pxReadyTasksLists (kern k) p))" by simp
  then have "is_ready (kern k) (hd (entries (pxReadyTasksLists (kern k) p)))"
    using ready_but_priority [OF ready_but [OF r]] by (simp add: is_ready_def)
  then have "keeps_kernel (kern k) x" using switch_selects [OF g(2) _ g(4)] x(1) by auto
  then have "rt_ok k'" "t \<in># state_items x" using g(1,3) x(2) by (simp_all add: rt_ok_def keeps_kernel_def)
  then have "gain_listed e t k'" using g(4-6) x(2) n(2) by (simp add: gain_listed_def)
  moreover have "only_event_lists k k'"
    using channel_cong [of k' _ k] x(2) by (simp add: only_event_lists_def)
  ultimately show ?thesis by simp
qed

text \<open>The rounds of the two tasks of the video packets work on the two queues of the video packets.\<close>

lemma gain_task_moves:
  assumes "good_channel ha (rt r)" and "xPbufQueueforautogaincontrolQueue e = Some ha"
    and "udp_auto_gain_control_task e r = ret r'"
  shows "video_steps e (rt r) (rt r')"
proof -
  obtain item k where k: "receive_pointer (Some ha) (rt r) = Inr (item, k)" "queue_step ha (rt r) k"
    using receive_channel [OF assms(1)] by blast
  have "rt r' = k"
    using assms(2,3) k(1) by (auto simp: udp_auto_gain_control_task_def Let_def split: option.splits)
  then show ?thesis using video_step [OF k(2)] assms(2) by simp
qed

lemma hand_over_moves:
  assumes "good_channel ha (rt r)" and "xPbufQueueforautogaincontrolQueue e = Some ha"
    and "old_pbuf r = Some x" and "valid_addr x"
    and "hand_over_running f e r = ret r1" and "hand_over_suspended f e r1 = ret r2"
  shows "video_steps e (rt r) (rt r2)"
proof -
  obtain ok k where k: "post_pointer ha x (rt r) = Inr (ok, k)" "queue_step ha (rt r) k"
    using task_post_ends [OF assms(1,4)] by blast
  have "rt r1 = rt r \<or> rt r1 = k"
    using assms(2,3,5) k(1) by (auto simp: hand_over_running_def post_pointer_def split: if_splits)
  moreover have "rt r2 = rt r1" using assms(6) by (auto simp: hand_over_suspended_def split: if_splits)
  ultimately show ?thesis using video_step [OF k(2)] assms(2) by auto
qed

lemma fusing_task_moves:
  assumes "held e R r" and "udp_parse_task f e r = ret r'"
  shows "video_steps e (rt r) (rt r')"
proof -
  obtain hu ha where h: "handles_ok e hu ha" "channels_ok hu ha (rt r)" "counter_ok r"
    and o: "own (mem r) (in_queues hu ha r + kept r + R)"
    using assms(1) unfolding held_def by blast
  have e: "xPbufQueueudp e = Some hu" "xPbufQueueforautogaincontrolQueue e = Some ha" "hu \<noteq> ha"
    using h(1) by (simp_all add: handles_ok_def)
  have g: "good_channel hu (rt r)" "good_channel ha (rt r)" using h(2) by (simp_all add: channels_ok_def)
  obtain item k where k: "receive_pointer (Some hu) (rt r) = Inr (item, k)" "queue_step hu (rt r) k"
    using receive_channel [OF g(1)] by blast
  have first: "video_steps e (rt r) k" using video_step [OF k(2)] e(1) by simp
  have ga: "good_channel ha k" using channel_cong [OF queue_step_others [OF k(2), of ha]] e(3) g(2) by auto
  show ?thesis
  proof (cases "\<exists>p. item = Some (Some p)")
    case False
    then have "rt r' = k" using assms(2) k(1) e(1) by (auto simp: udp_parse_task_def Let_def split: option.splits)
    then show ?thesis using first by simp
  next
    case True
    then obtain p where p: "parse_packet f e p (r\<lparr>rt := k\<rparr>) = ret r'" using assms(2) k(1) e(1) by (auto simp: udp_parse_task_def)
    show ?thesis
    proof (cases "counter_of_packets r = 1")
      case True
      then have "rt r' = k" using p by (auto simp: parse_packet_def)
      then show ?thesis using first by simp
    next
      case False
      then obtain x where x: "old_pbuf r = Some x" "kept r = {#x#}" using h(3) by (auto simp: counter_ok_def kept_def)
      have v: "valid_addr x" using o x(2) own_valid [of "mem r" x "in_queues hu ha r + R"] by simp
      obtain s1 where s1: "fuse_packet p (r\<lparr>rt := k\<rparr>) = ret s1" using p False by (auto simp: parse_packet_def)
      then have f1: "rt s1 = k" "old_pbuf s1 = Some x" "counter_of_packets s1 = counter_of_packets r"
        using x(1) by (auto simp: fuse_packet_def)
      show ?thesis
      proof (cases "nominal_counter_value \<le> counter_of_packets r")
        case True
        then obtain s2 s3 where "hand_over_running f e s1 = ret s2" "hand_over_suspended f e s2 = ret s3" "rt r' = rt s3"
          using p False s1 f1(3) by (auto simp: parse_packet_def)
        then have "video_steps e k (rt r')" using hand_over_moves [of ha s1 e x f s2 s3] ga e(2) f1(1,2) v by simp
        then show ?thesis using video_steps_trans [OF first] by blast
      next
        case lt: False
        then have "rt r' = k" using p False s1 f1(1,3) by (auto simp: parse_packet_def)
        then show ?thesis using first by simp
      qed
    qed
  qed
qed

lemma fusing_round:
  assumes "sends_well f" and "station_ok e t R s" and "udp_parse_task f e (radar_of s) = ret r"
  shows "\<exists>R'. station_ok e t R' (s\<lparr>radar_of := r\<rparr>)"
proof -
  obtain hc where hc: "xPbufQueuetcp e = Some hc" "xPbufQueueudp e \<noteq> Some hc" "xPbufQueueforautogaincontrolQueue e \<noteq> Some hc"
    "good_channel hc (rt (radar_of s))" "held e (mset (queued hc (rt (radar_of s))) + R) (radar_of s)"
    and g: "gain_listed e t (rt (radar_of s))"
    using assms(2) unfolding station_ok_def by blast
  obtain L where L: "held e (mset (queued hc (rt (radar_of s))) + R + L) r"
    using fusing_task_held [OF assms(1) hc(5) assms(3)] by blast
  have k: "queues (rt r) hc = queues (rt (radar_of s)) hc" "gain_listed e t (rt r)"
    using video_steps_keep [OF fusing_task_moves [OF hc(5) assms(3)] hc(2,3)] g by auto
  have "station_ok e t (R + L) (s\<lparr>radar_of := r\<rparr>)"
    using hc(1-4) k L channel_cong [OF k(1)] by (simp add: station_ok_def ac_simps)
  then show ?thesis by blast
qed

lemma gain_round:
  assumes "station_ok e t R s" and "udp_auto_gain_control_task e (radar_of s) = ret r"
  shows "station_ok e t R (s\<lparr>radar_of := r\<rparr>)"
proof -
  obtain M where "held e M (radar_of s)" using assms(1) unfolding station_ok_def by blast
  then obtain ha where "good_channel ha (rt (radar_of s))" "xPbufQueueforautogaincontrolQueue e = Some ha"
    unfolding held_def handles_ok_def channels_ok_def by blast
  from station_moves [OF assms(1) gain_task_moves [OF this assms(2)]] gain_task_held [OF _ assms(2)]
  show ?thesis by blast
qed

text \<open>lwIP at work: only the memory of the buffers changes.\<close>

lemma lwip_work:
  assumes "station_ok e t R s" and "keeps_program e (radar_of s) m"
  shows "\<exists>R'. station_ok e t R' (s\<lparr>radar_of := (radar_of s)\<lparr>mem := m\<rparr>\<rparr>)"
proof -
  let ?r = "radar_of s"
  obtain hc where hc: "xPbufQueuetcp e = Some hc" "xPbufQueueudp e \<noteq> Some hc" "xPbufQueueforautogaincontrolQueue e \<noteq> Some hc"
    "good_channel hc (rt ?r)" "held e (mset (queued hc (rt ?r)) + R) ?r" and g: "gain_listed e t (rt ?r)"
    using assms(1) unfolding station_ok_def by blast
  obtain hu ha where h: "handles_ok e hu ha" "channels_ok hu ha (rt ?r)" "counter_ok ?r"
    using hc(5) unfolding held_def by blast
  obtain R' where R': "own m (program_pointers e ?r + R')"
    using assms(2) station_own [OF assms(1)] unfolding keeps_program_def by blast
  have "program_pointers e ?r = in_queues hu ha ?r + mset (queued hc (rt ?r)) + kept ?r"
    using h(1) hc(1) by (simp add: program_pointers_def in_queue_def handles_ok_def)
  then have "held e (mset (queued hc (rt ?r)) + R') (?r\<lparr>mem := m\<rparr>)"
    using h R' by (intro heldI [OF h(1)]) (simp_all add: fields ac_simps)
  then have "station_ok e t R' (s\<lparr>radar_of := ?r\<lparr>mem := m\<rparr>\<rparr>)" using hc(1-4) g by (simp add: station_ok_def)
  then show ?thesis by blast
qed

text \<open>Two things that lwIP does: it releases a buffer it holds, and it writes into buffers.\<close>

lemma lwip_frees:
  assumes "lwip_holds e r p" and "free1 p (mem r) = ret m"
  shows "keeps_program e r m"
  unfolding keeps_program_def
proof (intro allI impI)
  fix R assume o: "own (mem r) (program_pointers e r + R)"
  obtain b where b: "cells (mem r) p = Some b" "count (program_pointers e r) p + card (preds (mem r) p) < unat (ref b)"
    using assms(1) unfolding lwip_holds_def by blast
  have "owned (mem r) (program_pointers e r + R)" using o by (simp add: own_def)
  from owned_cell [OF this b(1)] have "0 < count R p" using b(2) by (simp add: counted_def)
  then have "p \<in># R" by (simp only: count_greater_zero_iff)
  then obtain R' where "R = add_mset p R'" by (metis multi_member_split)
  then have "own m (program_pointers e r + R')" using o free1_ret [OF _ assms(2)] by simp
  then show "\<exists>R'. own m (program_pointers e r + R')" by blast
qed

lemma lwip_writes: "same_shapes (mem r) m \<Longrightarrow> keeps_program e r m"
  unfolding keeps_program_def using same_shapes_own by blast

section \<open>Every reachable state\<close>

lemma reach_station:
  assumes "radar_reach e f t s0 s" and "sends_well f" and "station_ok e t R s0"
  shows "\<exists>R. station_ok e t R s"
  using assms(1)
proof (induction rule: radar_reach.induct)
  case start
  then show ?case using assms(3) by blast
next
  case (udp_packet s p r)
  then obtain R where "station_ok e t R s" by blast
  then obtain R' where "station_ok e t (add_mset p R') s" using lwip_has udp_packet.hyps(2) by metis
  then show ?case using udp_arrival udp_packet.hyps(3) by fastforce
next
  case (tcp_packet s p b r)
  then obtain R where "station_ok e t R s" by blast
  then obtain R' where "station_ok e t (add_mset p R') s" using lwip_has tcp_packet.hyps(2) by metis
  then show ?case using tcp_arrival tcp_packet.hyps(3) by fastforce
next
  case (fuse s r)
  then show ?case using fusing_round [OF assms(2)] by blast
next
  case (gain_control s r)
  then show ?case using gain_round by blast
next
  case (command s s')
  then show ?case using command_packet_released station_command by blast
next
  case (tick s k)
  then obtain R where R: "station_ok e t R s" by blast
  then have "gain_listed e t (rt (radar_of s))" by (simp add: station_ok_def)
  then show ?case using station_kernel [OF R] tick_station tick.hyps(2) by blast
next
  case (switch s k)
  then obtain R where R: "station_ok e t R s" by blast
  then have "gain_listed e t (rt (radar_of s))" by (simp add: station_ok_def)
  then show ?case using station_kernel [OF R] switch_station switch.hyps(2) by blast
next
  case (lwip s m)
  then show ?case using lwip_work by blast
next
  case (network s ev l)
  then show ?case by (auto simp: station_ok_def)
qed

text \<open>What the state of the station promises to whoever uses a packet.\<close>

lemma station_pointers:
  assumes "station_ok e t R s" and "a \<in># program_pointers e (radar_of s)"
  shows "cells (mem (radar_of s)) a \<noteq> None"
  by (rule own_pool.held_all_live [OF station_own [OF assms(1)]]) (use assms(2) in simp)

lemma station_counts:
  assumes "station_ok e t R s" and "cells (mem (radar_of s)) a = Some b"
  shows "count (program_pointers e (radar_of s)) a + card (preds (mem (radar_of s)) a) \<le> unat (ref b)"
proof -
  have "owned (mem (radar_of s)) (program_pointers e (radar_of s) + R)" using station_own [OF assms(1)] by (simp add: own_def)
  from owned_cell [OF this assms(2)] show ?thesis by (simp add: counted_def)
qed

text \<open>
  C1: The whole program, at any time. Let the station start in a good state and let packets arrive
  over UDP and TCP, the three tasks run their rounds, the tick and the scheduler run, connections come
  and go, and lwIP take, release and fill buffers of its own, in any order and any number of times
  (a round of a task, or a callback, is one step). Then every pointer in one of the three queues, and that
  of the fusing task, points to an allocated buffer; the reference count of every allocated buffer is at
  least the number of pointers to it that the program and other buffers hold; and a packet that arrives
  is taken over by either callback without a fault, whether or not its queue has room.
\<close>

theorem system_packets_owned:
  assumes "sends_well udp_send" and "station_ok e t R s0" and "radar_reach e udp_send t s0 s"
  shows "(\<forall>a. a \<in># program_pointers e (radar_of s) \<longrightarrow> cells (mem (radar_of s)) a \<noteq> None) \<and>
    (\<forall>a b. cells (mem (radar_of s)) a = Some b \<longrightarrow>
       count (program_pointers e (radar_of s)) a + card (preds (mem (radar_of s)) a) \<le> unat (ref b)) \<and>
    (\<forall>p. lwip_holds e (radar_of s) p \<longrightarrow>
       (\<exists>r. udp_receive_callback e (Some p) (radar_of s) = ret r) \<and>
       (\<exists>r. recv_callback e (Some p) (radar_of s) = ret (True, r)))"
proof -
  obtain R where R: "station_ok e t R s" using reach_station [OF assms(3,1,2)] by blast
  have "(\<exists>r. udp_receive_callback e (Some p) (radar_of s) = ret r) \<and>
      (\<exists>r. recv_callback e (Some p) (radar_of s) = ret (True, r))" if p: "lwip_holds e (radar_of s) p" for p
  proof -
    obtain R' where "station_ok e t (add_mset p R') s" using lwip_has [OF R p] R by metis
    then show ?thesis using udp_arrival tcp_arrival by blast
  qed
  then show ?thesis using station_pointers [OF R] station_counts [OF R] by blast
qed

text \<open>The station of the witness reads a command and fuses nothing: the queue of the video packets is empty.\<close>

lemma command_sample_station: "station_ok command_env gain_tcb {#} command_sample"
  using command_sample_held station_command by blast

theorem system_packets_owned_witness:
  "\<exists>s'. tcp_parse_task command_env command_sample = ret s' \<and>
    radar_reach command_env (\<lambda>a m. ret m) gain_tcb command_sample s' \<and>
    (\<forall>a. a \<in># program_pointers command_env (radar_of s') \<longrightarrow> cells (mem (radar_of s')) a \<noteq> None)"
proof -
  have f: "sends_well (\<lambda>a m. ret m)" by (auto simp: sends_well_def intro: exI [of _ "{#}"])
  obtain s' where s': "tcp_parse_task command_env command_sample = ret s'" using command_round by blast
  have "pxCurrentTCB (kern (rt (radar_of command_sample))) \<noteq> gain_tcb"
    using command_sample_held station_command by blast
  then have r: "radar_reach command_env (\<lambda>a m. ret m) gain_tcb command_sample s'"
    using radar_reach.command [OF radar_reach.start _ s'] by blast
  then show ?thesis using s' system_packets_owned [OF f command_sample_station r] by blast
qed

end
