(* ===== verification/List_Links.thy ===== *)
theory List_Links
  imports FreeRTOS_List
begin

text \<open>
  The lists of FreeRTOS as \<open>list.c\<close> keeps them: items and end markers linked in rings by two
  pointers, an item that knows the list it is in, and for every list \<open>pxIndex\<close> and the number of
  items. The operations, pointer by pointer, implement those of \<open>FreeRTOS_List\<close>: \<open>represents\<close> relates
  a list of the store to the list of its items, and no operation disturbs the other lists.
\<close>

section \<open>The store\<close>

text \<open>The marker \<open>xListEnd\<close> of a list, or an item.\<close>

datatype 'a node = End nat | Item 'a

record 'a links =
  pxNext :: "'a node \<rightharpoonup> 'a node"
  pxPrevious :: "'a node \<rightharpoonup> 'a node"
  xItemValue :: "'a node \<Rightarrow> u32"
  pxContainer :: "'a \<rightharpoonup> nat"
  list_index :: "nat \<Rightarrow> 'a node"
  uxNumberOfItems :: "nat \<Rightarrow> u32"

text \<open>A pointer that was never set is read like a null pointer.\<close>

definition ptr :: "('a node \<rightharpoonup> 'a node) \<Rightarrow> 'a node \<Rightarrow> 'a node result" where
  "ptr f n = (case f n of None \<Rightarrow> Inl Null_pointer | Some y \<Rightarrow> Inr y)"

section \<open>The operations\<close>

definition link_initialise :: "nat \<Rightarrow> 'a links \<Rightarrow> 'a links" where
  "link_initialise h st =
    st\<lparr>list_index := (list_index st)(h := End h), xItemValue := (xItemValue st)(End h := portMAX_DELAY),
       pxNext := (pxNext st)(End h \<mapsto> End h), pxPrevious := (pxPrevious st)(End h \<mapsto> End h),
       uxNumberOfItems := (uxNumberOfItems st)(h := 0)\<rparr>"

definition vListInitialiseItem :: "'a \<Rightarrow> 'a links \<Rightarrow> 'a links" where
  "vListInitialiseItem x st = st\<lparr>pxContainer := (pxContainer st)(x := None)\<rparr>"

definition join_list :: "nat \<Rightarrow> 'a \<Rightarrow> 'a links \<Rightarrow> 'a links" where
  "join_list h x st =
    st\<lparr>pxContainer := (pxContainer st)(x \<mapsto> h), uxNumberOfItems := (uxNumberOfItems st)(h := uxNumberOfItems st h + 1)\<rparr>"

definition link_insert_end :: "nat \<Rightarrow> 'a \<Rightarrow> 'a links \<Rightarrow> 'a links result" where
  "link_insert_end h x st =
    (let index = list_index st h in
     bindr (ptr (pxPrevious st) index) (\<lambda>p.
     let st = st\<lparr>pxNext := (pxNext st)(Item x \<mapsto> index), pxPrevious := (pxPrevious st)(Item x \<mapsto> p)\<rparr> in
     bindr (ptr (pxPrevious st) index) (\<lambda>p.
     let st = st\<lparr>pxNext := (pxNext st)(p \<mapsto> Item x), pxPrevious := (pxPrevious st)(index \<mapsto> Item x)\<rparr> in
     Inr (join_list h x st))))"

text \<open>The loop that looks for the place of a value; it would not end on a list without a larger value.\<close>

partial_function (option) link_iterate :: "u32 \<Rightarrow> 'a links \<Rightarrow> 'a node \<Rightarrow> 'a node run" where
  "link_iterate v st it =
    (case pxNext st it of None \<Rightarrow> Some (Inl Null_pointer)
     | Some y \<Rightarrow> if xItemValue st y \<le> v then link_iterate v st y else Some (Inr it))"

definition link_insert :: "nat \<Rightarrow> 'a \<Rightarrow> 'a links \<Rightarrow> 'a links run" where
  "link_insert h x st =
    (let v = xItemValue st (Item x) in
     bindl (if v = portMAX_DELAY then Some (ptr (pxPrevious st) (End h)) else link_iterate v st (End h)) (\<lambda>it.
     Some (bindr (ptr (pxNext st) it) (\<lambda>n.
       let st = st\<lparr>pxNext := (pxNext st)(Item x \<mapsto> n)\<rparr>;
           st = st\<lparr>pxPrevious := (pxPrevious st)(n \<mapsto> Item x)\<rparr>;
           st = st\<lparr>pxPrevious := (pxPrevious st)(Item x \<mapsto> it)\<rparr>;
           st = st\<lparr>pxNext := (pxNext st)(it \<mapsto> Item x)\<rparr> in
       Inr (join_list h x st)))))"

definition link_remove :: "'a \<Rightarrow> 'a links \<Rightarrow> (u32 \<times> 'a links) result" where
  "link_remove x st =
    (case pxContainer st x of None \<Rightarrow> Inl Null_pointer
     | Some h \<Rightarrow>
         bindr (ptr (pxNext st) (Item x)) (\<lambda>n.
         bindr (ptr (pxPrevious st) (Item x)) (\<lambda>p.
         let st = st\<lparr>pxPrevious := (pxPrevious st)(n \<mapsto> p)\<rparr> in
         bindr (ptr (pxPrevious st) (Item x)) (\<lambda>p.
         bindr (ptr (pxNext st) (Item x)) (\<lambda>n.
         let st = st\<lparr>pxNext := (pxNext st)(p \<mapsto> n)\<rparr>;
             st = (if list_index st h = Item x then st\<lparr>list_index := (list_index st)(h := p)\<rparr> else st);
             st = st\<lparr>pxContainer := (pxContainer st)(x := None),
                     uxNumberOfItems := (uxNumberOfItems st)(h := uxNumberOfItems st h - 1)\<rparr> in
         Inr (uxNumberOfItems st h, st))))))"

text \<open>\<open>listGET_OWNER_OF_NEXT_ENTRY\<close>; the owner of the marker is not a field of it.\<close>

definition link_next_entry :: "nat \<Rightarrow> 'a links \<Rightarrow> ('a \<times> 'a links) result" where
  "link_next_entry h st =
    bindr (ptr (pxNext st) (list_index st h)) (\<lambda>i.
    bindr (if i = End h then ptr (pxNext st) i else Inr i) (\<lambda>i.
    let st = st\<lparr>list_index := (list_index st)(h := i)\<rparr> in
    case i of End _ \<Rightarrow> Inl Out_of_bounds | Item x \<Rightarrow> Inr (x, st)))"

section \<open>Paths\<close>

fun path :: "('a node \<rightharpoonup> 'a node) \<Rightarrow> ('a node \<rightharpoonup> 'a node) \<Rightarrow> 'a node \<Rightarrow> 'a node list \<Rightarrow> 'a node \<Rightarrow> bool" where
  "path nx pv a [] b \<longleftrightarrow> nx a = Some b \<and> pv b = Some a"
| "path nx pv a (x # xs) b \<longleftrightarrow> nx a = Some x \<and> pv x = Some a \<and> path nx pv x xs b"

lemma path_cong:
  "path nx pv a xs b \<Longrightarrow> \<forall>y \<in> insert a (set xs). nx' y = nx y \<Longrightarrow> \<forall>y \<in> insert b (set xs). pv' y = pv y \<Longrightarrow>
    path nx' pv' a xs b"
  by (induction xs arbitrary: a) auto

text \<open>The two neighbours at a place of the path.\<close>

lemma path_neighbours:
  "path nx pv a (us @ vs) b \<Longrightarrow>
    nx (last (a # us)) = Some (hd (vs @ [b])) \<and> pv (hd (vs @ [b])) = Some (last (a # us))"
proof (induction us arbitrary: a)
  case Nil
  then show ?case by (cases vs) auto
qed (auto split: if_splits)

lemma path_insert:
  assumes "path nx pv a (us @ vs) b" "distinct (us @ vs)" "a \<notin> set (us @ vs)" "b \<notin> set (us @ vs)"
    "x \<notin> insert a (insert b (set (us @ vs)))"
  shows "path (nx(x \<mapsto> hd (vs @ [b]), last (a # us) \<mapsto> x)) (pv(x \<mapsto> last (a # us), hd (vs @ [b]) \<mapsto> x)) a (us @ x # vs) b"
  using assms
proof (induction us arbitrary: a)
  case Nil
  show ?case
  proof (cases vs)
    case (Cons v ws)
    define nx' pv' where "nx' = nx(x \<mapsto> v, a \<mapsto> x)" and "pv' = pv(x \<mapsto> a, v \<mapsto> x)"
    have "path nx pv v ws b" using Nil.prems(1) Cons by simp
    then have "path nx' pv' v ws b"
      by (rule path_cong) (use Nil.prems Cons in \<open>auto simp: nx'_def pv'_def\<close>)
    moreover have "nx' a = Some x" "nx' x = Some v" "pv' x = Some a" "pv' v = Some x"
      using Nil.prems Cons by (auto simp: nx'_def pv'_def)
    ultimately have "path nx' pv' a (x # v # ws) b" by simp
    then show ?thesis by (simp only: Cons nx'_def pv'_def append.simps list.sel last.simps if_True simp_thms)
  qed (use Nil.prems in auto)
next
  case (Cons u us)
  define nx' pv' where "nx' = nx(x \<mapsto> hd (vs @ [b]), last (u # us) \<mapsto> x)" and
    "pv' = pv(x \<mapsto> last (u # us), hd (vs @ [b]) \<mapsto> x)"
  have p: "path nx' pv' u (us @ x # vs) b" unfolding nx'_def pv'_def using Cons.prems by (intro Cons.IH) auto
  have "last (u # us) \<in> set (u # us)" by (rule last_in_set) simp
  then have "last (u # us) \<noteq> a" using Cons.prems(3) by auto
  moreover have "hd (vs @ [b]) \<in> insert b (set vs)" by (cases vs) auto
  then have "hd (vs @ [b]) \<noteq> u" using Cons.prems(2,4) by auto
  ultimately have "nx' a = Some u" "pv' u = Some a" using Cons.prems by (auto simp: nx'_def pv'_def)
  then have "path nx' pv' a (u # (us @ x # vs)) b" using p by simp
  then show ?case by (simp only: nx'_def pv'_def append.simps last.simps list.distinct if_False)
qed

lemma path_remove:
  assumes "path nx pv a (us @ x # vs) b" "distinct (us @ x # vs)" "a \<notin> set (us @ x # vs)" "b \<notin> set (us @ x # vs)"
  shows "path (nx(last (a # us) \<mapsto> hd (vs @ [b]))) (pv(hd (vs @ [b]) \<mapsto> last (a # us))) a (us @ vs) b"
  using assms
proof (induction us arbitrary: a)
  case Nil
  show ?case
  proof (cases vs)
    case (Cons v ws)
    define nx' pv' where "nx' = nx(a \<mapsto> v)" and "pv' = pv(v \<mapsto> a)"
    have "path nx pv v ws b" using Nil.prems(1) Cons by simp
    then have "path nx' pv' v ws b"
      by (rule path_cong) (use Nil.prems Cons in \<open>auto simp: nx'_def pv'_def\<close>)
    moreover have "nx' a = Some v" "pv' v = Some a" by (simp_all add: nx'_def pv'_def)
    ultimately have "path nx' pv' a (v # ws) b" by simp
    then show ?thesis by (simp only: Cons nx'_def pv'_def append.simps list.sel last.simps if_True simp_thms)
  qed (use Nil.prems in auto)
next
  case (Cons u us)
  define nx' pv' where "nx' = nx(last (u # us) \<mapsto> hd (vs @ [b]))" and "pv' = pv(hd (vs @ [b]) \<mapsto> last (u # us))"
  have p: "path nx' pv' u (us @ vs) b" unfolding nx'_def pv'_def using Cons.prems by (intro Cons.IH) auto
  have "last (u # us) \<in> set (u # us)" by (rule last_in_set) simp
  then have "last (u # us) \<noteq> a" using Cons.prems(3) by auto
  moreover have "hd (vs @ [b]) \<in> insert b (set vs)" by (cases vs) auto
  then have "hd (vs @ [b]) \<noteq> u" using Cons.prems(2,4) by auto
  ultimately have "nx' a = Some u" "pv' u = Some a" using Cons.prems by (auto simp: nx'_def pv'_def)
  then have "path nx' pv' a (u # (us @ vs)) b" using p by simp
  then show ?case by (simp only: nx'_def pv'_def append.simps last.simps list.distinct if_False)
qed

section \<open>Representation\<close>

definition represents :: "'a links \<Rightarrow> nat \<Rightarrow> 'a xlist \<Rightarrow> bool" where
  "represents st h l \<longleftrightarrow>
    path (pxNext st) (pxPrevious st) (End h) (map Item (entries l)) (End h) \<and> distinct (entries l) \<and>
    (\<forall>x. pxContainer st x = Some h \<longleftrightarrow> x \<in> set (entries l)) \<and> index_ok l \<and>
    list_index st h = (End h # map Item (entries l)) ! pxIndex l \<and>
    uxNumberOfItems st h = of_nat (length (entries l)) \<and> xItemValue st (End h) = portMAX_DELAY"

text \<open>The nodes of a list; what does not touch them leaves the list alone.\<close>

definition belongs :: "'a links \<Rightarrow> nat \<Rightarrow> 'a node \<Rightarrow> bool" where
  "belongs st h n \<longleftrightarrow> n = End h \<or> (\<exists>x. n = Item x \<and> pxContainer st x = Some h)"

definition untouched :: "nat \<Rightarrow> 'a links \<Rightarrow> 'a links \<Rightarrow> bool" where
  "untouched h st st' \<longleftrightarrow>
    (\<forall>n. belongs st h n \<longrightarrow> pxNext st' n = pxNext st n \<and> pxPrevious st' n = pxPrevious st n) \<and>
    (\<forall>x. pxContainer st' x = Some h \<longleftrightarrow> pxContainer st x = Some h) \<and> list_index st' h = list_index st h \<and>
    uxNumberOfItems st' h = uxNumberOfItems st h \<and> xItemValue st' (End h) = xItemValue st (End h)"

lemma represents_untouched:
  assumes "represents st h l" "untouched h st st'"
  shows "represents st' h l"
proof -
  have p: "path (pxNext st) (pxPrevious st) (End h) (map Item (entries l)) (End h)"
    using assms(1) by (simp add: represents_def)
  have "belongs st h n" if "n \<in> insert (End h) (set (map Item (entries l)))" for n
    using that assms(1) by (auto simp: belongs_def represents_def)
  then have "path (pxNext st') (pxPrevious st') (End h) (map Item (entries l)) (End h)"
    by (intro path_cong [OF p]) (use assms(2) in \<open>auto simp: untouched_def\<close>)
  then show ?thesis using assms by (simp add: represents_def untouched_def)
qed

text \<open>The nodes before and after a place of the list belong to it.\<close>

lemma neighbours_belong:
  assumes "represents st h l" "set us \<subseteq> set (entries l)" "set vs \<subseteq> set (entries l)"
  shows "belongs st h (last (End h # map Item us))" "belongs st h (hd (map Item vs @ [End h]))"
proof -
  have i: "belongs st h (Item y)" if "y \<in> set (entries l)" for y using that assms(1) by (simp add: belongs_def represents_def)
  have "last (End h # map Item us) \<in> insert (End h) (Item ` set us)" by (cases us rule: rev_cases) auto
  then show "belongs st h (last (End h # map Item us))" using i assms(2) by (auto simp: belongs_def)
  have "hd (map Item vs @ [End h]) \<in> insert (End h) (Item ` set vs)" by (cases vs) auto
  then show "belongs st h (hd (map Item vs @ [End h]))" using i assms(3) by (auto simp: belongs_def)
qed

lemma belongs_one: "belongs st h n \<Longrightarrow> belongs st h' n \<Longrightarrow> h = h'"
  by (auto simp: belongs_def)

text \<open>An item linked in between the two parts of a list.\<close>

definition linked_in :: "nat \<Rightarrow> 'a \<Rightarrow> 'a list \<Rightarrow> 'a list \<Rightarrow> 'a links \<Rightarrow> 'a links" where
  "linked_in h x us vs st =
    (let p = last (End h # map Item us); n = hd (map Item vs @ [End h]) in
     join_list h x (st\<lparr>pxNext := (pxNext st)(Item x \<mapsto> n, p \<mapsto> Item x),
       pxPrevious := (pxPrevious st)(Item x \<mapsto> p, n \<mapsto> Item x)\<rparr>))"

lemma linked_in_represents:
  assumes r: "represents st h l" and e: "entries l = us @ vs" and new: "pxContainer st x = None"
  shows "represents (linked_in h x us vs st) h
    \<lparr>entries = us @ x # vs, pxIndex = if length us < pxIndex l then pxIndex l + 1 else pxIndex l\<rparr>"
proof -
  let ?p = "last (End h # map Item us)" and ?n = "hd (map Item vs @ [End h])"
  have x: "x \<notin> set (us @ vs)" 
  proof -
    have "pxContainer st x = Some h \<longleftrightarrow> x \<in> set (us @ vs)" using r by (simp add: represents_def e)
    then show ?thesis using new by simp
  qed
  have d: "distinct (us @ vs)" and i: "pxIndex l \<le> length (us @ vs)"
    using r unfolding represents_def e index_ok_def by simp_all
  have "path (pxNext st) (pxPrevious st) (End h) (map Item us @ map Item vs) (End h)"
    using r by (simp add: represents_def e)
  then have "path ((pxNext st)(Item x \<mapsto> ?n, ?p \<mapsto> Item x)) ((pxPrevious st)(Item x \<mapsto> ?p, ?n \<mapsto> Item x))
      (End h) (map Item us @ Item x # map Item vs) (End h)"
    by (rule path_insert) (use d x in \<open>auto simp: distinct_map inj_on_def\<close>)
  moreover have "(End h # map Item (us @ x # vs)) ! (if length us < pxIndex l then pxIndex l + 1 else pxIndex l) =
      (End h # map Item (us @ vs)) ! pxIndex l"
    using i by (cases "pxIndex l") (auto simp: nth_append nth_Cons' not_less)
  ultimately show ?thesis using r d x i unfolding represents_def e linked_in_def join_list_def index_ok_def Let_def
    by auto
qed

lemma linked_in_untouched:
  assumes r: "represents st h l" and e: "entries l = us @ vs" and new: "pxContainer st x = None" and other: "h' \<noteq> h"
  shows "untouched h' st (linked_in h x us vs st)"
proof -
  have "belongs st h (last (End h # map Item us))" "belongs st h (hd (map Item vs @ [End h]))"
    using neighbours_belong [OF r, of us vs] e by simp_all
  then have "n \<noteq> last (End h # map Item us)" "n \<noteq> hd (map Item vs @ [End h])" if "belongs st h' n" for n
    using that other belongs_one by blast+
  moreover have "n \<noteq> Item x" if "belongs st h' n" for n using that new by (auto simp: belongs_def)
  ultimately show ?thesis using other new unfolding untouched_def linked_in_def join_list_def Let_def by auto
qed

section \<open>Insertion\<close>

definition undisturbed :: "nat \<Rightarrow> 'a links \<Rightarrow> 'a links \<Rightarrow> bool" where
  "undisturbed h st st' \<longleftrightarrow> (\<forall>h' l'. h' \<noteq> h \<longrightarrow> represents st h' l' \<longrightarrow> represents st' h' l')"

lemma linked_in_undisturbed:
  "represents st h l \<Longrightarrow> entries l = us @ vs \<Longrightarrow> pxContainer st x = None \<Longrightarrow> undisturbed h st (linked_in h x us vs st)"
  unfolding undisturbed_def by (intro allI impI, rule represents_untouched, assumption, rule linked_in_untouched)

text \<open>The neighbours of a place, and that a new item is none of them.\<close>

lemma place:
  assumes "represents st h l" "entries l = us @ vs"
  shows "pxNext st (last (End h # map Item us)) = Some (hd (map Item vs @ [End h]))"
    and "pxPrevious st (hd (map Item vs @ [End h])) = Some (last (End h # map Item us))"
    and "pxContainer st x = None \<Longrightarrow> last (End h # map Item us) \<noteq> Item x"
    and "pxContainer st x = None \<Longrightarrow> hd (map Item vs @ [End h]) \<noteq> Item x"
proof -
  have "path (pxNext st) (pxPrevious st) (End h) (map Item us @ map Item vs) (End h)"
    using assms by (simp add: represents_def)
  then show "pxNext st (last (End h # map Item us)) = Some (hd (map Item vs @ [End h]))"
    "pxPrevious st (hd (map Item vs @ [End h])) = Some (last (End h # map Item us))"
    using path_neighbours by blast+
  have b: "belongs st h (last (End h # map Item us))" "belongs st h (hd (map Item vs @ [End h]))"
    using neighbours_belong [OF assms(1), of us vs] assms(2) by simp_all
  show "pxContainer st x = None \<Longrightarrow> last (End h # map Item us) \<noteq> Item x"
    "pxContainer st x = None \<Longrightarrow> hd (map Item vs @ [End h]) \<noteq> Item x"
    using b by (auto simp: belongs_def)
qed

lemma insert_end_refines:
  assumes r: "represents st h l" and new: "pxContainer st x = None"
  shows "\<exists>st'. link_insert_end h x st = Inr st' \<and> represents st' h (vListInsertEnd x l) \<and> undisturbed h st st'"
proof -
  let ?i = "pxIndex l"
  define us where "us = (if ?i = 0 then entries l else take (?i - 1) (entries l))"
  define vs where "vs = (if ?i = 0 then [] else drop (?i - 1) (entries l))"
  have e: "entries l = us @ vs" by (simp add: us_def vs_def)
  have i: "?i \<le> length (entries l)" using r by (simp add: represents_def index_ok_def)
  have n: "list_index st h = hd (map Item vs @ [End h])"
  proof (cases "?i = 0")
    case False
    then have "drop (?i - 1) (entries l) \<noteq> []" "hd (drop (?i - 1) (entries l)) = entries l ! (?i - 1)"
      using i by (simp_all add: hd_drop_conv_nth)
    then show ?thesis using r False i by (simp add: represents_def vs_def nth_Cons' hd_map hd_append)
  qed (use r in \<open>simp add: represents_def vs_def\<close>)
  note pl = place [OF r e]
  have "link_insert_end h x st = Inr (linked_in h x us vs st)"
    unfolding link_insert_end_def linked_in_def Let_def n ptr_def using pl(2) pl(4) [OF new] by simp
  moreover have "vListInsertEnd x l =
      \<lparr>entries = us @ x # vs, pxIndex = if length us < pxIndex l then pxIndex l + 1 else pxIndex l\<rparr>"
    using i by (cases l) (auto simp: vListInsertEnd_def us_def vs_def)
  ultimately show ?thesis using linked_in_represents [OF r e new] linked_in_undisturbed [OF r e new] by simp
qed

lemma iterate_path:
  "path (pxNext st) pv a xs b \<Longrightarrow> v < xItemValue st b \<Longrightarrow>
    link_iterate v st a = ret (last (a # takeWhile (\<lambda>y. xItemValue st y \<le> v) xs))"
proof (induction xs arbitrary: a)
  case Nil
  then show ?case by (subst link_iterate.simps) (simp add: linorder_not_le [symmetric])
next
  case (Cons y xs)
  then show ?case by (subst link_iterate.simps) simp
qed

lemma below_max: "v \<noteq> portMAX_DELAY \<Longrightarrow> v < portMAX_DELAY"
proof -
  assume "v \<noteq> portMAX_DELAY"
  then have "unat v \<noteq> 4294967295" by (auto simp: portMAX_DELAY_def word_unat_eq_iff)
  then have "unat v < 4294967295" using unat_u32_less [of v] by linarith
  then show ?thesis by (simp add: portMAX_DELAY_def word_less_nat_alt)
qed

lemma link_insert_at:
  assumes "(if xItemValue st (Item x) = portMAX_DELAY then Some (ptr (pxPrevious st) (End h))
      else link_iterate (xItemValue st (Item x)) st (End h)) = ret p"
    and "pxNext st p = Some n" "p \<noteq> Item x" "n \<noteq> Item x"
  shows "link_insert h x st = ret (join_list h x (st\<lparr>pxNext := (pxNext st)(Item x \<mapsto> n, p \<mapsto> Item x),
    pxPrevious := (pxPrevious st)(Item x \<mapsto> p, n \<mapsto> Item x)\<rparr>))"
  unfolding link_insert_def Let_def assms(1) bindl.simps
  using assms(2-) by (cases st) (simp add: ptr_def fun_upd_twist [of n "Item x"])

lemma insert_refines:
  assumes r: "represents st h l" and new: "pxContainer st x = None"
  shows "\<exists>st'. link_insert h x st = ret st' \<and>
    represents st' h (vListInsert (\<lambda>y. xItemValue st (Item y)) x l) \<and> undisturbed h st st'"
proof -
  let ?v = "xItemValue st (Item x)"
  define j where "j = insert_position (\<lambda>y. xItemValue st (Item y)) x (entries l)"
  define us vs where "us = take j (entries l)" and "vs = drop j (entries l)"
  have e: "entries l = us @ vs" by (simp add: us_def vs_def)
  note pl = place [OF r e]
  have path: "path (pxNext st) (pxPrevious st) (End h) (map Item (entries l)) (End h)"
    and marker: "xItemValue st (End h) = portMAX_DELAY" using r by (simp_all add: represents_def)
  have it: "(if ?v = portMAX_DELAY then Some (ptr (pxPrevious st) (End h)) else link_iterate ?v st (End h)) =
      ret (last (End h # map Item us))"
  proof (cases "?v = portMAX_DELAY")
    case True
    then have "us = entries l" "vs = []" by (simp_all add: us_def vs_def j_def insert_position_def)
    then show ?thesis using True pl(2) by (simp add: ptr_def)
  next
    case False
    then have "us = takeWhile (\<lambda>y. xItemValue st (Item y) \<le> ?v) (entries l)"
      by (simp add: us_def j_def insert_position_def) (metis takeWhile_eq_take)
    then have u: "map Item us = takeWhile (\<lambda>y. xItemValue st y \<le> ?v) (map Item (entries l))"
      by (simp add: takeWhile_map o_def)
    have "?v < xItemValue st (End h)" unfolding marker by (rule below_max [OF False])
    from iterate_path [OF path this] show ?thesis using False unfolding u by simp
  qed
  define p n where "p = last (End h # map Item us)" and "n = hd (map Item vs @ [End h])"
  have "pxNext st p = Some n" "p \<noteq> Item x" "n \<noteq> Item x"
    unfolding p_def n_def by (rule pl(1), rule pl(3) [OF new], rule pl(4) [OF new])
  note link_insert_at [OF it [folded p_def] this]
  then have "link_insert h x st = ret (linked_in h x us vs st)" by (simp only: linked_in_def Let_def p_def n_def)
  moreover have "length us = j" using e by (simp add: us_def j_def insert_position_def length_takeWhile_le)
  then have "vListInsert (\<lambda>y. xItemValue st (Item y)) x l =
      \<lparr>entries = us @ x # vs, pxIndex = if length us < pxIndex l then pxIndex l + 1 else pxIndex l\<rparr>"
    by (simp add: vListInsert_def us_def vs_def j_def [symmetric] Let_def)
  ultimately show ?thesis using linked_in_represents [OF r e new] linked_in_undisturbed [OF r e new] by simp
qed

section \<open>Removal\<close>

text \<open>An item linked out from between the two parts of a list.\<close>

definition linked_out :: "nat \<Rightarrow> 'a \<Rightarrow> 'a list \<Rightarrow> 'a list \<Rightarrow> 'a links \<Rightarrow> 'a links" where
  "linked_out h x us vs st =
    (let p = last (End h # map Item us); n = hd (map Item vs @ [End h]) in
     st\<lparr>pxNext := (pxNext st)(p \<mapsto> n), pxPrevious := (pxPrevious st)(n \<mapsto> p),
        list_index := if list_index st h = Item x then (list_index st)(h := p) else list_index st,
        pxContainer := (pxContainer st)(x := None),
        uxNumberOfItems := (uxNumberOfItems st)(h := uxNumberOfItems st h - 1)\<rparr>)"

lemma index_item:
  assumes "distinct (us @ x # vs)" "i \<le> length (us @ x # vs)"
  shows "(End h # map Item (us @ x # vs)) ! i = Item x \<longleftrightarrow> i = length us + 1"
proof (cases i)
  case (Suc k)
  have "(us @ x # vs) ! k = x \<longleftrightarrow> k = length us"
    using nth_eq_iff_index_eq [OF assms(1), of k "length us"] assms(2) Suc by simp
  then show ?thesis using Suc assms(2) by (simp del: map_append list.map)
qed simp

lemma linked_out_represents:
  assumes r: "represents st h l" and e: "entries l = us @ x # vs"
  shows "represents (linked_out h x us vs st) h
    \<lparr>entries = us @ vs, pxIndex = if length us < pxIndex l then pxIndex l - 1 else pxIndex l\<rparr>"
proof -
  let ?p = "last (End h # map Item us)" and ?n = "hd (map Item vs @ [End h])"
  have d: "distinct (us @ x # vs)" and i: "pxIndex l \<le> length (us @ x # vs)"
    using r unfolding represents_def e index_ok_def by simp_all
  have "path (pxNext st) (pxPrevious st) (End h) (map Item us @ Item x # map Item vs) (End h)"
    using r by (simp add: represents_def e)
  then have p: "path ((pxNext st)(?p \<mapsto> ?n)) ((pxPrevious st)(?n \<mapsto> ?p)) (End h) (map Item us @ map Item vs) (End h)"
    by (rule path_remove) (use d in \<open>auto simp: distinct_map inj_on_def\<close>)
  have li: "list_index st h = (End h # map Item (us @ x # vs)) ! pxIndex l" using r by (simp add: represents_def e)
  have "list_index (linked_out h x us vs st) h =
      (End h # map Item (us @ vs)) ! (if length us < pxIndex l then pxIndex l - 1 else pxIndex l)"
  proof (cases "pxIndex l = length us + 1")
    case True
    then have "list_index st h = Item x" unfolding li index_item [OF d i] .
    moreover have "?p = (End h # map Item (us @ vs)) ! length us"
      by (cases us rule: rev_cases) (simp_all add: nth_append)
    ultimately show ?thesis using True by (simp add: linked_out_def Let_def)
  next
    case False
    then have "list_index st h \<noteq> Item x" unfolding li index_item [OF d i] .
    then have "list_index (linked_out h x us vs st) h = list_index st h" by (simp add: linked_out_def Let_def)
    also have "\<dots> = (End h # map Item (us @ x # vs)) ! pxIndex l" by (rule li)
    also have "\<dots> = (End h # map Item (us @ vs)) ! (if length us < pxIndex l then pxIndex l - 1 else pxIndex l)"
      using False by (cases "pxIndex l") (auto simp: nth_append nth_Cons' not_less)
    finally show ?thesis .
  qed
  moreover have "(of_nat (length (us @ x # vs)) :: u32) - 1 = of_nat (length (us @ vs))" by simp
  ultimately show ?thesis using r d i p unfolding represents_def e linked_out_def index_ok_def Let_def
    by auto
qed

lemma linked_out_undisturbed:
  assumes r: "represents st h l" and e: "entries l = us @ x # vs"
  shows "undisturbed h st (linked_out h x us vs st)"
proof -
  have x: "pxContainer st x = Some h" using r e by (simp add: represents_def)
  have sub: "set us \<subseteq> set (entries l)" "set vs \<subseteq> set (entries l)" using e by auto
  have b: "belongs st h (last (End h # map Item us))" "belongs st h (hd (map Item vs @ [End h]))"
    using neighbours_belong [OF r, of us vs] sub by blast+
  have "untouched h' st (linked_out h x us vs st)" if "h' \<noteq> h" for h'
  proof -
    have "n \<noteq> last (End h # map Item us)" "n \<noteq> hd (map Item vs @ [End h])" if "belongs st h' n" for n
      using that \<open>h' \<noteq> h\<close> b belongs_one by blast+
    then show ?thesis using that x unfolding untouched_def linked_out_def Let_def by auto
  qed
  then show ?thesis unfolding undisturbed_def by (metis represents_untouched)
qed

lemma link_remove_at:
  assumes "pxContainer st x = Some h" "pxNext st (Item x) = Some n" "pxPrevious st (Item x) = Some p"
    and "p \<noteq> Item x" "n \<noteq> Item x"
  shows "link_remove x st = Inr (uxNumberOfItems st h - 1,
    st\<lparr>pxNext := (pxNext st)(p \<mapsto> n), pxPrevious := (pxPrevious st)(n \<mapsto> p),
       list_index := if list_index st h = Item x then (list_index st)(h := p) else list_index st,
       pxContainer := (pxContainer st)(x := None),
       uxNumberOfItems := (uxNumberOfItems st)(h := uxNumberOfItems st h - 1)\<rparr>)"
  unfolding link_remove_def Let_def using assms by (cases st) (simp add: ptr_def)

lemma remove_refines:
  assumes r: "represents st h l" and x: "x \<in> set (entries l)"
  shows "\<exists>st'. link_remove x st = Inr (of_nat (length (entries l) - 1), st') \<and> represents st' h (uxListRemove x l) \<and>
    pxContainer st' x = None \<and> undisturbed h st st'"
proof -
  obtain us vs where e: "entries l = us @ x # vs" and us: "x \<notin> set us" using split_list_first [OF x] by blast
  define p n where "p = last (End h # map Item us)" and "n = hd (map Item vs @ [End h])"
  have path: "path (pxNext st) (pxPrevious st) (End h) (map Item us @ Item x # map Item vs) (End h)"
    and d: "distinct (us @ x # vs)" using r by (simp_all add: represents_def e)
  have px: "pxPrevious st (Item x) = Some p" using path_neighbours [OF path] by (simp add: p_def)
  have "path (pxNext st) (pxPrevious st) (End h) ((map Item us @ [Item x]) @ map Item vs) (End h)" using path by simp
  from path_neighbours [OF this] have nx: "pxNext st (Item x) = Some n" by (simp add: n_def)
  have "p \<in> insert (End h) (Item ` set us)" "n \<in> insert (End h) (Item ` set vs)"
    unfolding p_def n_def by (cases us rule: rev_cases; auto) (cases vs; auto)
  then have ne: "p \<noteq> Item x" "n \<noteq> Item x" using d by auto
  have c: "pxContainer st x = Some h" and m: "uxNumberOfItems st h = of_nat (length (entries l))"
    using r e by (simp_all add: represents_def)
  have "link_remove x st = Inr (of_nat (length (entries l) - 1), linked_out h x us vs st)"
    unfolding link_remove_at [OF c nx px ne] linked_out_def Let_def p_def [symmetric] n_def [symmetric] m by (simp add: e)
  moreover have "uxListRemove x l =
      \<lparr>entries = us @ vs, pxIndex = if length us < pxIndex l then pxIndex l - 1 else pxIndex l\<rparr>"
  proof -
    have "item_position x (us @ x # vs) = length us" using us by (induction us) (auto simp: item_position_def)
    then show ?thesis by (simp add: uxListRemove_def e Let_def)
  qed
  moreover have "pxContainer (linked_out h x us vs st) x = None" by (simp add: linked_out_def Let_def)
  ultimately show ?thesis using linked_out_represents [OF r e] linked_out_undisturbed [OF r e] by simp
qed

section \<open>Initialisation and the walk\<close>

lemma initialise_refines:
  assumes "\<forall>x. pxContainer st x \<noteq> Some h"
  shows "represents (link_initialise h st) h vListInitialise \<and> undisturbed h st (link_initialise h st)"
proof
  show "represents (link_initialise h st) h vListInitialise"
    using assms by (simp add: represents_def link_initialise_def vListInitialise_def index_ok_def)
  have "untouched h' st (link_initialise h st)" if "h' \<noteq> h" for h'
    using that by (auto simp: untouched_def belongs_def link_initialise_def)
  then show "undisturbed h st (link_initialise h st)" unfolding undisturbed_def by (metis represents_untouched)
qed

lemma index_moved_represents:
  assumes r: "represents st h l" and i: "i \<le> length (entries l)"
  shows "represents (st\<lparr>list_index := (list_index st)(h := (End h # map Item (entries l)) ! i)\<rparr>) h (l\<lparr>pxIndex := i\<rparr>)"
    and "undisturbed h st (st\<lparr>list_index := (list_index st)(h := n)\<rparr>)"
proof -
  show "represents (st\<lparr>list_index := (list_index st)(h := (End h # map Item (entries l)) ! i)\<rparr>) h (l\<lparr>pxIndex := i\<rparr>)"
    using assms by (simp add: represents_def index_ok_def)
  show "undisturbed h st (st\<lparr>list_index := (list_index st)(h := n)\<rparr>)"
    unfolding undisturbed_def by (auto simp: represents_def)
qed

lemma next_entry_refines:
  assumes r: "represents st h l" and ne: "entries l \<noteq> []"
  shows "\<exists>x l' st'. next_entry l = Inr (x, l') \<and> link_next_entry h st = Inr (x, st') \<and> represents st' h l' \<and> undisturbed h st st'"
proof -
  let ?i = "pxIndex l" and ?xs = "entries l"
  have i: "?i \<le> length ?xs" using r by (simp add: represents_def index_ok_def)
  have path: "path (pxNext st) (pxPrevious st) (End h) (map Item (take k ?xs) @ map Item (drop k ?xs)) (End h)" for k
    using r by (simp add: represents_def map_append [symmetric] del: map_append)
  have at: "last (End h # map Item (take ?i ?xs)) = list_index st h"
    using r i by (cases ?i) (auto simp: represents_def take_Suc_conv_app_nth last_map)
  have next_node: "pxNext st (last (End h # map Item (take k ?xs))) = Some (hd (map Item (drop k ?xs) @ [End h]))" for k
    using path_neighbours [OF path] by blast
  have first: "pxNext st (End h) = Some (Item (?xs ! 0))"
    using next_node [of 0] ne by (simp add: hd_conv_nth hd_map hd_append)
  define j where "j = (if ?i < length ?xs then ?i else 0)"
  have j: "j < length ?xs" using ne by (simp add: j_def)
  have l: "next_entry l = Inr (?xs ! j, l\<lparr>pxIndex := j + 1\<rparr>)"
    using i ne j by (cases "?i < length ?xs") (auto simp: next_entry_def j_def Let_def)
  have "link_next_entry h st = Inr (?xs ! j, st\<lparr>list_index := (list_index st)(h := Item (?xs ! j))\<rparr>)"
  proof (cases "?i < length ?xs")
    case True
    then have "pxNext st (list_index st h) = Some (Item (?xs ! j))"
      using next_node [of ?i] unfolding at by (simp add: j_def hd_drop_conv_nth hd_map hd_append)
    then show ?thesis by (simp add: link_next_entry_def ptr_def Let_def)
  next
    case False
    then have "pxNext st (list_index st h) = Some (End h)" using next_node [of ?i] i unfolding at by simp
    then show ?thesis using False first by (simp add: link_next_entry_def ptr_def j_def Let_def)
  qed
  moreover have "Item (?xs ! j) = (End h # map Item ?xs) ! (j + 1)" using j by simp
  ultimately show ?thesis using l index_moved_represents [OF r, of "j + 1"] j by (metis Suc_eq_plus1 Suc_leI)
qed

section \<open>Refinement\<close>

text \<open>
  C40: \<open>list.c\<close> implements the lists of the kernel model. On a ring that represents a list, inserting a free
  item at the end or by its value, and removing an item of the list, change the pointers so that the ring
  represents the result of the abstract operation, the loop of \<open>vListInsert\<close> ends, removal returns the number
  of items left, the walk visits the same items, and the other lists of the store represent what they did.
\<close>

theorem list_operations_refine:
  assumes "represents st h l"
  shows "(pxContainer st x = None \<longrightarrow>
      (\<exists>st'. link_insert_end h x st = Inr st' \<and> represents st' h (vListInsertEnd x l) \<and> undisturbed h st st') \<and>
      (\<exists>st'. link_insert h x st = ret st' \<and>
        represents st' h (vListInsert (\<lambda>y. xItemValue st (Item y)) x l) \<and> undisturbed h st st')) \<and>
    (x \<in> set (entries l) \<longrightarrow>
      (\<exists>st'. link_remove x st = Inr (of_nat (length (entries l) - 1), st') \<and>
        represents st' h (uxListRemove x l) \<and> pxContainer st' x = None \<and> undisturbed h st st')) \<and>
    (entries l \<noteq> [] \<longrightarrow>
      (\<exists>y l' st'. next_entry l = Inr (y, l') \<and> link_next_entry h st = Inr (y, st') \<and>
        represents st' h l' \<and> undisturbed h st st'))"
  using insert_end_refines [OF assms, of x] insert_refines [OF assms, of x] remove_refines [OF assms, of x]
    next_entry_refines [OF assms] by blast

text \<open>The second list, empty, in a store of two.\<close>

definition two_lists :: "nat links" where
  "two_lists = link_initialise 1 (link_initialise 0
    \<lparr>pxNext = Map.empty, pxPrevious = Map.empty, xItemValue = (\<lambda>_. 5), pxContainer = Map.empty,
     list_index = (\<lambda>_. Item 7), uxNumberOfItems = (\<lambda>_. 9)\<rparr>)"

lemma two_lists_empty: "represents two_lists 1 vListInitialise" "pxContainer two_lists 3 = None"
  unfolding two_lists_def by (rule conjunct1, rule initialise_refines; simp add: link_initialise_def)
    (simp add: link_initialise_def)

theorem list_operations_refine_witness:
  "\<exists>st st'. link_insert_end 1 3 two_lists = Inr st \<and> represents st 1 \<lparr>entries = [3], pxIndex = 0\<rparr> \<and>
    link_remove 3 st = Inr (0, st') \<and> represents st' 1 \<lparr>entries = [], pxIndex = 0\<rparr>"
proof -
  obtain st where st: "link_insert_end 1 3 two_lists = Inr st" "represents st 1 \<lparr>entries = [3], pxIndex = 0\<rparr>"
    using list_operations_refine [OF two_lists_empty(1), of 3] two_lists_empty(2)
    by (auto simp: vListInsertEnd_def vListInitialise_def)
  then show ?thesis using list_operations_refine [OF st(2), of 3]
    by (auto simp: uxListRemove_def item_position_def Let_def)
qed

end
