(* ===== verification/Inet_Chksum.thy ===== *)
theory Inet_Chksum
  imports Pbuf_Content Ip4_Addr
begin

text \<open>
  The Internet checksum of lwIP (\<open>core/inet_chksum.c\<close>, version 3, which the port selects): a loop
  over 32-bit words with the carry added back, over data at any address. Its value is the sum in
  ones' complement of the data read as little-endian 16-bit words, as in the plain version 1 of the
  same file, and the checksum of a chain of buffers is that of its contents, however the chain is cut.
\<close>

unbundle bit_operations_syntax

section \<open>The routine\<close>

definition FOLD_U32T :: "u32 \<Rightarrow> u32" where
  "FOLD_U32T u = drop_bit 16 u + (u AND 0x0000FFFF)"

definition SWAP_BYTES_IN_WORD :: "u32 \<Rightarrow> u32" where
  "SWAP_BYTES_IN_WORD w = push_bit 8 (w AND 0xFF) OR drop_bit 8 (w AND 0xFF00)"

text \<open>The values of a \<open>u16_t\<close> and a \<open>u32_t\<close> in memory.\<close>

definition le16 :: "u8 \<Rightarrow> u8 \<Rightarrow> u32" where
  "le16 a b = ucast a + 0x100 * ucast b"

definition le32 :: "u8 \<Rightarrow> u8 \<Rightarrow> u8 \<Rightarrow> u8 \<Rightarrow> u32" where
  "le32 a b c d = ucast a + 0x100 * ucast b + 0x10000 * ucast c + 0x1000000 * ucast d"

definition add_carry :: "u32 \<Rightarrow> u32 \<Rightarrow> u32" where
  "add_carry s x = (if s + x < s then s + x + 1 else s + x)"

text \<open>The loop over eight bytes at a time (ping and pong), and the one over two.\<close>

fun sum_words32 :: "u32 \<Rightarrow> u8 list \<Rightarrow> u32 \<times> u8 list" where
  "sum_words32 s (a # b # c # d # e # f # g # h # bs) =
    sum_words32 (add_carry (add_carry s (le32 a b c d)) (le32 e f g h)) bs"
| "sum_words32 s bs = (s, bs)"

fun sum_words16 :: "u32 \<Rightarrow> u8 list \<Rightarrow> u32 \<times> u8 list" where
  "sum_words16 s (a # b # bs) = sum_words16 (s + le16 a b) bs"
| "sum_words16 s bs = (s, bs)"

text \<open>
  The byte at an odd start goes to the high half of \<open>t\<close>, a byte left over at the end to the low
  half. \<open>address\<close> is that of the first byte.
\<close>

definition odd_head :: "nat \<Rightarrow> u8 list \<Rightarrow> u32 \<times> nat \<times> u8 list" where
  "odd_head address bs =
    (case bs of b # rest \<Rightarrow> if odd address then (0x100 * ucast b, address + 1, rest) else (0, address, bs)
     | [] \<Rightarrow> (0, address, bs))"

definition half_word :: "nat \<Rightarrow> u8 list \<Rightarrow> u32 \<times> u8 list" where
  "half_word address bs =
    (case bs of a # b # rest \<Rightarrow> if address mod 4 \<noteq> 0 then (le16 a b, rest) else (0, bs) | _ \<Rightarrow> (0, bs))"

definition tail_byte :: "u32 \<Rightarrow> u8 list \<Rightarrow> u32" where
  "tail_byte t bs = (case bs of [] \<Rightarrow> t | b # _ \<Rightarrow> t + ucast b)"

definition lwip_standard_chksum :: "nat \<Rightarrow> u8 list \<Rightarrow> u16" where
  "lwip_standard_chksum address bs =
    (let (t, at, bs) = odd_head address bs;
         (s, bs) = half_word at bs;
         (s, bs) = sum_words32 s bs;
         (s, bs) = sum_words16 (FOLD_U32T s) bs;
         t = tail_byte t bs;
         s = FOLD_U32T (FOLD_U32T (s + t)) in
     ucast (if odd address then SWAP_BYTES_IN_WORD s else s))"

text \<open>Version 1: one loop over network-order words, and \<open>lwip_htons\<close> of the folded sum.\<close>

fun sum_network16 :: "u32 \<Rightarrow> u8 list \<Rightarrow> u32" where
  "sum_network16 acc (a # b # bs) = sum_network16 (acc + (0x100 * ucast a + ucast b)) bs"
| "sum_network16 acc [a] = acc + 0x100 * ucast a"
| "sum_network16 acc [] = acc"

definition lwip_htons :: "u16 \<Rightarrow> u16" where
  "lwip_htons x = push_bit 8 (x AND 0x00FF) OR drop_bit 8 (x AND 0xFF00)"

definition chksum_version_1 :: "u8 list \<Rightarrow> u16" where
  "chksum_version_1 bs =
    (let acc = FOLD_U32T (sum_network16 0 bs);
         acc = (if acc AND 0xFFFF0000 \<noteq> 0 then FOLD_U32T acc else acc) in
     lwip_htons (ucast acc))"

text \<open>Version 2: the loop over 16-bit words alone, with the same treatment of the two ends.\<close>

definition chksum_version_2 :: "nat \<Rightarrow> u8 list \<Rightarrow> u16" where
  "chksum_version_2 address bs =
    (let (t, at, bs) = odd_head address bs;
         (s, bs) = sum_words16 0 bs;
         t = tail_byte t bs;
         s = FOLD_U32T (FOLD_U32T (s + t)) in
     ucast (if odd address then SWAP_BYTES_IN_WORD s else s))"

section \<open>Chains of buffers\<close>

text \<open>
  \<open>q->len\<close> bytes behind \<open>q->payload\<close>; \<open>base\<close> gives the address of the storage of a block. The
  result is the accumulator and whether its bytes are swapped.
\<close>

definition segment_chksum :: "(addr \<Rightarrow> nat) \<Rightarrow> addr \<Rightarrow> pbuf \<Rightarrow> u16 result" where
  "segment_chksum base a b =
    (if length (storage b) < payload b + unat (len b) then Inl Out_of_bounds
     else Inr (lwip_standard_chksum (base a + payload b) (take (unat (len b)) (drop (payload b) (storage b)))))"

partial_function (option) chksum_loop ::
    "(addr \<Rightarrow> nat) \<Rightarrow> pmem \<Rightarrow> addr option \<Rightarrow> u32 \<Rightarrow> bool \<Rightarrow> (u32 \<times> bool) run" where
  "chksum_loop base m q acc swapped =
    (case q of None \<Rightarrow> Some (Inr (acc, swapped)) | Some a \<Rightarrow>
      (case cells m a of None \<Rightarrow> Some (Inl Use_after_free) | Some b \<Rightarrow>
        (case segment_chksum base a b of Inl e \<Rightarrow> Some (Inl e)
         | Inr c \<Rightarrow>
             let acc = FOLD_U32T (acc + ucast c) in
             if unat (len b) mod 2 \<noteq> 0
             then chksum_loop base m (next_pbuf b) (SWAP_BYTES_IN_WORD acc) (\<not> swapped)
             else chksum_loop base m (next_pbuf b) acc swapped)))"

definition inet_chksum :: "nat \<Rightarrow> u8 list \<Rightarrow> u16" where
  "inet_chksum address bs = NOT (lwip_standard_chksum address bs)"

definition inet_chksum_pbuf :: "(addr \<Rightarrow> nat) \<Rightarrow> pmem \<Rightarrow> addr option \<Rightarrow> u16 run" where
  "inet_chksum_pbuf base m p =
    bindl (chksum_loop base m p 0 False) (\<lambda>(acc, swapped).
    ret (NOT (ucast (if swapped then SWAP_BYTES_IN_WORD acc else acc))))"

definition inet_cksum_pseudo_base :: "(addr \<Rightarrow> nat) \<Rightarrow> pmem \<Rightarrow> addr option \<Rightarrow> u8 \<Rightarrow> u16 \<Rightarrow> u32 \<Rightarrow> u16 run" where
  "inet_cksum_pseudo_base base m p proto proto_len acc =
    bindl (chksum_loop base m p acc False) (\<lambda>(acc, swapped).
    let acc = (if swapped then SWAP_BYTES_IN_WORD acc else acc);
        acc = acc + ucast (lwip_htons (ucast proto)) + ucast (lwip_htons proto_len) in
    ret (NOT (ucast (FOLD_U32T (FOLD_U32T acc)))))"

definition address_sum :: "u32 \<Rightarrow> u32" where
  "address_sum a = (a AND 0xFFFF) + (drop_bit 16 a AND 0xFFFF)"

definition inet_chksum_pseudo ::
    "(addr \<Rightarrow> nat) \<Rightarrow> pmem \<Rightarrow> addr option \<Rightarrow> u8 \<Rightarrow> u16 \<Rightarrow> u32 \<Rightarrow> u32 \<Rightarrow> u16 run" where
  "inet_chksum_pseudo base m p proto proto_len src dest =
    inet_cksum_pseudo_base base m p proto proto_len (FOLD_U32T (FOLD_U32T (address_sum src + address_sum dest)))"

section \<open>Sums in ones' complement\<close>

text \<open>The sum of the data as little-endian 16-bit words, the last one padded with zero.\<close>

fun word_sum :: "u8 list \<Rightarrow> nat" where
  "word_sum (a # b # bs) = unat a + 256 * unat b + word_sum bs"
| "word_sum [a] = unat a"
| "word_sum [] = 0"

text \<open>The representative of a sum modulo \<open>K\<close> from 1 to \<open>K\<close>, and zero only for the sum of zeros.\<close>

definition residue :: "nat \<Rightarrow> nat \<Rightarrow> nat" where
  "residue K n = (if n = 0 then 0 else if n mod K = 0 then K else n mod K)"

lemma residue_iff:
  assumes "0 < K"
  shows "residue K n = residue K m \<longleftrightarrow> (n = 0 \<longleftrightarrow> m = 0) \<and> n mod K = m mod K"
proof -
  have "n mod K < K" "m mod K < K" using assms by simp_all
  then have "n mod K \<noteq> K" "m mod K \<noteq> K" by (metis less_irrefl)+
  then show ?thesis using assms by (auto simp: residue_def)
qed

lemma residue_le: "0 < K \<Longrightarrow> residue K n \<le> K"
  by (simp add: residue_def less_imp_le)

lemma residue_small: "n \<le> K \<Longrightarrow> residue K n = n"
  by (cases "n = K") (auto simp: residue_def)

lemma residue_add: "0 < K \<Longrightarrow> residue K n = residue K m \<Longrightarrow> residue K (n + k) = residue K (m + k)"
  unfolding residue_iff by (metis add_is_0 mod_add_left_eq)

lemma residue_times: "0 < K \<Longrightarrow> 0 < k \<Longrightarrow> residue K n = residue K m \<Longrightarrow> residue K (k * n) = residue K (k * m)"
  unfolding residue_iff by (metis mod_mult_right_eq mult_is_0 neq0_conv)

lemma residue_wrap: "0 < K \<Longrightarrow> residue K (n + k * K) = (if n = 0 \<and> k \<noteq> 0 then K else residue K n)"
  by (auto simp: residue_def)

text \<open>Addition of 16-bit numbers with the carry added back.\<close>

definition ones_sum :: "nat \<Rightarrow> nat" where
  "ones_sum = residue 65535"

lemma ones_sum_add: "ones_sum n = ones_sum m \<Longrightarrow> ones_sum (n + k) = ones_sum (m + k)"
  unfolding ones_sum_def by (rule residue_add) simp_all

lemma ones_sum_times: "ones_sum n = ones_sum m \<Longrightarrow> ones_sum (256 * n) = ones_sum (256 * m)"
  unfolding ones_sum_def by (rule residue_times) simp_all

lemma ones_sum_le: "ones_sum n \<le> 65535"
  unfolding ones_sum_def by (rule residue_le) simp

lemma ones_sum_small: "n \<le> 65535 \<Longrightarrow> ones_sum n = n"
  unfolding ones_sum_def by (rule residue_small)

lemma ones_sum_twice [simp]: "ones_sum (ones_sum n) = ones_sum n"
  by (rule ones_sum_small [OF ones_sum_le])

text \<open>\<open>65536\<close> counts as one, so a carry added back does not change the sum.\<close>

lemma ones_sum_wrap: "ones_sum (n + k * 65535) = (if n = 0 \<and> k \<noteq> 0 then 65535 else ones_sum n)"
  unfolding ones_sum_def by (rule residue_wrap) simp

lemma ones_sum_carry: "ones_sum (n + 65536 * k) = ones_sum (n + k)"
proof -
  have "n + 65536 * k = (n + k) + k * 65535" by simp
  then show ?thesis by (simp only: ones_sum_wrap) simp
qed

lemma ones_sum_256_twice: "ones_sum (256 * (256 * n)) = ones_sum n"
  using ones_sum_carry [of 0 n] by (simp only: mult.assoc [symmetric]) simp

lemma unat_add_u32: "unat (x :: u32) + unat y < 4294967296 \<Longrightarrow> unat (x + y) = unat x + unat y"
  by (simp add: unat_word_ariths)

lemma unat_shift16: "unat (drop_bit 16 (u :: u32)) = unat u div 65536"
proof -
  have "unat (drop_bit 16 u) = drop_bit 16 (unat u)" by (rule unat_drop_bit_eq)
  also have "\<dots> = unat u div 2 ^ 16" by (rule drop_bit_eq_div)
  finally show ?thesis by simp
qed

lemma unat_low16: "unat ((u :: u32) AND 0xFFFF) = unat u mod 65536"
proof -
  have "u AND 0xFFFF = take_bit 16 u" by (simp add: take_bit_eq_mask mask_eq_exp_minus_1)
  moreover have "unat (take_bit 16 u) = take_bit 16 (unat u)" by (rule unsigned_take_bit_eq)
  ultimately have "unat (u AND 0xFFFF) = unat u mod 2 ^ 16" by (simp only: take_bit_eq_mod)
  then show ?thesis by simp
qed

lemma unat_fold: "unat (FOLD_U32T u) = unat u div 65536 + unat u mod 65536"
proof -
  have "unat u div 65536 < 65536" using unat_u32_less [of u] by (intro less_mult_imp_div_less) simp
  then have "unat u div 65536 + unat u mod 65536 < 4294967296" by simp
  then show ?thesis unfolding FOLD_U32T_def by (subst unat_add_u32) (simp_all only: unat_shift16 unat_low16)
qed

lemma ones_fold: "ones_sum (unat (FOLD_U32T u)) = ones_sum (unat u)"
proof -
  have "unat u = unat u mod 65536 + 65536 * (unat u div 65536)" by simp
  then show ?thesis unfolding unat_fold by (metis ones_sum_carry add.commute)
qed

lemma swap_parts: "SWAP_BYTES_IN_WORD w = push_bit 8 (take_bit 8 w) + take_bit 8 (drop_bit 8 w)"
proof -
  have l: "w AND 0xFF = take_bit 8 w" by (simp add: take_bit_eq_mask mask_eq_exp_minus_1)
  have h: "drop_bit 8 (w AND 0xFF00) = take_bit 8 (drop_bit 8 w)"
  proof -
    have e: "(0xFF00 :: u32) = push_bit 8 (mask 8)" by (simp add: mask_eq_exp_minus_1)
    show ?thesis unfolding e by (auto intro!: bit_word_eqI simp: bit_simps)
  qed
  have "push_bit 8 (take_bit 8 w) + take_bit 8 (drop_bit 8 w) = push_bit 8 (take_bit 8 w) OR take_bit 8 (drop_bit 8 w)"
    by (rule disjunctive_add_eq_or) (auto intro!: bit_word_eqI simp: bit_simps)
  then show ?thesis by (simp only: SWAP_BYTES_IN_WORD_def l h)
qed

lemma unat_swap:
  assumes "unat w < 65536"
  shows "unat (SWAP_BYTES_IN_WORD w) = 256 * (unat w mod 256) + unat w div 256"
proof -
  have "unat (take_bit 8 w) = take_bit 8 (unat w)" by (rule unsigned_take_bit_eq)
  then have l: "unat (take_bit 8 w) = unat w mod 256" by (simp only: take_bit_eq_mod) simp
  have "unat (take_bit 8 (drop_bit 8 w)) = take_bit 8 (drop_bit 8 (unat w))"
    by (simp only: unsigned_take_bit_eq unat_drop_bit_eq)
  then have "unat (take_bit 8 (drop_bit 8 w)) = unat w div 256 mod 256"
    by (simp only: take_bit_eq_mod drop_bit_eq_div) simp
  then have h: "unat (take_bit 8 (drop_bit 8 w)) = unat w div 256" using assms by simp
  have p: "unat (push_bit 8 (take_bit 8 w)) = 256 * (unat w mod 256)"
    by (simp only: push_bit_eq_mult) (simp add: unat_word_ariths l)
  have "256 * (unat w mod 256) + unat w div 256 < 4294967296" using assms by simp
  then show ?thesis unfolding swap_parts by (subst unat_add_u32) (simp_all only: l h p)
qed

lemma swap_ones:
  assumes "unat w < 65536"
  shows "ones_sum (unat (SWAP_BYTES_IN_WORD w)) = ones_sum (256 * unat w)"
proof -
  have "256 * unat w = 256 * (unat w mod 256) + 65536 * (unat w div 256)"
  proof -
    have "unat w = 256 * (unat w div 256) + unat w mod 256" by simp
    then show ?thesis by linarith
  qed
  then show ?thesis unfolding unat_swap [OF assms] by (metis ones_sum_carry)
qed

lemma swap_le: "unat w < 65536 \<Longrightarrow> unat (SWAP_BYTES_IN_WORD w) \<le> 65535"
  using unat_swap [of w] less_mult_imp_div_less [of "unat w" 256 256] mod_less_divisor [of 256 "unat w"]
  by linarith

lemma add_carry_ones: "ones_sum (unat (add_carry s x)) = ones_sum (unat s + unat x)"
proof (cases "unat s + unat x < 4294967296")
  case True
  then have "unat (s + x) = unat s + unat x" by (rule unat_add_u32)
  then show ?thesis by (simp add: add_carry_def word_less_nat_alt)
next
  case False
  define n where "n = unat s + unat x - 4294967296"
  have n: "unat s + unat x = n + 4294967296" using False by (simp add: n_def)
  have less: "n < unat s" "n < 4294967295" using n unat_u32_less [of x] unat_u32_less [of s] by linarith+
  have "unat (s + x) = n" using n less(2) by (simp add: unat_word_ariths)
  moreover have "unat (s + x + 1) = n + 1" using calculation less(2) by (subst unat_add_u32) simp_all
  ultimately have "unat (add_carry s x) = n + 1" using less(1) by (simp add: add_carry_def word_less_nat_alt)
  moreover have "unat s + unat x = (n + 1) + 65537 * 65535" using n by simp
  ultimately show ?thesis by (simp only: ones_sum_wrap) simp
qed

section \<open>The routine computes the sum\<close>

lemma unat_le16: "unat (le16 a b) = unat a + 256 * unat b"
proof -
  have "256 * unat b < 4294967296" using unat_u8_less [of b] by linarith
  then have m: "unat (0x100 * ucast b :: u32) = 256 * unat b" by (simp add: unat_word_ariths)
  have "unat a + 256 * unat b < 4294967296" using unat_u8_less [of a] unat_u8_less [of b] by linarith
  then show ?thesis unfolding le16_def by (subst unat_add_u32) (simp_all only: m unat_widen)
qed

lemma le32_le16: "le32 a b c d = le16 a b + 0x10000 * le16 c d"
  by (simp add: le32_def le16_def algebra_simps)

lemma ones_le32: "ones_sum (unat (le32 a b c d)) = ones_sum (unat a + 256 * unat b + (unat c + 256 * unat d))"
proof -
  have w: "unat (le16 c d) < 65536" "unat (le16 a b) < 65536"
    unfolding unat_le16 using unat_u8_less [of a] unat_u8_less [of b] unat_u8_less [of c] unat_u8_less [of d] by linarith+
  have m: "unat (0x10000 * le16 c d) = 65536 * unat (le16 c d)"
    using w(1) by (simp add: unat_word_ariths)
  have "unat (le32 a b c d) = unat (le16 a b) + 65536 * unat (le16 c d)"
  proof -
    have "unat (le16 a b) + 65536 * unat (le16 c d) < 4294967296" using w by linarith
    then show ?thesis unfolding le32_le16 m [symmetric] by (rule unat_add_u32)
  qed
  then show ?thesis by (simp only: ones_sum_carry unat_le16)
qed

lemma ones_sum_cong: "ones_sum n = ones_sum n' \<Longrightarrow> ones_sum m = ones_sum m' \<Longrightarrow> ones_sum (n + m) = ones_sum (n' + m')"
  by (metis ones_sum_add add.commute)

lemma words32_ones:
  "sum_words32 s bs = (s', bs') \<Longrightarrow> ones_sum (unat s' + word_sum bs') = ones_sum (unat s + word_sum bs) \<and> length bs' < 8"
proof (induction s bs rule: sum_words32.induct)
  case (1 s a b c d e f g h bs)
  let ?s1 = "add_carry s (le32 a b c d)" and ?s2 = "add_carry (add_carry s (le32 a b c d)) (le32 e f g h)"
  have "ones_sum (unat ?s2) = ones_sum (unat ?s1 + unat (le32 e f g h))" by (rule add_carry_ones)
  also have "\<dots> = ones_sum (unat s + unat (le32 a b c d) + unat (le32 e f g h))"
    by (rule ones_sum_add [OF add_carry_ones])
  also have "\<dots> = ones_sum (unat s + (unat a + 256 * unat b + (unat c + 256 * unat d)) +
      (unat e + 256 * unat f + (unat g + 256 * unat h)))"
    by (intro ones_sum_cong ones_le32) (rule refl)
  finally have "ones_sum (unat ?s2 + word_sum bs) = ones_sum (unat s + (unat a + 256 * unat b + (unat c + 256 * unat d)) +
      (unat e + 256 * unat f + (unat g + 256 * unat h)) + word_sum bs)"
    by (rule ones_sum_add)
  then have "ones_sum (unat ?s2 + word_sum bs) = ones_sum (unat s + word_sum (a # b # c # d # e # f # g # h # bs))"
    by (simp add: algebra_simps)
  then show ?case using 1 by simp
qed (auto simp: sum_words32.simps)

lemma word_sum_le: "word_sum bs \<le> 65535 * length bs"
proof (induction bs rule: word_sum.induct)
  case (1 a b bs)
  have "unat a + 256 * unat b \<le> 65535" using unat_u8_less [of a] unat_u8_less [of b] by linarith
  then show ?case using 1 by simp
next
  case (2 a)
  have "unat a \<le> 65535" using unat_u8_less [of a] by linarith
  then show ?case by simp
qed simp

lemma words16_sum:
  "unat s + word_sum bs < 4294967296 \<Longrightarrow> sum_words16 s bs = (s', bs') \<Longrightarrow>
    unat s' + word_sum bs' = unat s + word_sum bs \<and> length bs' < 2"
proof (induction s bs rule: sum_words16.induct)
  case (1 s a b bs)
  have s: "unat (s + le16 a b) = unat s + (unat a + 256 * unat b)"
    using 1(2) by (subst unat_add_u32) (simp_all add: unat_le16)
  then have "unat (s + le16 a b) + word_sum bs = unat s + word_sum (a # b # bs)" by simp
  then show ?case using 1 by simp
qed auto

lemma half_word_sum: "half_word at bs = (s, bs') \<Longrightarrow> unat s + word_sum bs' = word_sum bs"
  by (auto simp: half_word_def unat_le16 split: list.splits if_splits)

text \<open>Data at an odd address is summed with the two halves of every word exchanged.\<close>

lemma word_sum_shift: "ones_sum (256 * word_sum (b # bs)) = ones_sum (256 * unat b + word_sum bs)"
proof (induction bs arbitrary: b rule: word_sum.induct)
  case (1 c d bs)
  have "ones_sum (256 * word_sum (b # c # d # bs)) = ones_sum (256 * unat b + 256 * word_sum (d # bs) + 65536 * unat c)"
    by (simp add: algebra_simps)
  also have "\<dots> = ones_sum (256 * word_sum (d # bs) + (256 * unat b + unat c))"
    by (simp only: ones_sum_carry) (simp add: algebra_simps)
  also have "\<dots> = ones_sum (256 * unat d + word_sum bs + (256 * unat b + unat c))"
    by (rule ones_sum_add [OF 1])
  finally show ?case by (simp add: algebra_simps)
next
  case (2 c)
  have "256 * word_sum [b, c] = 256 * unat b + 65536 * unat c" by simp
  then show ?case by (simp only: ones_sum_carry word_sum.simps)
qed simp

lemma one_fold:
  assumes "unat u \<le> 131070"
  shows "unat (FOLD_U32T u) \<le> 65535"
proof (cases "unat u < 65536")
  case True
  then show ?thesis unfolding unat_fold by simp
next
  case False
  then have "unat u div 65536 = 1" using assms by (intro div_nat_eqI) simp_all
  moreover have "unat u mod 65536 = unat u - 65536" using False assms by (simp add: le_mod_geq)
  ultimately show ?thesis unfolding unat_fold using assms by simp
qed

lemma two_folds:
  shows "unat (FOLD_U32T (FOLD_U32T x)) \<le> 65535" and "ones_sum (unat (FOLD_U32T (FOLD_U32T x))) = ones_sum (unat x)"
proof -
  have "unat x div 65536 < 65536" using unat_u32_less [of x] by (intro less_mult_imp_div_less) simp
  moreover have "unat x mod 65536 < 65536" by simp
  ultimately have "unat (FOLD_U32T x) \<le> 131070" unfolding unat_fold by linarith
  then show "unat (FOLD_U32T (FOLD_U32T x)) \<le> 65535" by (rule one_fold)
  show "ones_sum (unat (FOLD_U32T (FOLD_U32T x))) = ones_sum (unat x)" by (simp only: ones_fold)
qed

lemma tail_byte_sum:
  assumes "unat t + 256 \<le> 65536" and "length bs < 2"
  shows "unat (tail_byte t bs) = unat t + word_sum bs"
proof (cases bs)
  case (Cons b bs')
  then have "bs' = []" using assms(2) by simp
  moreover have "unat t + unat (ucast b :: u32) < 4294967296"
    using assms(1) unat_u8_less [of b] unfolding unat_widen by linarith
  then have "unat (t + ucast b) = unat t + unat b" by (simp only: unat_add_u32 unat_widen)
  ultimately show ?thesis by (simp add: tail_byte_def Cons)
qed (simp add: tail_byte_def)

text \<open>The loops and the end bytes, on data whose first bytes have been dealt with.\<close>

definition body_sum :: "u32 \<Rightarrow> nat \<Rightarrow> u8 list \<Rightarrow> u32" where
  "body_sum t at bs =
    (let (s, bs) = half_word at bs;
         (s, bs) = sum_words32 s bs;
         (s, bs) = sum_words16 (FOLD_U32T s) bs;
         t = tail_byte t bs in
     FOLD_U32T (FOLD_U32T (s + t)))"

lemma body_sum_ones:
  assumes "unat t + 256 \<le> 65536"
  shows "unat (body_sum t at bs) \<le> 65535" and "ones_sum (unat (body_sum t at bs)) = ones_sum (unat t + word_sum bs)"
proof -
  obtain s1 bs1 where 1: "half_word at bs = (s1, bs1)" by (cases "half_word at bs")
  obtain s2 bs2 where 2: "sum_words32 s1 bs1 = (s2, bs2)" by (cases "sum_words32 s1 bs1")
  obtain s3 bs3 where 3: "sum_words16 (FOLD_U32T s2) bs2 = (s3, bs3)" by (cases "sum_words16 (FOLD_U32T s2) bs2")
  define t' where "t' = tail_byte t bs3"
  have run: "body_sum t at bs = FOLD_U32T (FOLD_U32T (s3 + t'))" by (simp add: body_sum_def 1 2 3 t'_def Let_def)
  note w32 = words32_ones [OF 2]
  have "unat s2 div 65536 < 65536" using unat_u32_less [of s2] by (intro less_mult_imp_div_less) simp
  then have f: "unat (FOLD_U32T s2) \<le> 131070" unfolding unat_fold by (simp add: less_Suc_eq_le [symmetric])
  have le: "word_sum bs2 \<le> 458745" using word_sum_le [of bs2] w32 by linarith
  then have w16: "unat s3 + word_sum bs3 = unat (FOLD_U32T s2) + word_sum bs2 \<and> length bs3 < 2"
    using words16_sum [OF _ 3] f by linarith
  have tail: "unat t' = unat t + word_sum bs3" unfolding t'_def using tail_byte_sum [OF assms] w16 by blast
  have total: "unat s3 + unat t' = unat (FOLD_U32T s2) + word_sum bs2 + unat t" using tail w16 by linarith
  then have small: "unat s3 + unat t' < 1048576" using f le assms by linarith
  then have sum: "unat (s3 + t') = unat s3 + unat t'" by (intro unat_add_u32) linarith
  show "unat (body_sum t at bs) \<le> 65535" unfolding run by (rule two_folds(1))
  have "ones_sum (unat (body_sum t at bs)) = ones_sum (unat (FOLD_U32T s2) + (word_sum bs2 + unat t))"
    unfolding run two_folds(2) sum total by (simp only: add.assoc)
  also have "\<dots> = ones_sum (unat s2 + word_sum bs2 + unat t)"
    using ones_sum_add [OF ones_fold, of s2 "word_sum bs2 + unat t"] by (simp only: add.assoc)
  also have "\<dots> = ones_sum (unat s1 + word_sum bs1 + unat t)" using w32 by (intro ones_sum_add) blast
  also have "\<dots> = ones_sum (unat t + word_sum bs)" unfolding half_word_sum [OF 1] by (simp only: add.commute)
  finally show "ones_sum (unat (body_sum t at bs)) = ones_sum (unat t + word_sum bs)" .
qed

lemma chksum_body:
  "lwip_standard_chksum address bs = (case odd_head address bs of (t, at, rest) \<Rightarrow>
    ucast (if odd address then SWAP_BYTES_IN_WORD (body_sum t at rest) else body_sum t at rest))"
  by (simp add: lwip_standard_chksum_def body_sum_def Let_def split: prod.split)

lemma unat_ucast_u16: "unat (x :: u32) \<le> 65535 \<Longrightarrow> unat (ucast x :: u16) = unat x"
  by (simp add: unsigned_ucast_eq take_bit_nat_eq_self)

lemma odd_head_ones:
  assumes "odd_head address bs = (t, at, rest)"
  shows "unat t + 256 \<le> 65536 \<and>
    ones_sum (unat t + word_sum rest) = ones_sum (if odd address then 256 * word_sum bs else word_sum bs)"
proof (cases bs)
  case Nil
  then show ?thesis using assms by (auto simp: odd_head_def)
next
  case (Cons b bs')
  show ?thesis
  proof (cases "odd address")
    case False
    then show ?thesis using assms Cons by (auto simp: odd_head_def)
  next
    case True
    have "256 * unat b < 4294967296" using unat_u8_less [of b] by linarith
    then have m: "unat (0x100 * ucast b :: u32) = 256 * unat b" by (simp add: unat_word_ariths)
    have "256 * unat b + 256 \<le> 65536" using unat_u8_less [of b] by linarith
    moreover have "t = 0x100 * ucast b" "rest = bs'" using assms Cons True by (auto simp: odd_head_def)
    ultimately show ?thesis using True word_sum_shift [of b bs'] by (simp only: m Cons if_True simp_thms)
  qed
qed

lemma finish_ones:
  assumes h: "odd_head address bs = (t, at, rest)"
    and s: "unat s \<le> 65535" "ones_sum (unat s) = ones_sum (unat t + word_sum rest)"
  shows "unat (ucast (if odd address then SWAP_BYTES_IN_WORD s else s) :: u16) = ones_sum (word_sum bs)"
proof -
  have head: "ones_sum (unat s) = ones_sum (if odd address then 256 * word_sum bs else word_sum bs)"
    using odd_head_ones [OF h] s(2) by simp
  show ?thesis
  proof (cases "odd address")
    case False
    then show ?thesis using head unat_ucast_u16 [OF s(1)] ones_sum_small [OF s(1)] by simp
  next
    case True
    have lt: "unat s < 65536" using s(1) by simp
    have "ones_sum (unat (SWAP_BYTES_IN_WORD s)) = ones_sum (256 * unat s)" by (rule swap_ones [OF lt])
    also have "\<dots> = ones_sum (256 * (256 * word_sum bs))" using head True by (intro ones_sum_times) simp
    also have "\<dots> = ones_sum (word_sum bs)" by (rule ones_sum_256_twice)
    finally show ?thesis using True unat_ucast_u16 [OF swap_le [OF lt]] ones_sum_small [OF swap_le [OF lt]] by simp
  qed
qed

lemma standard_chksum_ones: "unat (lwip_standard_chksum address bs) = ones_sum (word_sum bs)"
proof -
  obtain t at rest where h: "odd_head address bs = (t, at, rest)" by (cases "odd_head address bs") auto
  have "unat t + 256 \<le> 65536" using odd_head_ones [OF h] by blast
  note s = body_sum_ones [OF this, of at rest]
  show ?thesis using finish_ones [OF h s] by (simp add: chksum_body h)
qed

section \<open>Version 2\<close>

lemma even_word_sum_le: "word_sum bs \<le> 65535 * (length bs div 2) + (if odd (length bs) then 255 else 0)"
proof (induction bs rule: word_sum.induct)
  case (1 a b bs)
  have "unat a + 256 * unat b \<le> 65535" using unat_u8_less [of a] unat_u8_less [of b] by linarith
  then show ?case using 1 by simp
next
  case (2 a)
  have "unat a \<le> 255" using unat_u8_less [of a] by linarith
  then show ?case by simp
qed simp

text \<open>The bound of the comment, 0x20000 bytes, is the one the accumulator allows.\<close>

lemma version_2_fits:
  assumes "odd_head address bs = (t, at, rest)" and "length bs \<le> 0x20000"
  shows "unat t + word_sum rest < 4294967296"
proof (cases "unat t = 0")
  case True
  have "length rest \<le> 131072" using assms by (auto simp: odd_head_def split: list.splits if_splits)
  then have "length rest = 131072 \<or> length rest div 2 \<le> 65535" by presburger
  moreover have "65535 * (length rest div 2) \<le> 65535 * 65535" if "length rest div 2 \<le> 65535"
    using that by (rule mult_le_mono2)
  ultimately show ?thesis using even_word_sum_le [of rest] True by (auto split: if_splits)
next
  case False
  then have "length rest \<le> 131071" using assms by (auto simp: odd_head_def split: list.splits if_splits)
  then have "length rest div 2 \<le> 65535" by presburger
  then have "65535 * (length rest div 2) \<le> 65535 * 65535" by (rule mult_le_mono2)
  moreover have "unat t + 256 \<le> 65536" using odd_head_ones [OF assms(1)] by blast
  ultimately show ?thesis using even_word_sum_le [of rest] by (auto split: if_splits)
qed

lemma version_2_ones:
  assumes "length bs \<le> 0x20000"
  shows "unat (chksum_version_2 address bs) = ones_sum (word_sum bs)"
proof -
  obtain t at rest where h: "odd_head address bs = (t, at, rest)" by (cases "odd_head address bs") auto
  obtain s' bs' where s: "sum_words16 0 rest = (s', bs')" by (cases "sum_words16 0 rest")
  have t: "unat t + 256 \<le> 65536" using odd_head_ones [OF h] by blast
  note fits = version_2_fits [OF h assms]
  have w: "unat s' + word_sum bs' = word_sum rest" "length bs' < 2"
    using words16_sum [OF _ s] fits by simp_all
  have e: "unat (tail_byte t bs') = unat t + word_sum bs'" by (rule tail_byte_sum [OF t w(2)])
  have "unat (s' + tail_byte t bs') = unat t + word_sum rest" using w(1) e fits by (subst unat_add_u32) simp_all
  then have "ones_sum (unat (FOLD_U32T (FOLD_U32T (s' + tail_byte t bs')))) = ones_sum (unat t + word_sum rest)"
    by (simp only: two_folds(2))
  from finish_ones [OF h two_folds(1) this] show ?thesis by (simp add: chksum_version_2_def h s Let_def)
qed

section \<open>Version 1\<close>

text \<open>The sum in network order is that of the data with the halves of every word exchanged.\<close>

fun network_sum :: "u8 list \<Rightarrow> nat" where
  "network_sum (a # b # bs) = 256 * unat a + unat b + network_sum bs"
| "network_sum [a] = 256 * unat a"
| "network_sum [] = 0"

lemma network_word_sum: "ones_sum (network_sum bs) = ones_sum (256 * word_sum bs)"
proof (induction bs rule: network_sum.induct)
  case (1 a b bs)
  have "ones_sum (256 * word_sum (a # b # bs)) = ones_sum (256 * word_sum bs + 256 * unat a + 65536 * unat b)"
    by (simp add: algebra_simps)
  also have "\<dots> = ones_sum (256 * word_sum bs + (256 * unat a + unat b))"
    by (simp only: ones_sum_carry) (simp only: add.assoc)
  also have "\<dots> = ones_sum (network_sum bs + (256 * unat a + unat b))"
    by (rule ones_sum_add [OF 1 [symmetric]])
  finally show ?case by (simp add: algebra_simps)
qed simp_all

lemma network_sum_le: "network_sum bs \<le> 65535 * (length bs div 2) + (if odd (length bs) then 65280 else 0)"
proof (induction bs rule: network_sum.induct)
  case (1 a b bs)
  have "256 * unat a + unat b \<le> 65535" using unat_u8_less [of a] unat_u8_less [of b] by linarith
  then show ?case using 1 by simp
next
  case (2 a)
  have "256 * unat a \<le> 65280" using unat_u8_less [of a] by linarith
  then show ?case by simp
qed simp

lemma sum_network16_sum: "unat acc + network_sum bs < 4294967296 \<Longrightarrow> unat (sum_network16 acc bs) = unat acc + network_sum bs"
proof (induction acc bs rule: sum_network16.induct)
  case (1 acc a b bs)
  have "256 * unat a < 4294967296" "256 * unat a + unat b < 4294967296"
    using unat_u8_less [of a] unat_u8_less [of b] by linarith+
  then have m: "unat (0x100 * ucast a + ucast b :: u32) = 256 * unat a + unat b" by (simp add: unat_word_ariths)
  have "unat (acc + (0x100 * ucast a + ucast b)) = unat acc + (256 * unat a + unat b)"
    using 1(2) by (subst unat_add_u32) (simp_all add: m)
  then show ?case using 1 by simp
next
  case (2 acc a)
  have "256 * unat a < 4294967296" using unat_u8_less [of a] by linarith
  then have "unat (0x100 * ucast a :: u32) = 256 * unat a" by (simp add: unat_word_ariths)
  then show ?case using 2 by (simp add: unat_add_u32)
qed simp

lemma unat_htons: "unat (lwip_htons x) = 256 * (unat x mod 256) + unat x div 256"
proof -
  have l: "x AND 0x00FF = take_bit 8 x" by (simp add: take_bit_eq_mask mask_eq_exp_minus_1)
  have h: "drop_bit 8 (x AND 0xFF00) = drop_bit 8 x"
  proof -
    have e: "(0xFF00 :: u16) = push_bit 8 (mask 8)" by (simp add: mask_eq_exp_minus_1)
    have short: "n < 8" if "bit x (8 + n)" for n using bit_imp_le_length [OF that] by simp
    show ?thesis unfolding e by (auto intro!: bit_word_eqI simp: bit_simps dest: short)
  qed
  have d: "push_bit 8 (take_bit 8 x) + drop_bit 8 x = push_bit 8 (take_bit 8 x) OR drop_bit 8 x"
  proof -
    have short: "n < 8" if "bit x (8 + n)" for n using bit_imp_le_length [OF that] by simp
    show ?thesis by (rule disjunctive_add_eq_or) (auto intro!: bit_word_eqI simp: bit_simps dest!: short)
  qed
  have "unat (take_bit 8 x) = take_bit 8 (unat x)" by (rule unsigned_take_bit_eq)
  then have lo: "unat (take_bit 8 x) = unat x mod 256" by (simp only: take_bit_eq_mod) simp
  have "unat (drop_bit 8 x) = drop_bit 8 (unat x)" by (rule unat_drop_bit_eq)
  then have hi: "unat (drop_bit 8 x) = unat x div 256" by (simp only: drop_bit_eq_div) simp
  have p: "unat (push_bit 8 (take_bit 8 x)) = 256 * (unat x mod 256)"
    by (simp only: push_bit_eq_mult) (simp add: unat_word_ariths lo)
  have "unat x div 256 < 256" using unat_u16_less [of x] by (intro less_mult_imp_div_less) simp
  moreover have "unat x mod 256 < 256" by simp
  ultimately have lt: "256 * (unat x mod 256) + unat x div 256 < 65536" by linarith
  have "unat (lwip_htons x) = unat (push_bit 8 (take_bit 8 x) + drop_bit 8 x)"
    by (simp only: lwip_htons_def l h d)
  then show ?thesis using lt by (simp add: unat_word_ariths p hi)
qed

lemma htons_ones: "ones_sum (unat (lwip_htons x)) = ones_sum (256 * unat x)"
proof -
  have "256 * unat x = 256 * (unat x mod 256) + 65536 * (unat x div 256)"
  proof -
    have "unat x = 256 * (unat x div 256) + unat x mod 256" by simp
    then show ?thesis by linarith
  qed
  then show ?thesis unfolding unat_htons by (metis ones_sum_carry)
qed

lemma small_if_clear:
  assumes "(u :: u32) AND 0xFFFF0000 = 0"
  shows "unat u \<le> 65535"
proof -
  have "(0xFFFF0000 :: u32) OR 0xFFFF = - 1" by code_simp
  then have "u = u AND (0xFFFF0000 OR 0xFFFF)" by (simp only: and.right_neutral)
  also have "\<dots> = (u AND 0xFFFF0000) OR (u AND 0xFFFF)"
  proof -
    have "a AND (b OR c) = (a AND b) OR (a AND c)" for a b c :: u32 by (rule bit_word_eqI) (auto simp: bit_simps)
    then show ?thesis .
  qed
  finally have "u = u AND 0xFFFF" using assms by simp
  then have "unat u = unat u mod 65536" using unat_low16 [of u] by metis
  moreover have "unat u mod 65536 < 65536" by simp
  ultimately show ?thesis by linarith
qed

lemma version_1_ones:
  assumes "length bs \<le> 0x20000"
  shows "unat (chksum_version_1 bs) = ones_sum (word_sum bs)"
proof -
  let ?a = "sum_network16 0 bs"
  have "length bs = 131072 \<or> length bs div 2 \<le> 65535" using assms by auto
  moreover have "65535 * (length bs div 2) \<le> 65535 * 65535" if "length bs div 2 \<le> 65535"
    using that by (rule mult_le_mono2)
  ultimately have "network_sum bs < 4294967296" using network_sum_le [of bs] by (auto split: if_splits)
  then have a: "unat ?a = network_sum bs" using sum_network16_sum [of 0 bs] by simp
  define acc where "acc = (if FOLD_U32T ?a AND 0xFFFF0000 \<noteq> 0 then FOLD_U32T (FOLD_U32T ?a) else FOLD_U32T ?a)"
  have acc: "unat acc \<le> 65535 \<and> ones_sum (unat acc) = ones_sum (unat ?a)"
  proof (cases "FOLD_U32T ?a AND 0xFFFF0000 = 0")
    case True
    then show ?thesis using small_if_clear [of "FOLD_U32T ?a"] by (simp add: acc_def ones_fold)
  next
    case False
    then show ?thesis using two_folds(1) [of ?a] by (simp add: acc_def ones_fold)
  qed
  have "unat (ucast acc :: u16) = unat acc" using acc by (simp add: unat_ucast_u16)
  then have "ones_sum (unat (chksum_version_1 bs)) = ones_sum (256 * unat acc)"
    using htons_ones [of "ucast acc"] by (simp add: chksum_version_1_def acc_def Let_def)
  also have "\<dots> = ones_sum (256 * network_sum bs)" using acc a by (intro ones_sum_times) simp
  also have "\<dots> = ones_sum (256 * (256 * word_sum bs))" by (intro ones_sum_times network_word_sum)
  also have "\<dots> = ones_sum (word_sum bs)" by (rule ones_sum_256_twice)
  finally show ?thesis using unat_u16_less [of "chksum_version_1 bs"] by (simp add: ones_sum_small)
qed

section \<open>Chains\<close>

lemma word_sum_append_even: "even (length bs) \<Longrightarrow> word_sum (bs @ cs) = word_sum bs + word_sum cs"
  by (induction bs rule: word_sum.induct) simp_all

lemma word_sum_append_odd:
  "odd (length bs) \<Longrightarrow> ones_sum (word_sum (bs @ cs)) = ones_sum (word_sum bs + 256 * word_sum cs)"
proof (induction bs rule: word_sum.induct)
  case (1 a b bs)
  then have "ones_sum (word_sum (bs @ cs) + (unat a + 256 * unat b)) =
      ones_sum (word_sum bs + 256 * word_sum cs + (unat a + 256 * unat b))"
    by (intro ones_sum_add) simp
  then show ?case by (simp add: algebra_simps)
next
  case (2 a)
  have "ones_sum (word_sum (a # cs)) = ones_sum (256 * (256 * word_sum (a # cs)))" by (simp only: ones_sum_256_twice)
  also have "\<dots> = ones_sum (256 * (256 * unat a + word_sum cs))" by (rule ones_sum_times [OF word_sum_shift])
  also have "\<dots> = ones_sum (256 * word_sum cs + 65536 * unat a)" by (simp add: algebra_simps)
  also have "\<dots> = ones_sum (word_sum [a] + 256 * word_sum cs)" by (simp only: ones_sum_carry word_sum.simps add.commute)
  finally show ?case by simp
qed simp

text \<open>After an odd number of bytes the accumulator holds the sum with its bytes exchanged.\<close>

definition turned :: "u8 list \<Rightarrow> nat \<Rightarrow> nat" where
  "turned bs n = (if odd (length bs) then 256 * n else n)"

lemma turned_cong: "ones_sum n = ones_sum m \<Longrightarrow> ones_sum (turned bs (n + k)) = ones_sum (turned bs (m + k))"
  using ones_sum_add [of n m k] ones_sum_times [of "n + k" "m + k"] by (simp only: turned_def split: if_split) simp

lemma turned_append:
  "ones_sum (turned cs (turned bs (n + word_sum bs) + word_sum cs)) = ones_sum (turned (bs @ cs) (n + word_sum (bs @ cs)))"
proof (cases "even (length bs)")
  case True
  then show ?thesis by (simp add: turned_def word_sum_append_even add.assoc)
next
  case odd: False
  have "ones_sum (word_sum (bs @ cs) + n) = ones_sum (word_sum bs + 256 * word_sum cs + n)"
    by (rule ones_sum_add [OF word_sum_append_odd [OF odd]])
  then have s: "ones_sum (n + word_sum (bs @ cs)) = ones_sum (n + word_sum bs + 256 * word_sum cs)"
    by (simp only: ac_simps)
  have t: "ones_sum (256 * (n + word_sum bs) + word_sum cs) = ones_sum (256 * (n + word_sum bs + 256 * word_sum cs))"
    (is "ones_sum ?l = ones_sum ?r")
  proof -
    have "?r = 256 * (n + word_sum bs) + 65536 * word_sum cs" by simp
    then show ?thesis by (simp only: ones_sum_carry)
  qed
  show ?thesis
  proof (cases "even (length cs)")
    case True
    then show ?thesis using odd t ones_sum_times [OF s] by (simp add: turned_def)
  next
    case False
    have "ones_sum (256 * ?l) = ones_sum (256 * ?r)" by (rule ones_sum_times [OF t])
    also have "\<dots> = ones_sum (n + word_sum bs + 256 * word_sum cs)" by (rule ones_sum_256_twice)
    finally show ?thesis using False odd s by (simp add: turned_def)
  qed
qed

lemma segment_ones:
  assumes "in_bounds b"
  shows "\<exists>c. segment_chksum base a b = Inr c \<and> unat c = ones_sum (word_sum (bytes b))"
  using assms standard_chksum_ones by (simp add: segment_chksum_def in_bounds_def bytes_def)

lemma chksum_loop_ones:
  assumes "packet m p as" and "unat acc \<le> 65535"
  shows "\<exists>acc'. chksum_loop base m p acc sw = ret (acc', sw \<noteq> odd (length (content m as))) \<and> unat acc' \<le> 65535 \<and>
    ones_sum (unat acc') = ones_sum (turned (content m as) (unat acc + word_sum (content m as)))"
  using assms
proof (induction as arbitrary: p acc sw)
  case Nil
  then show ?case by (simp add: chksum_loop.simps turned_def)
next
  case (Cons a as)
  obtain b where b: "p = Some a" "cells m a = Some b" "in_bounds b" "packet m (next_pbuf b) as"
    "content m (a # as) = bytes b @ content m as"
    using Cons.prems(1) by (auto split: option.splits simp: content_Cons)
  obtain c where c: "segment_chksum base a b = Inr c" "unat c = ones_sum (word_sum (bytes b))"
    using segment_ones [OF b(3)] by blast
  let ?x = "FOLD_U32T (acc + ucast c)"
  have sum: "unat (acc + ucast c) = unat acc + unat c"
  proof -
    have "unat c < 65536" by (rule unat_u16_less)
    then have "unat acc + unat (ucast c :: u32) < 4294967296" using Cons.prems(2) by (simp only: unat_widen)
    then have "unat (acc + ucast c) = unat acc + unat (ucast c :: u32)" by (rule unat_add_u32)
    then show ?thesis by (simp only: unat_widen)
  qed
  then have "unat (acc + ucast c) \<le> 131070" using Cons.prems(2) less_imp_le_nat [OF unat_u16_less [of c]]
    unat_u16_less [of c] by linarith
  then have x: "unat ?x \<le> 65535" "unat ?x < 65536" using one_fold le_imp_less_Suc by fastforce+
  have "ones_sum (unat c + unat acc) = ones_sum (word_sum (bytes b) + unat acc)"
    unfolding c(2) by (rule ones_sum_add) simp
  then have ones: "ones_sum (unat ?x) = ones_sum (unat acc + word_sum (bytes b))"
    unfolding ones_fold sum by (simp only: add.commute)
  define y where "y = (if odd (unat (len b)) then SWAP_BYTES_IN_WORD ?x else ?x)"
  have l: "length (bytes b) = unat (len b)" using b(3) by simp
  have y: "unat y \<le> 65535" "ones_sum (unat y) = ones_sum (turned (bytes b) (unat acc + word_sum (bytes b)))"
    using x(1) swap_le [OF x(2)] swap_ones [OF x(2)] ones ones_sum_times [OF ones] l
    by (simp_all add: y_def turned_def)
  have step: "chksum_loop base m p acc sw = chksum_loop base m (next_pbuf b) y (sw \<noteq> odd (unat (len b)))"
    by (subst chksum_loop.simps) (simp add: b c y_def Let_def odd_iff_mod_2_eq_one)
  obtain acc' where acc': "chksum_loop base m (next_pbuf b) y (sw \<noteq> odd (unat (len b))) =
      ret (acc', (sw \<noteq> odd (unat (len b))) \<noteq> odd (length (content m as)))" "unat acc' \<le> 65535"
    "ones_sum (unat acc') = ones_sum (turned (content m as) (unat y + word_sum (content m as)))"
    using Cons.IH [OF b(4) y(1)] by blast
  have "ones_sum (unat acc') = ones_sum (turned (content m as) (turned (bytes b) (unat acc + word_sum (bytes b)) + word_sum (content m as)))"
    unfolding acc'(3) by (rule turned_cong [OF y(2)])
  also have "\<dots> = ones_sum (turned (content m (a # as)) (unat acc + word_sum (content m (a # as))))"
    unfolding turned_append b(5) ..
  finally have sums: "ones_sum (unat acc') = ones_sum (turned (content m (a # as)) (unat acc + word_sum (content m (a # as))))" .
  have turn: "((sw \<noteq> odd (unat (len b))) \<noteq> odd (length (content m as))) = (sw \<noteq> odd (length (content m (a # as))))"
    unfolding b(5) length_append l by (cases sw) simp_all
  show ?case
    by (rule exI [of _ acc']) (use step acc'(1,2) sums turn in \<open>simp only: simp_thms\<close>)
qed

text \<open>The accumulator once its bytes are put back in order.\<close>

lemma chain_sum:
  assumes "packet m p as" and "unat acc \<le> 65535"
  shows "\<exists>acc' sw. chksum_loop base m p acc False = ret (acc', sw) \<and>
    unat (if sw then SWAP_BYTES_IN_WORD acc' else acc') \<le> 65535 \<and>
    ones_sum (unat (if sw then SWAP_BYTES_IN_WORD acc' else acc')) = ones_sum (unat acc + word_sum (content m as))"
proof -
  let ?n = "unat acc + word_sum (content m as)"
  obtain acc' where l: "chksum_loop base m p acc False = ret (acc', odd (length (content m as)))" "unat acc' \<le> 65535"
    "ones_sum (unat acc') = ones_sum (turned (content m as) ?n)"
    using chksum_loop_ones [OF assms, of base False] by auto
  have lt: "unat acc' < 65536" using l(2) by simp
  have "ones_sum (unat (SWAP_BYTES_IN_WORD acc')) = ones_sum ?n" if "odd (length (content m as))"
  proof -
    have "ones_sum (unat (SWAP_BYTES_IN_WORD acc')) = ones_sum (256 * unat acc')" by (rule swap_ones [OF lt])
    also have "\<dots> = ones_sum (256 * (256 * ?n))" using that l(3) by (intro ones_sum_times) (simp add: turned_def)
    also have "\<dots> = ones_sum ?n" by (rule ones_sum_256_twice)
    finally show ?thesis .
  qed
  then show ?thesis using l swap_le [OF lt] by (auto simp: turned_def)
qed

lemma chksum_pbuf_ones:
  assumes "packet m p as"
  shows "\<exists>c. inet_chksum_pbuf base m p = ret c \<and> unat (NOT c) = ones_sum (word_sum (content m as))"
proof -
  obtain acc sw where l: "chksum_loop base m p 0 False = ret (acc, sw)"
    "unat (if sw then SWAP_BYTES_IN_WORD acc else acc) \<le> 65535"
    "ones_sum (unat (if sw then SWAP_BYTES_IN_WORD acc else acc)) = ones_sum (word_sum (content m as))"
    using chain_sum [OF assms, of 0 base] by auto
  show ?thesis using l(1) unat_ucast_u16 [OF l(2)] ones_sum_small [OF l(2)] l(3) by (simp add: inet_chksum_pbuf_def)
qed

section \<open>The pseudo header\<close>

text \<open>The pseudo header of TCP and UDP: the addresses in network order, a zero, the protocol and the length.\<close>

definition pseudo_header :: "u32 \<Rightarrow> u32 \<Rightarrow> u8 \<Rightarrow> u16 \<Rightarrow> u8 list" where
  "pseudo_header src dest proto proto_len =
    addr_octets src @ addr_octets dest @ [0, proto, ucast (drop_bit 8 proto_len), ucast proto_len]"

lemma unat_byte: "unat (ucast (x :: 'a::len word) :: u8) = unat x mod 256"
  by (simp add: unsigned_ucast_eq take_bit_eq_mod)

lemma address_word_sum: "unat (address_sum a) = word_sum (addr_octets a)"
proof -
  have b: "unat (drop_bit n a) = unat a div 2 ^ n" for n
    unfolding unat_drop_bit_eq by (rule drop_bit_eq_div)
  have p: "(2::nat) ^ 8 = 256" "(2::nat) ^ 16 = 65536" "(2::nat) ^ 24 = 16777216" by simp_all
  have d: "unat a mod 65536 = unat a mod 256 + 256 * (unat a div 256 mod 256)"
    using mod_mult2_eq [of "unat a" 256 256] by simp
  have e: "unat a div 65536 mod 65536 = unat a div 65536 mod 256 + 256 * (unat a div 16777216 mod 256)"
    using mod_mult2_eq [of "unat a div 65536" 256 256] by (simp add: div_mult2_eq [symmetric])
  have l: "unat (a AND 0xFFFF) = unat a mod 65536" "unat (drop_bit 16 a AND 0xFFFF) = unat a div 65536 mod 65536"
    unfolding unat_low16 b p by simp_all
  have "unat a mod 65536 < 65536" "unat a div 65536 mod 65536 < 65536" by simp_all
  then have "unat (a AND 0xFFFF) + unat (drop_bit 16 a AND 0xFFFF) < 4294967296" unfolding l by linarith
  from unat_add_u32 [OF this] have "unat (address_sum a) = unat a mod 65536 + unat a div 65536 mod 65536"
    unfolding address_sum_def l .
  then show ?thesis unfolding addr_octets_def word_sum.simps unat_byte b p d e by simp
qed

lemma addr_octets_length [simp]: "length (addr_octets a) = 4"
  by (simp add: addr_octets_def)

lemma word_sum_pseudo_header:
  "word_sum (pseudo_header src dest proto proto_len @ bs) =
    unat (address_sum src) + unat (address_sum dest) + 256 * unat proto + unat (lwip_htons proto_len) + word_sum bs"
proof -
  have "unat (drop_bit 8 proto_len) = unat proto_len div 256"
    using unat_drop_bit_eq [of 8 proto_len] drop_bit_eq_div [of 8 "unat proto_len"] by (simp only:) simp
  moreover have "unat proto_len div 256 < 256" using unat_u16_less [of proto_len] by (intro less_mult_imp_div_less) simp
  ultimately have "unat (ucast (drop_bit 8 proto_len) :: u8) = unat proto_len div 256" unfolding unat_byte by simp
  then show ?thesis
    by (simp add: pseudo_header_def word_sum_append_even address_word_sum unat_htons unat_byte)
qed

lemma chksum_pseudo_ones:
  assumes "packet m p as"
  shows "\<exists>c. inet_chksum_pseudo base m p proto proto_len src dest = ret c \<and>
    unat (NOT c) = ones_sum (word_sum (pseudo_header src dest proto proto_len @ content m as))"
proof -
  let ?a = "FOLD_U32T (FOLD_U32T (address_sum src + address_sum dest))"
  have small: "unat (address_sum a) \<le> 131070" for a
    using word_sum_le [of "addr_octets a"] even_word_sum_le [of "addr_octets a"] by (simp add: address_word_sum)
  have "unat (address_sum src + address_sum dest) = unat (address_sum src) + unat (address_sum dest)"
    using small [of src] small [of dest] by (intro unat_add_u32) linarith
  then have a: "ones_sum (unat ?a) = ones_sum (unat (address_sum src) + unat (address_sum dest))"
    by (simp only: two_folds(2))
  obtain acc sw where l: "chksum_loop base m p ?a False = ret (acc, sw)"
    "unat (if sw then SWAP_BYTES_IN_WORD acc else acc) \<le> 65535"
    "ones_sum (unat (if sw then SWAP_BYTES_IN_WORD acc else acc)) = ones_sum (unat ?a + word_sum (content m as))"
    using chain_sum [OF assms two_folds(1), of base "address_sum src + address_sum dest"] by blast
  define x where "x = (if sw then SWAP_BYTES_IN_WORD acc else acc)"
  define y where "y = x + ucast (lwip_htons (ucast proto)) + ucast (lwip_htons proto_len)"
  have p: "unat (lwip_htons (ucast proto)) = 256 * unat proto"
    using unat_u8_less [of proto] unfolding unat_htons by (simp add: unsigned_ucast_eq take_bit_nat_eq_self)
  have x: "unat x \<le> 65535" using l(2) by (simp add: x_def)
  have q: "unat (lwip_htons (ucast proto)) < 65536" "unat (lwip_htons proto_len) < 65536" by (rule unat_u16_less)+
  have xp: "unat (x + ucast (lwip_htons (ucast proto))) = unat x + unat (lwip_htons (ucast proto))"
    using x q(1) by (subst unat_add_u32; unfold unat_widen; linarith)
  then have y: "unat y = unat x + 256 * unat proto + unat (lwip_htons proto_len)"
    unfolding y_def p [symmetric] using x q by (subst unat_add_u32; unfold unat_widen xp; linarith)
  have "ones_sum (unat y) = ones_sum (unat x + (256 * unat proto + unat (lwip_htons proto_len)))"
    unfolding y by (simp only: add.assoc)
  also have "\<dots> = ones_sum (unat ?a + word_sum (content m as) + (256 * unat proto + unat (lwip_htons proto_len)))"
    using l(3) unfolding x_def by (rule ones_sum_add)
  also have "\<dots> = ones_sum (unat ?a + (word_sum (content m as) + (256 * unat proto + unat (lwip_htons proto_len))))"
    by (simp only: add.assoc)
  also have "\<dots> = ones_sum (word_sum (pseudo_header src dest proto proto_len @ content m as))"
    unfolding ones_sum_add [OF a] word_sum_pseudo_header by (simp only: ac_simps)
  finally have "unat (ucast (FOLD_U32T (FOLD_U32T y)) :: u16) =
      ones_sum (word_sum (pseudo_header src dest proto proto_len @ content m as))"
    using unat_ucast_u16 [OF two_folds(1) [of y]] ones_sum_small [OF two_folds(1) [of y]] two_folds(2) [of y] by simp
  then show ?thesis using l(1)
    by (simp add: inet_chksum_pseudo_def inet_cksum_pseudo_base_def y_def x_def Let_def)
qed

section \<open>Properties\<close>

text \<open>
  C34: the three versions of the routine compute the same sum of up to 0x20000 bytes, at whatever
  addresses the data lies; for version 2 this is the bound of its comment.
\<close>

theorem chksum_versions:
  assumes "length bs \<le> 0x20000"
  shows "lwip_standard_chksum address bs = chksum_version_1 bs \<and>
    lwip_standard_chksum address bs = chksum_version_2 address' bs"
  using standard_chksum_ones [of address bs] version_1_ones [OF assms] version_2_ones [OF assms, of address']
  by (simp only: word_unat_eq_iff)

theorem chksum_versions_witness:
  "lwip_standard_chksum 3 [0x45, 0xC0, 0x01] = chksum_version_1 [0x45, 0xC0, 0x01] \<and>
   lwip_standard_chksum 3 [0x45, 0xC0, 0x01] = chksum_version_2 8 [0x45, 0xC0, 0x01]"
  by (rule chksum_versions) simp

text \<open>
  C35: the checksum of a packet is the complement of the sum of its contents, however they are cut
  into buffers and wherever these lie in memory; with the pseudo header, of the pseudo header and the contents.
\<close>

theorem chain_checksum:
  assumes "packet m p as"
  shows "\<exists>c c'. inet_chksum_pbuf base m p = ret c \<and>
    unat (NOT c) = ones_sum (word_sum (content m as)) \<and>
    inet_chksum_pseudo base m p proto proto_len src dest = ret c' \<and>
    unat (NOT c') = ones_sum (word_sum (pseudo_header src dest proto proto_len @ content m as))"
  using chksum_pbuf_ones [OF assms, of base] chksum_pseudo_ones [OF assms, of base proto proto_len src dest] by blast

theorem chain_checksum_witness:
  "\<exists>c c'. inet_chksum_pbuf (\<lambda>a. 9 + 5 * a) two_segs (Some 4) = ret c \<and> unat (NOT c) = 1545 \<and>
    inet_chksum_pseudo (\<lambda>a. 9 + 5 * a) two_segs (Some 4) 17 5 0x0A01A8C0 0xFE01A8C0 = ret c' \<and>
    unat (NOT c') = ones_sum (word_sum (pseudo_header 0x0A01A8C0 0xFE01A8C0 17 5 @ [1, 2, 3, 4, 5]))"
proof -
  have "word_sum [1, 2, 3, 4, 5] = 1545" by simp
  moreover have "ones_sum 1545 = 1545" by (rule ones_sum_small) simp
  ultimately show ?thesis
    using chain_checksum [OF two_segs_packet, of "\<lambda>a. 9 + 5 * a" 17 5 "0x0A01A8C0" "0xFE01A8C0"]
    unfolding two_segs_content by (simp only:)
qed

lemma unat_max16: "unat (- 1 :: u16) = 65535"
  by (simp add: unsigned_minus_1_eq_mask mask_eq_exp_minus_1)

lemma unat_not16: "unat (NOT (c :: u16)) = 65535 - unat c"
proof -
  have "NOT c = - 1 - c" by (simp add: not_eq_complement)
  then show ?thesis by (simp add: unat_sub unat_max16)
qed

lemma halves: "unat (ucast c :: u8) + 256 * unat (ucast (drop_bit 8 c) :: u8) = unat (c :: u16)"
proof -
  have "unat (drop_bit 8 c) = unat c div 256"
    using unat_drop_bit_eq [of 8 c] drop_bit_eq_div [of 8 "unat c"] by (simp only:) simp
  moreover have "unat c div 256 < 256" using unat_u16_less [of c] by (intro less_mult_imp_div_less) simp
  ultimately show ?thesis unfolding unat_byte by simp
qed

lemma verified_residue: "0 < K \<Longrightarrow> residue K (n + (K - residue K n)) = K"
proof (cases "n = 0")
  case False
  assume K: "0 < K"
  have "(n + (K - residue K n)) mod K = 0"
  proof (cases "n mod K = 0")
    case True
    then show ?thesis using False by (simp add: residue_def)
  next
    case r: False
    have "n + (K - n mod K) = n div K * K + K" using K div_mult_mod_eq [of n K] mod_less_divisor [OF K, of n] by linarith
    then show ?thesis using False r by (simp add: residue_def)
  qed
  then show ?thesis using False by (simp add: residue_def)
qed (simp add: residue_def)

text \<open>
  C36: the checksum computed over data with a zero in its place, stored there in the byte order of
  the memory, makes the checksum of the whole zero: what the sender writes, the receiver accepts,
  whichever addresses the two copies have.
\<close>

theorem checksum_verifies:
  assumes "even (length us)" and "c = inet_chksum address (us @ [0, 0] @ vs)"
  shows "inet_chksum address' (us @ [ucast c, ucast (drop_bit 8 c)] @ vs) = 0"
proof -
  let ?n = "word_sum us + word_sum vs"
  have "unat (NOT c) = ones_sum ?n"
    using assms by (simp add: inet_chksum_def standard_chksum_ones word_sum_append_even)
  then have c: "unat c = 65535 - ones_sum ?n" using unat_not16 [of c] unat_u16_less [of c] by linarith
  have "word_sum (us @ [ucast c, ucast (drop_bit 8 c)] @ vs) = ?n + unat c"
    using assms(1) by (simp add: word_sum_append_even halves)
  then have "unat (lwip_standard_chksum address' (us @ [ucast c, ucast (drop_bit 8 c)] @ vs)) = 65535"
    unfolding standard_chksum_ones c ones_sum_def by (simp only:) (rule verified_residue, simp)
  then have "lwip_standard_chksum address' (us @ [ucast c, ucast (drop_bit 8 c)] @ vs) = NOT 0"
    by (simp add: word_unat_eq_iff unat_max16)
  then show ?thesis by (simp add: inet_chksum_def)
qed

theorem checksum_verifies_witness:
  "inet_chksum 5 ([0x45, 0x00] @ [ucast (inet_chksum 8 ([0x45, 0x00] @ [0, 0] @ [0xC0])),
     ucast (drop_bit 8 (inet_chksum 8 ([0x45, 0x00] @ [0, 0] @ [0xC0])))] @ [0xC0]) = 0"
  by (rule checksum_verifies) simp_all

end
