(* ===== verification/Udp_Stack.thy ===== *)
theory Udp_Stack
  imports Pbuf_Refcount Tcp_Stack Asterix
begin

text \<open>
  The sender of UDP packets (\<open>src/src/udp_stack.c\<close>), the opening of the UDP connection and of the
  network interface, and the functions on stored video blocks (\<open>src/src/iwip.c\<close>). A sender keeps one
  packet buffer that refers to bytes of its caller; the byte at offset 2 of them numbers the packets.
  \<open>udp_send\<close> of lwIP is a parameter; the other calls of lwIP are elements of a list.
\<close>

unbundle bit_operations_syntax

section \<open>The sender\<close>

record udp_sender =
  udp_pbuf :: "addr option"
  udp_pcb :: "nat option"
  err_count :: u32

text \<open>The calls of lwIP made while the network is set up.\<close>

datatype lwip_call =
    Lwip_init
  | Xemac_add "u32 option" "u32 option" "u32 option"
  | Netif_set_default
  | Netif_set_up
  | Udp_connect "nat option" "u32 option" u16
  | Udp_bind "nat option" u16
  | Udp_recv "nat option"

text \<open>
  The packet buffers, the senders on the heap of lwIP, the counter of \<open>udp_stack.h\<close>, the globals of
  \<open>iwip.h\<close>, and the calls so far.
\<close>

record udp_state =
  umem :: pmem
  senders :: "nat \<rightharpoonup> udp_sender"
  send_count :: u8
  udp_pcb_conn :: "nat option"
  udp_pcb_answer :: "nat option"
  sender :: "nat option"
  lwip_calls :: "lwip_call list"

text \<open>
  \<open>room\<close> is the result of \<open>mem_malloc\<close>, which is written to before it is compared with null; it is
  not given back when there is no control block. The length becomes a \<open>u16_t\<close>.
\<close>

definition add_sender ::
    "nat option \<Rightarrow> nat option \<Rightarrow> u8 list \<Rightarrow> nat \<Rightarrow> udp_state \<Rightarrow> (nat option \<times> udp_state) result" where
  "add_sender room pcb data n s =
    (case room of None \<Rightarrow> Inl Null_pointer
     | Some a \<Rightarrow>
         let zero = \<lparr>udp_pbuf = None, udp_pcb = None, err_count = 0\<rparr>;
             s = s\<lparr>senders := (senders s)(a \<mapsto> zero)\<rparr> in
         if pcb = None then Inr (None, s)
         else
           (case pbuf_alloc_reference data (of_nat n) PBUF_POOL (umem s) of
              (None, m) \<Rightarrow> Inr (None, s\<lparr>umem := m, senders := (senders s)(a := None)\<rparr>)
            | (Some p, m) \<Rightarrow>
                Inr (Some a, s\<lparr>umem := m,
                  senders := (senders s)(a \<mapsto> zero\<lparr>udp_pbuf := Some p, udp_pcb := pcb\<rparr>)\<rparr>)))"

text \<open>The number of the packet, increased and set to zero at the tenth packet.\<close>

definition renumber :: "u8 \<Rightarrow> pbuf \<Rightarrow> pbuf result" where
  "renumber n b =
    bindr (payload_byte b 2) (\<lambda>x.
    bindr (payload_write b 2 [x + 1]) (\<lambda>b.
    if n = 10 then payload_write b 2 [0] else Inr b))"

definition send_udp_data ::
    "(nat option \<Rightarrow> addr \<Rightarrow> pmem \<Rightarrow> (err_t \<times> pmem) run) \<Rightarrow> nat option \<Rightarrow> udp_state \<Rightarrow> (err_t \<times> udp_state) run" where
  "send_udp_data udp_send who s =
    (case who of None \<Rightarrow> ret (err_t.ERR_VAL, s)
     | Some a \<Rightarrow>
       (case senders s a of None \<Rightarrow> Some (Inl Use_after_free)
        | Some d \<Rightarrow>
          (case udp_pbuf d of None \<Rightarrow> ret (err_t.ERR_VAL, s)
           | Some p \<Rightarrow>
             bindl (udp_send (udp_pcb d) p (umem s)) (\<lambda>(err, m).
             let s = s\<lparr>umem := m, send_count := send_count s + 1\<rparr> in
             if err \<noteq> err_t.ERR_OK
             then ret (err, s\<lparr>senders := (senders s)(a \<mapsto> d\<lparr>err_count := err_count d + 1\<rparr>)\<rparr>)
             else
               bindl (Some (bindr (cell m (Some p)) (renumber (send_count s)))) (\<lambda>b.
               ret (err, s\<lparr>umem := put p b m\<rparr>))))))"

definition udp_package_send ::
    "(nat option \<Rightarrow> addr \<Rightarrow> pmem \<Rightarrow> (err_t \<times> pmem) run) \<Rightarrow> udp_state \<Rightarrow> (err_t \<times> udp_state) run" where
  "udp_package_send udp_send s = send_udp_data udp_send (sender s) s"

text \<open>The buffer is released only if its count is already zero.\<close>

definition destroy_sender :: "nat option \<Rightarrow> udp_state \<Rightarrow> udp_state run" where
  "destroy_sender who s =
    (case who of None \<Rightarrow> ret s
     | Some a \<Rightarrow>
       (case senders s a of None \<Rightarrow> Some (Inl Use_after_free)
        | Some d \<Rightarrow>
            bindl (if udp_pbuf d = None then ret (umem s)
                   else bindl (Some (cell (umem s) (udp_pbuf d))) (\<lambda>b.
                     if ref b = 0 then bindl (pbuf_free (\<lambda>_ m. Inr m) (udp_pbuf d) (umem s)) (\<lambda>(_, m). ret m)
                     else ret (umem s))) (\<lambda>m.
            ret (s\<lparr>umem := m, senders := (senders s)(a := None)\<rparr>))))"

section \<open>Opening the connection\<close>

text \<open>The strings 192.168.1.10, 255.255.255.0 and 192.168.1.1.\<close>

definition LOCAL_IP_ADDRESS :: "u8 list" where
  "LOCAL_IP_ADDRESS = [0x31, 0x39, 0x32, 0x2E, 0x31, 0x36, 0x38, 0x2E, 0x31, 0x2E, 0x31, 0x30, 0]"

definition LOCAL_NET_MASK :: "u8 list" where
  "LOCAL_NET_MASK = [0x32, 0x35, 0x35, 0x2E, 0x32, 0x35, 0x35, 0x2E, 0x32, 0x35, 0x35, 0x2E, 0x30, 0]"

definition LOCAL_GATEWAY :: "u8 list" where
  "LOCAL_GATEWAY = [0x31, 0x39, 0x32, 0x2E, 0x31, 0x36, 0x38, 0x2E, 0x31, 0x2E, 0x31, 0]"

definition UDP_REMOTE_PORT :: u16 where "UDP_REMOTE_PORT = 5005"

text \<open>A function that ends in \<open>vTaskDelete(NULL)\<close> does not return: its task is gone.\<close>

datatype 'a ended = Returned 'a | Task_deleted

definition lwip_network_setup :: "bool \<Rightarrow> udp_state \<Rightarrow> (unit ended \<times> udp_state) result" where
  "lwip_network_setup added s =
    bindr (ip4addr_aton LOCAL_IP_ADDRESS) (\<lambda>ip.
    bindr (ip4addr_aton LOCAL_NET_MASK) (\<lambda>mask.
    bindr (ip4addr_aton LOCAL_GATEWAY) (\<lambda>gw.
    let s = s\<lparr>lwip_calls := lwip_calls s @ [Lwip_init, Xemac_add ip mask gw]\<rparr> in
    if \<not> added then Inr (Task_deleted, s)
    else Inr (Returned (), s\<lparr>lwip_calls := lwip_calls s @ [Netif_set_default, Netif_set_up]\<rparr>))))"

text \<open>\<open>conn\<close> and \<open>answer\<close> are the results of \<open>udp_new\<close>.\<close>

definition udp_connection ::
    "nat option \<Rightarrow> nat option \<Rightarrow> nat option \<Rightarrow> u8 list \<Rightarrow> nat \<Rightarrow> udp_state \<Rightarrow> (err_t ended \<times> udp_state) result" where
  "udp_connection conn answer room data n s =
    (let s = s\<lparr>udp_pcb_conn := conn, udp_pcb_answer := answer\<rparr> in
     if conn = None then Inr (Task_deleted, s)
     else
       bindr (ip4addr_aton REMOTE_IP_ADDRESS) (\<lambda>remote_ip.
       bindr (add_sender room conn data n s) (\<lambda>(who, s).
       let s = s\<lparr>sender := who\<rparr> in
       if who = None then Inr (Task_deleted, s)
       else Inr (Returned err_t.ERR_OK, s\<lparr>lwip_calls := lwip_calls s @
         [Udp_connect answer remote_ip UDP_REMOTE_PORT, Udp_bind conn 5005, Udp_recv conn]\<rparr>))))"

section \<open>Stored video blocks\<close>

text \<open>The bytes behind the pointers of a \<open>cat240_storage_t\<close>, and its arrays.\<close>

record cat240_storage =
  header_data :: "u8 list"
  header_size :: nat
  video_data :: "u8 list"
  data_size :: nat
  sto_start_az :: "u16 list"
  sto_end_az :: "u16 list"
  time_per_bytes :: "u8 list"
  time_size :: nat

definition memcpy :: "u8 list \<Rightarrow> nat \<Rightarrow> u8 list \<Rightarrow> nat \<Rightarrow> u8 list result" where
  "memcpy dst i src n =
    (if n \<le> length src \<and> i + n \<le> length dst
     then Inr (take i dst @ take n src @ drop (i + n) dst) else Inl Out_of_bounds)"

definition compose :: "u8 list \<Rightarrow> cat240_storage \<Rightarrow> u8 list result" where
  "compose src store =
    bindr (memcpy src 0 (header_data store) (header_size store)) (\<lambda>src.
    bindr (memcpy src (header_size store) (video_data store) (data_size store)) (\<lambda>src.
    memcpy src (header_size store + data_size store) (time_per_bytes store) (time_size store)))"

fun keep_larger :: "u8 list \<Rightarrow> nat list \<Rightarrow> u8 list \<Rightarrow> u8 list result" where
  "keep_larger block [] video = Inr video"
| "keep_larger block (i # is) video =
    bindr (rd block i) (\<lambda>b. bindr (rd video i) (\<lambda>v.
    if v < b then bindr (wr video i b) (keep_larger block is)
    else keep_larger block is video))"

text \<open>\<open>block\<close>: the bytes behind \<open>video_block.data\<close>. The mean of the azimuths is kept in a byte.\<close>

definition refactor :: "cat240_message \<Rightarrow> u8 list \<Rightarrow> cat240_storage \<Rightarrow> cat240_storage result" where
  "refactor src block dir =
    bindr (rd (sto_start_az dir) 0) (\<lambda>az.
    let avg_az = of_nat ((unat (start_az (header_nano src)) + unat az) div 2) :: u8 in
    bindr (wr (sto_end_az dir) 0 (ucast avg_az + 0x00DA)) (\<lambda>ends.
    bindr (wr (sto_start_az dir) 0 (ucast avg_az)) (\<lambda>starts.
    bindr (keep_larger block [0..<data_size dir] (video_data dir)) (\<lambda>video.
    Inr (dir\<lparr>sto_end_az := ends, sto_start_az := starts, video_data := video\<rparr>)))))"

fun raise_max :: "u8 list \<Rightarrow> nat list \<Rightarrow> 64 word list \<Rightarrow> 64 word list result" where
  "raise_max video [] mx = Inr mx"
| "raise_max video (j # js) mx =
    bindr (rd video j) (\<lambda>v. bindr (rd mx j) (\<lambda>x.
    if x < ucast v then bindr (wr mx j (ucast v)) (raise_max video js)
    else raise_max video js mx))"

fun raise_all :: "cat240_storage list \<Rightarrow> 64 word list \<Rightarrow> 64 word list result" where
  "raise_all [] mx = Inr mx"
| "raise_all (d # ds) mx = bindr (raise_max (video_data d) [0..<124] mx) (raise_all ds)"

fun write_back :: "64 word list \<Rightarrow> nat list \<Rightarrow> u8 list \<Rightarrow> u8 list result" where
  "write_back mx [] dst = Inr dst"
| "write_back mx (i # is) dst = bindr (rd mx i) (\<lambda>x. bindr (wr dst i (ucast x)) (write_back mx is))"

text \<open>The maxima are written to the header of \<open>lst\<close>; through \<open>double\<close>, exact for a byte.\<close>

definition refactor_more :: "cat240_storage \<Rightarrow> cat240_storage list \<Rightarrow> cat240_storage result" where
  "refactor_more lst dir =
    (if dir = [] then Inr lst
     else bindr (raise_all dir (replicate 124 0)) (\<lambda>mx.
       bindr (write_back mx [0..<124] (header_data lst)) (\<lambda>h. Inr (lst\<lparr>header_data := h\<rparr>))))"

section \<open>The network of the radar\<close>

lemma local_addresses:
  "ip4addr_aton LOCAL_IP_ADDRESS = Inr (Some 0x0A01A8C0)" "ip4addr_aton LOCAL_NET_MASK = Inr (Some 0x00FFFFFF)"
  "ip4addr_aton LOCAL_GATEWAY = Inr (Some 0x0101A8C0)"
  by code_simp+

text \<open>The mask is one, the peer and the gateway are in the net, and none of the three is a broadcast address.\<close>

lemma one_net:
  "ip4_addr_netmask_valid 0x00FFFFFF" "(0x0A01A8C0 :: u32) AND 0x00FFFFFF = 0x6401A8C0 AND 0x00FFFFFF"
  "(0x0A01A8C0 :: u32) AND 0x00FFFFFF = 0x0101A8C0 AND 0x00FFFFFF"
  "\<not> ip4_addr_isbroadcast_u32 0x6401A8C0 \<lparr>ip_addr = 0x0A01A8C0, netmask = 0x00FFFFFF, netif_broadcast = True\<rparr>"
  "\<not> ip4_addr_isbroadcast_u32 0x0101A8C0 \<lparr>ip_addr = 0x0A01A8C0, netmask = 0x00FFFFFF, netif_broadcast = True\<rparr>"
  by code_simp+

section \<open>Stored blocks\<close>

text \<open>The composed message is header, data and time one after the other; what lies behind stays.\<close>

lemma compose_layout:
  assumes "header_size st \<le> length (header_data st)" "data_size st \<le> length (video_data st)"
    "time_size st \<le> length (time_per_bytes st)" "header_size st + data_size st + time_size st \<le> length src"
  shows "compose src st = Inr (take (header_size st) (header_data st) @ take (data_size st) (video_data st) @
    take (time_size st) (time_per_bytes st) @ drop (header_size st + data_size st + time_size st) src)"
  using assms by (simp add: compose_def memcpy_def min_absorb2 ac_simps)

lemma raise_max_at:
  "distinct js \<Longrightarrow> set js \<subseteq> {..<length video} \<Longrightarrow> set js \<subseteq> {..<length mx} \<Longrightarrow>
    \<exists>mx'. raise_max video js mx = Inr mx' \<and> length mx' = length mx \<and>
      (\<forall>j < length mx. mx' ! j = (if j \<in> set js then max (mx ! j) (ucast (video ! j)) else mx ! j))"
proof (induction js arbitrary: mx)
  case (Cons i js)
  define m1 where "m1 = (if mx ! i < ucast (video ! i) then mx[i := ucast (video ! i)] else mx)"
  have step: "raise_max video (i # js) mx = raise_max video js m1" using Cons.prems by (simp add: m1_def)
  have l: "length m1 = length mx" by (simp add: m1_def)
  have m1: "m1 ! j = (if j = i then max (mx ! i) (ucast (video ! i)) else mx ! j)" if "j < length mx" for j
    using that by (auto simp: m1_def max_def not_less)
  obtain mx' where mx': "raise_max video js m1 = Inr mx'" "length mx' = length mx"
    "\<forall>j < length mx. mx' ! j = (if j \<in> set js then max (m1 ! j) (ucast (video ! j)) else m1 ! j)"
    using Cons.IH [of m1] Cons.prems unfolding l by auto
  have "mx' ! j = (if j \<in> set (i # js) then max (mx ! j) (ucast (video ! j)) else mx ! j)" if "j < length mx" for j
    using mx'(3) that m1 Cons.prems(1) by auto
  then show ?case using step mx' by auto
qed simp

lemma write_back_at:
  "distinct is \<Longrightarrow> set is \<subseteq> {..<length mx} \<Longrightarrow> set is \<subseteq> {..<length dst} \<Longrightarrow>
    \<exists>dst'. write_back mx is dst = Inr dst' \<and> length dst' = length dst \<and>
      (\<forall>j < length dst. dst' ! j = (if j \<in> set is then ucast (mx ! j) else dst ! j))"
proof (induction "is" arbitrary: dst)
  case (Cons i "is")
  then obtain dst' where d: "write_back mx is (dst[i := ucast (mx ! i)]) = Inr dst'" "length dst' = length dst"
    "\<forall>j < length dst. dst' ! j = (if j \<in> set is then ucast (mx ! j) else dst[i := ucast (mx ! i)] ! j)"
    by (metis (no_types, lifting) distinct.simps(2) insert_subset length_list_update list.simps(15))
  then show ?case using Cons.prems by (auto simp: nth_list_update)
qed simp

text \<open>The maxima of the first 124 bytes of all blocks.\<close>

definition largest :: "cat240_storage list \<Rightarrow> nat \<Rightarrow> u8" where
  "largest ds j = foldl max 0 (map (\<lambda>d. video_data d ! j) ds)"

lemma widen_max: "max (ucast (x :: u8) :: 64 word) (ucast y) = ucast (max x y)"
proof -
  have "unat (ucast z :: 64 word) = unat z" for z :: u8
  proof -
    have "unat z < 2 ^ 64" by (rule order_less_trans [OF unat_u8_less]) simp
    then show ?thesis by (simp add: unsigned_ucast_eq take_bit_nat_eq_self)
  qed
  then show ?thesis by (simp add: max_def word_le_nat_alt)
qed

lemma raise_all_max:
  "\<forall>d \<in> set ds. 124 \<le> length (video_data d) \<Longrightarrow> length mx = 124 \<Longrightarrow> \<forall>j < 124. mx ! j = ucast (f j :: u8) \<Longrightarrow>
    \<exists>mx'. raise_all ds mx = Inr mx' \<and> length mx' = 124 \<and>
      (\<forall>j < 124. mx' ! j = ucast (foldl max (f j) (map (\<lambda>d. video_data d ! j) ds)))"
proof (induction ds arbitrary: mx f)
  case (Cons d ds)
  obtain m1 where m1: "raise_max (video_data d) [0..<124] mx = Inr m1" "length m1 = 124"
    "\<forall>j < 124. m1 ! j = max (mx ! j) (ucast (video_data d ! j))"
    using raise_max_at [of "[0..<124]" "video_data d" mx] Cons.prems by (auto simp: subset_eq)
  then have "\<forall>j < 124. m1 ! j = ucast (max (f j) (video_data d ! j))" using Cons.prems(3) by (simp add: widen_max)
  then show ?case using Cons.IH [of m1 "\<lambda>j. max (f j) (video_data d ! j)"] Cons.prems m1 by simp
qed simp

lemma refactor_more_maxima:
  assumes "ds \<noteq> []" "\<forall>d \<in> set ds. 124 \<le> length (video_data d)" "124 \<le> length (header_data lst)"
  shows "\<exists>h. refactor_more lst ds = Inr (lst\<lparr>header_data := h\<rparr>) \<and> length h = length (header_data lst) \<and>
    (\<forall>j < length h. h ! j = (if j < 124 then largest ds j else header_data lst ! j))"
proof -
  obtain mx where mx: "raise_all ds (replicate 124 0) = Inr mx" "length mx = 124" "\<forall>j < 124. mx ! j = ucast (largest ds j)"
    using raise_all_max [of ds "replicate 124 0" "\<lambda>_. 0"] assms(2) by (auto simp: largest_def)
  obtain h where h: "write_back mx [0..<124] (header_data lst) = Inr h" "length h = length (header_data lst)"
    "\<forall>j < length (header_data lst). h ! j = (if j \<in> set [0..<124] then ucast (mx ! j) else header_data lst ! j)"
    using write_back_at [of "[0..<124]" mx "header_data lst"] mx(2) assms(3) by (auto simp: subset_eq)
  have "ucast (ucast x :: 64 word) = x" for x :: u8
    by (rule word_unat_eq_iff [THEN iffD2]) (simp add: unsigned_ucast_eq take_bit_word_eq_self)
  then show ?thesis using mx h assms(1) by (auto simp: refactor_more_def)
qed

section \<open>The packets of a sender\<close>

fun send_packets ::
    "(nat option \<Rightarrow> addr \<Rightarrow> pmem \<Rightarrow> (err_t \<times> pmem) run) \<Rightarrow> nat \<Rightarrow> udp_state \<Rightarrow> udp_state run" where
  "send_packets udp_send 0 s = ret s"
| "send_packets udp_send (Suc n) s = bindl (send_packets udp_send n s) (\<lambda>s. bindl (udp_package_send udp_send s) (\<lambda>(_, s). ret s))"

text \<open>\<open>udp_send\<close> succeeds and gives the block of the packet back as it was, as its documentation says.\<close>

definition delivers :: "(nat option \<Rightarrow> addr \<Rightarrow> pmem \<Rightarrow> (err_t \<times> pmem) run) \<Rightarrow> bool" where
  "delivers udp_send \<longleftrightarrow> (\<forall>pcb p m. cells m p \<noteq> None \<longrightarrow>
    (\<exists>m'. udp_send pcb p m = ret (err_t.ERR_OK, m') \<and> cells m' p = cells m p))"

text \<open>The sender \<open>a\<close> with its block \<open>p\<close>, \<open>k\<close> packets after it was set up on \<open>data\<close>.\<close>

definition numbered :: "u8 \<Rightarrow> nat \<Rightarrow> u8" where
  "numbered x k = (if k < 10 then x + of_nat k else of_nat (k - 10))"

definition sending :: "nat \<Rightarrow> addr \<Rightarrow> nat option \<Rightarrow> u8 list \<Rightarrow> u16 \<Rightarrow> nat \<Rightarrow> udp_state \<Rightarrow> bool" where
  "sending a p pcb data n k s \<longleftrightarrow> sender s = Some a \<and>
    senders s a = Some \<lparr>udp_pbuf = Some p, udp_pcb = pcb, err_count = 0\<rparr> \<and> send_count s = of_nat k \<and>
    cells (umem s) p = Some (pbuf_init_alloced_pbuf (data[2 := numbered (data ! 2) k]) 0 n n PBUF_POOL 0)"

lemma renumber_reference:
  assumes "2 < length data"
  shows "renumber c (pbuf_init_alloced_pbuf (data[2 := x]) 0 n n ty 0) =
    Inr (pbuf_init_alloced_pbuf (data[2 := if c = 10 then 0 else x + 1]) 0 n n ty 0)"
proof -
  obtain x0 x1 x2 rest where "data = x0 # x1 # x2 # rest" 
    using assms by (cases data; cases "tl data"; cases "tl (tl data)") auto
  then show ?thesis
    by (simp add: renumber_def pbuf_init_alloced_pbuf_def payload_byte_def payload_write_def rd_def numeral_2_eq_2 numeral_3_eq_3)
qed

text \<open>The counter of the calls wraps to 10 exactly when the number would wrap to zero.\<close>

lemma numbered_Suc: "(if (of_nat k + 1 :: u8) = 10 then 0 else numbered x k + 1) = numbered x (Suc k)"
proof (cases "k < 9")
  case True
  then have "unat (of_nat k :: u8) = k" by (intro unat_of_nat_u8) simp
  then have "(of_nat k :: u8) \<noteq> 9" using True by (auto simp: word_unat_eq_iff)
  moreover have "(of_nat k + 1 :: u8) = 10 \<longleftrightarrow> (of_nat k :: u8) = 9"
    using add_right_cancel [of "of_nat k :: u8" 1 9] by simp
  ultimately show ?thesis using True by (simp add: numbered_def add.assoc)
next
  case False
  then obtain j where k: "k = j + 9" by (metis add.commute le_Suc_ex not_less)
  have "(of_nat k + 1 :: u8) = 10 \<longleftrightarrow> (of_nat j :: u8) = 0" 
    using add_right_cancel [of "of_nat j :: u8" 10 0] by (simp add: k ac_simps)
  moreover have "numbered x k + 1 = of_nat j" if "(of_nat j :: u8) \<noteq> 0"
  proof -
    have "0 < j" using that by (cases j) simp_all
    then show ?thesis by (cases j) (simp_all add: numbered_def k)
  qed
  moreover have "numbered x (Suc k) = of_nat j" by (simp add: numbered_def k)
  ultimately show ?thesis by auto
qed

lemma sending_step:
  assumes "sending a p pcb data n k s" "2 < length data" "delivers udp_send"
  shows "\<exists>s'. udp_package_send udp_send s = ret (err_t.ERR_OK, s') \<and> sending a p pcb data n (Suc k) s'"
proof -
  have c: "cells (umem s) p = Some (pbuf_init_alloced_pbuf (data[2 := numbered (data ! 2) k]) 0 n n PBUF_POOL 0)"
    using assms(1) by (simp add: sending_def)
  then obtain m' where m': "udp_send pcb p (umem s) = ret (err_t.ERR_OK, m')" "cells m' p = cells (umem s) p"
    using assms(3) unfolding delivers_def by fastforce
  have r: "renumber (of_nat k + 1) (pbuf_init_alloced_pbuf (data[2 := numbered (data ! 2) k]) 0 n n PBUF_POOL 0) =
      Inr (pbuf_init_alloced_pbuf (data[2 := numbered (data ! 2) (Suc k)]) 0 n n PBUF_POOL 0)"
    unfolding renumber_reference [OF assms(2)] numbered_Suc ..
  have k: "(1 :: u8) + of_nat k = of_nat k + 1" by simp
  show ?thesis using assms(1) m' c r
    by (simp add: udp_package_send_def send_udp_data_def sending_def cell_def Let_def k)
qed

lemma send_packets_sending:
  assumes "sending a p pcb data n 0 s" "2 < length data" "delivers udp_send"
  shows "\<exists>s'. send_packets udp_send k s = ret s' \<and> sending a p pcb data n k s'"
proof (induction k)
  case (Suc k)
  then show ?case using sending_step [OF _ assms(2,3)] by fastforce
qed (use assms(1) in simp)

lemma connection_sending:
  assumes "udp_connection conn answer room data n s = Inr (Returned err_t.ERR_OK, s1)" "send_count s = 0"
  shows "\<exists>a p. room = Some a \<and> p \<in> set (refs_free (umem s)) \<and> sending a p conn data (of_nat n) 0 s1 \<and>
    umem s1 = put p (pbuf_init_alloced_pbuf data 0 (of_nat n) (of_nat n) PBUF_POOL 0) (umem s\<lparr>refs_free := tl (refs_free (umem s))\<rparr>)"
  using assms
  by (cases "refs_free (umem s)")
    (auto simp: udp_connection_def add_sender_def pbuf_alloc_reference_def sending_def numbered_def put_def Let_def
      split: if_splits option.splits)

text \<open>
  C37: the packets sent after \<open>udp_connection\<close> has opened the connection. When \<open>udp_send\<close> delivers them, the
  byte at offset 2 counts the first nine up from its initial value, is zero after the tenth, and then
  counts up for good modulo 256, since the 8-bit counter of the calls comes back to 10 just when the
  number is zero; no other byte of the data changes.
\<close>

theorem packet_numbers:
  assumes "udp_connection conn answer room data n s = Inr (Returned err_t.ERR_OK, s1)" "send_count s = 0"
    and "2 < length data" "delivers udp_send"
  shows "\<exists>a d p s' b. sender s1 = Some a \<and> senders s1 a = Some d \<and> udp_pbuf d = Some p \<and>
    send_packets udp_send k s1 = ret s' \<and> cells (umem s') p = Some b \<and>
    storage b = data[2 := if k < 10 then data ! 2 + of_nat k else of_nat (k - 10)]"
proof -
  obtain a p where s1: "sending a p conn data (of_nat n) 0 s1" using connection_sending [OF assms(1,2)] by blast
  obtain s' where "send_packets udp_send k s1 = ret s'" "sending a p conn data (of_nat n) k s'"
    using send_packets_sending [OF s1 assms(3,4)] by blast
  then show ?thesis using s1 by (simp add: sending_def numbered_def pbuf_init_alloced_pbuf_def)
qed

text \<open>The state before the network is set up, with two blocks for references.\<close>

definition no_network :: udp_state where
  "no_network = \<lparr>umem = \<lparr>cells = Map.empty, pool_free = [], refs_free = [3, 4]\<rparr>, senders = Map.empty,
     send_count = 0, udp_pcb_conn = None, udp_pcb_answer = None, sender = None, lwip_calls = []\<rparr>"

definition send_all :: "nat option \<Rightarrow> addr \<Rightarrow> pmem \<Rightarrow> (err_t \<times> pmem) run" where
  "send_all pcb p m = ret (err_t.ERR_OK, m)"

definition opened :: udp_state where
  "opened = \<lparr>umem = put 3 (pbuf_init_alloced_pbuf [0xAA, 0xBB, 0xCC] 0 3 3 PBUF_POOL 0)
       \<lparr>cells = Map.empty, pool_free = [], refs_free = [4]\<rparr>,
     senders = [9 \<mapsto> \<lparr>udp_pbuf = Some 3, udp_pcb = Some 1, err_count = 0\<rparr>],
     send_count = 0, udp_pcb_conn = Some 1, udp_pcb_answer = Some 2, sender = Some 9,
     lwip_calls = [Udp_connect (Some 2) (Some 0x6401A8C0) 5005, Udp_bind (Some 1) 5005, Udp_recv (Some 1)]\<rparr>"

lemma opens: "udp_connection (Some 1) (Some 2) (Some 9) [0xAA, 0xBB, 0xCC] 3 no_network =
    Inr (Returned err_t.ERR_OK, opened)"
  by (simp add: udp_connection_def remote_address add_sender_def no_network_def opened_def
    pbuf_alloc_reference_def put_def UDP_REMOTE_PORT_def Let_def)

lemma send_all_delivers: "delivers send_all"
  by (simp add: delivers_def send_all_def)

theorem packet_numbers_witness:
  "\<exists>s' b. send_packets send_all 12 opened = ret s' \<and> cells (umem s') 3 = Some b \<and> storage b = [0xAA, 0xBB, 2]"
  using packet_numbers [OF opens _ _ send_all_delivers, of 12] by (simp add: no_network_def opened_def)

text \<open>
  C38: the buffer of a sender is never given back. \<open>destroy_sender\<close> releases it only when its count is
  zero, but the count of a block in use is one: the sender goes and the buffer stays, with nothing left
  that leads to it. Were it released, \<open>pbuf_free\<close> would put the block, which comes from the pool of
  references, into the pool of the packets, because it was allocated with the type \<open>PBUF_POOL\<close>.
\<close>

theorem sender_buffer_lost:
  assumes "udp_connection conn answer room data n s = Inr (Returned err_t.ERR_OK, s1)" "send_count s = 0"
    and "2 < length data" "delivers udp_send"
  shows "\<exists>a p s' s'' m. p \<in> set (refs_free (umem s)) \<and> sender s1 = Some a \<and>
    send_packets udp_send k s1 = ret s' \<and>
    destroy_sender (Some a) s' = ret s'' \<and> senders s'' a = None \<and> umem s'' = umem s' \<and>
    (\<exists>b. cells (umem s'') p = Some b \<and> ref b = 1) \<and>
    pbuf_free (\<lambda>_ m. Inr m) (Some p) (umem s') = ret (1, m) \<and>
    p \<in> fst ` set (pool_free m) \<and> refs_free m = refs_free (umem s')"
proof -
  obtain a p where s1: "p \<in> set (refs_free (umem s))" "sending a p conn data (of_nat n) 0 s1"
    using connection_sending [OF assms(1,2)] by blast
  obtain s' where s': "send_packets udp_send k s1 = ret s'" "sending a p conn data (of_nat n) k s'"
    using send_packets_sending [OF s1(2) assms(3,4)] by blast
  let ?b = "pbuf_init_alloced_pbuf (data[2 := numbered (data ! 2) k]) 0 (of_nat n) (of_nat n) PBUF_POOL 0"
  have b: "cells (umem s') p = Some ?b" using s'(2) by (simp add: sending_def)
  have d: "destroy_sender (Some a) s' = ret (s'\<lparr>senders := (senders s')(a := None)\<rparr>)"
    using s'(2) by (simp add: destroy_sender_def sending_def cell_def pbuf_init_alloced_pbuf_def)
  obtain m where "pbuf_free (\<lambda>_ m. Inr m) (Some p) (umem s') = ret (1, m)"
    "p \<in> fst ` set (pool_free m)" "refs_free m = refs_free (umem s')"
    using b by (simp add: pbuf_free_def pbuf_free_loop.simps pbuf_init_alloced_pbuf_def release_def
      pbuf_get_allocsrc_def put_def Let_def)
  then show ?thesis using s1 s' b d
    by (intro exI [of _ a] exI [of _ p] exI [of _ s'] exI [of _ "s'\<lparr>senders := (senders s')(a := None)\<rparr>"] exI [of _ m])
      (simp add: sending_def pbuf_init_alloced_pbuf_def)
qed

theorem sender_buffer_lost_witness:
  "\<exists>p s' s''. p \<in> {3, 4 :: addr} \<and> send_packets send_all 2 opened = ret s' \<and> destroy_sender (Some 9) s' = ret s'' \<and>
    senders s'' 9 = None \<and> (\<exists>b. cells (umem s'') p = Some b \<and> ref b = 1)"
  using sender_buffer_lost [OF opens _ _ send_all_delivers, of 2] by (simp add: no_network_def opened_def) blast

end
