(* ===== verification/Board.thy ===== *)
theory Board
  imports Prelude
begin

text \<open>
  The timers and the output pins of the board (\<open>src/src/ttc_timer.c\<close>, \<open>platform.c\<close>), the thread
  of the network interface that they drive (\<open>x1emacif_input_thread\<close> of \<open>main.c\<close>), the start of the
  second processor (\<open>cpu1_init.c\<close>) and the stubs of the C library (\<open>sys_calls.c\<close>). The drivers of
  the manufacturer are not modelled: a call of one of them is an element of a list of calls, and
  its result an argument.
\<close>

unbundle bit_operations_syntax

section \<open>Calls of the drivers\<close>

datatype driver_call =
    XTtcPs_Stop nat
  | XTtcPs_SetOptions nat
  | XTtcPs_CalcIntervalFromFreq nat u32
  | XTtcPs_SetInterval nat
  | XTtcPs_SetPrescaler nat
  | XScuGic_SetPriorityTriggerType nat u32
  | XScuGic_Connect nat
  | XScuGic_Enable nat
  | XTtcPs_EnableInterrupts nat
  | XTtcPs_Start nat
  | XTtcPs_ResetCounterValue nat
  | XTtcPs_ClearInterruptStatus nat u32
  | XGpioPs_SetDirectionPin nat
  | XGpioPs_SetOutputEnablePin nat
  | XGpioPs_WritePin nat bool
  | XScuGic_CfgInitialize
  | Xil_Out32 u32 u32
  | Install_vector_table
  | Dmb
  | Sev

section \<open>The timers\<close>

definition tmrTIMERS_USED :: nat where "tmrTIMERS_USED = 3"

definition timer_frequency :: "nat \<Rightarrow> u32" where
  "timer_frequency i = (if i = 2 then 4 else 5000)"

definition configMAX_API_CALL_INTERRUPT_PRIORITY :: u32 where
  "configMAX_API_CALL_INTERRUPT_PRIORITY = 18"

definition uxInterruptPriority :: "nat \<Rightarrow> u32" where
  "uxInterruptPriority i = [configMAX_API_CALL_INTERRUPT_PRIORITY + 1, configMAX_API_CALL_INTERRUPT_PRIORITY,
     configMAX_API_CALL_INTERRUPT_PRIORITY - 1] ! i"

definition portPRIORITY_SHIFT :: nat where "portPRIORITY_SHIFT = 3"

text \<open>
  One round of the loop of \<open>vInitialiseTimer\<close>. \<open>found\<close>: the driver knows the device; \<open>first\<close> and
  \<open>second\<close>: its two attempts to initialise it succeed; \<open>connected\<close>: the handler was registered.
\<close>

definition initialise_one ::
    "(nat \<Rightarrow> bool) \<Rightarrow> (nat \<Rightarrow> bool) \<Rightarrow> (nat \<Rightarrow> bool) \<Rightarrow> (nat \<Rightarrow> bool) \<Rightarrow> nat \<Rightarrow> driver_call list result" where
  "initialise_one found first second connected i =
    bindr (guard (found i) Assert_failed) (\<lambda>_.
    bindr (if first i then Inr [] else bindr (guard (second i) Assert_failed) (\<lambda>_. Inr [XTtcPs_Stop i])) (\<lambda>cs.
    let cs = cs @ [XTtcPs_SetOptions i, XTtcPs_CalcIntervalFromFreq i (timer_frequency i), XTtcPs_SetInterval i,
      XTtcPs_SetPrescaler i] in
    if i \<noteq> 1 then
      bindr (guard (connected i) Assert_failed) (\<lambda>_.
      Inr (cs @ [XScuGic_SetPriorityTriggerType i (push_bit portPRIORITY_SHIFT (uxInterruptPriority i)),
        XScuGic_Connect i, XScuGic_Enable i, XTtcPs_EnableInterrupts i, XTtcPs_Start i]))
    else Inr cs))"

fun initialise_from ::
    "(nat \<Rightarrow> driver_call list result) \<Rightarrow> nat list \<Rightarrow> driver_call list result" where
  "initialise_from one [] = Inr []"
| "initialise_from one (i # is) = bindr (one i) (\<lambda>cs. bindr (initialise_from one is) (\<lambda>ds. Inr (cs @ ds)))"

definition vInitialiseTimer ::
    "(nat \<Rightarrow> bool) \<Rightarrow> (nat \<Rightarrow> bool) \<Rightarrow> (nat \<Rightarrow> bool) \<Rightarrow> (nat \<Rightarrow> bool) \<Rightarrow> driver_call list result" where
  "vInitialiseTimer found first second connected =
    initialise_from (initialise_one found first second connected) [0..<tmrTIMERS_USED]"

definition start_stop_ttc_timer :: "u8 \<Rightarrow> u8 \<Rightarrow> driver_call list result" where
  "start_stop_ttc_timer ch flag =
    (if tmrTIMERS_USED \<le> unat ch then Inl Out_of_bounds
     else if flag \<noteq> 0 then Inr [XTtcPs_ResetCounterValue (unat ch), XTtcPs_Start (unat ch)]
     else Inr [XTtcPs_Stop (unat ch)])"

definition get_ttc_counter_value :: "(nat \<Rightarrow> u16) \<Rightarrow> u8 \<Rightarrow> u16 result" where
  "get_ttc_counter_value counter ch =
    (if tmrTIMERS_USED \<le> unat ch then Inl Out_of_bounds else Inr (counter (unat ch)))"

text \<open>The second timer is set up but neither connected nor started.\<close>

lemma timers_started:
  assumes "vInitialiseTimer found first second connected = Inr cs"
  shows "XTtcPs_Start i \<in> set cs \<longleftrightarrow> i = 0 \<or> i = 2"
    and "XScuGic_SetPriorityTriggerType i p \<in> set cs \<longleftrightarrow> i = 0 \<and> p = 152 \<or> i = 2 \<and> p = 136"
proof -
  have l: "[0..<tmrTIMERS_USED] = [0, 1, 2]" by (simp add: tmrTIMERS_USED_def upt_rec)
  have p: "push_bit portPRIORITY_SHIFT (uxInterruptPriority 0) = 152" "push_bit portPRIORITY_SHIFT (uxInterruptPriority 2) = 136"
    by (simp_all add: portPRIORITY_SHIFT_def uxInterruptPriority_def configMAX_API_CALL_INTERRUPT_PRIORITY_def)
  show "XTtcPs_Start i \<in> set cs \<longleftrightarrow> i = 0 \<or> i = 2"
    "XScuGic_SetPriorityTriggerType i p \<in> set cs \<longleftrightarrow> i = 0 \<and> p = 152 \<or> i = 2 \<and> p = 136"
    using assms by (auto simp: vInitialiseTimer_def l initialise_one_def Let_def p split: if_splits)
qed

section \<open>The pins\<close>

definition LED_MIDDLE :: u32 where "LED_MIDDLE = 7"

definition gpio_pin :: "u32 \<Rightarrow> nat option" where
  "gpio_pin p =
    (if p = 0 then Some 54 else if p = 4 then Some 58 else if p = 1 then Some 55 else if p = 2 then Some 56
     else if p = 3 then Some 57 else if p = 8 \<or> p = LED_MIDDLE \<or> p = 6 then Some (unat p) else None)"

definition vParTestSetGPIO :: "u32 \<Rightarrow> bool \<Rightarrow> driver_call list" where
  "vParTestSetGPIO p v = (case gpio_pin p of None \<Rightarrow> [] | Some n \<Rightarrow> [XGpioPs_WritePin n v])"

definition output_pin :: "bool \<Rightarrow> nat \<Rightarrow> driver_call list" where
  "output_pin low n = [XGpioPs_SetDirectionPin n, XGpioPs_SetOutputEnablePin n] @
    (if low then [XGpioPs_WritePin n False] else [])"

definition vParTestInitialise :: "bool \<Rightarrow> driver_call list result" where
  "vParTestInitialise ready =
    bindr (guard ready Assert_failed) (\<lambda>_.
    Inr (concat (map (output_pin True) [56, 57, 58]) @ concat (map (output_pin False) [8, 7, 6])))"

text \<open>\<open>right_gic\<close>: the interrupt controller is found at the addresses the kernel was built for.\<close>

definition prvSetupHardware :: "bool \<Rightarrow> bool \<Rightarrow> bool \<Rightarrow> driver_call list result" where
  "prvSetupHardware right_gic gic_ready gpio_ready =
    bindr (guard (right_gic \<and> gic_ready) Assert_failed) (\<lambda>_.
    bindr (vParTestInitialise gpio_ready) (\<lambda>cs.
    Inr (XScuGic_CfgInitialize # cs @ [Install_vector_table])))"

definition CPU1_START_ADDR :: u32 where "CPU1_START_ADDR = 0xfffffff0"

definition CPU1_START_MEM :: u32 where "CPU1_START_MEM = 0x10000000"

definition start_cpu1 :: "driver_call list" where
  "start_cpu1 = [Xil_Out32 CPU1_START_ADDR CPU1_START_MEM, Dmb, Sev]"

section \<open>The timer interrupt\<close>

text \<open>
  The flags of \<open>ttc_timer.c\<close>, what the drivers were told, and what the thread has done: how often
  it called \<open>tcp_fasttmr\<close> and \<open>tcp_slowtmr\<close> of lwIP.
\<close>

record board =
  flag_for_led :: u8
  TcpFastTmrFlag :: bool
  TcpSlowTmrFlag :: bool
  calls :: "driver_call list"
  fast_calls :: nat
  slow_calls :: nat

text \<open>\<open>device\<close>: the identifier of the timer; \<open>status\<close>: its interrupt status.\<close>

definition prvTimerHandler :: "nat \<Rightarrow> u32 \<Rightarrow> board \<Rightarrow> board result" where
  "prvTimerHandler device status s =
   (let s = s\<lparr>calls := calls s @ [XTtcPs_ClearInterruptStatus device status]\<rparr> in
    bindr (guard (status AND 1 \<noteq> 0) Assert_failed) (\<lambda>_.
    if device = 2 then
      let flag = flag_for_led s XOR 1;
          s = s\<lparr>flag_for_led := flag, calls := calls s @ vParTestSetGPIO LED_MIDDLE (flag \<noteq> 0)\<rparr>;
          s = (if flag \<noteq> 0 then s\<lparr>TcpSlowTmrFlag := True\<rparr> else s) in
      Inr (s\<lparr>TcpFastTmrFlag := True\<rparr>)
    else Inr s))"

section \<open>The thread of the network interface\<close>

text \<open>What the thread is about to do: one access to a flag or one call at a time.\<close>

datatype input_pc = Test_fast | Call_fast | Clear_fast | Test_slow | Call_slow | Clear_slow | Input

definition input_step :: "input_pc \<times> board \<Rightarrow> input_pc \<times> board" where
  "input_step c =
    (case c of
       (Test_fast, s) \<Rightarrow> (if TcpFastTmrFlag s then Call_fast else Test_slow, s)
     | (Call_fast, s) \<Rightarrow> (Clear_fast, s\<lparr>fast_calls := fast_calls s + 1\<rparr>)
     | (Clear_fast, s) \<Rightarrow> (Test_slow, s\<lparr>TcpFastTmrFlag := False\<rparr>)
     | (Test_slow, s) \<Rightarrow> (if TcpSlowTmrFlag s then Call_slow else Input, s)
     | (Call_slow, s) \<Rightarrow> (Clear_slow, s\<lparr>slow_calls := slow_calls s + 1\<rparr>)
     | (Clear_slow, s) \<Rightarrow> (Input, s\<lparr>TcpSlowTmrFlag := False\<rparr>)
     | (Input, s) \<Rightarrow> (Test_fast, s))"

text \<open>
  The thread, interleaved with the interrupts of timer 2; the number counts these. \<open>xemacif_input\<close>
  and the delay of the step \<open>Input\<close> do not touch the flags.
\<close>

inductive board_run :: "board \<Rightarrow> nat \<Rightarrow> input_pc \<Rightarrow> board \<Rightarrow> bool" for s0 where
  start: "board_run s0 0 Test_fast s0"
| thread: "board_run s0 n c s \<Longrightarrow> input_step (c, s) = (c', s') \<Longrightarrow> board_run s0 n c' s'"
| timer: "board_run s0 n c s \<Longrightarrow> status AND 1 \<noteq> 0 \<Longrightarrow> prvTimerHandler 2 status s = Inr s' \<Longrightarrow> board_run s0 (n + 1) c s'"


section \<open>The stubs of the C library\<close>

text \<open>\<open>_sbrk\<close> keeps the end of the heap; it starts at \<open>_end\<close> and knows no limit.\<close>

definition sbrk :: "u32 \<Rightarrow> u32 \<Rightarrow> u32 option \<Rightarrow> u32 \<times> u32 option" where
  "sbrk end_address incr heap_end =
    (let prev = (case heap_end of None \<Rightarrow> end_address | Some h \<Rightarrow> if h = 0 then end_address else h) in
     (prev, Some (prev + incr)))"

section \<open>The cadence of the TCP timers\<close>


inductive_cases boardE: "board_run s0 n c s"


















end
