(* ===== verification/Spec2Isabelle.thy ===== *)
theory Spec2Isabelle
  imports Prelude Asterix Pbuf_Refcount Pbuf_Content Gain_Revolution Boot_Memory FreeRTOS_Fifo FreeRTOS_Wakeup Radar_System List_Links Inet_Chksum Udp_Stack Board
begin

text \<open>
  A verification development of the control software of a radar on a Zynq-7000 (FreeRTOS 10 and lwIP
  2.1.1 on a Cortex-A9). The program receives video packets over UDP, keeps the maximum of ten
  successive packets, sends it on, adjusts the gain of every azimuth line from it, and obeys commands
  of an operator over TCP. Paths below are relative to \<open>src/\<close>; FR is
  \<open>external/ps7_cortexa9_0/libsrc/freertos10_xilinx_v1_3/src\<close>, LW is
  \<open>external/ps7_cortexa9_0/libsrc/lwip211_v1_0/src/lwip-2.1.1/src\<close>.

  How the parts interact. \<open>main\<close> starts the second processor and the scheduler; its first task
  sets up the network, opens the UDP and TCP connections, and creates the queues and the tasks. The
  callbacks of lwIP post pointers to packet buffers into two queues. \<open>udp_parse_task\<close> takes packets
  from one, fuses them, sends the result and posts it to a third queue, from which the gain control task
  takes it; \<open>tcp_parse_task\<close> takes commands from the other and suspends or resumes the gain control
  task. A timer interrupt sets two flags that make the input thread call the timers of TCP.

  Conventions (\<open>Prelude\<close>). Machine integers are words of their width, and wrap. A computation that
  can fault yields \<open>fault + 'a\<close>: a read or write out of bounds, through a null pointer, of a
  released object, a division by zero, a failed assertion. A loop over linked data may not end: it is a
  \<open>partial_function\<close> into an option, \<open>None\<close> for a run without end, and its theorems show that it
  ends. No fuel is used anywhere. Heaps are maps from addresses to objects; a pointer is an option.

  Parser. \<open>Asterix\<close>: \<open>src/asterix_parse.c\<close> item by item over the bytes of a message. Shown: memory
  safety and accounting of every byte, the over-read at length 3, independence of the byte order of the
  machine, and that parsing undoes an encoder of every combination of items.

  Packet buffers. \<open>Pbuf\<close>: LW\<open>/core/pbuf.c\<close>. \<open>Pbuf_Refcount\<close>: counts are the number of pointers, and
  freeing, chaining and dechaining keep them so; the contract of its users is the locale
  \<open>counted_pool\<close>, interpreted on the model. \<open>Pbuf_Content\<close>: reading, writing, copying and searching as
  functions of the contents. \<open>Inet_Chksum\<close>: LW\<open>/core/inet_chksum.c\<close>, the three versions of the checksum
  and the checksum of a chain, as sums in ones' complement of the contents.

  Gain control. \<open>Auto_Gain_Control\<close>: \<open>src/auto_gain_control.c\<close>. \<open>Gain_Revolution\<close>: a specification per
  line, the invariant of the gains, what a revolution does, and the gain after any number of overloads.

  Kernel. \<open>FreeRTOS_List\<close>: lists of items with an index; \<open>List_Links\<close>: FR\<open>/list.c\<close> pointer by pointer, which
  implements them. \<open>FreeRTOS_Kernel\<close>: the lists, tick, delays and event lists of FR\<open>/tasks.c\<close>;
  \<open>FreeRTOS_Time\<close>: the two delayed lists implement one list of waiting times; \<open>FreeRTOS_Sched\<close>: the
  invariant of the task lists and the choice of the next task. \<open>FreeRTOS_Queue\<close>: FR\<open>/queue.c\<close> over the
  bytes of its storage; \<open>FreeRTOS_Fifo\<close>: it implements a bounded first-in first-out list, the locales
  \<open>bounded_fifo\<close> and \<open>shared_fifo\<close>, interpreted for tasks and for interrupts; \<open>FreeRTOS_Step\<close>: what a
  queue operation leaves alone. \<open>FreeRTOS_Blocking\<close>, \<open>FreeRTOS_Wakeup\<close>: a blocking receive in steps,
  interleaved with sends of interrupts and tasks, ticks, switches, and tasks that suspend and resume
  others, the receiver included, and its inductive invariant: no wake-up is lost on a queue of at most
  127 items, the range of the signed 8-bit counter of a locked queue. Second receivers and senders
  that block are not among the steps.
  \<open>Heap_4\<close>, \<open>Heap_4_List\<close>, \<open>Heap_4_Words\<close>, \<open>Heap_4_Layout\<close>, \<open>Heap_4_Safety\<close>, \<open>Heap_4_Calls\<close>,
  \<open>Heap_4_Api\<close>: FR\<open>/heap_4.c\<close> at the level of block headers, as a row of blocks without holes, and the
  locale \<open>region_allocator\<close>, interpreted on it. \<open>Boot_Memory\<close>: the memory of the objects created at start.

  Application. \<open>Pbuf_Channel\<close>: pointers as items of queues, and the locales \<open>pbuf_channel\<close> and
  \<open>counted_channel\<close> for posting or releasing, interpreted for tasks and interrupts. \<open>Udp_Fusion\<close>: the
  callbacks and tasks of \<open>src/main.c\<close> and \<open>src/iwip.c\<close>; \<open>Fusion_Maximum\<close>: what fusing computes;
  \<open>Packet_Ownership\<close>: the reference counts are the numbers of holders, and the two ways in which the
  hand-over breaks that. \<open>Udp_Stack\<close>: \<open>src/udp_stack.c\<close>, the opening of the connection, and stored video blocks.
  \<open>Ip4_Addr\<close>: LW\<open>/core/ipv4/ip4_addr.c\<close>. \<open>Tcp_Stack\<close>: \<open>src/tcp_stack.c\<close> and the connection of
  \<open>src/iwip.c\<close>, interleaved with events of the network. \<open>Commands\<close>, \<open>Command_Modes\<close>: the parser of the
  commands and their effect on the gain control task. \<open>Radar_System\<close> composes them: packets, rounds of
  the three tasks, tick, context switches, the network and lwIP in any order, and the invariant of the
  reference counts by rule induction; a round of a task is one step there, and one that faults is none. \<open>Board\<close>: \<open>src/ttc_timer.c\<close>, \<open>src/platform.c\<close>, \<open>src/cpu1_init.c\<close> and the
  input thread, as an inductive step relation with the timer interrupt.

  Bounds. Queues, chains, heaps and numbers of steps are arbitrary unless a theorem says otherwise; the
  heap is the 100,000 bytes of the configuration, the gain arrays have 1200 lines, and the checksum
  versions agree up to 0x20000 bytes, where a 32-bit accumulator of 16-bit words is full.

  Not modelled. Console output. The protocol engine of lwIP, its adapter and the drivers of the
  manufacturer, which are third-party code behind a few calls: their results are parameters, with the
  documented behaviour as a hypothesis where one is needed (\<open>udp_send\<close> gives a packet back as it was).
  For \<open>tcp_write\<close> the model keeps what was passed to it; the program ignores its result.
  The port of FreeRTOS in assembly: critical sections are atomic steps. Its timers, event groups, stream
  buffers, mutexes and notifications, which the program does not use. Task creation beyond its memory.
  Sockets, applications, PPP and IPv6 of lwIP, which are in the tree but unused, and \<open>newlib_compat.c\<close>,
  which returns the address of a table.
\<close>

end
